(* ===== verification/Payz_Prelude.thy ===== *)
theory Payz_Prelude
  imports "HOL-Library.Word" "HOL-Library.Monad_Syntax" "HOL-Library.List_Lexorder"
    "HOL-Library.Char_ord" "HOL-Library.Sublist"
begin

text \<open>
  The vocabulary the component theories share.

  \<^item> Machine integers are words of the width the source declares.
  \<^item> A computation of the C program that can stop the process is a value of
    \<open>'a run\<close>: \<open>None\<close> is a failed \<open>assert\<close>, a call of \<open>abort\<close>, or a read outside of the
    object a pointer points into; \<open>Some x\<close> is normal completion with \<open>x\<close>. A C function
    that may return \<open>NULL\<close> has type \<open>'a option run\<close>: the outer option is the process, the
    inner one the pointer.
  \<^item> A C string is a list of characters without the terminating NUL; \<open>c_string\<close> says
    that no NUL stands inside. A buffer (pointer and extent) is any list of characters.
\<close>

type_synonym u8 = "8 word"
type_synonym u16 = "16 word"
type_synonym u32 = "32 word"
type_synonym u64 = "64 word"

type_synonym 'a run = "'a option"

named_theorems run_simps \<open>unfolding rules of the fault monad\<close>
named_theorems wf_intros \<open>introduction rules of the components' invariants\<close>

definition c_assert :: "bool \<Rightarrow> unit run" where
  "c_assert b = (if b then Some () else None)"

lemma c_assert_True [simp]: "c_assert True = Some ()"
  by (simp add: c_assert_def)

lemma c_assert_False [simp]: "c_assert False = None"
  by (simp add: c_assert_def)

lemma c_assert_eq_Some [simp]: "c_assert b = Some u \<longleftrightarrow> b"
  by (simp add: c_assert_def)

lemma c_assert_eq_None [simp]: "c_assert b = None \<longleftrightarrow> \<not> b"
  by (simp add: c_assert_def)

lemmas bind_run_simps [run_simps] =
  Option.bind_eq_Some_conv Option.bind_eq_None_conv

subsection \<open>C strings\<close>

abbreviation NUL :: char where
  "NUL \<equiv> CHR 0x00"

definition c_string :: "string \<Rightarrow> bool" where
  "c_string s \<longleftrightarrow> NUL \<notin> set s"

lemma c_string_Nil [simp]: "c_string []"
  by (simp add: c_string_def)

lemma c_string_Cons [simp]: "c_string (c # s) \<longleftrightarrow> c \<noteq> NUL \<and> c_string s"
  by (auto simp: c_string_def)

lemma c_string_append [simp]: "c_string (s @ t) \<longleftrightarrow> c_string s \<and> c_string t"
  by (auto simp: c_string_def)

text \<open>The byte at an index of a C string: 0 from the terminating NUL on.\<close>

definition c_at :: "string \<Rightarrow> nat \<Rightarrow> nat" where
  "c_at s i = (if i < length s then of_char (s ! i) else 0)"

lemma c_at_less: "c_at s i < 256"
  by (simp add: c_at_def)

lemma c_at_end [simp]: "length s \<le> i \<Longrightarrow> c_at s i = 0"
  by (simp add: c_at_def)

lemma c_at_Cons_0 [simp]: "c_at (c # s) 0 = of_char c"
  by (simp add: c_at_def)

lemma c_at_Cons_Suc [simp]: "c_at (c # s) (Suc i) = c_at s i"
  by (simp add: c_at_def)

lemma of_char_eq_0 [simp]: "(of_char c :: nat) = 0 \<longleftrightarrow> c = NUL"
proof -
  have "(of_char NUL :: nat) = 0" by simp
  then show ?thesis by (metis of_char_eq_iff)
qed

lemma c_at_pos: "c_string s \<Longrightarrow> i < length s \<Longrightarrow> 0 < c_at s i"
  using of_char_eq_0 [of "s ! i"]
  by (auto simp: c_at_def c_string_def in_set_conv_nth simp del: of_char_eq_0)

lemma c_string_eqI:
  assumes "c_string s" "c_string t" "\<And>i. c_at s i = c_at t i"
  shows "s = t"
  using assms
proof (induction s arbitrary: t)
  case Nil
  then show ?case
    using Nil.prems(3) [of 0] by (cases t) auto
next
  case (Cons c s)
  from Cons.prems(3) [of 0] Cons.prems(1) obtain d t' where t: "t = d # t'"
    by (cases t) auto
  have "c = d"
    using Cons.prems(3) [of 0] by (simp add: t)
  moreover have "s = t'"
    using Cons.prems(1,2) Cons.prems(3) [of "Suc _"] by (intro Cons.IH) (auto simp: t)
  ultimately show ?case by (simp add: t)
qed

text \<open>\<open>strndup\<close>: copy at most \<open>n\<close> bytes, stopping at a NUL.\<close>

definition tal_strndup :: "string \<Rightarrow> string" where
  "tal_strndup bytes = takeWhile (\<lambda>c. c \<noteq> NUL) bytes"

lemma c_string_tal_strndup [simp]: "c_string (tal_strndup bs)"
  by (auto simp: tal_strndup_def c_string_def dest: set_takeWhileD)

lemma tal_strndup_id [simp]: "c_string bs \<Longrightarrow> tal_strndup bs = bs"
  by (auto simp: tal_strndup_def c_string_def takeWhile_eq_all_conv)

subsection \<open>Slices of buffers\<close>

text \<open>
  \<open>slice buf s e\<close> is the run of bytes from offset \<open>s\<close> (included) to \<open>e\<close> (excluded); it
  is \<open>None\<close> when the range is not inside the buffer.
\<close>

definition slice :: "string \<Rightarrow> int \<Rightarrow> int \<Rightarrow> string run" where
  "slice buf s e =
     (if 0 \<le> s \<and> s \<le> e \<and> e \<le> int (length buf)
      then Some (take (nat (e - s)) (drop (nat s) buf)) else None)"

lemma length_slice: "slice buf s e = Some t \<Longrightarrow> int (length t) = e - s"
  by (auto simp: slice_def split: if_splits)

lemma slice_append_mid:
  assumes "s = int (length a)" "e = s + int (length b)"
  shows "slice (a @ b @ c) s e = Some b"
  using assms by (simp add: slice_def)

text \<open>Reading one byte of a buffer.\<close>

definition char_at :: "string \<Rightarrow> int \<Rightarrow> char run" where
  "char_at buf i = (if 0 \<le> i \<and> i < int (length buf) then Some (buf ! nat i) else None)"

lemma char_at_append_mid:
  "i = int (length a) \<Longrightarrow> char_at (a @ c # b) i = Some c"
  by (simp add: char_at_def)

subsection \<open>Lists\<close>

lemma in_fst_set_conv: "k \<in> fst ` set xs \<longleftrightarrow> (\<exists>v. (k, v) \<in> set xs)"
  by force

text \<open>The first and the last index with a property.\<close>

lemma find_upt_Some:
  "find P [0..<n] = Some i \<Longrightarrow> i < n \<and> P i \<and> (\<forall>j<i. \<not> P j)"
  by (auto simp: find_Some_iff)

lemma find_rev_upt_Some:
  "find P (rev [0..<n]) = Some i \<Longrightarrow> i < n \<and> P i \<and> (\<forall>j. i < j \<and> j < n \<longrightarrow> \<not> P j)"
proof (induction n)
  case (Suc n)
  then show ?case by (auto split: if_splits simp: less_Suc_eq)
qed simp

lemma find_none_append: "\<forall>x\<in>set xs. \<not> P x \<Longrightarrow> find P (xs @ ys) = find P ys"
  by (induction xs) auto

lemma find_all_hd: "xs \<noteq> [] \<Longrightarrow> \<forall>x\<in>set xs. P x \<Longrightarrow> find P xs = Some (hd xs)"
  by (cases xs) auto

subsection \<open>Bits\<close>

lemma unat_u32_less: "unat (e :: u32) < 2 ^ 32"
  using unsigned_less [of e] by simp

lemma unat_of_nat_u32: "i < 2 ^ 32 \<Longrightarrow> unat (of_nat i :: u32) = i"
  by (simp add: unat_of_nat take_bit_nat_eq_self)

lemma unat_drop_bit: "unat (drop_bit c (w :: u64)) = unat w div 2 ^ c"
proof -
  have "unat (drop_bit c w) = drop_bit c (unat w)" by (rule bit_eqI) (auto simp: bit_unsigned_iff bit_drop_bit_eq)
  then show ?thesis by (simp only: drop_bit_eq_div)
qed

lemma word_high_bits:
  fixes w :: "'a :: len word"
  assumes "unat w < 2 ^ n" "n \<le> i"
  shows "\<not> bit w i"
proof
  assume b: "bit w i"
  then have "bit (unat w) i" using bit_imp_le_length [OF b] by (simp add: bit_unsigned_iff)
  moreover have "take_bit n (unat w) = unat w" using assms(1) by (simp add: take_bit_nat_eq_self)
  ultimately have "i < n" by (metis bit_take_bit_iff)
  then show False using assms(2) by simp
qed

lemma nat_less_highest_bit:
  fixes x y :: nat
  assumes "\<And>j. b < j \<Longrightarrow> bit x j = bit y j" "\<not> bit x b" "bit y b"
  shows "x < y"
proof -
  have "drop_bit (Suc b) x = drop_bit (Suc b) y"
    using assms(1) by (intro bit_eqI) (simp add: bit_drop_bit_eq)
  then have "x div 2 ^ b div 2 = y div 2 ^ b div 2"
    by (simp add: drop_bit_eq_div flip: div_mult2_eq) (simp add: mult.commute)
  moreover have "even (x div 2 ^ b)" "odd (y div 2 ^ b)"
    using assms(2,3) by (simp_all add: bit_iff_odd)
  ultimately have "x div 2 ^ b < y div 2 ^ b"
    by (metis dvd_mult_div_cancel lessI odd_two_times_div_two_succ Suc_eq_plus1)
  then show ?thesis
    by (meson div_le_mono linorder_not_less)
qed

end
