(* ===== verification/Utf8.thy ===== *)
theory Utf8
  imports Payz_Prelude
begin

text \<open>
  \<open>ccan/utf8/utf8.c\<close> and \<open>utf8_check\<close> of \<open>common/utils.c\<close>. The decoder is a state machine
  fed one byte at a time; a byte is a natural number below 256, the code point under
  construction stays below \<open>2^21\<close>, so its \<open>uint32_t\<close> never wraps.
\<close>

unbundle bit_operations_syntax

record utf8_state =
  total_len :: nat
  used_len :: nat
  utf8_c :: nat

datatype utf8_errno = U_OK | U_EINVAL | U_ERANGE | U_EFBIG

definition UTF8_STATE_INIT :: utf8_state where
  "UTF8_STATE_INIT = \<lparr>total_len = 0, used_len = 0, utf8_c = 0\<rparr>"

text \<open>The label \<open>finished_decoding\<close>: the value of \<open>errno\<close>.\<close>

definition utf8_finished :: "utf8_state \<Rightarrow> utf8_errno" where
  "utf8_finished st =
     (if utf8_c st = 0 \<or> utf8_c st > 0x10FFFF then U_ERANGE
      else if total_len st = 3 \<and> (utf8_c st AND 0xFFFFF800) = 0xD800 then U_ERANGE
      else (let min_bits = (if total_len st = 1 then 0 else if total_len st = 2 then 7
                            else if total_len st = 3 then 11 else 16)
            in if drop_bit min_bits (utf8_c st) = 0 then U_EFBIG else U_OK))"

text \<open>
  \<open>None\<close> is the return value false (more bytes needed); \<open>Some e\<close> is true with \<open>errno = e\<close>.
\<close>

definition utf8_decode :: "utf8_state \<Rightarrow> nat \<Rightarrow> utf8_errno option \<times> utf8_state" where
  "utf8_decode st b =
     (if used_len st = total_len st then
        (let st1 = st\<lparr>used_len := 1\<rparr> in
         if b AND 0x80 = 0 then
           (if b = 0 then (Some U_EINVAL, st1\<lparr>total_len := 1\<rparr>)
            else (let st2 = st1\<lparr>total_len := 1, utf8_c := b\<rparr> in (Some (utf8_finished st2), st2)))
         else if b AND 0xE0 = 0xC0 then (None, st1\<lparr>total_len := 2, utf8_c := b AND 0x1F\<rparr>)
         else if b AND 0xF0 = 0xE0 then (None, st1\<lparr>total_len := 3, utf8_c := b AND 0x0F\<rparr>)
         else if b AND 0xF8 = 0xF0 then (None, st1\<lparr>total_len := 4, utf8_c := b AND 0x07\<rparr>)
         else (Some U_EINVAL, st1\<lparr>total_len := 1\<rparr>))
      else if b AND 0xC0 \<noteq> 0x80 then (Some U_EINVAL, st\<lparr>total_len := used_len st\<rparr>)
      else
        (let st1 = st\<lparr>utf8_c := push_bit 6 (utf8_c st) OR (b AND 0x3F), used_len := used_len st + 1\<rparr>
         in if used_len st1 = total_len st1 then (Some (utf8_finished st1), st1) else (None, st1)))"

fun utf8_check_loop :: "utf8_state \<Rightarrow> bool \<Rightarrow> string \<Rightarrow> bool" where
  "utf8_check_loop st need_more [] = (\<not> need_more)"
| "utf8_check_loop st need_more (c # cs) =
     (case utf8_decode st (of_char c) of
        (None, st') \<Rightarrow> utf8_check_loop st' True cs
      | (Some e, st') \<Rightarrow> if e \<noteq> U_OK then False else utf8_check_loop st' False cs)"

definition utf8_check :: "string \<Rightarrow> bool" where
  "utf8_check buf = utf8_check_loop UTF8_STATE_INIT False buf"

definition utf8_encode :: "nat \<Rightarrow> nat list" where
  "utf8_encode point =
     (if drop_bit 7 point = 0 then (if point = 0 then [] else [point])
      else if drop_bit 11 point = 0 then [0xC0 OR drop_bit 6 point, 0x80 OR (point AND 0x3F)]
      else if drop_bit 16 point = 0 then
        (if point \<ge> 0xD800 \<and> point \<le> 0xDFFF then []
         else [0xE0 OR drop_bit 12 point, 0x80 OR (drop_bit 6 point AND 0x3F),
               0x80 OR (point AND 0x3F)])
      else if point > 0x10FFFF then []
      else [0xF0 OR drop_bit 18 point, 0x80 OR (drop_bit 12 point AND 0x3F),
            0x80 OR (drop_bit 6 point AND 0x3F), 0x80 OR (point AND 0x3F)])"

subsection \<open>ASCII text passes the check\<close>

lemma and_128_ascii: "b < 128 \<Longrightarrow> b AND 128 = (0 :: nat)"
proof -
  assume "b < 128"
  then have "take_bit 7 b = b" by (simp add: take_bit_nat_eq_self)
  moreover have "take_bit 7 b AND 128 = 0"
    by (rule bit_eqI) (auto simp: bit_and_iff bit_take_bit_iff bit_numeral_rec split: nat.splits)
  ultimately show ?thesis by simp
qed

lemma utf8_decode_ascii:
  assumes "used_len st = total_len st" "0 < b" "b < 128"
  shows "\<exists>st'. utf8_decode st b = (Some U_OK, st') \<and> used_len st' = total_len st'"
  using assms by (auto simp: utf8_decode_def and_128_ascii utf8_finished_def Let_def)

lemma utf8_check_loop_ascii:
  "used_len st = total_len st \<Longrightarrow> (\<forall>c\<in>set s. 0 < (of_char c :: nat) \<and> of_char c < (128 :: nat)) \<Longrightarrow>
   utf8_check_loop st False s"
proof (induction s arbitrary: st)
  case (Cons c s)
  then obtain st' where "utf8_decode st (of_char c) = (Some U_OK, st')" "used_len st' = total_len st'"
    using utf8_decode_ascii [of st "of_char c"] by auto
  with Cons show ?case by simp
qed simp

lemma utf8_check_ascii:
  "(\<forall>c\<in>set s. 0 < (of_char c :: nat) \<and> of_char c < (128 :: nat)) \<Longrightarrow> utf8_check s"
  unfolding utf8_check_def by (rule utf8_check_loop_ascii) (simp add: UTF8_STATE_INIT_def)

end
