(* ===== verification/Jsmn.thy ===== *)
theory Jsmn
  imports Utf8
begin

text \<open>
  \<open>external/jsmn/jsmn.h\<close>, compiled by \<open>external/jsmn/jsmn.c\<close> without \<open>JSMN_STRICT\<close> and
  without \<open>JSMN_PARENT_LINKS\<close>. The token array is the list of the tokens handed out so
  far (\<open>toknext\<close> is its length) together with the capacity \<open>num_tokens\<close>; the text from
  \<open>parser->pos\<close> up to \<open>len\<close> is the list \<open>rest\<close>. Positions and sizes are unbounded (the C
  types are \<open>unsigned\<close> and \<open>int\<close>), so the model is faithful for texts shorter than
  \<open>2^31\<close> bytes.

  The second half describes JSON texts as layout trees (\<open>cst\<close>): the text they stand for,
  the tokens they should yield, and the theorem \<open>jsmn_loop_cst\<close> that the parser yields
  exactly those tokens.
\<close>

datatype jsmntype = JSMN_UNDEFINED | JSMN_OBJECT | JSMN_ARRAY | JSMN_STRING | JSMN_PRIMITIVE
  | JSMN_MINUS_ONE

record jsmntok =
  tok_type :: jsmntype
  tok_start :: int
  tok_end :: int
  tok_size :: int

record jsmn_parser =
  jpos :: nat
  toksuper :: int

datatype jsmn_ret = JCount nat | JSMN_ERROR_NOMEM | JSMN_ERROR_INVAL | JSMN_ERROR_PART

abbreviation QUOTE :: char where "QUOTE \<equiv> CHR 0x22"
abbreviation BACKSLASH :: char where "BACKSLASH \<equiv> CHR 0x5C"
abbreviation TAB :: char where "TAB \<equiv> CHR 0x09"
abbreviation LF :: char where "LF \<equiv> CHR 0x0A"
abbreviation CR :: char where "CR \<equiv> CHR 0x0D"
abbreviation SPACE :: char where "SPACE \<equiv> CHR 0x20"

definition jsmn_init :: jsmn_parser where
  "jsmn_init = \<lparr>jpos = 0, toksuper = -1\<rparr>"

definition jsmn_fill_token :: "jsmntype \<Rightarrow> int \<Rightarrow> int \<Rightarrow> jsmntok" where
  "jsmn_fill_token ty s e = \<lparr>tok_type = ty, tok_start = s, tok_end = e, tok_size = 0\<rparr>"

text \<open>\<open>jsmn_alloc_token\<close>: a fresh token at the end of the array, \<open>None\<close> when it is full.\<close>

definition jsmn_alloc_token :: "nat \<Rightarrow> jsmntok list \<Rightarrow> jsmntok \<Rightarrow> jsmntok list option" where
  "jsmn_alloc_token num_tokens toks t =
     (if length toks \<ge> num_tokens then None else Some (toks @ [t]))"

definition primitive_stop :: "char \<Rightarrow> bool" where
  "primitive_stop c \<longleftrightarrow> c \<in> {CHR '':'', TAB, CR, LF, SPACE, CHR '','', CHR '']'', CHR ''}''}"

text \<open>\<open>js[pos] < 32 || js[pos] >= 127\<close> on a signed \<open>char\<close>.\<close>

definition primitive_bad :: "char \<Rightarrow> bool" where
  "primitive_bad c \<longleftrightarrow> (of_char c :: nat) < 32 \<or> (of_char c :: nat) \<ge> 127"

text \<open>The loop of \<open>jsmn_parse_primitive\<close>: how many bytes it passes; \<open>None\<close> is INVAL.\<close>

fun scan_primitive :: "string \<Rightarrow> nat option" where
  "scan_primitive [] = Some 0"
| "scan_primitive (c # cs) =
     (if c = NUL \<or> primitive_stop c then Some 0
      else if primitive_bad c then None
      else map_option Suc (scan_primitive cs))"

definition is_hex :: "char \<Rightarrow> bool" where
  "is_hex c \<longleftrightarrow> (let b = (of_char c :: nat) in 48 \<le> b \<and> b \<le> 57 \<or> 65 \<le> b \<and> b \<le> 70 \<or> 97 \<le> b \<and> b \<le> 102)"

fun scan_hex :: "nat \<Rightarrow> string \<Rightarrow> nat option" where
  "scan_hex 0 cs = Some 0"
| "scan_hex (Suc n) [] = Some 0"
| "scan_hex (Suc n) (c # cs) =
     (if c = NUL then Some 0
      else if \<not> is_hex c then None
      else map_option Suc (scan_hex n cs))"

definition simple_escape :: "char \<Rightarrow> bool" where
  "simple_escape c \<longleftrightarrow> c \<in> {QUOTE, CHR ''/'', BACKSLASH, CHR ''b'', CHR ''f'', CHR ''r'', CHR ''n'', CHR ''t''}"

definition scan_shift :: "nat \<Rightarrow> jsmn_ret + nat \<Rightarrow> jsmn_ret + nat" where
  "scan_shift k r = (case r of Inl e \<Rightarrow> Inl e | Inr n \<Rightarrow> Inr (k + n))"

text \<open>
  The loop of \<open>jsmn_parse_string\<close> after the opening quote: the number of bytes before the
  closing quote, or the error.
\<close>

function scan_string :: "string \<Rightarrow> jsmn_ret + nat" where
  "scan_string [] = Inl JSMN_ERROR_PART"
| "scan_string (c # cs) =
     (if c = NUL then Inl JSMN_ERROR_PART
      else if c = QUOTE then Inr 0
      else if c = BACKSLASH \<and> cs \<noteq> [] then
        (if simple_escape (hd cs) then scan_shift 2 (scan_string (tl cs))
         else if hd cs = CHR ''u'' then
           (case scan_hex 4 (tl cs) of
              None \<Rightarrow> Inl JSMN_ERROR_INVAL
            | Some k \<Rightarrow> scan_shift (2 + k) (scan_string (drop k (tl cs))))
         else Inl JSMN_ERROR_INVAL)
      else scan_shift 1 (scan_string cs))"
  by pat_completeness auto
termination
  by (relation "measure length") auto

declare scan_string.simps [simp del]

definition tok_open :: "jsmntok \<Rightarrow> bool" where
  "tok_open t \<longleftrightarrow> tok_start t \<noteq> -1 \<and> tok_end t = -1"

text \<open>\<open>for (i = n - 1; i >= 0; i--)\<close> looking for an unclosed token.\<close>

fun find_open :: "jsmntok list \<Rightarrow> nat \<Rightarrow> nat option" where
  "find_open toks 0 = None"
| "find_open toks (Suc i) = (if tok_open (toks ! i) then Some i else find_open toks i)"

fun find_open_container :: "jsmntok list \<Rightarrow> nat \<Rightarrow> nat option" where
  "find_open_container toks 0 = None"
| "find_open_container toks (Suc i) =
     (if (tok_type (toks ! i) = JSMN_ARRAY \<or> tok_type (toks ! i) = JSMN_OBJECT) \<and> tok_open (toks ! i)
      then Some i else find_open_container toks i)"

text \<open>\<open>tokens[toksuper].size++\<close> unless \<open>toksuper\<close> is -1.\<close>

definition bump :: "int \<Rightarrow> jsmntok list \<Rightarrow> jsmntok list" where
  "bump super toks =
     (if super = -1 then toks
      else toks[nat super := (toks ! nat super)\<lparr>tok_size := tok_size (toks ! nat super) + 1\<rparr>])"

definition super_of :: "nat option \<Rightarrow> int" where
  "super_of i = (case i of None \<Rightarrow> -1 | Some i \<Rightarrow> int i)"

text \<open>The main loop of \<open>jsmn_parse\<close>, from the byte at \<open>parser->pos\<close> on.\<close>

function jsmn_loop ::
  "nat \<Rightarrow> nat \<Rightarrow> string \<Rightarrow> int \<Rightarrow> jsmntok list \<Rightarrow> nat \<Rightarrow> jsmn_ret \<times> jsmn_parser \<times> jsmntok list" where
  "jsmn_loop num pos [] super toks count =
     ((if find_open toks (length toks) \<noteq> None then JSMN_ERROR_PART else JCount count),
      \<lparr>jpos = pos, toksuper = super\<rparr>, toks)"
| "jsmn_loop num pos (c # cs) super toks count =
     (if c = NUL then
        ((if find_open toks (length toks) \<noteq> None then JSMN_ERROR_PART else JCount count),
         \<lparr>jpos = pos, toksuper = super\<rparr>, toks)
      else if c = CHR ''{'' \<or> c = CHR ''['' then
        (case jsmn_alloc_token num toks
                \<lparr>tok_type = (if c = CHR ''{'' then JSMN_OBJECT else JSMN_ARRAY),
                 tok_start = int pos, tok_end = -1, tok_size = 0\<rparr> of
           None \<Rightarrow> (JSMN_ERROR_NOMEM, \<lparr>jpos = pos, toksuper = super\<rparr>, toks)
         | Some toks' \<Rightarrow>
             jsmn_loop num (Suc pos) cs (int (length toks)) (bump super toks') (Suc count))
      else if c = CHR ''}'' \<or> c = CHR '']'' then
        (case find_open toks (length toks) of
           None \<Rightarrow> (JSMN_ERROR_INVAL, \<lparr>jpos = pos, toksuper = super\<rparr>, toks)
         | Some i \<Rightarrow>
             if tok_type (toks ! i) \<noteq> (if c = CHR ''}'' then JSMN_OBJECT else JSMN_ARRAY)
             then (JSMN_ERROR_INVAL, \<lparr>jpos = pos, toksuper = super\<rparr>, toks)
             else (let toks' = toks[i := (toks ! i)\<lparr>tok_end := int pos + 1\<rparr>]
                   in jsmn_loop num (Suc pos) cs (super_of (find_open toks' (Suc i))) toks' count))
      else if c = QUOTE then
        (case scan_string cs of
           Inl e \<Rightarrow> (e, \<lparr>jpos = pos, toksuper = super\<rparr>, toks)
         | Inr n \<Rightarrow>
             (case jsmn_alloc_token num toks
                     (jsmn_fill_token JSMN_STRING (int pos + 1) (int pos + 1 + int n)) of
                None \<Rightarrow> (JSMN_ERROR_NOMEM, \<lparr>jpos = pos, toksuper = super\<rparr>, toks)
              | Some toks' \<Rightarrow>
                  jsmn_loop num (pos + n + 2) (drop (n + 1) cs) super (bump super toks') (Suc count)))
      else if c = TAB \<or> c = CR \<or> c = LF \<or> c = SPACE then
        jsmn_loop num (Suc pos) cs super toks count
      else if c = CHR '':'' then
        jsmn_loop num (Suc pos) cs (int (length toks) - 1) toks count
      else if c = CHR '','' then
        jsmn_loop num (Suc pos) cs
          (if super \<noteq> -1 \<and> tok_type (toks ! nat super) \<noteq> JSMN_ARRAY \<and> tok_type (toks ! nat super) \<noteq> JSMN_OBJECT
           then (case find_open_container toks (length toks) of None \<Rightarrow> super | Some i \<Rightarrow> int i)
           else super) toks count
      else
        (case scan_primitive (c # cs) of
           None \<Rightarrow> (JSMN_ERROR_INVAL, \<lparr>jpos = pos, toksuper = super\<rparr>, toks)
         | Some n \<Rightarrow>
             (case jsmn_alloc_token num toks
                     (jsmn_fill_token JSMN_PRIMITIVE (int pos) (int pos + int n)) of
                None \<Rightarrow> (JSMN_ERROR_NOMEM, \<lparr>jpos = pos, toksuper = super\<rparr>, toks)
              | Some toks' \<Rightarrow>
                  jsmn_loop num (pos + n) (drop n (c # cs)) super (bump super toks') (Suc count))))"
  by pat_completeness auto
termination
proof (relation "measure (\<lambda>(num, pos, rest, super, toks, count). length rest)", goal_cases)
  case (8 num pos c cs super toks count n toks')
  then have "0 < n"
    by (auto simp: primitive_stop_def split: if_splits)
  then show ?case by simp
qed auto

declare jsmn_loop.simps(2) [simp del]

text \<open>
  \<open>jsmn_parse(parser, js, len, tokens, num_tokens)\<close> with \<open>js\<close> the \<open>len\<close> bytes of input; a
  later call resumes at the saved position.
\<close>

definition jsmn_parse ::
  "jsmn_parser \<Rightarrow> string \<Rightarrow> jsmntok list \<Rightarrow> nat \<Rightarrow> jsmn_ret \<times> jsmn_parser \<times> jsmntok list" where
  "jsmn_parse parser js toks num_tokens =
     jsmn_loop num_tokens (jpos parser) (drop (jpos parser) js) (toksuper parser) toks (length toks)"

section \<open>Layout trees\<close>

text \<open>
  A layout tree is a JSON text with its separators: an element of an array is preceded by
  a separator string (white space and commas); a member of an object by a separator
  string, and white space may stand on both sides of its colon; a closing bracket may be
  preceded by a separator string too. Standard JSON is the special case in which the
  separator between two items has one comma and the others have none.
\<close>

datatype cst = CPrim string | CStr string | CArr celems string | CObj cmembers string
  and celems = ENil | ECons string cst celems
  and cmembers = MNil | MCons string string string string cst cmembers

fun text_of :: "cst \<Rightarrow> string"
  and text_es :: "celems \<Rightarrow> string"
  and text_ms :: "cmembers \<Rightarrow> string" where
  "text_of (CPrim s) = s"
| "text_of (CStr s) = QUOTE # s @ [QUOTE]"
| "text_of (CArr es w) = CHR ''['' # text_es es @ w @ [CHR '']'']"
| "text_of (CObj ms w) = CHR ''{'' # text_ms ms @ w @ [CHR ''}'']"
| "text_es ENil = []"
| "text_es (ECons sep c es) = sep @ text_of c @ text_es es"
| "text_ms MNil = []"
| "text_ms (MCons sep k w1 w2 c ms) =
     sep @ QUOTE # k @ QUOTE # w1 @ CHR '':'' # w2 @ text_of c @ text_ms ms"

fun n_es :: "celems \<Rightarrow> nat" where
  "n_es ENil = 0"
| "n_es (ECons sep c es) = Suc (n_es es)"

fun n_ms :: "cmembers \<Rightarrow> nat" where
  "n_ms MNil = 0"
| "n_ms (MCons sep k w1 w2 c ms) = Suc (n_ms ms)"

text \<open>The tokens of a layout tree whose text starts at an offset.\<close>

fun toks_of :: "int \<Rightarrow> cst \<Rightarrow> jsmntok list"
  and toks_es :: "int \<Rightarrow> celems \<Rightarrow> jsmntok list"
  and toks_ms :: "int \<Rightarrow> cmembers \<Rightarrow> jsmntok list" where
  "toks_of p (CPrim s) = [\<lparr>tok_type = JSMN_PRIMITIVE, tok_start = p, tok_end = p + int (length s), tok_size = 0\<rparr>]"
| "toks_of p (CStr s) =
     [\<lparr>tok_type = JSMN_STRING, tok_start = p + 1, tok_end = p + 1 + int (length s), tok_size = 0\<rparr>]"
| "toks_of p (CArr es w) =
     \<lparr>tok_type = JSMN_ARRAY, tok_start = p, tok_end = p + int (length (text_of (CArr es w))),
      tok_size = int (n_es es)\<rparr> # toks_es (p + 1) es"
| "toks_of p (CObj ms w) =
     \<lparr>tok_type = JSMN_OBJECT, tok_start = p, tok_end = p + int (length (text_of (CObj ms w))),
      tok_size = int (n_ms ms)\<rparr> # toks_ms (p + 1) ms"
| "toks_es p ENil = []"
| "toks_es p (ECons sep c es) =
     toks_of (p + int (length sep)) c @ toks_es (p + int (length sep) + int (length (text_of c))) es"
| "toks_ms p MNil = []"
| "toks_ms p (MCons sep k w1 w2 c ms) =
     \<lparr>tok_type = JSMN_STRING, tok_start = p + int (length sep) + 1,
      tok_end = p + int (length sep) + 1 + int (length k), tok_size = 1\<rparr>
     # toks_of (p + int (length sep + length k + length w1 + length w2) + 3) c
     @ toks_ms (p + int (length sep + length k + length w1 + length w2) + 3 + int (length (text_of c))) ms"

definition ws_ok :: "string \<Rightarrow> bool" where
  "ws_ok w \<longleftrightarrow> list_all (\<lambda>c. c = TAB \<or> c = CR \<or> c = LF \<or> c = SPACE) w"

definition sep_ok :: "string \<Rightarrow> bool" where
  "sep_ok w \<longleftrightarrow> list_all (\<lambda>c. c = TAB \<or> c = CR \<or> c = LF \<or> c = SPACE \<or> c = CHR '','') w"

definition prim_ok :: "string \<Rightarrow> bool" where
  "prim_ok s \<longleftrightarrow> s \<noteq> [] \<and> hd s \<notin> {CHR ''{'', CHR ''['', QUOTE} \<and>
     list_all (\<lambda>c. c \<noteq> NUL \<and> \<not> primitive_stop c \<and> \<not> primitive_bad c) s"

definition str_ok :: "string \<Rightarrow> bool" where
  "str_ok s \<longleftrightarrow> scan_string (s @ [QUOTE]) = Inr (length s) \<and> utf8_check s"

fun wf_cst :: "cst \<Rightarrow> bool"
  and wf_es :: "bool \<Rightarrow> celems \<Rightarrow> bool"
  and wf_ms :: "bool \<Rightarrow> cmembers \<Rightarrow> bool" where
  "wf_cst (CPrim s) \<longleftrightarrow> prim_ok s"
| "wf_cst (CStr s) \<longleftrightarrow> str_ok s"
| "wf_cst (CArr es w) \<longleftrightarrow> wf_es True es \<and> sep_ok w"
| "wf_cst (CObj ms w) \<longleftrightarrow> wf_ms True ms \<and> sep_ok w"
| "wf_es first ENil \<longleftrightarrow> True"
| "wf_es first (ECons sep c es) \<longleftrightarrow> sep_ok sep \<and> (first \<or> sep \<noteq> []) \<and> wf_cst c \<and> wf_es False es"
| "wf_ms first MNil \<longleftrightarrow> True"
| "wf_ms first (MCons sep k w1 w2 c ms) \<longleftrightarrow>
     sep_ok sep \<and> (first \<or> CHR '','' \<in> set sep) \<and> str_ok k \<and> ws_ok w1 \<and> ws_ok w2 \<and> wf_cst c \<and> wf_ms False ms"

fun is_container :: "cst \<Rightarrow> bool" where
  "is_container (CArr es w) = True"
| "is_container (CObj ms w) = True"
| "is_container c = False"

subsection \<open>Scanning\<close>

definition stops :: "string \<Rightarrow> bool" where
  "stops r \<longleftrightarrow> (case r of [] \<Rightarrow> True | c # _ \<Rightarrow> c = NUL \<or> primitive_stop c)"

lemma scan_primitive_stop: "stops r \<Longrightarrow> scan_primitive r = Some 0"
  by (auto simp: stops_def split: list.splits)

lemma scan_primitive_append:
  "list_all (\<lambda>c. c \<noteq> NUL \<and> \<not> primitive_stop c \<and> \<not> primitive_bad c) s \<Longrightarrow> stops r \<Longrightarrow>
   scan_primitive (s @ r) = Some (length s)"
  by (induction s) (simp_all add: scan_primitive_stop)

lemma scan_hex_le: "scan_hex n cs = Some k \<Longrightarrow> k \<le> length cs"
  by (induction n cs arbitrary: k rule: scan_hex.induct) (auto split: if_splits)

lemma QUOTE_not_hex: "\<not> is_hex QUOTE"
  by (simp add: is_hex_def)

lemma scan_hex_append:
  "scan_hex n (s @ [QUOTE]) = Some k \<Longrightarrow> k \<le> length s \<and> scan_hex n (s @ QUOTE # r) = Some k"
proof (induction n s arbitrary: k rule: scan_hex.induct)
  case (2 n)
  then show ?case by (simp add: QUOTE_not_hex)
qed (auto split: if_splits)

lemma scan_shift_eq_Inr: "scan_shift k r = Inr n \<longleftrightarrow> (\<exists>m. r = Inr m \<and> n = k + m)"
  by (auto simp: scan_shift_def split: sum.splits)

lemma scan_string_append:
  "scan_string (s @ [QUOTE]) = Inr (length s) \<Longrightarrow> scan_string (s @ QUOTE # r) = Inr (length s)"
proof (induction s rule: length_induct)
  case (1 s)
  show ?case
  proof (cases s)
    case Nil
    then show ?thesis by (simp add: scan_string.simps)
  next
    case (Cons c t)
    have cn: "c \<noteq> NUL" "c \<noteq> QUOTE"
      using "1.prems" Cons by (auto simp: scan_string.simps split: if_splits)
    show ?thesis
    proof (cases "c = BACKSLASH")
      case False
      then have "scan_string (t @ [QUOTE]) = Inr (length t)"
        using "1.prems" Cons cn by (simp add: scan_string.simps scan_shift_eq_Inr)
      with 1 Cons False cn show ?thesis
        by (simp add: scan_string.simps scan_shift_eq_Inr)
    next
      case bs: True
      show ?thesis
      proof (cases t)
        case Nil
        with "1.prems" Cons bs show ?thesis
          by (simp add: scan_string.simps simple_escape_def scan_shift_eq_Inr)
      next
        case t: (Cons e u)
        show ?thesis
        proof (cases "simple_escape e")
          case True
          then have "scan_string (u @ [QUOTE]) = Inr (length u)"
            using "1.prems" Cons t bs by (simp add: scan_string.simps scan_shift_eq_Inr)
          with 1 Cons t bs True show ?thesis
            by (simp add: scan_string.simps scan_shift_eq_Inr)
        next
          case False
          with "1.prems" Cons t bs obtain k m where
            e: "e = CHR ''u''" and k: "scan_hex 4 (u @ [QUOTE]) = Some k"
            and m: "scan_string (drop k (u @ [QUOTE])) = Inr m" "length u = k + m"
            by (auto simp: scan_string.simps scan_shift_eq_Inr split: if_splits option.splits)
          from scan_hex_append [OF k, of r] have ku: "k \<le> length u"
            and k': "scan_hex 4 (u @ QUOTE # r) = Some k" by auto
          from m ku have "scan_string (drop k u @ [QUOTE]) = Inr (length (drop k u))" by simp
          moreover have "length (drop k u) < length s" using Cons t by simp
          ultimately have "scan_string (drop k u @ QUOTE # r) = Inr (length (drop k u))"
            using "1.IH" by blast
          with Cons t bs False e k' ku show ?thesis
            by (simp add: scan_string.simps scan_shift_eq_Inr)
        qed
      qed
    qed
  qed
qed

subsection \<open>Open tokens\<close>

abbreviation last_open :: "jsmntok list \<Rightarrow> nat option" where
  "last_open toks \<equiv> find_open toks (length toks)"

lemma find_open_append: "n \<le> length A \<Longrightarrow> find_open (A @ B) n = find_open A n"
  by (induction n) (auto simp: nth_append)

lemma last_open_snoc:
  "last_open (A @ [t]) = (if tok_open t then Some (length A) else last_open A)"
  by (simp add: find_open_append)

lemma last_open_closed: "\<forall>t\<in>set C. \<not> tok_open t \<Longrightarrow> last_open (A @ C) = last_open A"
proof (induction C rule: rev_induct)
  case (snoc t C)
  then show ?case using last_open_snoc [of "A @ C" t] by simp
qed simp

lemma last_open_mid:
  assumes "tok_open a" "\<forall>t\<in>set C. \<not> tok_open t"
  shows "last_open (A @ a # C) = Some (length A)"
  using last_open_closed [OF assms(2), of "A @ [a]"] assms(1) by (simp add: find_open_append)

lemma find_open_mid:
  "tok_open a \<Longrightarrow> \<forall>t\<in>set C. \<not> tok_open t \<Longrightarrow>
   find_open (A @ a # C) (Suc (length A + length C)) = Some (length A)"
  using last_open_mid [of a C A] by simp

lemma find_container_append: "n \<le> length A \<Longrightarrow> find_open_container (A @ B) n = find_open_container A n"
  by (induction n) (auto simp: nth_append)

lemma find_container_closed:
  "\<forall>t\<in>set C. \<not> tok_open t \<Longrightarrow>
   find_open_container (A @ C) (length (A @ C)) = find_open_container A (length A)"
proof (induction C rule: rev_induct)
  case (snoc t C)
  then show ?case by (simp add: find_container_append nth_append flip: append_assoc)
qed simp

lemma find_container_mid:
  assumes "tok_open a" "tok_type a = JSMN_OBJECT" "\<forall>t\<in>set C. \<not> tok_open t"
  shows "find_open_container (A @ a # C) (length (A @ a # C)) = Some (length A)"
  using find_container_closed [OF assms(3), of "A @ [a]"] assms(1,2) by simp

lemma length_bump [simp]: "length (bump s T) = length T"
  by (simp add: bump_def)

lemma tok_open_size [simp]: "tok_open (t\<lparr>tok_size := n\<rparr>) = tok_open t"
  by (simp add: tok_open_def)

lemma bump_nth_open: "i < length T \<Longrightarrow> tok_open (bump s T ! i) = tok_open (T ! i)"
  by (cases "i = nat s") (auto simp: bump_def)

lemma find_open_bump: "n \<le> length T \<Longrightarrow> find_open (bump s T) n = find_open T n"
  by (induction n) (auto simp: bump_nth_open)

lemma last_open_bump: "last_open (bump s T) = last_open T"
  by (simp add: find_open_bump)

definition super_ok :: "int \<Rightarrow> jsmntok list \<Rightarrow> bool" where
  "super_ok s T \<longleftrightarrow> s = -1 \<or> 0 \<le> s \<and> s < int (length T)"

lemma bump_append: "super_ok s T \<Longrightarrow> bump s (T @ U) = bump s T @ U"
  by (auto simp: bump_def super_ok_def nth_append list_update_append)

lemma bump_mid: "s = int (length A) \<Longrightarrow> bump s (A @ a # C) = A @ a\<lparr>tok_size := tok_size a + 1\<rparr> # C"
  by (simp add: bump_def)

text \<open>Moving a text moves its tokens.\<close>

definition tok_shift :: "int \<Rightarrow> jsmntok \<Rightarrow> jsmntok" where
  "tok_shift d t = t\<lparr>tok_start := tok_start t + d, tok_end := tok_end t + d\<rparr>"

lemma toks_shift:
  "toks_of (p + d) c = map (tok_shift d) (toks_of p c)"
  "toks_es (p + d) es = map (tok_shift d) (toks_es p es)"
  "toks_ms (p + d) ms = map (tok_shift d) (toks_ms p ms)"
proof (induction p c and p es and p ms rule: toks_of_toks_es_toks_ms.induct)
  case (6 p sep c es)
  then show ?case by (simp add: algebra_simps)
next
  case (8 p sep k w1 w2 c ms)
  then show ?case by (simp add: tok_shift_def algebra_simps)
qed (simp_all add: tok_shift_def algebra_simps)

lemma length_toks_of: "length (toks_of p c) = length (toks_of 0 c)"
  using toks_shift(1) [of 0 p c] by simp

lemma toks_of_closed:
  "0 \<le> p \<Longrightarrow> \<forall>t\<in>set (toks_of p c). \<not> tok_open t"
  "0 \<le> p \<Longrightarrow> \<forall>t\<in>set (toks_es p es). \<not> tok_open t"
  "0 \<le> p \<Longrightarrow> \<forall>t\<in>set (toks_ms p ms). \<not> tok_open t"
  by (induction p c and p es and p ms rule: toks_of_toks_es_toks_ms.induct)
    (auto simp: tok_open_def)

subsection \<open>Steps of the parser\<close>

lemma loop_ws:
  "ws_ok w \<Longrightarrow> jsmn_loop num p (w @ r) s T n = jsmn_loop num (p + length w) r s T n"
  by (induction w arbitrary: p) (auto simp: ws_ok_def jsmn_loop.simps(2))

definition comma_super :: "jsmntok list \<Rightarrow> int \<Rightarrow> int" where
  "comma_super toks s =
     (if s \<noteq> -1 \<and> tok_type (toks ! nat s) \<noteq> JSMN_ARRAY \<and> tok_type (toks ! nat s) \<noteq> JSMN_OBJECT
      then (case find_open_container toks (length toks) of None \<Rightarrow> s | Some i \<Rightarrow> int i) else s)"

lemma find_container_type:
  "find_open_container toks n = Some i \<Longrightarrow> tok_type (toks ! i) = JSMN_ARRAY \<or> tok_type (toks ! i) = JSMN_OBJECT"
  by (induction n) (auto split: if_splits)

lemma comma_super_idem: "comma_super toks (comma_super toks s) = comma_super toks s"
  by (auto simp: comma_super_def split: option.splits dest: find_container_type)

lemma loop_sep:
  "sep_ok w \<Longrightarrow> jsmn_loop num p (w @ r) s T n =
     jsmn_loop num (p + length w) r (if CHR '','' \<in> set w then comma_super T s else s) T n"
proof (induction w arbitrary: p s)
  case (Cons c w)
  then have "sep_ok w" by (simp add: sep_ok_def)
  note IH = Cons.IH [OF this]
  show ?case
  proof (cases "c = CHR '',''")
    case True
    have "jsmn_loop num p ((c # w) @ r) s T n = jsmn_loop num (Suc p) (w @ r) (comma_super T s) T n"
      using True by (simp add: jsmn_loop.simps(2) comma_super_def)
    with True IH show ?thesis by (simp add: comma_super_idem)
  next
    case False
    with Cons.prems have "c = TAB \<or> c = CR \<or> c = LF \<or> c = SPACE" by (simp add: sep_ok_def)
    then show ?thesis using IH by (auto simp: jsmn_loop.simps(2))
  qed
qed simp

lemma loop_string:
  assumes "scan_string (k @ [QUOTE]) = Inr (length k)" "super_ok s T" "length T < num"
  shows "jsmn_loop num p (QUOTE # k @ QUOTE # r) s T n =
    jsmn_loop num (p + length k + 2) r s
      (bump s T @ [\<lparr>tok_type = JSMN_STRING, tok_start = int p + 1, tok_end = int p + 1 + int (length k), tok_size = 0\<rparr>])
      (Suc n)"
  using scan_string_append [OF assms(1)] assms(2,3)
  by (simp add: jsmn_loop.simps(2) jsmn_alloc_token_def jsmn_fill_token_def bump_append)

lemma loop_prim:
  assumes "prim_ok k" "super_ok s T" "length T < num" "stops r"
  shows "jsmn_loop num p (k @ r) s T n =
    jsmn_loop num (p + length k) r s
      (bump s T @ [\<lparr>tok_type = JSMN_PRIMITIVE, tok_start = int p, tok_end = int p + int (length k), tok_size = 0\<rparr>])
      (Suc n)"
proof -
  obtain c k' where k: "k = c # k'" using assms(1) by (cases k) (auto simp: prim_ok_def)
  have "scan_primitive (c # k' @ r) = Some (length k)"
    using scan_primitive_append [of k r] assms by (simp add: prim_ok_def k)
  moreover have "c \<noteq> NUL" "c \<noteq> CHR ''{''" "c \<noteq> CHR ''[''" "c \<noteq> QUOTE" "\<not> primitive_stop c"
    using assms(1) by (auto simp: prim_ok_def k)
  ultimately show ?thesis
    using assms(2,3)
    by (simp add: k jsmn_loop.simps(2) jsmn_alloc_token_def jsmn_fill_token_def bump_append
        primitive_stop_def)
qed

lemma loop_open:
  assumes "super_ok s T" "length T < num" "b = CHR ''{'' \<or> b = CHR ''[''"
  shows "jsmn_loop num p (b # r) s T n =
    jsmn_loop num (Suc p) r (int (length T))
      (bump s T @ [\<lparr>tok_type = (if b = CHR ''{'' then JSMN_OBJECT else JSMN_ARRAY),
                    tok_start = int p, tok_end = -1, tok_size = 0\<rparr>]) (Suc n)"
  using assms by (auto simp: jsmn_loop.simps(2) jsmn_alloc_token_def bump_append)

lemma loop_close:
  assumes "b = CHR ''}'' \<or> b = CHR '']''"
    and "tok_type a = (if b = CHR ''}'' then JSMN_OBJECT else JSMN_ARRAY)" "tok_open a"
    and "\<forall>t\<in>set C. \<not> tok_open t"
  shows "jsmn_loop num p (b # r) s (A @ a # C) n =
    jsmn_loop num (Suc p) r (super_of (last_open A)) (A @ a\<lparr>tok_end := int p + 1\<rparr> # C) n"
proof -
  have lo: "last_open (A @ a # C) = Some (length A)"
    by (rule last_open_mid [OF assms(3,4)])
  have "find_open (A @ a\<lparr>tok_end := int p + 1\<rparr> # C) (Suc (length A)) = last_open A"
    by (simp add: tok_open_def find_open_append)
  with lo assms(1,2) show ?thesis
    by (auto simp: jsmn_loop.simps(2) Let_def)
qed

subsection \<open>The parser on a layout tree\<close>

lemma stops_sep: "sep_ok w \<Longrightarrow> w \<noteq> [] \<or> stops r \<Longrightarrow> stops (w @ r)"
  by (cases w) (auto simp: stops_def sep_ok_def primitive_stop_def)

lemma stops_text_es: "wf_es False es \<Longrightarrow> stops r \<Longrightarrow> stops (text_es es @ r)"
  by (cases es) (auto intro!: stops_sep [of _ "text_of _ @ text_es _ @ r"])

lemma stops_text_ms: "wf_ms False ms \<Longrightarrow> stops r \<Longrightarrow> stops (text_ms ms @ r)"
  by (cases ms) (auto intro!: stops_sep simp: in_set_conv_decomp)

lemma stops_close: "stops (CHR '']'' # r)" "stops (CHR ''}'' # r)"
  by (simp_all add: stops_def primitive_stop_def)

definition parses :: "nat \<Rightarrow> cst \<Rightarrow> bool" where
  "parses num c \<longleftrightarrow> (\<forall>p r s T n. wf_cst c \<longrightarrow> super_ok s T \<longrightarrow>
     length T + length (toks_of (int p) c) \<le> num \<longrightarrow> stops r \<longrightarrow>
     jsmn_loop num p (text_of c @ r) s T n =
     jsmn_loop num (p + length (text_of c)) r (if is_container c then super_of (last_open T) else s)
       (bump s T @ toks_of (int p) c) (n + length (toks_of (int p) c)))"

definition parses_es :: "nat \<Rightarrow> celems \<Rightarrow> bool" where
  "parses_es num es \<longleftrightarrow> (\<forall>first p r A a C n. wf_es first es \<longrightarrow> tok_open a \<longrightarrow> tok_type a = JSMN_ARRAY \<longrightarrow>
     (\<forall>t\<in>set C. \<not> tok_open t) \<longrightarrow>
     length (A @ a # C) + length (toks_es (int p) es) \<le> num \<longrightarrow> stops r \<longrightarrow>
     jsmn_loop num p (text_es es @ r) (int (length A)) (A @ a # C) n =
     jsmn_loop num (p + length (text_es es)) r (int (length A))
       (A @ a\<lparr>tok_size := tok_size a + int (n_es es)\<rparr> # C @ toks_es (int p) es)
       (n + length (toks_es (int p) es)))"

text \<open>Where the parser stands after the members: at the object, or at the label of the last member.\<close>

definition super_after :: "jsmntok list \<Rightarrow> jsmntok \<Rightarrow> jsmntok list \<Rightarrow> int \<Rightarrow> cmembers \<Rightarrow> jsmntok list \<Rightarrow> int \<Rightarrow> bool" where
  "super_after A a C s ms ts s' \<longleftrightarrow> (if ms = MNil then s' = s
     else s' = int (length A) \<or> 0 \<le> s' \<and> tok_type ((A @ a # C @ ts) ! nat s') = JSMN_STRING)"

definition parses_ms :: "nat \<Rightarrow> cmembers \<Rightarrow> bool" where
  "parses_ms num ms \<longleftrightarrow> (\<forall>first p r A a C n s. wf_ms first ms \<longrightarrow> tok_open a \<longrightarrow> tok_type a = JSMN_OBJECT \<longrightarrow>
     (\<forall>t\<in>set C. \<not> tok_open t) \<longrightarrow>
     s = int (length A) \<or> \<not> first \<and> 0 \<le> s \<and> tok_type ((A @ a # C) ! nat s) = JSMN_STRING \<longrightarrow>
     length (A @ a # C) + length (toks_ms (int p) ms) \<le> num \<longrightarrow> stops r \<longrightarrow>
     (\<exists>s'. super_after A a C s ms (toks_ms (int p) ms) s' \<and>
     jsmn_loop num p (text_ms ms @ r) s (A @ a # C) n =
     jsmn_loop num (p + length (text_ms ms)) r s'
       (A @ a\<lparr>tok_size := tok_size a + int (n_ms ms)\<rparr> # C @ toks_ms (int p) ms)
       (n + length (toks_ms (int p) ms))))"

lemma parsesD:
  "parses num c \<Longrightarrow> wf_cst c \<Longrightarrow> super_ok s T \<Longrightarrow> length T + length (toks_of (int p) c) \<le> num \<Longrightarrow> stops r \<Longrightarrow>
   jsmn_loop num p (text_of c @ r) s T n =
   jsmn_loop num (p + length (text_of c)) r (if is_container c then super_of (last_open T) else s)
     (bump s T @ toks_of (int p) c) (n + length (toks_of (int p) c))"
  unfolding parses_def by blast

lemma parses_CPrim: "parses num (CPrim k)"
  unfolding parses_def using loop_prim by simp

lemma parses_CStr: "parses num (CStr k)"
  unfolding parses_def using loop_string by (simp add: str_ok_def add.commute add.left_commute)

lemma parses_es_ENil: "parses_es num ENil"
  by (simp add: parses_es_def)

lemma parses_es_ECons:
  assumes c: "parses num c" and es: "parses_es num es"
  shows "parses_es num (ECons sep c es)"
  unfolding parses_es_def
proof (intro allI impI)
  fix first p r A a C n
  assume wf: "wf_es first (ECons sep c es)" and a: "tok_open a" "tok_type a = JSMN_ARRAY"
    and C: "\<forall>t\<in>set C. \<not> tok_open t" and r: "stops r"
    and len: "length (A @ a # C) + length (toks_es (int p) (ECons sep c es)) \<le> num"
  let ?T = "A @ a # C" and ?i = "int (length A)"
  let ?q = "p + length sep" and ?r1 = "text_es es @ r"
  let ?tc = "toks_of (int ?q) c" and ?a1 = "a\<lparr>tok_size := tok_size a + 1\<rparr>"
  have "jsmn_loop num p (text_es (ECons sep c es) @ r) ?i ?T n = jsmn_loop num ?q (text_of c @ ?r1) ?i ?T n"
    using wf a by (simp add: loop_sep comma_super_def)
  also have "\<dots> = jsmn_loop num (?q + length (text_of c)) ?r1 ?i (A @ ?a1 # C @ ?tc) (n + length ?tc)"
    using parsesD [OF c, of ?i ?T ?q ?r1 n] wf len r a C
    by (simp add: super_ok_def stops_text_es bump_mid find_open_mid super_of_def add.assoc
        del: find_open.simps)
  also have "\<dots> = jsmn_loop num (?q + length (text_of c) + length (text_es es)) r ?i
      (A @ ?a1\<lparr>tok_size := tok_size ?a1 + int (n_es es)\<rparr> # (C @ ?tc) @ toks_es (int (?q + length (text_of c))) es)
      (n + length ?tc + length (toks_es (int (?q + length (text_of c))) es))"
    using es wf a C len r toks_of_closed(1) [of "int ?q" c]
    unfolding parses_es_def
    by (elim allE [of _ False] allE [of _ "?q + length (text_of c)"] allE [of _ r] allE [of _ A]
        allE [of _ ?a1] allE [of _ "C @ ?tc"] allE [of _ "n + length ?tc"])
      (simp add: ball_Un add.assoc)
  finally show "jsmn_loop num p (text_es (ECons sep c es) @ r) ?i ?T n =
     jsmn_loop num (p + length (text_es (ECons sep c es))) r ?i
       (A @ a\<lparr>tok_size := tok_size a + int (n_es (ECons sep c es))\<rparr> # C @ toks_es (int p) (ECons sep c es))
       (n + length (toks_es (int p) (ECons sep c es)))"
    by (simp add: add.assoc)
qed

lemma parses_CArr:
  assumes "parses_es num es"
  shows "parses num (CArr es w)"
  unfolding parses_def
proof (intro allI impI)
  fix p r s T n
  assume wf: "wf_cst (CArr es w)" and s: "super_ok s T" and r: "stops r"
    and len: "length T + length (toks_of (int p) (CArr es w)) \<le> num"
  let ?a = "\<lparr>tok_type = JSMN_ARRAY, tok_start = int p, tok_end = -1, tok_size = 0\<rparr>"
  let ?te = "toks_es (int (Suc p)) es" and ?r1 = "w @ CHR '']'' # r"
  let ?p1 = "Suc p + length (text_es es)"
  let ?a1 = "?a\<lparr>tok_size := int (n_es es)\<rparr>"
  have "jsmn_loop num p (text_of (CArr es w) @ r) s T n =
      jsmn_loop num (Suc p) (text_es es @ ?r1) (int (length (bump s T))) (bump s T @ ?a # []) (Suc n)"
    using s len loop_open [of s T num "CHR ''[''" p "text_es es @ ?r1" n] by simp
  also have "\<dots> = jsmn_loop num ?p1 ?r1 (int (length (bump s T)))
      (bump s T @ ?a\<lparr>tok_size := tok_size ?a + int (n_es es)\<rparr> # [] @ ?te) (Suc n + length ?te)"
    using assms wf len unfolding parses_es_def
    by (elim allE [of _ True] allE [of _ "Suc p"] allE [of _ ?r1] allE [of _ "bump s T"]
        allE [of _ ?a] allE [of _ "[]"] allE [of _ "Suc n"])
      (simp add: tok_open_def stops_sep stops_close add.commute)
  also have "\<dots> = jsmn_loop num (?p1 + length w) (CHR '']'' # r) (int (length (bump s T)))
      (bump s T @ ?a1 # ?te) (Suc n + length ?te)"
    using wf by (simp add: loop_sep comma_super_def nth_append)
  also have "\<dots> = jsmn_loop num (Suc (?p1 + length w)) r (super_of (last_open (bump s T)))
      (bump s T @ ?a1\<lparr>tok_end := int (?p1 + length w) + 1\<rparr> # ?te) (Suc n + length ?te)"
    using toks_of_closed(2) [of "int (Suc p)" es] by (intro loop_close) (auto simp: tok_open_def)
  finally show "jsmn_loop num p (text_of (CArr es w) @ r) s T n =
     jsmn_loop num (p + length (text_of (CArr es w))) r
       (if is_container (CArr es w) then super_of (last_open T) else s)
       (bump s T @ toks_of (int p) (CArr es w)) (n + length (toks_of (int p) (CArr es w)))"
    by (simp add: find_open_bump algebra_simps)
qed

lemma parses_ms_MNil: "parses_ms num MNil"
  by (auto simp: parses_ms_def super_after_def)

text \<open>A comma inside an object brings the parser back to the object.\<close>

lemma member_super:
  assumes "tok_open a" "tok_type a = JSMN_OBJECT" "\<forall>t\<in>set C. \<not> tok_open t"
    and "s = int (length A) \<or> \<not> first \<and> 0 \<le> s \<and> tok_type ((A @ a # C) ! nat s) = JSMN_STRING"
    and "first \<or> CHR '','' \<in> set sep"
  shows "(if CHR '','' \<in> set sep then comma_super (A @ a # C) s else s) = int (length A)"
  using assms find_container_mid [OF assms(1-3), of A] by (auto simp: comma_super_def)

lemma loop_colon: "jsmn_loop num p (CHR '':'' # r) s T n = jsmn_loop num (Suc p) r (int (length T) - 1) T n"
  by (simp add: jsmn_loop.simps(2))

lemma parses_ms_MCons:
  assumes c: "parses num c" and ms: "parses_ms num ms"
  shows "parses_ms num (MCons sep k w1 w2 c ms)"
  unfolding parses_ms_def
proof (intro allI impI)
  fix first p r A a C n s
  assume wf: "wf_ms first (MCons sep k w1 w2 c ms)" and a: "tok_open a" "tok_type a = JSMN_OBJECT"
    and C: "\<forall>t\<in>set C. \<not> tok_open t" and r: "stops r"
    and s: "s = int (length A) \<or> \<not> first \<and> 0 \<le> s \<and> tok_type ((A @ a # C) ! nat s) = JSMN_STRING"
    and len: "length (A @ a # C) + length (toks_ms (int p) (MCons sep k w1 w2 c ms)) \<le> num"
  let ?i = "int (length A)" and ?q = "p + length sep"
  let ?a1 = "a\<lparr>tok_size := tok_size a + 1\<rparr>"
  let ?k0 = "\<lparr>tok_type = JSMN_STRING, tok_start = int ?q + 1, tok_end = int ?q + 1 + int (length k), tok_size = 0\<rparr>"
  let ?k1 = "?k0\<lparr>tok_size := 1\<rparr>"
  let ?T1 = "A @ ?a1 # C @ [?k0]" and ?T0 = "(A @ ?a1 # C) @ ?k0 # []"
  let ?v = "?q + length k + 2 + length w1 + 1 + length w2"
  let ?r1 = "text_ms ms @ r" and ?tc = "toks_of (int ?v) c"
  let ?s1 = "if is_container c then ?i else int (length (A @ ?a1 # C))"
  have closed: "\<not> tok_open ?k0" "\<not> tok_open ?k1" by (auto simp: tok_open_def)
  have "jsmn_loop num p (text_ms (MCons sep k w1 w2 c ms) @ r) s (A @ a # C) n =
      jsmn_loop num ?q (QUOTE # k @ QUOTE # (w1 @ CHR '':'' # w2 @ text_of c @ ?r1)) ?i (A @ a # C) n"
    using wf member_super [OF a C s] by (simp add: loop_sep)
  also have "\<dots> = jsmn_loop num (?q + length k + 2) (w1 @ CHR '':'' # w2 @ text_of c @ ?r1) ?i ?T1 (Suc n)"
    using wf len by (subst loop_string) (auto simp: str_ok_def super_ok_def bump_mid)
  also have "\<dots> = jsmn_loop num ?v (text_of c @ ?r1) (int (length (A @ ?a1 # C))) ?T0 (Suc n)"
    using wf by (simp add: loop_ws loop_colon)
  also have "\<dots> = jsmn_loop num (?v + length (text_of c)) ?r1 ?s1 ((A @ ?a1 # C) @ ?k1 # ?tc) (Suc n + length ?tc)"
    using parsesD [OF c, of "int (length (A @ ?a1 # C))" ?T0 ?v ?r1 "Suc n"] wf len r a C closed
      find_open_mid [of ?a1 "C @ [?k0]" A] bump_mid [OF refl, of "A @ ?a1 # C" ?k0 "[]"]
    by (simp add: super_ok_def stops_text_ms super_of_def ball_Un algebra_simps del: find_open.simps)
  also have "((A @ ?a1 # C) @ ?k1 # ?tc) = A @ ?a1 # (C @ ?k1 # ?tc)" by simp
  finally have step: "jsmn_loop num p (text_ms (MCons sep k w1 w2 c ms) @ r) s (A @ a # C) n =
      jsmn_loop num (?v + length (text_of c)) ?r1 ?s1 (A @ ?a1 # (C @ ?k1 # ?tc)) (Suc n + length ?tc)" .
  have "\<exists>s'. super_after A ?a1 (C @ ?k1 # ?tc) ?s1 ms (toks_ms (int (?v + length (text_of c))) ms) s' \<and>
     jsmn_loop num (?v + length (text_of c)) ?r1 ?s1 (A @ ?a1 # (C @ ?k1 # ?tc)) (Suc n + length ?tc) =
     jsmn_loop num (?v + length (text_of c) + length (text_ms ms)) r s'
       (A @ ?a1\<lparr>tok_size := tok_size ?a1 + int (n_ms ms)\<rparr> # (C @ ?k1 # ?tc) @
          toks_ms (int (?v + length (text_of c))) ms)
       (Suc n + length ?tc + length (toks_ms (int (?v + length (text_of c))) ms))"
  proof (rule ms [unfolded parses_ms_def, rule_format])
    show "wf_ms False ms" "tok_open ?a1" "tok_type ?a1 = JSMN_OBJECT" "stops r"
      using wf a r by simp_all
    show "\<not> tok_open t" if "t \<in> set (C @ ?k1 # ?tc)" for t
      using that C closed toks_of_closed(1) [of "int ?v" c] by (auto simp del: toks_of.simps)
    show "?s1 = ?i \<or> \<not> False \<and> 0 \<le> ?s1 \<and> tok_type ((A @ ?a1 # (C @ ?k1 # ?tc)) ! nat ?s1) = JSMN_STRING"
      using nth_append_length [of "A @ ?a1 # C" ?k1 ?tc] by (simp add: nat_add_distrib)
    show "length (A @ ?a1 # (C @ ?k1 # ?tc)) + length (toks_ms (int (?v + length (text_of c))) ms) \<le> num"
      using len by (simp add: algebra_simps)
  qed
  then obtain s' where s': "super_after A ?a1 (C @ ?k1 # ?tc) ?s1 ms (toks_ms (int (?v + length (text_of c))) ms) s'"
    "jsmn_loop num (?v + length (text_of c)) ?r1 ?s1 (A @ ?a1 # (C @ ?k1 # ?tc)) (Suc n + length ?tc) =
     jsmn_loop num (?v + length (text_of c) + length (text_ms ms)) r s'
       (A @ ?a1\<lparr>tok_size := tok_size ?a1 + int (n_ms ms)\<rparr> # (C @ ?k1 # ?tc) @
          toks_ms (int (?v + length (text_of c))) ms)
       (Suc n + length ?tc + length (toks_ms (int (?v + length (text_of c))) ms))" by blast
  have after: "super_after A a C s (MCons sep k w1 w2 c ms) (?k1 # ?tc @ toks_ms (int (?v + length (text_of c))) ms) s'"
    using s'(1) nth_append_length [of "A @ a # C" ?k1 ?tc] nth_append_length [of "A @ ?a1 # C" ?k1 ?tc]
    by (auto simp: super_after_def nat_add_distrib nth_append nth_Cons' split: if_splits)
  show "\<exists>s'. super_after A a C s (MCons sep k w1 w2 c ms) (toks_ms (int p) (MCons sep k w1 w2 c ms)) s' \<and>
     jsmn_loop num p (text_ms (MCons sep k w1 w2 c ms) @ r) s (A @ a # C) n =
     jsmn_loop num (p + length (text_ms (MCons sep k w1 w2 c ms))) r s'
       (A @ a\<lparr>tok_size := tok_size a + int (n_ms (MCons sep k w1 w2 c ms))\<rparr> # C @ toks_ms (int p) (MCons sep k w1 w2 c ms))
       (n + length (toks_ms (int p) (MCons sep k w1 w2 c ms)))"
    using step s'(2) after by (intro exI [of _ s']) (simp add: algebra_simps)
qed

lemma parses_CObj:
  assumes "parses_ms num ms"
  shows "parses num (CObj ms w)"
  unfolding parses_def
proof (intro allI impI)
  fix p r s T n
  assume wf: "wf_cst (CObj ms w)" and s: "super_ok s T" and r: "stops r"
    and len: "length T + length (toks_of (int p) (CObj ms w)) \<le> num"
  let ?a = "\<lparr>tok_type = JSMN_OBJECT, tok_start = int p, tok_end = -1, tok_size = 0\<rparr>"
  let ?te = "toks_ms (int (Suc p)) ms" and ?r1 = "w @ CHR ''}'' # r"
  let ?p1 = "Suc p + length (text_ms ms)"
  let ?a1 = "?a\<lparr>tok_size := int (n_ms ms)\<rparr>"
  have "\<exists>s'. super_after (bump s T) ?a [] (int (length (bump s T))) ms ?te s' \<and>
      jsmn_loop num (Suc p) (text_ms ms @ ?r1) (int (length (bump s T))) (bump s T @ ?a # []) (Suc n) =
      jsmn_loop num ?p1 ?r1 s'
      (bump s T @ ?a\<lparr>tok_size := tok_size ?a + int (n_ms ms)\<rparr> # [] @ ?te) (Suc n + length ?te)"
    using wf len
    by (intro assms [unfolded parses_ms_def, rule_format, of True])
      (auto simp: tok_open_def stops_sep stops_close add.commute)
  then obtain s' where s': "jsmn_loop num (Suc p) (text_ms ms @ ?r1) (int (length (bump s T))) (bump s T @ ?a # []) (Suc n) =
      jsmn_loop num ?p1 ?r1 s' (bump s T @ ?a1 # ?te) (Suc n + length ?te)" by auto
  have "jsmn_loop num p (text_of (CObj ms w) @ r) s T n =
      jsmn_loop num (Suc p) (text_ms ms @ ?r1) (int (length (bump s T))) (bump s T @ ?a # []) (Suc n)"
    using s len loop_open [of s T num "CHR ''{''" p "text_ms ms @ ?r1" n] by simp
  also note s'
  also have "\<exists>s''. jsmn_loop num ?p1 ?r1 s' (bump s T @ ?a1 # ?te) (Suc n + length ?te) =
      jsmn_loop num (?p1 + length w) (CHR ''}'' # r) s'' (bump s T @ ?a1 # ?te) (Suc n + length ?te)"
    using wf loop_sep by (metis wf_cst.simps(4))
  then obtain s'' where "jsmn_loop num ?p1 ?r1 s' (bump s T @ ?a1 # ?te) (Suc n + length ?te) =
      jsmn_loop num (?p1 + length w) (CHR ''}'' # r) s'' (bump s T @ ?a1 # ?te) (Suc n + length ?te)" ..
  also have "\<dots> = jsmn_loop num (Suc (?p1 + length w)) r (super_of (last_open (bump s T)))
      (bump s T @ ?a1\<lparr>tok_end := int (?p1 + length w) + 1\<rparr> # ?te) (Suc n + length ?te)"
    using toks_of_closed(3) [of "int (Suc p)" ms] by (intro loop_close) (auto simp: tok_open_def)
  finally show "jsmn_loop num p (text_of (CObj ms w) @ r) s T n =
     jsmn_loop num (p + length (text_of (CObj ms w))) r
       (if is_container (CObj ms w) then super_of (last_open T) else s)
       (bump s T @ toks_of (int p) (CObj ms w)) (n + length (toks_of (int p) (CObj ms w)))"
    by (simp add: find_open_bump algebra_simps)
qed

lemma jsmn_loop_cst: "parses num c" and jsmn_loop_es: "parses_es num es" and jsmn_loop_ms: "parses_ms num ms"
  by (induction c and es and ms)
    (auto intro: parses_CPrim parses_CStr parses_CArr parses_CObj parses_es_ENil parses_es_ECons
      parses_ms_MNil parses_ms_MCons)

text \<open>Parsing a whole text: white space, a layout tree, white space.\<close>

lemma jsmn_parse_cst:
  assumes "wf_cst c" "ws_ok w1" "ws_ok w2" "length (toks_of 0 c) \<le> num"
  shows "\<exists>s. jsmn_parse jsmn_init (w1 @ text_of c @ w2) [] num =
    (JCount (length (toks_of 0 c)), \<lparr>jpos = length (w1 @ text_of c @ w2), toksuper = s\<rparr>,
     toks_of (int (length w1)) c)"
proof -
  let ?p = "length w1"
  have "stops w2" using assms(3) by (cases w2) (auto simp: stops_def ws_ok_def primitive_stop_def)
  then have "jsmn_parse jsmn_init (w1 @ text_of c @ w2) [] num =
     jsmn_loop num (?p + length (text_of c)) w2 (-1) (toks_of (int ?p) c) (length (toks_of 0 c))"
    using assms parsesD [OF jsmn_loop_cst, of c "-1" "[]" ?p num w2 0] length_toks_of [of "int ?p" c]
    by (simp add: jsmn_parse_def jsmn_init_def loop_ws super_ok_def bump_def super_of_def if_distrib cong: if_cong)
  also have "\<dots> = jsmn_loop num (?p + length (text_of c) + length w2) [] (-1) (toks_of (int ?p) c) (length (toks_of 0 c))"
    using loop_ws [OF assms(3), of num _ "[]"] by simp
  finally show ?thesis
    using last_open_closed [of "toks_of (int ?p) c" "[]"] toks_of_closed(1) [of "int ?p" c]
    by (simp add: add.assoc)
qed

subsection \<open>Running out of tokens and resuming\<close>

lemma scan_string_le: "scan_string cs = Inr n \<Longrightarrow> n < length cs"
proof (induction cs arbitrary: n rule: length_induct)
  case (1 cs)
  then show ?case
  proof (cases cs)
    case (Cons c ds)
    have IH: "scan_string es = Inr m \<Longrightarrow> length es < length cs \<Longrightarrow> m < length es" for es m
      using 1 by blast
    show ?thesis
    proof (cases "c = BACKSLASH \<and> ds \<noteq> []")
      case True
      then obtain e u where ds: "ds = e # u" by (cases ds) auto
      consider m where "scan_string u = Inr m" "n = 2 + m"
        | k m where "scan_string (drop k u) = Inr m" "n = 2 + k + m"
        using 1(2) Cons True ds
        by (auto simp: scan_string.simps(2) scan_shift_eq_Inr split: if_splits option.splits)
      then show ?thesis
        using IH [of u] IH [of "drop _ u"] Cons ds by cases fastforce+
    next
      case False
      then show ?thesis
        using 1(2) Cons IH [of ds]
        by (auto simp: scan_string.simps(2) scan_shift_eq_Inr split: if_splits)
    qed
  qed (simp add: scan_string.simps)
qed

lemma scan_string_no_nomem: "scan_string cs \<noteq> Inl JSMN_ERROR_NOMEM"
proof (induction cs rule: scan_string.induct)
  case (2 c cs)
  then show ?case
    by (auto simp: scan_string.simps(2) scan_shift_def split: if_splits option.splits sum.splits)
qed (simp add: scan_string.simps)

lemma scan_primitive_le: "scan_primitive cs = Some n \<Longrightarrow> n \<le> length cs"
  by (induction cs arbitrary: n) (auto split: if_splits)

lemma scan_primitive_pos:
  "scan_primitive (c # cs) = Some n \<Longrightarrow> c \<noteq> NUL \<Longrightarrow> \<not> primitive_stop c \<Longrightarrow> 0 < n"
  by (auto split: if_splits)

text \<open>The branches of the loop: how it stops, how it asks for a token, how it goes on.\<close>

definition loop_stop :: "nat \<Rightarrow> string \<Rightarrow> int \<Rightarrow> jsmntok list \<Rightarrow> jsmn_ret \<Rightarrow> bool" where
  "loop_stop p r s T e \<longleftrightarrow> e \<noteq> JSMN_ERROR_NOMEM \<and>
     (\<forall>num. jsmn_loop num p r s T (length T) = (e, \<lparr>jpos = p, toksuper = s\<rparr>, T))"

definition loop_alloc ::
  "nat \<Rightarrow> string \<Rightarrow> int \<Rightarrow> jsmntok list \<Rightarrow> nat \<Rightarrow> int \<Rightarrow> jsmntok list \<Rightarrow> bool" where
  "loop_alloc p r s T k s' T' \<longleftrightarrow> 0 < k \<and> k \<le> length r \<and> length T' = Suc (length T) \<and>
     (\<forall>num. jsmn_loop num p r s T (length T) =
        (if num \<le> length T then (JSMN_ERROR_NOMEM, \<lparr>jpos = p, toksuper = s\<rparr>, T)
         else jsmn_loop num (p + k) (drop k r) s' T' (length T')))"

definition loop_move ::
  "nat \<Rightarrow> string \<Rightarrow> int \<Rightarrow> jsmntok list \<Rightarrow> int \<Rightarrow> jsmntok list \<Rightarrow> bool" where
  "loop_move p r s T s' T' \<longleftrightarrow> r \<noteq> [] \<and> length T' = length T \<and>
     (\<forall>num. jsmn_loop num p r s T (length T) = jsmn_loop num (p + 1) (drop 1 r) s' T' (length T'))"

lemma loop_branches_end: "\<exists>e. loop_stop p [] s T e"
  by (auto simp: loop_stop_def)

lemma loop_branches_open:
  assumes "c = CHR ''{'' \<or> c = CHR ''[''"
  shows "\<exists>s' T'. loop_alloc p (c # cs) s T 1 s' T'"
proof -
  have "loop_alloc p (c # cs) s T 1 (int (length T))
      (bump s (T @ [\<lparr>tok_type = (if c = CHR ''{'' then JSMN_OBJECT else JSMN_ARRAY),
                 tok_start = int p, tok_end = -1, tok_size = 0\<rparr>]))"
    using assms
    by (elim disjE) (simp_all add: loop_alloc_def jsmn_loop.simps(2) jsmn_alloc_token_def)
  then show ?thesis by blast
qed

lemma loop_branches_close:
  assumes "c = CHR ''}'' \<or> c = CHR '']''"
  shows "(\<exists>e. loop_stop p (c # cs) s T e) \<or> (\<exists>s' T'. loop_move p (c # cs) s T s' T')"
proof (cases "find_open T (length T)")
  case None
  have "loop_stop p (c # cs) s T JSMN_ERROR_INVAL"
    using assms None by (elim disjE) (simp_all add: loop_stop_def jsmn_loop.simps(2))
  then show ?thesis by blast
next
  case (Some i)
  show ?thesis
  proof (cases "tok_type (T ! i) = (if c = CHR ''}'' then JSMN_OBJECT else JSMN_ARRAY)")
    case True
    have "loop_move p (c # cs) s T
        (super_of (find_open (T[i := (T ! i)\<lparr>tok_end := int p + 1\<rparr>]) (Suc i)))
        (T[i := (T ! i)\<lparr>tok_end := int p + 1\<rparr>])"
      using assms True Some
      by (elim disjE) (simp_all add: loop_move_def jsmn_loop.simps(2) Let_def)
    then show ?thesis by blast
  next
    case False
    have "loop_stop p (c # cs) s T JSMN_ERROR_INVAL"
      using assms False Some by (elim disjE) (simp_all add: loop_stop_def jsmn_loop.simps(2))
    then show ?thesis by blast
  qed
qed

lemma loop_branches_string:
  "(\<exists>e. loop_stop p (QUOTE # cs) s T e) \<or> (\<exists>k s' T'. loop_alloc p (QUOTE # cs) s T k s' T')"
proof (cases "scan_string cs")
  case (Inl e)
  then show ?thesis
    using scan_string_no_nomem [of cs] by (auto simp: loop_stop_def jsmn_loop.simps(2))
next
  case (Inr n)
  then have "loop_alloc p (QUOTE # cs) s T (n + 2) s
      (bump s (T @ [jsmn_fill_token JSMN_STRING (int p + 1) (int p + 1 + int n)]))"
    using scan_string_le [OF Inr]
    by (auto simp: loop_alloc_def jsmn_loop.simps(2) jsmn_alloc_token_def)
  then show ?thesis by blast
qed

lemma loop_branches_white:
  "c \<in> {TAB, CR, LF, SPACE, CHR '':'', CHR '',''} \<Longrightarrow> \<exists>s' T'. loop_move p (c # cs) s T s' T'"
  by (elim insertE emptyE) (auto simp: loop_move_def jsmn_loop.simps(2))

lemma loop_branches_primitive:
  assumes "c \<notin> {NUL, CHR ''{'', CHR ''['', CHR ''}'', CHR '']'', QUOTE, TAB, CR, LF, SPACE, CHR '':'', CHR '',''}"
  shows "(\<exists>e. loop_stop p (c # cs) s T e) \<or> (\<exists>k s' T'. loop_alloc p (c # cs) s T k s' T')"
proof -
  have ns: "\<not> primitive_stop c" using assms by (simp add: primitive_stop_def)
  show ?thesis
  proof (cases "scan_primitive (c # cs)")
    case None
    then have "loop_stop p (c # cs) s T JSMN_ERROR_INVAL"
      using assms by (simp add: loop_stop_def jsmn_loop.simps(2) del: scan_primitive.simps)
    then show ?thesis by blast
  next
    case (Some n)
    then have "loop_alloc p (c # cs) s T n s
        (bump s (T @ [jsmn_fill_token JSMN_PRIMITIVE (int p) (int p + int n)]))"
      using assms scan_primitive_le [OF Some] scan_primitive_pos [OF Some] ns
      by (simp add: loop_alloc_def jsmn_loop.simps(2) jsmn_alloc_token_def del: scan_primitive.simps)
    then show ?thesis by blast
  qed
qed

lemma loop_branches_Cons:
  "(\<exists>e. loop_stop p (c # cs) s T e) \<or> (\<exists>k s' T'. loop_alloc p (c # cs) s T k s' T') \<or>
   (\<exists>s' T'. loop_move p (c # cs) s T s' T')"
proof -
  consider "c = NUL" | "c = CHR ''{'' \<or> c = CHR ''[''" | "c = CHR ''}'' \<or> c = CHR '']''" | "c = QUOTE"
    | "c \<in> {TAB, CR, LF, SPACE, CHR '':'', CHR '',''}"
    | "c \<notin> {NUL, CHR ''{'', CHR ''['', CHR ''}'', CHR '']'', QUOTE, TAB, CR, LF, SPACE, CHR '':'', CHR '',''}"
    unfolding insert_iff empty_iff by argo
  then show ?thesis
  proof cases
    case 1
    then show ?thesis by (auto simp: loop_stop_def jsmn_loop.simps(2))
  next
    case 2
    from loop_branches_open [OF 2, of p cs s T] show ?thesis by metis
  next
    case 3
    from loop_branches_close [OF 3, of p cs s T] show ?thesis by metis
  next
    case 4
    from loop_branches_string [of p cs s T] show ?thesis unfolding 4 by metis
  next
    case 5
    from loop_branches_white [OF 5, of p cs s T] show ?thesis by metis
  next
    case 6
    from loop_branches_primitive [OF 6, of p cs s T] show ?thesis by metis
  qed
qed

lemma loop_branches:
  "(\<exists>e. loop_stop p r s T e) \<or> (\<exists>k s' T'. loop_alloc p r s T k s' T') \<or> (\<exists>s' T'. loop_move p r s T s' T')"
  using loop_branches_end [of p s T] loop_branches_Cons [of p _ _ s T] by (cases r) simp_all

text \<open>
  Each token takes at least one byte, so the array never grows beyond the text; when the
  parser stops for want of tokens it has used all of them, and a later call with a larger
  array goes on exactly where a first call with that array would be; any other outcome
  does not depend on the size of the array.
\<close>

definition loop_outcome ::
  "nat \<Rightarrow> nat \<Rightarrow> string \<Rightarrow> int \<Rightarrow> jsmntok list \<Rightarrow> jsmn_ret \<times> jsmn_parser \<times> jsmntok list \<Rightarrow> bool" where
  "loop_outcome num p r s T res \<longleftrightarrow> (case res of (ret, P, T') \<Rightarrow>
     length T' + length (drop (jpos P - p) r) \<le> length T + length r \<and> p \<le> jpos P \<and>
     (if ret = JSMN_ERROR_NOMEM
      then num \<le> length T' \<and>
        (\<forall>num' \<ge> num. jsmn_loop num' p r s T (length T) =
           jsmn_loop num' (jpos P) (drop (jpos P - p) r) (toksuper P) T' (length T'))
      else \<forall>num' \<ge> num. jsmn_loop num' p r s T (length T) = res))"

lemma loop_outcome_alloc:
  assumes "loop_alloc p r s T k s' T1" "length T < num"
    "loop_outcome num (p + k) (drop k r) s' T1 res"
  shows "loop_outcome num p r s T res"
proof -
  have "drop (q - (p + k)) (drop k r) = drop (q - p) r" if "p + k \<le> q" for q
    using that by simp
  with assms show ?thesis
    unfolding loop_outcome_def loop_alloc_def
    by (auto split: prod.splits if_splits simp del: drop_drop)
qed

lemma loop_outcome_move:
  assumes "loop_move p r s T s' T1" "loop_outcome num (p + 1) (drop 1 r) s' T1 res"
  shows "loop_outcome num p r s T res"
proof -
  have "drop (q - Suc p) (drop (Suc 0) r) = drop (q - p) r" if "Suc p \<le> q" for q
    using that by (simp add: Suc_diff_Suc)
  with assms show ?thesis
    unfolding loop_outcome_def loop_move_def
    by (auto split: prod.splits if_splits simp del: drop_drop)
qed

lemma jsmn_loop_outcome: "loop_outcome num p r s T (jsmn_loop num p r s T (length T))"
proof (induction r arbitrary: p s T rule: length_induct)
  case (1 r)
  note IH = 1 [rule_format]
  consider e where "loop_stop p r s T e" | k s' T' where "loop_alloc p r s T k s' T'"
    | s' T' where "loop_move p r s T s' T'"
    using loop_branches by blast
  then show ?case
  proof cases
    case 1
    then show ?thesis by (auto simp: loop_outcome_def loop_stop_def)
  next
    case 2
    show ?thesis
    proof (cases "num \<le> length T")
      case True
      with 2 show ?thesis by (simp add: loop_alloc_def loop_outcome_def)
    next
      case False
      have "loop_outcome num (p + k) (drop k r) s' T' (jsmn_loop num (p + k) (drop k r) s' T' (length T'))"
        using 2 by (intro IH) (auto simp: loop_alloc_def)
      moreover have "jsmn_loop num p r s T (length T) = jsmn_loop num (p + k) (drop k r) s' T' (length T')"
        using 2 False by (simp add: loop_alloc_def)
      ultimately show ?thesis
        using loop_outcome_alloc [OF 2] False by simp
    qed
  next
    case 3
    have "loop_outcome num (p + 1) (drop 1 r) s' T' (jsmn_loop num (p + 1) (drop 1 r) s' T' (length T'))"
      using 3 by (intro IH) (auto simp: loop_move_def)
    moreover have "jsmn_loop num p r s T (length T) = jsmn_loop num (p + 1) (drop 1 r) s' T' (length T')"
      using 3 by (auto simp: loop_move_def)
    ultimately show ?thesis
      using loop_outcome_move [OF 3] by simp
  qed
qed

end
