(* ===== verification/Overflows.thy ===== *)
theory Overflows
  imports Payz_Prelude
begin

text \<open>
  \<open>common/overflows.h\<close>: the overflow tests of 64-bit unsigned addition and multiplication,
  and that they are exact.
\<close>

definition add_overflows_u64 :: "u64 \<Rightarrow> u64 \<Rightarrow> bool" where
  "add_overflows_u64 a b \<longleftrightarrow> a + b < a"

text \<open>\<open>size_t\<close> has 64 bits, so the two casts lose nothing.\<close>

definition add_overflows_size_t :: "u64 \<Rightarrow> u64 \<Rightarrow> bool" where
  "add_overflows_size_t a b \<longleftrightarrow> (ucast a :: u64) \<noteq> a \<or> (ucast b :: u64) \<noteq> b \<or> a + b < (ucast a :: u64)"

definition mul_overflows_u64 :: "u64 \<Rightarrow> u64 \<Rightarrow> bool" where
  "mul_overflows_u64 a b = (if a = 0 then False else (let ret = a * b in ret div a \<noteq> b))"

lemma unat_u64_less: "unat (a :: u64) < 2 ^ 64"
  using unsigned_less [of a] by simp

lemma unat_add_u64: "unat (a + b :: u64) = (unat a + unat b) mod 2 ^ 64"
  by (simp add: unat_word_ariths)

lemma unat_mult_u64: "unat (a * b :: u64) = (unat a * unat b) mod 2 ^ 64"
  by (simp add: unat_word_ariths)

lemma add_overflows_u64_iff: "add_overflows_u64 a b \<longleftrightarrow> 2 ^ 64 \<le> unat a + unat b"
proof -
  have "(unat a + unat b) mod 2 ^ 64 < unat a \<longleftrightarrow> 2 ^ 64 \<le> unat a + unat b"
  proof (cases "unat a + unat b < 2 ^ 64")
    case False
    then have "(unat a + unat b) mod 2 ^ 64 = unat a + unat b - 2 ^ 64"
      using unat_u64_less [of a] unat_u64_less [of b] by (simp add: mod_if)
    with False show ?thesis using unat_u64_less [of b] by simp
  qed simp
  then show ?thesis
    unfolding add_overflows_u64_def word_less_nat_alt unat_add_u64 .
qed

lemma add_overflows_size_t_iff: "add_overflows_size_t a b \<longleftrightarrow> 2 ^ 64 \<le> unat a + unat b"
  using add_overflows_u64_iff [of a b] by (simp add: add_overflows_size_t_def add_overflows_u64_def)

lemma mul_overflows_u64_iff: "mul_overflows_u64 a b \<longleftrightarrow> 2 ^ 64 \<le> unat a * unat b"
proof (cases "a = 0")
  case True
  then show ?thesis by (simp add: mul_overflows_u64_def)
next
  case False
  then have pos: "0 < unat a" by (simp add: unat_gt_0)
  have div: "unat (a * b div a) = (unat a * unat b) mod 2 ^ 64 div unat a"
    by (simp add: unat_div unat_mult_u64)
  show ?thesis
  proof (cases "unat a * unat b < 2 ^ 64")
    case True
    then have "unat (a * b div a) = unat b" using pos div by simp
    then have "a * b div a = b" by (simp add: word_unat_eq_iff)
    with True False show ?thesis by (simp add: mul_overflows_u64_def)
  next
    case ov: False
    then have "(unat a * unat b) mod 2 ^ 64 < unat a * unat b"
      by (metis mod_less_divisor not_less order_less_le_trans zero_less_numeral zero_less_power)
    then have "unat (a * b div a) < unat b"
      using pos unfolding div by (simp add: less_mult_imp_div_less mult.commute)
    then have "a * b div a \<noteq> b" by auto
    with ov False show ?thesis by (simp add: mul_overflows_u64_def)
  qed
qed

lemma unat_add_no_overflow: "\<not> add_overflows_u64 a b \<Longrightarrow> unat (a + b) = unat a + unat b"
  by (simp add: add_overflows_u64_iff unat_add_u64)

lemma unat_mult_no_overflow: "\<not> mul_overflows_u64 a b \<Longrightarrow> unat (a * b) = unat a * unat b"
  by (simp add: mul_overflows_u64_iff unat_mult_u64)

end
