(* ===== verification/Json.thy ===== *)
theory Json
  imports Jsmn Overflows
begin

text \<open>
  \<open>common/json.c\<close>: reading JSON through the tokens of jsmn. A \<open>const jsmntok_t *\<close> is the
  list of tokens from the one pointed at to the end of its array, so \<open>tok + 1\<close> is the tail
  and a dereference at the end of the array is a fault. A \<open>const char *buffer\<close> is the
  list of its bytes.
\<close>

type_synonym tokptr = "jsmntok list"

definition deref :: "tokptr \<Rightarrow> jsmntok run" where
  "deref p = (case p of [] \<Rightarrow> None | t # _ \<Rightarrow> Some t)"

lemma deref_simps [simp]: "deref [] = None" "deref (t # ts) = Some t"
  by (simp_all add: deref_def)

text \<open>
  The bound of a loop \<open>i < tok->size\<close>. A negative \<open>size\<close> would convert to a huge
  \<open>size_t\<close> and the walk would leave the array.
\<close>

definition tok_count :: "jsmntok \<Rightarrow> nat run" where
  "tok_count t = (if tok_size t < 0 then None else Some (nat (tok_size t)))"

definition json_tok_full :: "jsmntok \<Rightarrow> int" where
  "json_tok_full t = (if tok_type t = JSMN_STRING then tok_start t - 1 else tok_start t)"

definition json_tok_full_len :: "jsmntok \<Rightarrow> int" where
  "json_tok_full_len t =
     (if tok_type t = JSMN_STRING then tok_end t - tok_start t + 2 else tok_end t - tok_start t)"

text \<open>The bytes that \<open>json_tok_full\<close> and \<open>json_tok_full_len\<close> delimit.\<close>

definition full_text :: "string \<Rightarrow> jsmntok \<Rightarrow> string run" where
  "full_text buf t = slice buf (json_tok_full t) (json_tok_full t + json_tok_full_len t)"

definition json_tok_strneq :: "string \<Rightarrow> jsmntok \<Rightarrow> string \<Rightarrow> bool run" where
  "json_tok_strneq buf t str =
     (if tok_type t \<noteq> JSMN_STRING then Some False
      else if tok_end t - tok_start t \<noteq> int (length str) then Some False
      else do { s \<leftarrow> slice buf (tok_start t) (tok_end t); Some (s = str) })"

definition json_tok_streq :: "string \<Rightarrow> jsmntok \<Rightarrow> string \<Rightarrow> bool run" where
  "json_tok_streq buf t str = json_tok_strneq buf t str"

definition json_strdup :: "string \<Rightarrow> jsmntok \<Rightarrow> string run" where
  "json_strdup buf t = do { s \<leftarrow> slice buf (tok_start t) (tok_end t); Some (tal_strndup s) }"

definition memeqstr :: "string \<Rightarrow> jsmntok \<Rightarrow> string \<Rightarrow> bool run" where
  "memeqstr buf t str =
     (if tok_end t - tok_start t \<noteq> int (length str) then Some False
      else do { s \<leftarrow> slice buf (tok_start t) (tok_end t); Some (s = str) })"

definition json_to_bool :: "string \<Rightarrow> jsmntok \<Rightarrow> bool option run" where
  "json_to_bool buf t =
     (if tok_type t \<noteq> JSMN_PRIMITIVE then Some None
      else do {
        is_true \<leftarrow> memeqstr buf t ''true'';
        if is_true then Some (Some True)
        else do {
          is_false \<leftarrow> memeqstr buf t ''false'';
          if is_false then Some (Some False) else Some None } })"

definition json_tok_is_null :: "string \<Rightarrow> jsmntok \<Rightarrow> bool run" where
  "json_tok_is_null buf t =
     (if tok_type t \<noteq> JSMN_PRIMITIVE then Some False
      else do { c \<leftarrow> char_at buf (tok_start t); Some (c = CHR ''n'') })"

subsection \<open>Walking over tokens\<close>

function json_next :: "tokptr \<Rightarrow> tokptr run"
  and json_skip :: "nat \<Rightarrow> tokptr \<Rightarrow> tokptr run" where
  "json_next [] = None"
| "json_next (t # ts) = (case tok_count t of None \<Rightarrow> None | Some n \<Rightarrow> json_skip n ts)"
| "json_skip 0 ts = Some ts"
| "json_skip (Suc n) ts = (case json_next ts of None \<Rightarrow> None | Some ts' \<Rightarrow> json_skip n ts')"
  by pat_completeness auto

lemma json_next_shrinks:
  "json_next_json_skip_dom (Inl ts) \<Longrightarrow> json_next ts = Some ts' \<Longrightarrow> length ts' < length ts"
  "json_next_json_skip_dom (Inr (n, ts)) \<Longrightarrow> json_skip n ts = Some ts' \<Longrightarrow> length ts' \<le> length ts"
proof (induction ts and n ts arbitrary: ts' and ts' rule: json_next_json_skip.pinduct)
  case (4 n ts)
  then show ?case
    by (fastforce simp: json_next.psimps json_skip.psimps split: option.splits dest: less_imp_le)
qed (auto simp: json_next.psimps json_skip.psimps less_Suc_eq_le split: option.splits)

lemma json_next_dom: "All json_next_json_skip_dom"
proof (relation "measure (\<lambda>x. case x of Inl ts \<Rightarrow> 2 * length ts | Inr (n, ts) \<Rightarrow> Suc (2 * length ts))",
    goal_cases)
  case (4 n ts ts')
  then show ?case using json_next_shrinks(1) [of ts ts'] by auto
qed auto

lemma json_next_less: "json_next ts = Some ts' \<Longrightarrow> length ts' < length ts"
  by (rule json_next_shrinks(1) [OF spec [OF json_next_dom]])

termination json_next
  by (rule json_next_dom)

text \<open>
  The loops \<open>json_for_each_arr\<close> and \<open>json_for_each_obj\<close>: the body sees the token pointer and
  the loop's state; \<open>Inl r\<close> leaves the enclosing function with \<open>r\<close>, \<open>Inr s\<close> goes on.
\<close>

fun for_arr :: "nat \<Rightarrow> tokptr \<Rightarrow> (tokptr \<Rightarrow> 's \<Rightarrow> ('r + 's) run) \<Rightarrow> 's \<Rightarrow> ('r + 's) run" where
  "for_arr 0 t f s = Some (Inr s)"
| "for_arr (Suc n) t f s =
     (case f t s of
        None \<Rightarrow> None
      | Some (Inl r) \<Rightarrow> Some (Inl r)
      | Some (Inr s') \<Rightarrow> (case json_next t of None \<Rightarrow> None | Some t' \<Rightarrow> for_arr n t' f s'))"

fun for_obj :: "nat \<Rightarrow> tokptr \<Rightarrow> (tokptr \<Rightarrow> 's \<Rightarrow> ('r + 's) run) \<Rightarrow> 's \<Rightarrow> ('r + 's) run" where
  "for_obj 0 t f s = Some (Inr s)"
| "for_obj (Suc n) t f s =
     (case f t s of
        None \<Rightarrow> None
      | Some (Inl r) \<Rightarrow> Some (Inl r)
      | Some (Inr s') \<Rightarrow> (case json_next (tl t) of None \<Rightarrow> None | Some t' \<Rightarrow> for_obj n t' f s'))"

definition json_for_each_arr :: "tokptr \<Rightarrow> (tokptr \<Rightarrow> 's \<Rightarrow> ('r + 's) run) \<Rightarrow> 's \<Rightarrow> ('r + 's) run" where
  "json_for_each_arr arr f s = do { t \<leftarrow> deref arr; n \<leftarrow> tok_count t; for_arr n (tl arr) f s }"

definition json_for_each_obj :: "tokptr \<Rightarrow> (tokptr \<Rightarrow> 's \<Rightarrow> ('r + 's) run) \<Rightarrow> 's \<Rightarrow> ('r + 's) run" where
  "json_for_each_obj obj f s = do { t \<leftarrow> deref obj; n \<leftarrow> tok_count t; for_obj n (tl obj) f s }"

text \<open>What follows a loop: the early return, or the code after it.\<close>

definition after_loop :: "('r + 's) run \<Rightarrow> ('s \<Rightarrow> 'r run) \<Rightarrow> 'r run" where
  "after_loop l k = (case l of None \<Rightarrow> None | Some (Inl r) \<Rightarrow> Some r | Some (Inr s) \<Rightarrow> k s)"

definition json_get_membern :: "string \<Rightarrow> tokptr \<Rightarrow> string \<Rightarrow> tokptr option run" where
  "json_get_membern buf tok label = do {
     t0 \<leftarrow> deref tok;
     if tok_type t0 \<noteq> JSMN_OBJECT then Some None
     else after_loop
       (json_for_each_obj tok
          (\<lambda>t _. do { k \<leftarrow> deref t;
                      eq \<leftarrow> json_tok_strneq buf k label;
                      Some (if eq then Inl (Some (tl t)) else Inr ()) }) ())
       (\<lambda>_. Some None) }"

definition json_get_member :: "string \<Rightarrow> tokptr \<Rightarrow> string \<Rightarrow> tokptr option run" where
  "json_get_member buf tok label = json_get_membern buf tok label"

definition json_get_arr :: "tokptr \<Rightarrow> nat \<Rightarrow> tokptr option run" where
  "json_get_arr tok index = do {
     t0 \<leftarrow> deref tok;
     if tok_type t0 \<noteq> JSMN_ARRAY then Some None
     else after_loop
       (json_for_each_arr tok (\<lambda>t i. Some (if i = 0 then Inl (Some t) else Inr (i - 1))) index)
       (\<lambda>_. Some None) }"

subsection \<open>Tokens that stand for a layout tree\<close>

fun es_list :: "celems \<Rightarrow> cst list" where
  "es_list ENil = []"
| "es_list (ECons sep c es) = c # es_list es"

fun ms_list :: "cmembers \<Rightarrow> (string \<times> cst) list" where
  "ms_list MNil = []"
| "ms_list (MCons sep k w1 w2 c ms) = (k, c) # ms_list ms"

lemma length_es_list [simp]: "length (es_list es) = n_es es"
  by (induction es) auto

lemma length_ms_list [simp]: "length (ms_list ms) = n_ms ms"
  by (induction ms) auto

lemma json_next_toks_of [simp]: "json_next (toks_of p c @ rest) = Some rest"
  and json_skip_toks_es [simp]: "json_skip (n_es es) (toks_es p es @ rest) = Some rest"
  and json_skip_toks_ms [simp]: "json_skip (n_ms ms) (toks_ms p ms @ rest) = Some rest"
  by (induction c and es and ms arbitrary: p rest and p rest and p rest)
    (simp_all add: tok_count_def)

text \<open>
  \<open>denotes buf ts c\<close>: the token pointer \<open>ts\<close> into the text \<open>buf\<close> stands for the layout tree
  \<open>c\<close>. \<open>inner\<close> says in addition that a separator or a closing bracket follows, as it does for
  every value inside an array or an object.
\<close>

definition denotes :: "string \<Rightarrow> tokptr \<Rightarrow> cst \<Rightarrow> bool" where
  "denotes buf ts c \<longleftrightarrow> wf_cst c \<and>
     (\<exists>a b rest. buf = a @ text_of c @ b \<and> ts = toks_of (int (length a)) c @ rest)"

definition stop_next :: "string \<Rightarrow> bool" where
  "stop_next b \<longleftrightarrow> b \<noteq> [] \<and> primitive_stop (hd b)"

definition inner :: "string \<Rightarrow> tokptr \<Rightarrow> cst \<Rightarrow> bool" where
  "inner buf ts c \<longleftrightarrow> wf_cst c \<and>
     (\<exists>a b rest. buf = a @ text_of c @ b \<and> ts = toks_of (int (length a)) c @ rest \<and> stop_next b)"

lemma denotesI:
  "wf_cst c \<Longrightarrow> buf = a @ text_of c @ b \<Longrightarrow> ts = toks_of (int (length a)) c @ rest \<Longrightarrow> denotes buf ts c"
  by (auto simp: denotes_def)

lemma innerI:
  "wf_cst c \<Longrightarrow> stop_next b \<Longrightarrow> buf = a @ text_of c @ b \<Longrightarrow> ts = toks_of (int (length a)) c @ rest \<Longrightarrow>
   inner buf ts c"
  by (auto simp: inner_def)

lemma inner_denotes: "inner buf ts c \<Longrightarrow> denotes buf ts c"
  by (auto simp: inner_def denotes_def)

definition denotes_member :: "string \<Rightarrow> tokptr \<Rightarrow> string \<times> cst \<Rightarrow> bool" where
  "denotes_member buf ts m \<longleftrightarrow>
     (\<exists>t ts'. ts = t # ts' \<and> tok_type t = JSMN_STRING \<and>
        slice buf (tok_start t) (tok_end t) = Some (fst m) \<and> inner buf ts' (snd m))"

lemma denotes_deref: "denotes buf ts c \<Longrightarrow> \<exists>t ts'. ts = t # ts'"
  by (cases c) (auto simp: denotes_def)

fun type_of_cst :: "cst \<Rightarrow> jsmntype" where
  "type_of_cst (CPrim s) = JSMN_PRIMITIVE"
| "type_of_cst (CStr s) = JSMN_STRING"
| "type_of_cst (CArr es w) = JSMN_ARRAY"
| "type_of_cst (CObj ms w) = JSMN_OBJECT"

lemma denotes_type: "denotes buf (t # ts) c \<Longrightarrow> tok_type t = type_of_cst c"
  by (cases c) (auto simp: denotes_def)

lemma slice_mid: "slice (a @ b @ c) (int (length a)) (int (length a) + int (length b)) = Some b"
  by (rule slice_append_mid) simp_all

lemma full_hd_toks_of:
  "json_tok_full (hd (toks_of p c)) = p \<and> json_tok_full_len (hd (toks_of p c)) = int (length (text_of c))"
  by (cases c) (simp_all add: json_tok_full_def json_tok_full_len_def)

lemma toks_of_Cons: "toks_of p c = hd (toks_of p c) # tl (toks_of p c)"
  by (cases c) simp_all

lemma denotes_hd: "denotes buf (t # ts) c \<Longrightarrow>
  \<exists>a b. buf = a @ text_of c @ b \<and> t = hd (toks_of (int (length a)) c)"
  unfolding denotes_def by (metis toks_of_Cons append_Cons list.inject)

lemma denotes_full_text: "denotes buf (t # ts) c \<Longrightarrow> full_text buf t = Some (text_of c)"
  using denotes_hd [of buf t ts c] by (auto simp: full_text_def full_hd_toks_of slice_mid)

lemma slice_quoted:
  "slice (a @ QUOTE # s @ QUOTE # b) (int (length a) + 1) (int (length a) + 1 + int (length s)) = Some s"
  using slice_append_mid [of "int (length a) + 1" "a @ [QUOTE]" "int (length a) + 1 + int (length s)" s "QUOTE # b"]
  by simp

lemma denotes_string:
  "denotes buf (t # ts) (CStr s) \<Longrightarrow> slice buf (tok_start t) (tok_end t) = Some s"
  by (auto simp: denotes_def slice_quoted)

lemma denotes_prim:
  "denotes buf (t # ts) (CPrim s) \<Longrightarrow> slice buf (tok_start t) (tok_end t) = Some s"
  by (auto simp: denotes_def slice_mid)

subsection \<open>Loops over arrays and objects\<close>

fun early :: "('a \<Rightarrow> 's \<Rightarrow> ('r + 's) run) \<Rightarrow> 'a list \<Rightarrow> 's \<Rightarrow> ('r + 's) run" where
  "early f [] s = Some (Inr s)"
| "early f (x # xs) s =
     (case f x s of None \<Rightarrow> None | Some (Inl r) \<Rightarrow> Some (Inl r) | Some (Inr s') \<Rightarrow> early f xs s')"

lemma stop_next_sep: "sep_ok w \<Longrightarrow> stop_next b \<Longrightarrow> stop_next (w @ b)"
  by (cases w) (auto simp: stop_next_def sep_ok_def primitive_stop_def)

lemma stop_next_es: "wf_es False es \<Longrightarrow> stop_next b \<Longrightarrow> stop_next (text_es es @ b)"
  by (cases es) (auto simp: stop_next_def sep_ok_def primitive_stop_def neq_Nil_conv)

lemma stop_next_ms: "wf_ms False ms \<Longrightarrow> stop_next b \<Longrightarrow> stop_next (text_ms ms @ b)"
proof (cases ms)
  case (MCons sep k w1 w2 c ms')
  assume "wf_ms False ms"
  then have "sep_ok sep" "sep \<noteq> []" using MCons by auto
  then show ?thesis using MCons by (cases sep) (auto simp: stop_next_def sep_ok_def primitive_stop_def)
qed simp

lemma stop_next_close: "sep_ok w \<Longrightarrow> stop_next (w @ CHR '']'' # b)" "sep_ok w \<Longrightarrow> stop_next (w @ CHR ''}'' # b)"
  by (rule stop_next_sep; simp add: stop_next_def primitive_stop_def)+

lemma for_arr_toks_es:
  assumes "wf_es f0 es" "stop_next b"
  shows "\<exists>ptrs. list_all2 (inner (a @ text_es es @ b)) ptrs (es_list es) \<and>
     (\<forall>(f :: tokptr \<Rightarrow> 's \<Rightarrow> ('r + 's) run) s.
        for_arr (n_es es) (toks_es (int (length a)) es @ rest) f s = early f ptrs s)"
  using assms(1)
proof (induction es arbitrary: a f0 rule: es_list.induct)
  case 1
  then show ?case by simp
next
  case (2 sep c es)
  let ?a' = "a @ sep @ text_of c"
  let ?p = "toks_of (int (length (a @ sep))) c @ toks_es (int (length ?a')) es @ rest"
  obtain ptrs where ptrs: "list_all2 (inner (?a' @ text_es es @ b)) ptrs (es_list es)"
    "\<forall>(f :: tokptr \<Rightarrow> 's \<Rightarrow> ('r + 's) run) s.
       for_arr (n_es es) (toks_es (int (length ?a')) es @ rest) f s = early f ptrs s"
    using "2.IH" [of False ?a'] "2.prems" by auto
  have "inner (a @ text_es (ECons sep c es) @ b) ?p c"
    using "2.prems" by (intro innerI [where a = "a @ sep" and b = "text_es es @ b"] stop_next_es assms(2)) auto
  moreover have "toks_es (int (length a)) (ECons sep c es) @ rest = ?p"
    by (simp add: add.assoc)
  moreover have "for_arr (Suc (n_es es)) ?p f s = early f (?p # ptrs) s"
    for f :: "tokptr \<Rightarrow> 's \<Rightarrow> ('r + 's) run" and s
    using ptrs(2) by (simp split: option.splits sum.splits)
  ultimately show ?case
    using ptrs(1) by (intro exI [of _ "?p # ptrs"]) simp
qed

lemma for_obj_toks_ms:
  assumes "wf_ms f0 ms" "stop_next b"
  shows "\<exists>ptrs. list_all2 (denotes_member (a @ text_ms ms @ b)) ptrs (ms_list ms) \<and>
     (\<forall>(f :: tokptr \<Rightarrow> 's \<Rightarrow> ('r + 's) run) s.
        for_obj (n_ms ms) (toks_ms (int (length a)) ms @ rest) f s = early f ptrs s)"
  using assms(1)
proof (induction ms arbitrary: a f0 rule: ms_list.induct)
  case 1
  then show ?case by simp
next
  case (2 sep k w1 w2 c ms)
  let ?a1 = "a @ sep @ QUOTE # k @ QUOTE # w1 @ CHR '':'' # w2"
  let ?a' = "?a1 @ text_of c"
  let ?k = "\<lparr>tok_type = JSMN_STRING, tok_start = int (length (a @ sep)) + 1,
      tok_end = int (length (a @ sep)) + 1 + int (length k), tok_size = 1\<rparr>"
  let ?v = "toks_of (int (length ?a1)) c @ toks_ms (int (length ?a')) ms @ rest"
  let ?buf = "a @ text_ms (MCons sep k w1 w2 c ms) @ b"
  obtain ptrs where ptrs: "list_all2 (denotes_member (?a' @ text_ms ms @ b)) ptrs (ms_list ms)"
    "\<forall>(f :: tokptr \<Rightarrow> 's \<Rightarrow> ('r + 's) run) s.
       for_obj (n_ms ms) (toks_ms (int (length ?a')) ms @ rest) f s = early f ptrs s"
    using "2.IH" [of False ?a'] "2.prems" by auto
  have "inner ?buf ?v c"
    using "2.prems" by (intro innerI [where a = ?a1 and b = "text_ms ms @ b"] stop_next_ms assms(2)) auto
  moreover have "slice ?buf (int (length (a @ sep)) + 1) (int (length (a @ sep)) + 1 + int (length k)) = Some k"
    using slice_quoted [of "a @ sep" k "w1 @ CHR '':'' # w2 @ text_of c @ text_ms ms @ b"] by simp
  ultimately have "denotes_member ?buf (?k # ?v) (k, c)"
    by (simp add: denotes_member_def)
  moreover have "toks_ms (int (length a)) (MCons sep k w1 w2 c ms) @ rest = ?k # ?v"
    by (simp add: algebra_simps)
  moreover have "for_obj (Suc (n_ms ms)) (?k # ?v) f s = early f ((?k # ?v) # ptrs) s"
    for f :: "tokptr \<Rightarrow> 's \<Rightarrow> ('r + 's) run" and s
    using ptrs(2) by (simp split: option.splits sum.splits)
  ultimately show ?case
    using ptrs(1) by (intro exI [of _ "(?k # ?v) # ptrs"]) simp
qed

lemma json_for_each_arr_denotes:
  assumes "denotes buf ts (CArr es w)"
  shows "\<exists>ptrs. list_all2 (inner buf) ptrs (es_list es) \<and>
     (\<forall>(f :: tokptr \<Rightarrow> 's \<Rightarrow> ('r + 's) run) s. json_for_each_arr ts f s = early f ptrs s)"
proof -
  obtain a b rest where buf: "buf = (a @ [CHR ''['']) @ text_es es @ (w @ CHR '']'' # b)"
    and ts: "ts = toks_of (int (length a)) (CArr es w) @ rest" and wf: "wf_es True es" "sep_ok w"
    using assms by (auto simp: denotes_def)
  have "json_for_each_arr ts f s =
      for_arr (n_es es) (toks_es (int (length (a @ [CHR ''['']))) es @ rest) f s"
    for f :: "tokptr \<Rightarrow> 's \<Rightarrow> ('r + 's) run" and s
    by (simp add: ts json_for_each_arr_def tok_count_def add.commute)
  then show ?thesis
    using for_arr_toks_es [OF wf(1) stop_next_close(1) [OF wf(2)], where a = "a @ [CHR ''['']"
        and rest = rest and 's = 's and 'r = 'r]
    unfolding buf by metis
qed

lemma json_for_each_obj_denotes:
  assumes "denotes buf ts (CObj ms w)"
  shows "\<exists>ptrs. list_all2 (denotes_member buf) ptrs (ms_list ms) \<and>
     (\<forall>(f :: tokptr \<Rightarrow> 's \<Rightarrow> ('r + 's) run) s. json_for_each_obj ts f s = early f ptrs s)"
proof -
  obtain a b rest where buf: "buf = (a @ [CHR ''{'']) @ text_ms ms @ (w @ CHR ''}'' # b)"
    and ts: "ts = toks_of (int (length a)) (CObj ms w) @ rest" and wf: "wf_ms True ms" "sep_ok w"
    using assms by (auto simp: denotes_def)
  have "json_for_each_obj ts f s =
      for_obj (n_ms ms) (toks_ms (int (length (a @ [CHR ''{'']))) ms @ rest) f s"
    for f :: "tokptr \<Rightarrow> 's \<Rightarrow> ('r + 's) run" and s
    by (simp add: ts json_for_each_obj_def tok_count_def add.commute)
  then show ?thesis
    using for_obj_toks_ms [OF wf(1) stop_next_close(2) [OF wf(2)], where a = "a @ [CHR ''{'']"
        and rest = rest and 's = 's and 'r = 'r]
    unfolding buf by metis
qed

text \<open>The member lookup finds the first member with the label, the index lookup the element.\<close>

lemma denotes_member_strneq:
  assumes "denotes_member buf ptr m"
  shows "(do { k \<leftarrow> deref ptr; eq \<leftarrow> json_tok_strneq buf k label;
               Some (if eq then Inl (Some (tl ptr)) else Inr ()) }) =
     Some (if fst m = label then Inl (Some (tl ptr)) else Inr ())"
proof -
  obtain t ts where ptr: "ptr = t # ts" and t: "tok_type t = JSMN_STRING"
    and sl: "slice buf (tok_start t) (tok_end t) = Some (fst m)"
    using assms by (auto simp: denotes_member_def)
  have len: "tok_end t - tok_start t = int (length (fst m))"
    using length_slice [OF sl] by simp
  show ?thesis
    using sl len by (auto simp: ptr json_tok_strneq_def t)
qed

lemma early_find:
  assumes "list_all2 (denotes_member buf) ptrs ms"
    and "\<And>ptr m. denotes_member buf ptr m \<Longrightarrow>
      f ptr () = Some (if fst m = label then Inl (Some (tl ptr)) else Inr ())"
  shows "case map_of ms label of
      None \<Rightarrow> early f ptrs () = Some (Inr ())
    | Some c \<Rightarrow> \<exists>ts. early f ptrs () = Some (Inl (Some ts)) \<and> inner buf ts c"
  using assms(1)
proof (induction rule: list_all2_induct)
  case Nil
  then show ?case by simp
next
  case (Cons ptr ptrs m ms)
  from Cons(1) have "inner buf (tl ptr) (snd m)" by (auto simp: denotes_member_def)
  then show ?case
    using Cons.IH assms(2) [OF Cons(1)] by (cases m) (auto split: option.splits)
qed

lemma json_get_member_denotes:
  assumes "denotes buf ts (CObj ms w)"
  shows "case map_of (ms_list ms) label of
      None \<Rightarrow> json_get_member buf ts label = Some None
    | Some c \<Rightarrow> \<exists>ts'. json_get_member buf ts label = Some (Some ts') \<and> inner buf ts' c"
proof -
  let ?f = "\<lambda>t _. do { k \<leftarrow> deref t; eq \<leftarrow> json_tok_strneq buf k label;
                     Some (if eq then Inl (Some (tl t)) else Inr ()) }"
  obtain ptrs where ptrs: "list_all2 (denotes_member buf) ptrs (ms_list ms)"
    and "\<forall>(f :: tokptr \<Rightarrow> unit \<Rightarrow> (tokptr option + unit) run) s. json_for_each_obj ts f s = early f ptrs s"
    using json_for_each_obj_denotes [OF assms] by blast
  then have loop: "json_for_each_obj ts ?f () = early ?f ptrs ()" by blast
  obtain t ts' where ts: "ts = t # ts'" using denotes_deref [OF assms] by blast
  have "tok_type t = JSMN_OBJECT" using assms denotes_type unfolding ts by fastforce
  then have "json_get_member buf ts label = after_loop (early ?f ptrs ()) (\<lambda>_. Some None)"
    using loop by (simp add: json_get_member_def json_get_membern_def ts)
  then show ?thesis
    using early_find [OF ptrs, of ?f label] denotes_member_strneq [of buf _ _ label]
    by (auto simp: after_loop_def split: option.splits)
qed

lemma json_get_member_not_object:
  "denotes buf ts c \<Longrightarrow> type_of_cst c \<noteq> JSMN_OBJECT \<Longrightarrow> json_get_member buf ts label = Some None"
  using denotes_deref [of buf ts c] denotes_type [of buf _ _ c]
  by (auto simp: json_get_member_def json_get_membern_def)

lemma early_index:
  assumes "list_all2 (inner buf) ptrs cs"
  shows "early (\<lambda>t i. Some (if i = 0 then Inl (Some t) else Inr (i - 1))) ptrs i =
     (if i < length cs then Some (Inl (Some (ptrs ! i))) else Some (Inr (i - length cs)))"
  using assms by (induction arbitrary: i rule: list_all2_induct) (auto simp: nth_Cons')

lemma json_get_arr_denotes:
  assumes "denotes buf ts (CArr es w)"
  shows "if i < n_es es then \<exists>ts'. json_get_arr ts i = Some (Some ts') \<and> inner buf ts' (es_list es ! i)
    else json_get_arr ts i = Some None"
proof -
  let ?f = "\<lambda>t i. Some (if i = 0 then Inl (Some t) else Inr (i - 1))"
  obtain ptrs where ptrs: "list_all2 (inner buf) ptrs (es_list es)"
    and "\<forall>(f :: tokptr \<Rightarrow> nat \<Rightarrow> (tokptr option + nat) run) s. json_for_each_arr ts f s = early f ptrs s"
    using json_for_each_arr_denotes [OF assms] by blast
  then have loop: "json_for_each_arr ts ?f i = early ?f ptrs i" by blast
  obtain t ts' where ts: "ts = t # ts'" using denotes_deref [OF assms] by blast
  have "tok_type t = JSMN_ARRAY" using assms denotes_type unfolding ts by fastforce
  then have "json_get_arr ts i = after_loop (early ?f ptrs i) (\<lambda>_. Some None)"
    using loop by (simp add: json_get_arr_def ts)
  then show ?thesis
    using early_index [OF ptrs, of i] list_all2_nthD2 [OF ptrs, of i] by (simp add: after_loop_def)
qed

subsection \<open>Numbers\<close>

definition digit_val :: "nat \<Rightarrow> char \<Rightarrow> nat option" where
  "digit_val base c =
     (let b = (of_char c :: nat);
          v = (if 48 \<le> b \<and> b \<le> 57 then b - 48
               else if 97 \<le> b \<and> b \<le> 122 then b - 87
               else if 65 \<le> b \<and> b \<le> 90 then b - 55 else base)
      in if v < base then Some v else None)"

definition c_isspace :: "char \<Rightarrow> bool" where
  "c_isspace c \<longleftrightarrow> c = SPACE \<or> (9 \<le> (of_char c :: nat) \<and> (of_char c :: nat) \<le> 13)"

text \<open>Digits until the first byte that is none; running off the buffer is a fault.\<close>

fun scan_digits :: "nat \<Rightarrow> string \<Rightarrow> nat \<Rightarrow> nat \<Rightarrow> (nat \<times> nat) run" where
  "scan_digits base [] acc n = None"
| "scan_digits base (c # cs) acc n =
     (case digit_val base c of
        None \<Rightarrow> Some (acc, n)
      | Some d \<Rightarrow> scan_digits base cs (acc * base + d) (Suc n))"

text \<open>\<open>strtoull\<close> with base 0 after the sign: the magnitude and how many bytes it takes.\<close>

fun scan_magnitude :: "string \<Rightarrow> (nat \<times> nat) run" where
  "scan_magnitude [] = None"
| "scan_magnitude (c # cs) =
     (if c \<noteq> CHR ''0'' then scan_digits 10 (c # cs) 0 0
      else case cs of
        [] \<Rightarrow> None
      | x # ds \<Rightarrow>
          if x \<noteq> CHR ''x'' \<and> x \<noteq> CHR ''X'' then scan_digits 8 (c # cs) 0 0
          else (case ds of
             [] \<Rightarrow> None
           | d # _ \<Rightarrow>
               if digit_val 16 d = None then Some (0, 1)
               else map_option (\<lambda>(v, n). (v, n + 2)) (scan_digits 16 ds 0 0)))"

definition scan_sign :: "string \<Rightarrow> (bool \<times> nat) run" where
  "scan_sign cs = (case cs of [] \<Rightarrow> None
     | c # _ \<Rightarrow> Some (if c = CHR ''-'' then (True, 1) else if c = CHR ''+'' then (False, 1) else (False, 0)))"

text \<open>
  \<open>strtoull(nptr, &end, 0)\<close>: the value, whether \<open>errno\<close> becomes \<open>ERANGE\<close>, and \<open>end - nptr\<close>
  (0 when there is no number).
\<close>

definition ULLONG_MAX :: nat where "ULLONG_MAX = 2 ^ 64 - 1"

definition strtoull :: "string \<Rightarrow> (u64 \<times> bool \<times> nat) run" where
  "strtoull cs = do {
     let ws = length (takeWhile c_isspace cs);
     (neg, sg) \<leftarrow> scan_sign (drop ws cs);
     (v, n) \<leftarrow> scan_magnitude (drop (ws + sg) cs);
     Some (if n = 0 then (0, False, 0)
           else if v > ULLONG_MAX then (of_nat ULLONG_MAX, True, ws + sg + n)
           else (if neg then - of_nat v else of_nat v, False, ws + sg + n)) }"

text \<open>
  \<open>json_to_u64\<close>. The code tests \<open>errno\<close> without clearing it first, so its value at entry
  (\<open>erange\<close>: it is \<open>ERANGE\<close>) is an argument.
\<close>

definition json_to_u64 :: "bool \<Rightarrow> string \<Rightarrow> jsmntok \<Rightarrow> u64 option run" where
  "json_to_u64 erange buf tok = do {
     c_assert (0 \<le> tok_start tok \<and> tok_start tok \<le> int (length buf));
     (l, range, n) \<leftarrow> strtoull (drop (nat (tok_start tok)) buf);
     if tok_start tok + int n \<noteq> tok_end tok then Some None
     else if l = of_nat ULLONG_MAX \<and> (range \<or> erange) then Some None
     else Some (Some l) }"

definition json_to_u32 :: "bool \<Rightarrow> string \<Rightarrow> jsmntok \<Rightarrow> u32 option run" where
  "json_to_u32 erange buf tok = do {
     r \<leftarrow> json_to_u64 erange buf tok;
     case r of None \<Rightarrow> Some None
     | Some v \<Rightarrow> let num = (ucast v :: u32) in if ucast num \<noteq> v then Some None else Some (Some num) }"

text \<open>\<open>unsigned int\<close> has 32 bits.\<close>

definition json_to_number :: "bool \<Rightarrow> string \<Rightarrow> jsmntok \<Rightarrow> u32 option run" where
  "json_to_number erange buf tok = do {
     r \<leftarrow> json_to_u64 erange buf tok;
     case r of None \<Rightarrow> Some None
     | Some v \<Rightarrow> let num = (ucast v :: u32) in if ucast num \<noteq> v then Some None else Some (Some num) }"

definition json_to_u16 :: "bool \<Rightarrow> string \<Rightarrow> jsmntok \<Rightarrow> u16 option run" where
  "json_to_u16 erange buf tok = do {
     r \<leftarrow> json_to_u64 erange buf tok;
     case r of None \<Rightarrow> Some None
     | Some v \<Rightarrow> let num = (ucast v :: u16) in if ucast num \<noteq> v then Some None else Some (Some num) }"

definition cisdigit :: "char \<Rightarrow> bool" where
  "cisdigit c \<longleftrightarrow> 48 \<le> (of_char c :: nat) \<and> (of_char c :: nat) \<le> 57"

definition json_tok_is_num :: "string \<Rightarrow> jsmntok \<Rightarrow> bool run" where
  "json_tok_is_num buf tok =
     (if tok_type tok \<noteq> JSMN_PRIMITIVE then Some False
      else do { s \<leftarrow> slice buf (tok_start tok) (tok_end tok); Some (list_all cisdigit s) })"

text \<open>
  \<open>json_to_millionths\<close>: the loop over the bytes of the token carries the value, the number
  of decimal places seen (-1 before the point) and whether there was a digit.
\<close>

fun millionths_loop :: "string \<Rightarrow> u64 \<Rightarrow> int \<Rightarrow> bool \<Rightarrow> (u64 \<times> int \<times> bool) option" where
  "millionths_loop [] m places has = Some (m, places, has)"
| "millionths_loop (c # cs) m places has =
     (if cisdigit c then
        (let places' = (if places \<ge> 0 then places + 1 else places);
             d = of_nat (of_char c - 48)
         in if places \<ge> 0 \<and> places' > 6 then millionths_loop cs m places' True
            else if mul_overflows_u64 m 10 then None
            else if add_overflows_u64 (m * 10) d then None
            else millionths_loop cs (m * 10 + d) places' True)
      else if c = CHR ''.'' then
        (if places \<noteq> -1 then None else millionths_loop cs m 0 has)
      else None)"

function millionths_scale :: "u64 \<Rightarrow> int \<Rightarrow> u64 option" where
  "millionths_scale m places =
     (if places < 6 then
        (if mul_overflows_u64 m 10 then None else millionths_scale (m * 10) (places + 1))
      else Some m)"
  by pat_completeness auto
termination
  by (relation "measure (\<lambda>(m, places). nat (6 - places))") auto

declare millionths_scale.simps [simp del]

definition json_to_millionths :: "string \<Rightarrow> jsmntok \<Rightarrow> u64 option run" where
  "json_to_millionths buf tok = do {
     s \<leftarrow> slice buf (tok_start tok) (tok_end tok);
     Some (case millionths_loop s 0 (-1) False of
             None \<Rightarrow> None
           | Some (m, places, has) \<Rightarrow>
               if \<not> has then None
               else millionths_scale m (if places = -1 then 0 else places)) }"

subsection \<open>Validation of the parser's output\<close>

text \<open>
  \<open>validate_jsmn_datum\<close> and \<open>validate_jsmn_keyvalue\<close>: the pointer \<open>p\<close> is the list of the
  tokens up to \<open>end\<close>, the result the advanced pointer and \<open>*valid\<close>. \<open>validate_loop\<close> is the
  loop over the children, of an object (key-value pairs) or of an array (data).
\<close>

definition no_children :: "tokptr \<Rightarrow> bool \<Rightarrow> tokptr \<times> bool" where
  "no_children p valid = (if tok_size (hd p) \<noteq> 0 then (p, False) else (tl p, valid))"

function validate_jsmn_datum :: "string \<Rightarrow> tokptr \<Rightarrow> (tokptr \<times> bool) run"
  and validate_loop :: "string \<Rightarrow> bool \<Rightarrow> nat \<Rightarrow> tokptr \<Rightarrow> (tokptr \<times> bool) run"
  and validate_jsmn_keyvalue :: "string \<Rightarrow> tokptr \<Rightarrow> (tokptr \<times> bool) run" where
  "validate_jsmn_datum buf [] = Some ([], False)"
| "validate_jsmn_datum buf (t # ts) =
     (case tok_type t of
        JSMN_STRING \<Rightarrow>
          (case slice buf (tok_start t) (tok_end t) of
             None \<Rightarrow> None
           | Some s \<Rightarrow> Some (no_children (t # ts) (utf8_check s)))
      | JSMN_UNDEFINED \<Rightarrow> Some (no_children (t # ts) True)
      | JSMN_PRIMITIVE \<Rightarrow> Some (no_children (t # ts) True)
      | JSMN_ARRAY \<Rightarrow> validate_loop buf False (nat (tok_size t)) ts
      | JSMN_OBJECT \<Rightarrow> validate_loop buf True (nat (tok_size t)) ts
      | JSMN_MINUS_ONE \<Rightarrow> Some (t # ts, False))"
| "validate_loop buf obj 0 ts = Some (ts, True)"
| "validate_loop buf obj (Suc n) ts =
     (case (if obj then validate_jsmn_keyvalue buf ts else validate_jsmn_datum buf ts) of
        None \<Rightarrow> None
      | Some (ts', valid) \<Rightarrow> if valid then validate_loop buf obj n ts' else Some (ts', False))"
| "validate_jsmn_keyvalue buf [] = Some ([], False)"
| "validate_jsmn_keyvalue buf (t # ts) =
     (if tok_type t \<noteq> JSMN_STRING \<or> tok_size t \<noteq> 1 then Some (t # ts, False)
      else case slice buf (tok_start t) (tok_end t) of
        None \<Rightarrow> None
      | Some s \<Rightarrow> if \<not> utf8_check s then Some (t # ts, False) else validate_jsmn_datum buf ts)"
  by pat_completeness auto

lemma validate_shrinks:
  "validate_jsmn_datum_validate_loop_validate_jsmn_keyvalue_dom (Inl (buf, ts)) \<Longrightarrow>
     validate_jsmn_datum buf ts = Some (ts', True) \<Longrightarrow> length ts' < length ts"
  "validate_jsmn_datum_validate_loop_validate_jsmn_keyvalue_dom (Inr (Inl (buf, obj, n, ts))) \<Longrightarrow>
     validate_loop buf obj n ts = Some (ts', True) \<Longrightarrow> length ts' \<le> length ts"
  "validate_jsmn_datum_validate_loop_validate_jsmn_keyvalue_dom (Inr (Inr (buf, ts))) \<Longrightarrow>
     validate_jsmn_keyvalue buf ts = Some (ts', True) \<Longrightarrow> length ts' < length ts"
proof (induction buf ts and buf obj n ts and buf ts arbitrary: ts' and ts' and ts'
    rule: validate_jsmn_datum_validate_loop_validate_jsmn_keyvalue.pinduct)
  case (2 buf t ts)
  then show ?case
    by (auto simp: validate_jsmn_datum.psimps no_children_def less_Suc_eq_le
        split: jsmntype.splits option.splits if_splits)
next
  case (4 buf obj n ts)
  then show ?case
    by (fastforce simp: validate_loop.psimps split: option.splits if_splits prod.splits)
next
  case (6 buf t ts)
  then show ?case
    by (fastforce simp: validate_jsmn_keyvalue.psimps split: option.splits if_splits)
qed (auto simp: validate_jsmn_datum.psimps validate_loop.psimps validate_jsmn_keyvalue.psimps)

lemma validate_dom: "All validate_jsmn_datum_validate_loop_validate_jsmn_keyvalue_dom"
proof (relation "measure (\<lambda>x. case x of Inl (buf, ts) \<Rightarrow> 3 * length ts
    | Inr (Inl (buf, obj, n, ts)) \<Rightarrow> 3 * length ts + 2 | Inr (Inr (buf, ts)) \<Rightarrow> 3 * length ts + 1)", goal_cases)
  case (6 buf obj n ts a ts' valid)
  then show ?case
    using validate_shrinks(1) [of buf ts ts'] validate_shrinks(3) [of buf ts ts']
    by (cases obj) auto
qed auto

lemma validate_datum_shrinks: "validate_jsmn_datum buf ts = Some (ts', True) \<Longrightarrow> length ts' < length ts"
  by (rule validate_shrinks(1) [OF spec [OF validate_dom]])

termination validate_jsmn_datum
  by (rule validate_dom)

function validate_jsmn_parse_output :: "string \<Rightarrow> tokptr \<Rightarrow> bool run" where
  "validate_jsmn_parse_output buf [] = Some True"
| "validate_jsmn_parse_output buf (t # ts) =
     (case validate_jsmn_datum buf (t # ts) of
        None \<Rightarrow> None
      | Some (p, valid) \<Rightarrow> if valid then validate_jsmn_parse_output buf p else Some False)"
  by pat_completeness auto
termination
  by (relation "measure (\<lambda>(buf, ts). length ts)")
    (auto simp del: validate_jsmn_datum.simps dest: validate_datum_shrinks)

lemma validate_toks_of:
  "wf_cst c \<Longrightarrow> validate_jsmn_datum (a @ text_of c @ b) (toks_of (int (length a)) c @ rest) = Some (rest, True)"
  "wf_es f es \<Longrightarrow>
     validate_loop (a @ text_es es @ b) False (n_es es) (toks_es (int (length a)) es @ rest) = Some (rest, True)"
  "wf_ms f ms \<Longrightarrow>
     validate_loop (a @ text_ms ms @ b) True (n_ms ms) (toks_ms (int (length a)) ms @ rest) = Some (rest, True)"
proof (induction c and f es and f ms arbitrary: a b rest and a b rest and a b rest
    rule: wf_cst_wf_es_wf_ms.induct)
  case (1 s)
  then show ?case by (simp add: no_children_def)
next
  case (2 s)
  then show ?case by (simp add: no_children_def slice_quoted str_ok_def)
next
  case (3 es w)
  then show ?case
    using "3.IH" [of "a @ [CHR ''['']" "w @ CHR '']'' # b" rest] by (simp add: add.commute)
next
  case (4 ms w)
  then show ?case
    using "4.IH" [of "a @ [CHR ''{'']" "w @ CHR ''}'' # b" rest] by (simp add: add.commute)
next
  case (6 f sep c es)
  then show ?case
    using "6.IH"(1) [of "a @ sep" "text_es es @ b" "toks_es (int (length (a @ sep @ text_of c))) es @ rest"]
      "6.IH"(2) [of "a @ sep @ text_of c" b rest]
    by (simp add: add.assoc del: validate_jsmn_datum.simps)
next
  case (8 f sep k w1 w2 c ms)
  let ?a1 = "a @ sep @ QUOTE # k @ QUOTE # w1 @ CHR '':'' # w2"
  have "slice (a @ text_ms (MCons sep k w1 w2 c ms) @ b) (int (length a) + int (length sep) + 1)
      (int (length a) + int (length sep) + 1 + int (length k)) = Some k"
    using slice_quoted [of "a @ sep" k "w1 @ CHR '':'' # w2 @ text_of c @ text_ms ms @ b"] by simp
  with 8 show ?case
    using "8.IH"(1) [of ?a1 "text_ms ms @ b" "toks_ms (int (length (?a1 @ text_of c))) ms @ rest"]
      "8.IH"(2) [of "?a1 @ text_of c" b rest]
    by (simp add: str_ok_def algebra_simps del: validate_jsmn_datum.simps)
qed simp_all

subsection \<open>Parsing a whole input\<close>

text \<open>
  \<open>json_parse_input\<close>. The token array is the list of the tokens handed out and its
  capacity \<open>tal_count(*toks)\<close>; \<open>toks[0].type == JSMN_UNDEFINED\<close> says that none was handed
  out since \<open>toks_reset\<close>. \<open>json_parse_again\<close> is the \<open>goto again\<close> loop that doubles the array.
  The result is false and \<open>PInvalid\<close>, or true and the flag \<open>*complete\<close>, with the parser, the tokens and the capacity
  for the next call.
\<close>

partial_function (option) json_parse_again ::
  "jsmn_parser \<Rightarrow> tokptr \<Rightarrow> nat \<Rightarrow> string \<Rightarrow> (jsmn_ret \<times> jsmn_parser \<times> tokptr \<times> nat) option" where
  "json_parse_again parser toks cap input =
     (case jsmn_parse parser input toks (cap - 1) of
        (ret, parser', toks') \<Rightarrow>
          if ret = JSMN_ERROR_NOMEM then json_parse_again parser' toks' (cap * 2) input
          else Some (ret, parser', toks', cap))"

declare json_parse_again.simps [code]

definition terminator :: jsmntok where
  "terminator = \<lparr>tok_type = JSMN_MINUS_ONE, tok_start = 0, tok_end = 0, tok_size = 0\<rparr>"

datatype parse_result = PInvalid | PIncomplete | PComplete

definition json_parse_input ::
  "jsmn_parser \<Rightarrow> tokptr \<Rightarrow> nat \<Rightarrow> string \<Rightarrow> (parse_result \<times> jsmn_parser \<times> tokptr \<times> nat) run" where
  "json_parse_input parser toks cap input = do {
     (ret, parser', toks', cap') \<leftarrow> json_parse_again parser toks cap input;
     if ret = JSMN_ERROR_INVAL then Some (PInvalid, parser', toks', cap')
     else case toks' of
       [] \<Rightarrow> Some (PIncomplete, parser', toks', cap')
     | t # _ \<Rightarrow>
         if tok_type t = JSMN_UNDEFINED \<or> tok_end t = -1 then Some (PIncomplete, parser', toks', cap')
         else do {
           after \<leftarrow> json_next toks';
           let elem = take (length toks' - length after) toks';
           ok \<leftarrow> validate_jsmn_parse_output input elem;
           if \<not> ok then Some (PInvalid, parser', toks', cap')
           else Some (PComplete, parser', elem @ [terminator], length elem + 1) } }"

definition toks_alloc_count :: nat where
  "toks_alloc_count = 10"

definition json_parse_simple :: "string \<Rightarrow> tokptr option run" where
  "json_parse_simple input = do {
     (res, _, toks, _) \<leftarrow> json_parse_input jsmn_init [] toks_alloc_count input;
     Some (if res = PComplete then Some toks else None) }"

text \<open>The doubling loop returns, with the outcome of a parse in an array that is large enough.\<close>

lemma loop_outcome_stable:
  "loop_outcome num p r s T res \<Longrightarrow> fst res \<noteq> JSMN_ERROR_NOMEM \<Longrightarrow> num \<le> num' \<Longrightarrow>
   jsmn_loop num' p r s T (length T) = res"
  by (auto simp: loop_outcome_def)

lemma json_parse_again_returns:
  assumes "0 < cap" "length toks + length (drop (jpos parser) input) < num"
  shows "\<exists>cap'\<ge>cap. json_parse_again parser toks cap input =
    (case jsmn_parse parser input toks num of (ret, parser', toks') \<Rightarrow> Some (ret, parser', toks', cap'))"
  using assms
proof (induction "length toks + length (drop (jpos parser) input) + 2 - cap" arbitrary: parser toks cap
    rule: less_induct)
  case less
  let ?N = "length toks + length (drop (jpos parser) input)"
  obtain ret P T where run: "jsmn_parse parser input toks (cap - 1) = (ret, P, T)"
    by (metis prod_cases3)
  have out: "loop_outcome (cap - 1) (jpos parser) (drop (jpos parser) input) (toksuper parser) toks (ret, P, T)"
    using jsmn_loop_outcome [of "cap - 1" "jpos parser" "drop (jpos parser) input" "toksuper parser" toks]
    by (simp add: jsmn_parse_def flip: run)
  let ?N' = "length T + length (drop (jpos P) input)"
  have le: "jpos parser \<le> jpos P"
    using out by (simp add: loop_outcome_def)
  then have mono: "jpos parser \<le> jpos P" "?N' \<le> ?N"
    using out by (simp_all add: loop_outcome_def)
  have no_nomem: "fst (jsmn_parse parser input toks num) \<noteq> JSMN_ERROR_NOMEM"
    using jsmn_loop_outcome [of num "jpos parser" "drop (jpos parser) input" "toksuper parser" toks] less.prems(2)
    by (cases "jsmn_parse parser input toks num") (auto simp: jsmn_parse_def loop_outcome_def)
  show ?case
  proof (cases "ret = JSMN_ERROR_NOMEM")
    case True
    then have full: "cap - 1 \<le> length T" using out by (simp add: loop_outcome_def)
    have "json_parse_again parser toks cap input = json_parse_again P T (cap * 2) input"
      using run True by (subst json_parse_again.simps) simp
    moreover have "?N' + 2 - cap * 2 < ?N + 2 - cap" using mono full less.prems by auto
    then obtain cap' where "cap * 2 \<le> cap'" "json_parse_again P T (cap * 2) input =
        (case jsmn_parse P input T num of (ret, parser', toks') \<Rightarrow> Some (ret, parser', toks', cap'))"
      using less.hyps [of T P "cap * 2"] mono less.prems by auto
    moreover have "jsmn_parse P input T num = jsmn_parse parser input toks num"
      using out True mono less.prems full by (simp add: jsmn_parse_def loop_outcome_def)
    ultimately show ?thesis by (intro exI [of _ cap']) simp
  next
    case False
    show ?thesis
    proof (cases "cap - 1 \<le> num")
      case True
      with out False have "jsmn_parse parser input toks num = (ret, P, T)"
        by (simp add: jsmn_parse_def loop_outcome_def)
      moreover from this run False have "jsmn_parse parser input toks (cap - Suc 0) = (ret, P, T)" by simp
      ultimately show ?thesis using False by (subst json_parse_again.simps) simp
    next
      case big: False
      have "loop_outcome num (jpos parser) (drop (jpos parser) input) (toksuper parser) toks
          (jsmn_parse parser input toks num)"
        using jsmn_loop_outcome by (simp add: jsmn_parse_def)
      then have "jsmn_parse parser input toks (cap - 1) = jsmn_parse parser input toks num"
        using loop_outcome_stable [of num "jpos parser" _ "toksuper parser" toks _ "cap - 1"] no_nomem big
        unfolding jsmn_parse_def by auto
      then have "jsmn_parse parser input toks num = (ret, P, T)" using run by simp
      moreover have "jsmn_parse parser input toks (cap - Suc 0) = (ret, P, T)" using run by simp
      ultimately show ?thesis using False by (subst json_parse_again.simps) simp
    qed
  qed
qed

lemma length_toks_le_text:
  "wf_cst c \<Longrightarrow> length (toks_of p c) \<le> length (text_of c)"
  "wf_es f es \<Longrightarrow> length (toks_es p es) \<le> length (text_es es)"
  "wf_ms f ms \<Longrightarrow> length (toks_ms p ms) \<le> length (text_ms ms)"
proof (induction c and f es and f ms arbitrary: p and p and p rule: wf_cst_wf_es_wf_ms.induct)
  case (1 s)
  then show ?case by (cases s) (simp_all add: prim_ok_def)
next
  case (6 f sep c es)
  from 6 have "length (toks_of q c) \<le> length (text_of c)" "length (toks_es q es) \<le> length (text_es es)" for q
    by auto
  from add_mono [OF this] show ?case by (simp add: trans_le_add2)
next
  case (8 f sep k w1 w2 c ms)
  from 8 have "length (toks_of q c) \<le> length (text_of c)" "length (toks_ms q ms) \<le> length (text_ms ms)" for q
    by auto
  from add_mono [OF this] show ?case by (simp add: trans_le_add2 le_SucI)
qed (auto intro: le_SucI trans_le_add1)

lemma json_parse_simple_cst:
  assumes "wf_cst c" "ws_ok w1" "ws_ok w2"
  shows "json_parse_simple (w1 @ text_of c @ w2) = Some (Some (toks_of (int (length w1)) c @ [terminator]))"
proof -
  let ?input = "w1 @ text_of c @ w2"
  let ?T = "toks_of (int (length w1)) c"
  have "length (toks_of 0 c) \<le> Suc (length ?input)"
    using length_toks_le_text(1) [OF assms(1), of 0] by simp
  then obtain s where "jsmn_parse jsmn_init ?input [] (Suc (length ?input)) =
      (JCount (length (toks_of 0 c)), \<lparr>jpos = length ?input, toksuper = s\<rparr>, ?T)"
    using jsmn_parse_cst [OF assms] by blast
  then obtain cap where again: "json_parse_again jsmn_init [] toks_alloc_count ?input =
      Some (JCount (length (toks_of 0 c)), \<lparr>jpos = length ?input, toksuper = s\<rparr>, ?T, cap)"
    using json_parse_again_returns [of toks_alloc_count "[]" jsmn_init ?input "Suc (length ?input)"]
    by (auto simp: jsmn_init_def toks_alloc_count_def)
  obtain t ts where T: "?T = t # ts" using toks_of_Cons by blast
  have type: "tok_type t \<noteq> JSMN_UNDEFINED" and "tok_end t \<noteq> -1"
    using T by (cases c; auto)+
  have "validate_jsmn_datum ?input ?T = Some ([], True)"
    using validate_toks_of(1) [OF assms(1), of w1 w2 "[]"] by simp
  then have "validate_jsmn_parse_output ?input ?T = Some True"
    unfolding T by (simp del: validate_jsmn_datum.simps)
  moreover have "json_next ?T = Some []" using json_next_toks_of [of _ c "[]"] by simp
  ultimately show ?thesis
    using again type \<open>tok_end t \<noteq> -1\<close> by (simp add: json_parse_simple_def json_parse_input_def T)
qed

end
