(* ===== verification/Json_Escape.thy ===== *)
theory Json_Escape
  imports Jsmn
begin

text \<open>
  \<open>ccan/json_escape/json_escape.c\<close>: escaping a C string for use inside JSON quotes, and
  the way back. \<open>(unsigned)str[i] < ' '\<close> is a comparison of a sign-extended \<open>char\<close>, so bytes
  from 128 on are not control characters.
\<close>

definition escape_control :: "char \<Rightarrow> bool" where
  "escape_control c \<longleftrightarrow> (of_char c :: nat) < 32 \<or> (of_char c :: nat) = 127"

definition json_escape_needed :: "string \<Rightarrow> bool" where
  "json_escape_needed s \<longleftrightarrow> list_ex (\<lambda>c. escape_control c \<or> c = QUOTE \<or> c = BACKSLASH) s"

definition hex_digit :: "nat \<Rightarrow> char" where
  "hex_digit d = char_of (if d < 10 then d + 48 else d + 55)"

text \<open>\<open>snprintf(..., "\\u%04X", c)\<close> for a byte below 128.\<close>

definition u_escape :: "char \<Rightarrow> string" where
  "u_escape c = BACKSLASH # CHR ''u'' # CHR ''0'' # CHR ''0''
     # hex_digit (of_char c div 16) # hex_digit (of_char c mod 16) # []"

definition short_escape :: "char \<Rightarrow> char option" where
  "short_escape c =
     (if c = LF then Some (CHR ''n'') else if c = CHR 0x08 then Some (CHR ''b'')
      else if c = CHR 0x0C then Some (CHR ''f'') else if c = TAB then Some (CHR ''t'')
      else if c = CR then Some (CHR ''r'') else if c = BACKSLASH then Some BACKSLASH
      else if c = QUOTE then Some QUOTE else None)"

definition std_escape :: "string \<Rightarrow> bool" where
  "std_escape cs \<longleftrightarrow> cs \<noteq> [] \<and>
     hd cs \<in> {CHR ''n'', CHR ''b'', CHR ''f'', CHR ''t'', CHR ''r'', CHR ''/'', BACKSLASH, QUOTE}"

definition std_u_escape :: "string \<Rightarrow> bool" where
  "std_u_escape cs \<longleftrightarrow> length cs \<ge> 5 \<and> hd cs = CHR ''u'' \<and> list_all is_hex (take 4 (tl cs))"

text \<open>The loop of \<open>escape\<close>; with \<open>partial\<close> it leaves standard escapes alone.\<close>

function escape :: "bool \<Rightarrow> string \<Rightarrow> string" where
  "escape partial [] = []"
| "escape partial (c # cs) =
     (if c = BACKSLASH \<and> partial \<and> std_escape cs then c # hd cs # escape partial (tl cs)
      else if c = BACKSLASH \<and> partial \<and> std_u_escape cs then c # take 5 cs @ escape partial (drop 5 cs)
      else (case short_escape c of
              Some e \<Rightarrow> BACKSLASH # e # escape partial cs
            | None \<Rightarrow> (if escape_control c then u_escape c else [c]) @ escape partial cs))"
  by pat_completeness auto
termination
  by (relation "measure (\<lambda>(p, s). length s)") auto

declare escape.simps(2) [simp del]

definition json_escape :: "string \<Rightarrow> string" where
  "json_escape str = escape False str"

definition json_partial_escape :: "string \<Rightarrow> string" where
  "json_partial_escape str = escape True str"

text \<open>\<open>json_escape_string_\<close>: the bytes as an escaped string, up to the first NUL.\<close>

definition json_escape_string :: "string \<Rightarrow> string" where
  "json_escape_string bytes = tal_strndup bytes"

definition unescape_char :: "char \<Rightarrow> char option" where
  "unescape_char e =
     (if e = CHR ''n'' then Some LF else if e = CHR ''b'' then Some (CHR 0x08)
      else if e = CHR ''f'' then Some (CHR 0x0C) else if e = CHR ''t'' then Some TAB
      else if e = CHR ''r'' then Some CR
      else if e = CHR ''/'' \<or> e = BACKSLASH \<or> e = QUOTE then Some e else None)"

fun json_escape_unescape :: "string \<Rightarrow> string option" where
  "json_escape_unescape [] = Some []"
| "json_escape_unescape (c # cs) =
     (if c \<noteq> BACKSLASH then map_option (Cons c) (json_escape_unescape cs)
      else case cs of
        [] \<Rightarrow> None
      | e # ds \<Rightarrow> (case unescape_char e of
            None \<Rightarrow> None
          | Some u \<Rightarrow> map_option (Cons u) (json_escape_unescape ds)))"

subsection \<open>Escaping\<close>

definition escape_char :: "char \<Rightarrow> string" where
  "escape_char c = (case short_escape c of
     Some e \<Rightarrow> [BACKSLASH, e]
   | None \<Rightarrow> if escape_control c then u_escape c else [c])"

lemma escape_False: "escape False s = concat (map escape_char s)"
  by (induction s) (auto simp: escape.simps(2) escape_char_def split: option.splits)

lemma escape_char_id: "\<not> json_escape_needed [c] \<Longrightarrow> escape_char c = [c]"
  by (auto simp: json_escape_needed_def escape_char_def short_escape_def escape_control_def)

lemma json_escape_not_needed: "\<not> json_escape_needed s \<Longrightarrow> json_escape s = s"
  unfolding json_escape_def escape_False
  by (induction s) (auto simp: json_escape_needed_def escape_char_id)

lemma json_escape_append: "json_escape (a @ b) = json_escape a @ json_escape b"
  by (simp add: json_escape_def escape_False)

text \<open>An escaped string needs no further treatment inside quotes.\<close>

lemma hex_digit_is_hex: "d < 16 \<Longrightarrow> is_hex (hex_digit d)"
  by (auto simp: is_hex_def hex_digit_def Let_def)

lemma hex_digit_not_NUL: "d < 16 \<Longrightarrow> hex_digit d \<noteq> NUL"
  using hex_digit_is_hex [of d] by (auto simp: is_hex_def Let_def)

lemma escape_control_small: "escape_control c \<Longrightarrow> of_char c div 16 < (16 :: nat)"
  by (auto simp: escape_control_def)

lemma scan_string_u_escape:
  assumes "escape_control c"
  shows "scan_string (u_escape c @ r) = scan_shift 6 (scan_string r)"
proof -
  have four: "(4 :: nat) = Suc (Suc (Suc (Suc 0)))" by simp
  have "scan_hex 4 (CHR ''0'' # CHR ''0'' # hex_digit (of_char c div 16) # hex_digit (of_char c mod 16) # r) = Some 4"
    unfolding four using escape_control_small [OF assms]
    by (simp add: hex_digit_is_hex hex_digit_not_NUL is_hex_def [of "CHR ''0''"])
  then show ?thesis
    unfolding u_escape_def append_Cons by (subst scan_string.simps(2)) (simp add: simple_escape_def)
qed

lemma scan_string_escape_char:
  assumes "c \<noteq> NUL"
  shows "scan_string (escape_char c @ r) = scan_shift (length (escape_char c)) (scan_string r)"
proof (cases "short_escape c")
  case None
  show ?thesis
  proof (cases "escape_control c")
    case True
    have "length (u_escape c) = 6" by (simp add: u_escape_def)
    then show ?thesis using scan_string_u_escape [OF True] None True by (simp add: escape_char_def)
  next
    case False
    have "c \<noteq> BACKSLASH" "c \<noteq> QUOTE" using None by (auto simp: short_escape_def)
    then show ?thesis using False None assms by (simp add: escape_char_def scan_string.simps(2))
  qed
next
  case (Some e)
  then have "simple_escape e"
    by (auto simp: short_escape_def simple_escape_def split: if_splits)
  with Some show ?thesis by (simp add: escape_char_def scan_string.simps(2) numeral_2_eq_2)
qed

lemma scan_string_json_escape:
  "c_string s \<Longrightarrow> scan_string (json_escape s @ [QUOTE]) = Inr (length (json_escape s))"
  unfolding json_escape_def escape_False
  by (induction s) (simp_all add: scan_string_escape_char scan_shift_def scan_string.simps)

lemma of_char_nat_less: "(of_char c :: nat) < 256"
  using c_at_less [of "[c]" 0] by simp

lemma utf8_decode_ascii_state:
  assumes "0 < b" "b < 128"
  shows "if used_len st = total_len st
    then utf8_decode st b = (Some U_OK, st\<lparr>used_len := 1, total_len := 1, utf8_c := b\<rparr>)
    else \<exists>st'. utf8_decode st b = (Some U_EINVAL, st')"
proof (cases "used_len st = total_len st")
  case True
  with assms show ?thesis by (simp add: utf8_decode_def and_128_ascii utf8_finished_def Let_def)
next
  case False
  have "b AND 192 \<noteq> 128"
  proof
    assume "b AND 192 = 128"
    then have "bit (b AND 192) 7" by (simp add: bit_iff_odd)
    then have "bit b 7" by (simp add: bit_and_iff)
    with assms(2) show False by (simp add: bit_iff_odd)
  qed
  with False show ?thesis by (simp add: utf8_decode_def)
qed

definition ascii_text :: "string \<Rightarrow> bool" where
  "ascii_text s \<longleftrightarrow> list_all (\<lambda>c. 0 < (of_char c :: nat) \<and> (of_char c :: nat) < 128) s"

text \<open>The code point of a finished character does not matter for the next one.\<close>

lemma utf8_decode_fresh:
  assumes "used_len st = total_len st" "used_len st' = total_len st'"
  shows "fst (utf8_decode st b) = fst (utf8_decode st' b) \<and>
    (fst (utf8_decode st b) = None \<or> fst (utf8_decode st b) = Some U_OK \<longrightarrow>
     snd (utf8_decode st b) = snd (utf8_decode st' b))"
proof -
  have same: "st\<lparr>used_len := Suc 0, total_len := n, utf8_c := c\<rparr> = st'\<lparr>used_len := Suc 0, total_len := n, utf8_c := c\<rparr>"
    for n c by (cases st; cases st') simp
  show ?thesis
  proof (cases "b AND 0x80 = 0")
    case True
    then show ?thesis
      using assms same [of "Suc 0" b] by (cases "b = 0") (simp_all add: utf8_decode_def Let_def utf8_finished_def)
  next
    case False
    then show ?thesis using assms same by (simp add: utf8_decode_def Let_def)
  qed
qed

lemma utf8_check_loop_fresh:
  assumes "used_len st = total_len st" "used_len st' = total_len st'"
  shows "utf8_check_loop st need s = utf8_check_loop st' need s"
proof (cases s)
  case (Cons c cs)
  obtain r1 s1 r2 s2 where d: "utf8_decode st (of_char c) = (r1, s1)" "utf8_decode st' (of_char c) = (r2, s2)"
    by fastforce
  then show ?thesis
    using utf8_decode_fresh [OF assms, of "of_char c"] unfolding Cons
    by (cases r1; cases "r1 = Some U_OK") auto
qed simp

lemma utf8_check_loop_ascii_append:
  "ascii_text s \<Longrightarrow> s \<noteq> [] \<Longrightarrow>
   utf8_check_loop st need (s @ r) =
     (used_len st = total_len st \<and> utf8_check_loop UTF8_STATE_INIT False r)"
proof (induction s arbitrary: st need)
  case (Cons c s)
  then have b: "0 < (of_char c :: nat)" "(of_char c :: nat) < 128" by (auto simp: ascii_text_def)
  show ?case
  proof (cases "used_len st = total_len st")
    case True
    let ?st = "st\<lparr>used_len := 1, total_len := 1, utf8_c := of_char c\<rparr>"
    have "utf8_decode st (of_char c) = (Some U_OK, ?st)"
      using utf8_decode_ascii_state [OF b, of st] True by simp
    moreover have "utf8_check_loop ?st False (s @ r) = utf8_check_loop UTF8_STATE_INIT False r"
    proof (cases "s = []")
      case True
      then show ?thesis using utf8_check_loop_fresh [of ?st UTF8_STATE_INIT] by (simp add: UTF8_STATE_INIT_def)
    next
      case False
      then show ?thesis using Cons by (simp add: ascii_text_def)
    qed
    ultimately show ?thesis using True by simp
  next
    case False
    then show ?thesis using utf8_decode_ascii_state [OF b, of st] by auto
  qed
qed simp

text \<open>Escaping keeps the text valid UTF-8, and does not repair an invalid one.\<close>

lemma hex_digit_ascii: "d < 16 \<Longrightarrow> 0 < (of_char (hex_digit d) :: nat) \<and> (of_char (hex_digit d) :: nat) < 128"
  by (auto simp: hex_digit_def)

lemma escape_char_cases:
  assumes "c \<noteq> NUL"
  shows "escape_char c = [c] \<or>
    ascii_text [c] \<and> ascii_text (escape_char c) \<and> escape_char c \<noteq> []"
proof (cases "short_escape c")
  case None
  have "0 < (of_char c :: nat)" using assms by (metis of_char_eq_0 gr0I)
  with None show ?thesis
    using escape_control_small [of c] hex_digit_ascii [of "of_char c div 16"] hex_digit_ascii [of "of_char c mod 16"] assms
    by (auto simp: escape_char_def u_escape_def ascii_text_def escape_control_def)
next
  case (Some e)
  then show ?thesis
    by (auto simp: escape_char_def ascii_text_def short_escape_def split: if_splits)
qed

lemma utf8_check_loop_json_escape:
  "c_string s \<Longrightarrow> utf8_check_loop st need (json_escape s) = utf8_check_loop st need s"
  unfolding json_escape_def escape_False
proof (induction s arbitrary: st need)
  case (Cons c s)
  let ?e = "concat (map escape_char s)"
  from Cons have nz: "c \<noteq> NUL" and IH: "\<And>st need. utf8_check_loop st need ?e = utf8_check_loop st need s" by auto
  from escape_char_cases [OF nz] show ?case
  proof
    assume "escape_char c = [c]"
    then show ?thesis using IH by (simp split: prod.splits option.splits)
  next
    assume a: "ascii_text [c] \<and> ascii_text (escape_char c) \<and> escape_char c \<noteq> []"
    then show ?thesis
      using utf8_check_loop_ascii_append [of "escape_char c" st need ?e]
        utf8_check_loop_ascii_append [of "[c]" st need s] IH [of UTF8_STATE_INIT False] by simp
  qed
qed simp

lemma ascii_text_c_string: "ascii_text s \<Longrightarrow> c_string s"
  by (auto simp: ascii_text_def c_string_def list_all_iff)

lemma c_string_json_escape: "c_string s \<Longrightarrow> c_string (json_escape s)"
  unfolding json_escape_def escape_False
proof (induction s)
  case (Cons c s)
  then have "c_string (escape_char c)" using escape_char_cases [of c] ascii_text_c_string by fastforce
  with Cons show ?case by simp
qed simp

lemma str_ok_json_escape: "c_string s \<Longrightarrow> utf8_check s \<Longrightarrow> str_ok (json_escape s)"
  by (simp add: str_ok_def scan_string_json_escape utf8_check_def utf8_check_loop_json_escape)

lemma str_ok_plain: "c_string s \<Longrightarrow> \<not> json_escape_needed s \<Longrightarrow> utf8_check s \<Longrightarrow> str_ok s"
  using str_ok_json_escape [of s] by (simp add: json_escape_not_needed)

subsection \<open>And back\<close>

definition unescapable :: "char \<Rightarrow> bool" where
  "unescapable c \<longleftrightarrow> \<not> escape_control c \<or> c \<in> {LF, CHR 0x08, CHR 0x0C, TAB, CR}"

lemma unescape_escape_char:
  assumes "unescapable c"
  shows "json_escape_unescape (escape_char c @ r) = map_option (Cons c) (json_escape_unescape r)"
proof (cases "short_escape c")
  case None
  then have "escape_char c = [c]" "c \<noteq> BACKSLASH"
    using assms by (auto simp: escape_char_def unescapable_def short_escape_def split: if_splits)
  then show ?thesis by simp
next
  case (Some e)
  then have "unescape_char e = Some c"
    by (auto simp: short_escape_def unescape_char_def split: if_splits)
  with Some show ?thesis by (simp add: escape_char_def)
qed

lemma json_escape_unescape_escape:
  "list_all unescapable s \<Longrightarrow> json_escape_unescape (json_escape s) = Some s"
  unfolding json_escape_def escape_False
  by (induction s) (simp_all add: unescape_escape_char)

lemma json_escape_unescape_plain: "BACKSLASH \<notin> set s \<Longrightarrow> json_escape_unescape s = Some s"
  by (induction s) auto

lemma utf8_check_loop_no_NUL: "utf8_check_loop st need s \<Longrightarrow> c_string s"
proof (induction s arbitrary: st need)
  case (Cons c s)
  have "c \<noteq> NUL"
  proof
    assume "c = NUL"
    then have "\<exists>st'. utf8_decode st (of_char c) = (Some U_EINVAL, st')" by (simp add: utf8_decode_def)
    with Cons.prems show False by auto
  qed
  moreover have "c_string s" using Cons by (auto split: prod.splits option.splits if_splits)
  ultimately show ?case by simp
qed simp

lemma str_ok_c_string: "str_ok s \<Longrightarrow> c_string s"
  using utf8_check_loop_no_NUL by (auto simp: str_ok_def utf8_check_def)

subsection \<open>Plain text\<close>

text \<open>Printable ASCII other than quotes and backslashes; such texts are their own escape.\<close>

definition plain_text :: "string \<Rightarrow> bool" where
  "plain_text s \<longleftrightarrow> list_all (\<lambda>c. 32 \<le> (of_char c :: nat) \<and> (of_char c :: nat) < 127 \<and>
     (of_char c :: nat) \<noteq> 34 \<and> (of_char c :: nat) \<noteq> 92) s"

lemma plain_text_Nil [simp]: "plain_text []"
  by (simp add: plain_text_def)

lemma plain_text_append [simp]: "plain_text (s @ t) \<longleftrightarrow> plain_text s \<and> plain_text t"
  by (simp add: plain_text_def)

lemma plain_text_ascii: "plain_text s \<Longrightarrow> ascii_text s"
  by (auto simp: plain_text_def ascii_text_def list_all_iff)

lemma plain_text_c_string: "plain_text s \<Longrightarrow> c_string s"
  by (simp add: plain_text_ascii ascii_text_c_string)

lemma utf8_check_ascii_text: "ascii_text s \<Longrightarrow> utf8_check s"
  using utf8_check_loop_ascii_append [of s UTF8_STATE_INIT False "[]"]
  by (cases "s = []") (auto simp: utf8_check_def UTF8_STATE_INIT_def)

lemma plain_text_utf8: "plain_text s \<Longrightarrow> utf8_check s"
  by (simp add: plain_text_ascii utf8_check_ascii_text)

lemma not_escape_needed: "plain_text s \<Longrightarrow> \<not> json_escape_needed s"
  by (auto simp: plain_text_def json_escape_needed_def escape_control_def list_ex_iff list_all_iff)

lemma str_ok_plain_text: "plain_text s \<Longrightarrow> str_ok s"
  by (simp add: str_ok_plain not_escape_needed plain_text_utf8 plain_text_c_string)

lemma plain_text_unescapable: "plain_text s \<Longrightarrow> list_all unescapable s"
  by (auto simp: plain_text_def unescapable_def escape_control_def list_all_iff)

lemmas layout_eval = str_ok_plain_text plain_text_def prim_ok_def primitive_stop_def primitive_bad_def
  ws_ok_def sep_ok_def

end
