(* ===== verification/Hex.thy ===== *)
theory Hex
  imports Payz_Prelude
begin

text \<open>
  \<open>ccan/str/hex/hex.c\<close> and \<open>tal_hexstr\<close> of \<open>common/utils.c\<close>: hexadecimal text of byte arrays,
  and the round trip.
\<close>

unbundle bit_operations_syntax

definition char_to_hex :: "char \<Rightarrow> u8 option" where
  "char_to_hex c =
     (let b = (of_char c :: nat) in
      if 48 \<le> b \<and> b \<le> 57 then Some (of_nat (b - 48))
      else if 97 \<le> b \<and> b \<le> 102 then Some (of_nat (b - 97 + 10))
      else if 65 \<le> b \<and> b \<le> 70 then Some (of_nat (b - 65 + 10)) else None)"

fun hex_decode :: "string \<Rightarrow> nat \<Rightarrow> u8 list option" where
  "hex_decode (c1 # c2 # cs) bufsize =
     (case (char_to_hex c1, char_to_hex c2) of
        (Some v1, Some v2) \<Rightarrow>
          if bufsize = 0 then None
          else map_option (Cons (push_bit 4 v1 OR v2)) (hex_decode cs (bufsize - 1))
      | _ \<Rightarrow> None)"
| "hex_decode cs bufsize = (if cs = [] \<and> bufsize = 0 then Some [] else None)"

definition hexchar :: "u8 \<Rightarrow> char run" where
  "hexchar val =
     (if val < 10 then Some (char_of (48 + unat val))
      else if val < 16 then Some (char_of (97 + unat val - 10)) else None)"

fun hex_encode_loop :: "u8 list \<Rightarrow> string run" where
  "hex_encode_loop [] = Some []"
| "hex_encode_loop (c # bs) = do {
     hi \<leftarrow> hexchar (drop_bit 4 c);
     lo \<leftarrow> hexchar (c AND 0xF);
     rest \<leftarrow> hex_encode_loop bs;
     Some (hi # lo # rest) }"

definition hex_str_size :: "nat \<Rightarrow> nat" where
  "hex_str_size bytes = 2 * bytes + 1"

definition hex_data_size :: "nat \<Rightarrow> nat" where
  "hex_data_size strlen = strlen div 2"

text \<open>\<open>hex_encode\<close>: the text (without NUL), or false when the destination is too small.\<close>

definition hex_encode :: "u8 list \<Rightarrow> nat \<Rightarrow> string option run" where
  "hex_encode buf destsize =
     (if destsize < hex_str_size (length buf) then Some None
      else map_option Some (hex_encode_loop buf))"

definition tal_hexstr :: "u8 list \<Rightarrow> string run" where
  "tal_hexstr data = do {
     r \<leftarrow> hex_encode data (hex_str_size (length data));
     Some (case r of Some s \<Rightarrow> s | None \<Rightarrow> []) }"

subsection \<open>Round trip\<close>

lemma hexchar_char_to_hex:
  assumes "v < 16"
  shows "\<exists>c. hexchar v = Some c \<and> char_to_hex c = Some v \<and> (48 \<le> (of_char c :: nat) \<and> (of_char c :: nat) \<le> 102)
    \<and> (of_char c :: nat) \<noteq> 92"
proof -
  have u: "unat v < 16" using assms by (simp add: word_less_nat_alt)
  have vv: "of_nat (unat v) = v" by simp
  show ?thesis
  proof (cases "v < 10")
    case True
    then have "unat v < 10" by (simp add: word_less_nat_alt)
    then show ?thesis using True vv by (auto simp: hexchar_def char_to_hex_def Let_def)
  next
    case False
    then have "10 \<le> unat v" by (simp add: word_less_nat_alt)
    then have "unat v \<in> {10, 11, 12, 13, 14, 15}" using u by auto
    then have "char_to_hex (char_of (97 + unat v - 10)) = Some (of_nat (unat v))"
      by (auto simp: char_to_hex_def Let_def word_unat_eq_iff)
    then show ?thesis using False assms u vv \<open>10 \<le> unat v\<close>
      by (auto simp: hexchar_def)
  qed
qed

lemma drop_bit_4_less: "drop_bit 4 (b :: u8) < 16"
proof -
  have "unat (drop_bit 4 b) = unat b div 16"
    by (simp add: drop_bit_eq_div unat_div)
  moreover have "unat b < 256" using unsigned_less [of b] by simp
  ultimately show ?thesis by (simp add: word_less_nat_alt)
qed

lemma and_15_less: "(b :: u8) AND 15 < 16"
  using word_and_le1 [of b 15] by (simp add: word_le_nat_alt word_less_nat_alt)

lemma nibbles: "push_bit 4 (drop_bit 4 (b :: u8)) OR (b AND 15) = b"
proof (rule bit_word_eqI)
  have m: "(15 :: u8) = mask 4" by (simp add: mask_eq_exp_minus_1)
  fix n assume "n < LENGTH(8)"
  then show "bit (push_bit 4 (drop_bit 4 b) OR (b AND 15)) n = bit b n"
    unfolding m by (auto simp: bit_or_iff bit_push_bit_iff bit_drop_bit_eq bit_and_iff bit_mask_iff)
qed

definition plain_hex :: "string \<Rightarrow> bool" where
  "plain_hex s \<longleftrightarrow> list_all (\<lambda>c. 48 \<le> (of_char c :: nat) \<and> (of_char c :: nat) \<le> 102 \<and> (of_char c :: nat) \<noteq> 92) s"

lemma hex_encode_loop_props:
  "\<exists>s. hex_encode_loop bs = Some s \<and> hex_decode s (length bs) = Some bs \<and> length s = 2 * length bs \<and> plain_hex s"
proof (induction bs)
  case (Cons b bs)
  then obtain s where s: "hex_encode_loop bs = Some s" "hex_decode s (length bs) = Some bs"
    "length s = 2 * length bs" "plain_hex s" by blast
  obtain hi where "hexchar (drop_bit 4 b) = Some hi" "char_to_hex hi = Some (drop_bit 4 b)"
    "48 \<le> (of_char hi :: nat)" "(of_char hi :: nat) \<le> 102" "(of_char hi :: nat) \<noteq> 92"
    using hexchar_char_to_hex [OF drop_bit_4_less] by blast
  moreover obtain lo where "hexchar (b AND 15) = Some lo" "char_to_hex lo = Some (b AND 15)"
    "48 \<le> (of_char lo :: nat)" "(of_char lo :: nat) \<le> 102" "(of_char lo :: nat) \<noteq> 92"
    using hexchar_char_to_hex [OF and_15_less] by blast
  ultimately show ?case
    using s nibbles [of b] by (simp add: plain_hex_def)
qed (simp add: plain_hex_def)

lemma tal_hexstr_props:
  "\<exists>s. tal_hexstr bs = Some s \<and> hex_decode s (length bs) = Some bs \<and> length s = 2 * length bs \<and> plain_hex s"
  using hex_encode_loop_props [of bs] by (auto simp: tal_hexstr_def hex_encode_def)

end
