(* ===== verification/Json_Out.thy ===== *)
theory Json_Out
  imports Json Json_Escape Hex
begin

text \<open>
  \<open>ccan/json_out/json_out.c\<close> (compiled without \<open>CCAN_JSON_OUT_DEBUG\<close>), the writing half of
  \<open>common/json_stream.c\<close>, and the \<open>json_add_*\<close> functions of \<open>common/json.c\<close>. The output
  buffer is the list of the bytes written; \<open>tal\<close> aborts when memory runs out, so the branches
  for a failed allocation are not there. A member function that returns the space for the
  caller to fill takes the bytes the caller writes.
\<close>

record json_out =
  jout_empty :: bool
  outbuf :: string

definition json_out_new :: json_out where
  "json_out_new = \<lparr>jout_empty = True, outbuf = []\<rparr>"

definition json_out_direct :: "json_out \<Rightarrow> string \<Rightarrow> json_out" where
  "json_out_direct j bytes = j\<lparr>outbuf := outbuf j @ bytes\<rparr>"

definition field_prefix :: "string option \<Rightarrow> string" where
  "field_prefix fieldname =
     (case fieldname of None \<Rightarrow> [] | Some f \<Rightarrow> QUOTE # f @ [QUOTE, CHR '':''])"

definition json_out_member_direct :: "json_out \<Rightarrow> string option \<Rightarrow> string \<Rightarrow> json_out" where
  "json_out_member_direct j fieldname bytes =
     j\<lparr>outbuf := outbuf j @ (if jout_empty j then [] else '','') @ field_prefix fieldname @ bytes,
       jout_empty := False\<rparr>"

definition json_out_start :: "json_out \<Rightarrow> string option \<Rightarrow> char \<Rightarrow> json_out run" where
  "json_out_start j fieldname ty = do {
     c_assert (ty = CHR ''['' \<or> ty = CHR ''{'');
     Some ((json_out_member_direct j fieldname [ty])\<lparr>jout_empty := True\<rparr>) }"

definition json_out_end :: "json_out \<Rightarrow> char \<Rightarrow> json_out run" where
  "json_out_end j ty = do {
     c_assert (ty = CHR ''}'' \<or> ty = CHR '']'');
     Some ((json_out_direct j [ty])\<lparr>jout_empty := False\<rparr>) }"

text \<open>\<open>json_out_addv\<close> after formatting: \<open>s\<close> is what \<open>vsnprintf\<close> makes of \<open>fmt\<close>.\<close>

definition json_out_addv :: "json_out \<Rightarrow> string option \<Rightarrow> bool \<Rightarrow> string \<Rightarrow> json_out" where
  "json_out_addv j fieldname quote s =
     (let j' = json_out_member_direct j fieldname [] in
      if quote then
        json_out_direct j' (QUOTE # (if json_escape_needed s then escape False s else s) @ [QUOTE])
      else json_out_direct j' s)"

definition json_out_addstr :: "json_out \<Rightarrow> string option \<Rightarrow> string \<Rightarrow> json_out" where
  "json_out_addstr j fieldname str =
     (let s = (if json_escape_needed str then json_escape str else str)
      in json_out_member_direct j fieldname (QUOTE # s @ [QUOTE]))"

definition json_out_contents :: "json_out \<Rightarrow> string option" where
  "json_out_contents j = (if outbuf j = [] then None else Some (outbuf j))"

definition json_out_add_splice :: "json_out \<Rightarrow> string option \<Rightarrow> json_out \<Rightarrow> json_out \<times> bool" where
  "json_out_add_splice j fieldname src =
     (case json_out_contents src of
        None \<Rightarrow> (j, False)
      | Some p \<Rightarrow> (json_out_member_direct j fieldname p, True))"

definition json_out_finished :: "json_out \<Rightarrow> json_out" where
  "json_out_finished j = j\<lparr>jout_empty := True\<rparr>"

definition json_out_consume :: "json_out \<Rightarrow> nat \<Rightarrow> json_out run" where
  "json_out_consume j len = do {
     c_assert (len \<le> length (outbuf j));
     Some (j\<lparr>outbuf := drop len (outbuf j)\<rparr>) }"

subsection \<open>Streams\<close>

text \<open>
  A \<open>struct json_stream\<close> is its \<open>json_out\<close>; the reader, writer and log it carries serve the
  connection it is copied to.
\<close>

type_synonym json_stream = json_out

definition new_json_stream :: json_stream where
  "new_json_stream = json_out_new"

definition json_stream_append :: "json_stream \<Rightarrow> string \<Rightarrow> json_stream" where
  "json_stream_append js str = json_out_direct js str"

definition json_stream_double_cr :: "json_stream \<Rightarrow> json_stream run" where
  "json_stream_double_cr js = (
     let js' = json_out_finished js; contents = outbuf js'; len = length contents in do {
     c_assert (len \<ge> 2);
     if contents ! (len - 1) = LF then
       (if contents ! (len - 2) = LF then Some js' else Some (json_stream_append js' [LF]))
     else Some (json_stream_append js' [LF, LF]) })"

definition json_member_direct :: "json_stream \<Rightarrow> string option \<Rightarrow> string \<Rightarrow> json_stream" where
  "json_member_direct js fieldname bytes = json_out_member_direct js fieldname bytes"

definition json_array_start :: "json_stream \<Rightarrow> string option \<Rightarrow> json_stream run" where
  "json_array_start js fieldname = json_out_start js fieldname (CHR ''['')"

definition json_array_end :: "json_stream \<Rightarrow> json_stream run" where
  "json_array_end js = json_out_end js (CHR '']'')"

definition json_object_start :: "json_stream \<Rightarrow> string option \<Rightarrow> json_stream run" where
  "json_object_start js fieldname = json_out_start js fieldname (CHR ''{'')"

definition json_object_end :: "json_stream \<Rightarrow> json_stream run" where
  "json_object_end js = json_out_end js (CHR ''}'')"

definition json_add_member :: "json_stream \<Rightarrow> string option \<Rightarrow> bool \<Rightarrow> string \<Rightarrow> json_stream" where
  "json_add_member js fieldname quote s = json_out_addv js fieldname quote s"

definition json_add_jsonstr :: "json_stream \<Rightarrow> string option \<Rightarrow> string \<Rightarrow> json_stream" where
  "json_add_jsonstr js fieldname jsonstr = json_member_direct js fieldname jsonstr"

subsection \<open>Decimal text\<close>

text \<open>What \<open>%u\<close> and \<open>%PRIu64\<close> print.\<close>

definition digit_char :: "nat \<Rightarrow> char" where
  "digit_char d = char_of (48 + d)"

fun dec_of_nat :: "nat \<Rightarrow> string" where
  "dec_of_nat n = (if n < 10 then [digit_char n] else dec_of_nat (n div 10) @ [digit_char (n mod 10)])"

declare dec_of_nat.simps [simp del]

text \<open>What \<open>%d\<close> and \<open>%PRIi64\<close> print.\<close>

definition dec_of_int :: "int \<Rightarrow> string" where
  "dec_of_int i = (if i < 0 then CHR ''-'' # dec_of_nat (nat (- i)) else dec_of_nat (nat i))"

subsection \<open>Adding members\<close>

definition json_add_num :: "json_stream \<Rightarrow> string option \<Rightarrow> u32 \<Rightarrow> json_stream" where
  "json_add_num js fieldname v = json_add_member js fieldname False (dec_of_nat (unat v))"

definition json_add_u64 :: "json_stream \<Rightarrow> string option \<Rightarrow> u64 \<Rightarrow> json_stream" where
  "json_add_u64 js fieldname v = json_add_member js fieldname False (dec_of_nat (unat v))"

definition json_add_s64 :: "json_stream \<Rightarrow> string option \<Rightarrow> u64 \<Rightarrow> json_stream" where
  "json_add_s64 js fieldname v = json_add_member js fieldname False (dec_of_int (sint v))"

definition json_add_u32 :: "json_stream \<Rightarrow> string option \<Rightarrow> u32 \<Rightarrow> json_stream" where
  "json_add_u32 js fieldname v = json_add_member js fieldname False (dec_of_nat (unat v))"

definition json_add_s32 :: "json_stream \<Rightarrow> string option \<Rightarrow> u32 \<Rightarrow> json_stream" where
  "json_add_s32 js fieldname v = json_add_member js fieldname False (dec_of_int (sint v))"

definition json_add_errcode :: "json_stream \<Rightarrow> string option \<Rightarrow> u32 \<Rightarrow> json_stream" where
  "json_add_errcode js fieldname code = json_add_member js fieldname False (dec_of_int (sint code))"

definition json_add_literal :: "json_stream \<Rightarrow> string option \<Rightarrow> string \<Rightarrow> json_stream" where
  "json_add_literal js fieldname literal = json_member_direct js fieldname literal"

text \<open>\<open>%.*s\<close> stops at a NUL.\<close>

definition json_add_stringn :: "json_stream \<Rightarrow> string option \<Rightarrow> string \<Rightarrow> json_stream" where
  "json_add_stringn js fieldname s = json_add_member js fieldname True (tal_strndup s)"

definition json_add_string :: "json_stream \<Rightarrow> string option \<Rightarrow> string \<Rightarrow> json_stream" where
  "json_add_string js fieldname s = json_add_stringn js fieldname s"

definition json_add_bool :: "json_stream \<Rightarrow> string option \<Rightarrow> bool \<Rightarrow> json_stream" where
  "json_add_bool js fieldname b = json_add_member js fieldname False (if b then ''true'' else ''false'')"

definition json_add_null :: "json_stream \<Rightarrow> string option \<Rightarrow> json_stream" where
  "json_add_null js fieldname = json_add_member js fieldname False ''null''"

definition json_add_hex :: "json_stream \<Rightarrow> string option \<Rightarrow> u8 list \<Rightarrow> json_stream run" where
  "json_add_hex js fieldname data = do {
     let hexlen = hex_str_size (length data) - 1;
     r \<leftarrow> hex_encode data (hexlen + 1);
     case r of
       None \<Rightarrow> None
     | Some s \<Rightarrow> Some (json_member_direct js fieldname (QUOTE # s @ [QUOTE])) }"

definition json_add_escaped_string :: "json_stream \<Rightarrow> string option \<Rightarrow> string \<Rightarrow> json_stream" where
  "json_add_escaped_string js fieldname esc = json_member_direct js fieldname (QUOTE # esc @ [QUOTE])"

definition json_add_tok :: "json_stream \<Rightarrow> string option \<Rightarrow> tokptr \<Rightarrow> string \<Rightarrow> json_stream run" where
  "json_add_tok js fieldname tok buffer = do {
     t \<leftarrow> deref tok;
     c_assert (tok_type t \<noteq> JSMN_UNDEFINED);
     s \<leftarrow> full_text buffer t;
     Some (json_member_direct js fieldname s) }"

definition json_add_invstring :: "json_stream \<Rightarrow> string \<Rightarrow> json_stream" where
  "json_add_invstring js invstring =
     (if prefix ''lni'' invstring then json_add_string js (Some ''bolt12'') invstring
      else json_add_string js (Some ''bolt11'') invstring)"

subsection \<open>Decimal text is read back\<close>

lemma dec_of_nat_induct [case_names small big]:
  assumes "\<And>n. n < 10 \<Longrightarrow> P n" "\<And>n. 10 \<le> n \<Longrightarrow> P (n div 10) \<Longrightarrow> P n"
  shows "P (n :: nat)"
proof (induction n rule: less_induct)
  case (less n)
  then show ?case using assms by (cases "n < 10") simp_all
qed

lemma dec_of_nat_small: "n < 10 \<Longrightarrow> dec_of_nat n = [digit_char n]"
  by (simp add: dec_of_nat.simps)

lemma dec_of_nat_big: "10 \<le> n \<Longrightarrow> dec_of_nat n = dec_of_nat (n div 10) @ [digit_char (n mod 10)]"
  by (subst dec_of_nat.simps) simp

lemma of_char_digit: "d < 10 \<Longrightarrow> (of_char (digit_char d) :: nat) = 48 + d"
  by (simp add: digit_char_def)

lemma dec_of_nat_digits: "c \<in> set (dec_of_nat n) \<Longrightarrow> cisdigit c"
proof (induction n rule: dec_of_nat_induct)
  case (small n)
  then show ?case by (simp add: dec_of_nat_small cisdigit_def of_char_digit)
next
  case (big n)
  then show ?case by (auto simp: dec_of_nat_big cisdigit_def of_char_digit)
qed

lemma dec_of_nat_nonempty [simp]: "dec_of_nat n \<noteq> []"
  by (cases "n < 10") (simp_all add: dec_of_nat_small dec_of_nat_big)

lemma hd_dec_of_nat: "0 < n \<Longrightarrow> hd (dec_of_nat n) \<noteq> CHR ''0''"
proof (induction n rule: dec_of_nat_induct)
  case (small n)
  then have "(of_char (digit_char n) :: nat) \<noteq> of_char (CHR ''0'')" by (simp add: of_char_digit)
  with small show ?case by (auto simp: dec_of_nat_small)
next
  case (big n)
  then show ?case by (simp add: dec_of_nat_big)
qed

lemma digit_val_digit: "d < 10 \<Longrightarrow> digit_val 10 (digit_char d) = Some d"
  by (simp add: digit_val_def of_char_digit Let_def)

lemma scan_digits_dec:
  "scan_digits 10 (dec_of_nat n @ r) acc k =
   scan_digits 10 r (acc * 10 ^ length (dec_of_nat n) + n) (k + length (dec_of_nat n))"
proof (induction n arbitrary: r rule: dec_of_nat_induct)
  case (small n)
  then show ?case by (simp add: dec_of_nat_small digit_val_digit)
next
  case (big n)
  then show ?case by (simp add: dec_of_nat_big digit_val_digit algebra_simps)
qed

lemma cisdigit_not_stop: "cisdigit c \<Longrightarrow> \<not> primitive_stop c \<and> \<not> primitive_bad c \<and> c \<noteq> NUL \<and> \<not> c_isspace c \<and>
   c \<notin> {CHR ''{'', CHR ''['', QUOTE, CHR ''-'', CHR ''+'', BACKSLASH, CHR ''n''}"
  by (auto simp: cisdigit_def primitive_stop_def primitive_bad_def c_isspace_def)

lemma primitive_stop_no_digit: "primitive_stop c \<Longrightarrow> digit_val 10 c = None \<and> digit_val 8 c = None \<and>
   c \<noteq> CHR ''x'' \<and> c \<noteq> CHR ''X''"
  by (auto simp: primitive_stop_def digit_val_def Let_def)

lemma prim_ok_dec [simp]: "prim_ok (dec_of_nat n)"
proof -
  have "list_all (\<lambda>c. c \<noteq> NUL \<and> \<not> primitive_stop c \<and> \<not> primitive_bad c) (dec_of_nat n)"
    unfolding list_all_iff using dec_of_nat_digits cisdigit_not_stop by blast
  moreover have "hd (dec_of_nat n) \<notin> {CHR ''{'', CHR ''['', QUOTE}"
    using cisdigit_not_stop [OF dec_of_nat_digits [OF hd_in_set [OF dec_of_nat_nonempty]], of n] by blast
  ultimately show ?thesis by (simp add: prim_ok_def)
qed

lemma scan_magnitude_dec_Cons:
  assumes x: "digit_val 10 x = None \<and> digit_val 8 x = None \<and> x \<noteq> CHR ''x'' \<and> x \<noteq> CHR ''X''"
  shows "scan_magnitude (dec_of_nat n @ x # b) = Some (n, length (dec_of_nat n))"
proof -
  obtain c cs where d: "dec_of_nat n = c # cs" by (cases "dec_of_nat n") auto
  show ?thesis
  proof (cases "n = 0")
    case True
    have "(of_char (digit_char 0) :: nat) = of_char (CHR ''0'')" by (simp add: of_char_digit)
    then have "digit_char 0 = CHR ''0''" by (simp only: of_char_eq_iff)
    then have "dec_of_nat n = ''0''" using True by (simp add: dec_of_nat_small)
    with x show ?thesis by (simp add: True digit_val_def [of 8 "CHR ''0''"])
  next
    case False
    then have "c \<noteq> CHR ''0''" using hd_dec_of_nat [of n] d by simp
    then have "scan_magnitude (dec_of_nat n @ x # b) = scan_digits 10 (dec_of_nat n @ x # b) 0 0" using d by simp
    also have "\<dots> = Some (n, length (dec_of_nat n))" using x by (simp add: scan_digits_dec)
    finally show ?thesis .
  qed
qed

lemma scan_magnitude_dec: "stop_next b \<Longrightarrow> scan_magnitude (dec_of_nat n @ b) = Some (n, length (dec_of_nat n))"
  using scan_magnitude_dec_Cons primitive_stop_no_digit by (cases b) (auto simp: stop_next_def simp del: scan_magnitude.simps)

lemma strtoull_dec:
  assumes "stop_next b" "n \<le> ULLONG_MAX"
  shows "strtoull (dec_of_nat n @ b) = Some (of_nat n, False, length (dec_of_nat n))"
proof -
  obtain c cs where d: "dec_of_nat n = c # cs" by (cases "dec_of_nat n") auto
  then have "cisdigit c" using dec_of_nat_digits [of c n] by simp
  note c = cisdigit_not_stop [OF this]
  then have "takeWhile c_isspace (dec_of_nat n @ b) = []" "scan_sign (dec_of_nat n @ b) = Some (False, 0)"
    by (simp_all add: d scan_sign_def)
  then show ?thesis
    using scan_magnitude_dec [OF assms(1), of n] assms(2) by (auto simp: strtoull_def)
qed

lemma json_to_u64_dec:
  assumes "inner buf (t # ts) (CPrim (dec_of_nat n))" "n < ULLONG_MAX"
  shows "json_to_u64 erange buf t = Some (Some (of_nat n))"
proof -
  from assms(1) obtain a b where buf: "buf = a @ dec_of_nat n @ b" "stop_next b"
    "t = \<lparr>tok_type = JSMN_PRIMITIVE, tok_start = int (length a), tok_end = int (length a) + int (length (dec_of_nat n)), tok_size = 0\<rparr>"
    by (auto simp: inner_def)
  have "(of_nat n :: u64) \<noteq> of_nat ULLONG_MAX"
    using assms(2) by (auto simp: word_unat_eq_iff ULLONG_MAX_def unat_of_nat)
  then show ?thesis
    using strtoull_dec [OF buf(2), of n] assms(2) by (simp add: json_to_u64_def buf)
qed

lemma json_to_u32_dec:
  assumes "inner buf (t # ts) (CPrim (dec_of_nat (unat (v :: u32))))"
  shows "json_to_u32 erange buf t = Some (Some v)" "json_to_number erange buf t = Some (Some v)"
proof -
  have v: "unat v < 2 ^ 32" using unsigned_less [of v] by simp
  then obtain w :: u64 where w: "w = of_nat (unat v)" "json_to_u64 erange buf t = Some (Some w)"
    using json_to_u64_dec [OF assms] by (auto simp: ULLONG_MAX_def)
  have "(ucast w :: u32) = v" "(ucast v :: u64) = w"
    unfolding w(1) using v
    by (simp_all add: word_unat_eq_iff unsigned_ucast_eq unsigned_take_bit_eq unat_of_nat take_bit_nat_eq_self)
  then show "json_to_u32 erange buf t = Some (Some v)" "json_to_number erange buf t = Some (Some v)"
    using w(2) by (simp_all add: json_to_u32_def json_to_number_def)
qed

subsection \<open>What is written is a layout tree\<close>

text \<open>
  The compact layout of an object with given members and of an array with given elements:
  what the writer produces.
\<close>

fun mk_ms :: "bool \<Rightarrow> (string \<times> cst) list \<Rightarrow> cmembers" where
  "mk_ms first [] = MNil"
| "mk_ms first (m # ms) = MCons (if first then [] else '','') (fst m) [] [] (snd m) (mk_ms False ms)"

fun mk_es :: "bool \<Rightarrow> cst list \<Rightarrow> celems" where
  "mk_es first [] = ENil"
| "mk_es first (c # cs) = ECons (if first then [] else '','') c (mk_es False cs)"

definition mk_obj :: "(string \<times> cst) list \<Rightarrow> cst" where
  "mk_obj ms = CObj (mk_ms True ms) []"

definition mk_arr :: "cst list \<Rightarrow> cst" where
  "mk_arr cs = CArr (mk_es True cs) []"

lemma ms_list_mk_ms [simp]: "ms_list (mk_ms first ms) = ms"
  by (induction ms arbitrary: first) auto

lemma es_list_mk_es [simp]: "es_list (mk_es first cs) = cs"
  by (induction cs arbitrary: first) auto

definition wf_member :: "string \<times> cst \<Rightarrow> bool" where
  "wf_member m \<longleftrightarrow> str_ok (fst m) \<and> wf_cst (snd m)"

lemma wf_mk_ms: "list_all wf_member ms \<Longrightarrow> wf_ms first (mk_ms first ms)"
  by (induction ms arbitrary: first) (auto simp: wf_member_def sep_ok_def ws_ok_def)

lemma wf_mk_es: "list_all wf_cst cs \<Longrightarrow> wf_es first (mk_es first cs)"
  by (induction cs arbitrary: first) (auto simp: sep_ok_def)

lemma wf_mk_obj [simp]: "list_all wf_member ms \<Longrightarrow> wf_cst (mk_obj ms)"
  by (simp add: mk_obj_def wf_mk_ms sep_ok_def)

lemma wf_mk_arr [simp]: "list_all wf_cst cs \<Longrightarrow> wf_cst (mk_arr cs)"
  by (simp add: mk_arr_def wf_mk_es sep_ok_def)

text \<open>One member or element after another.\<close>

definition add_value :: "string option \<Rightarrow> cst \<Rightarrow> json_stream \<Rightarrow> json_stream" where
  "add_value fieldname c js = json_out_member_direct js fieldname (text_of c)"

lemma add_values_obj:
  "fold (\<lambda>(k, c). add_value (Some k) c) ms js =
     js\<lparr>jout_empty := jout_empty js \<and> ms = [], outbuf := outbuf js @ text_ms (mk_ms (jout_empty js) ms)\<rparr>"
  by (induction ms arbitrary: js)
    (auto simp: add_value_def json_out_member_direct_def field_prefix_def split: prod.splits)

lemma add_values_arr:
  "fold (add_value None) cs js =
     js\<lparr>jout_empty := jout_empty js \<and> cs = [], outbuf := outbuf js @ text_es (mk_es (jout_empty js) cs)\<rparr>"
  by (induction cs arbitrary: js) (auto simp: add_value_def json_out_member_direct_def field_prefix_def)

lemma write_object:
  "json_object_end (fold (\<lambda>(k, c). add_value (Some k) c) ms
     ((json_out_member_direct js fieldname ''{'')\<lparr>jout_empty := True\<rparr>)) =
   Some (add_value fieldname (mk_obj ms) js)"
  by (simp add: add_values_obj json_object_end_def json_out_end_def json_out_direct_def add_value_def
      json_out_member_direct_def mk_obj_def)

lemma write_array:
  "json_array_end (fold (add_value None) cs
     ((json_out_member_direct js fieldname ''['')\<lparr>jout_empty := True\<rparr>)) =
   Some (add_value fieldname (mk_arr cs) js)"
  by (simp add: add_values_arr json_array_end_def json_out_end_def json_out_direct_def add_value_def
      json_out_member_direct_def mk_arr_def)

lemma json_object_start_eq:
  "json_object_start js fieldname = Some ((json_out_member_direct js fieldname ''{'')\<lparr>jout_empty := True\<rparr>)"
  by (simp add: json_object_start_def json_out_start_def)

lemma json_array_start_eq:
  "json_array_start js fieldname = Some ((json_out_member_direct js fieldname ''['')\<lparr>jout_empty := True\<rparr>)"
  by (simp add: json_array_start_def json_out_start_def)

lemma add_value_new: "add_value None c new_json_stream = \<lparr>jout_empty = False, outbuf = text_of c\<rparr>"
  by (simp add: add_value_def new_json_stream_def json_out_new_def json_out_member_direct_def field_prefix_def)

definition CString :: "string \<Rightarrow> cst" where
  "CString s = CStr (json_escape s)"

lemma json_add_u32_eq: "json_add_u32 js f v = add_value f (CPrim (dec_of_nat (unat v))) js"
  by (simp add: json_add_u32_def json_add_member_def json_out_addv_def json_out_direct_def add_value_def
      json_out_member_direct_def)

lemma json_add_errcode_eq: "json_add_errcode js f v = add_value f (CPrim (dec_of_int (sint v))) js"
  by (simp add: json_add_errcode_def json_add_member_def json_out_addv_def json_out_direct_def add_value_def
      json_out_member_direct_def)

lemma json_out_addv_quote_eq: "json_out_addv js f True s = add_value f (CString s) js"
  using json_escape_not_needed [of s]
  by (simp add: json_out_addv_def json_out_direct_def add_value_def json_out_member_direct_def CString_def
      json_escape_def)

lemma json_add_string_eq: "c_string s \<Longrightarrow> json_add_string js f s = add_value f (CString s) js"
  by (simp add: json_add_string_def json_add_stringn_def json_add_member_def json_out_addv_quote_eq)

lemma json_out_addstr_eq: "json_out_addstr js f s = add_value f (CString s) js"
  using json_escape_not_needed [of s] by (simp add: json_out_addstr_def add_value_def CString_def Let_def)

lemma json_add_tok_eq: "denotes buf ts c \<Longrightarrow> json_add_tok js f ts buf = Some (add_value f c js)"
  using denotes_deref [of buf ts c] denotes_type [of buf _ _ c] denotes_full_text [of buf _ _ c]
  by (cases c) (auto simp: json_add_tok_def json_member_direct_def add_value_def)

lemma json_add_literal_eq: "json_add_literal js f (text_of c) = add_value f c js"
  by (simp add: json_add_literal_def json_member_direct_def add_value_def)

lemma wf_CString [simp]: "c_string s \<Longrightarrow> utf8_check s \<Longrightarrow> wf_cst (CString s)"
  by (simp add: CString_def str_ok_json_escape)

lemma wf_dec [simp]: "wf_cst (CPrim (dec_of_nat n))"
  by simp

lemma json_get_member_mk_obj:
  assumes "denotes buf ts (mk_obj ms)"
  shows "case map_of ms label of
      None \<Rightarrow> json_get_member buf ts label = Some None
    | Some c \<Rightarrow> \<exists>ts'. json_get_member buf ts label = Some (Some ts') \<and> inner buf ts' c"
  using json_get_member_denotes [OF assms [unfolded mk_obj_def], of label] by simp

lemma json_parse_simple_text: "wf_cst c \<Longrightarrow> json_parse_simple (text_of c) = Some (Some (toks_of 0 c @ [terminator]))"
  using json_parse_simple_cst [of c "[]" "[]"] by (simp add: ws_ok_def)


text \<open>\<open>strtoull\<close> does not leave the buffer when a byte follows that ends every number.\<close>

definition ends_number :: "char \<Rightarrow> bool" where
  "ends_number x \<longleftrightarrow> digit_val 8 x = None \<and> digit_val 10 x = None \<and> digit_val 16 x = None \<and>
     x \<notin> {CHR ''x'', CHR ''X'', CHR ''+'', CHR ''-'', CHR ''0''}"

lemma ends_number_stop: "primitive_stop x \<Longrightarrow> ends_number x" and ends_number_quote: "ends_number QUOTE"
  by (auto simp: primitive_stop_def ends_number_def digit_val_def)

lemma scan_digits_ends: "digit_val base x = None \<Longrightarrow> scan_digits base (u @ x # r) acc n \<noteq> None"
  by (induction u arbitrary: acc n) (auto split: option.splits)

lemma scan_magnitude_ends:
  assumes "ends_number x"
  shows "scan_magnitude (u @ x # r) \<noteq> None"
proof (cases u)
  case Nil
  then show ?thesis using assms scan_digits_ends [of 10 x "[]" r 0 0] by (simp add: ends_number_def)
next
  case (Cons c cs)
  have 8: "scan_digits 8 (c # cs @ x # r) 0 0 \<noteq> None" and 10: "scan_digits 10 (c # cs @ x # r) 0 0 \<noteq> None"
    using assms scan_digits_ends [of 8 x "c # cs" r] scan_digits_ends [of 10 x "c # cs" r] by (simp_all add: ends_number_def)
  show ?thesis
  proof (cases cs)
    case Nil
    then show ?thesis using assms 8 10 by (auto simp: Cons ends_number_def simp del: scan_digits.simps)
  next
    case (Cons y ds)
    have 16: "scan_digits 16 (ds @ x # r) 0 0 \<noteq> None"
      using assms scan_digits_ends [of 16 x ds r] by (simp add: ends_number_def)
    then show ?thesis
      using 8 10 by (cases ds) (auto simp: \<open>u = c # cs\<close> Cons simp del: scan_digits.simps)
  qed
qed

lemma strtoull_ends:
  assumes "ends_number x" "dropWhile c_isspace (u @ x # r) = v @ x # r"
  shows "strtoull (u @ x # r) \<noteq> None"
proof -
  let ?ws = "length (takeWhile c_isspace (u @ x # r))"
  have d: "drop ?ws (u @ x # r) = v @ x # r" using assms(2) by (simp add: dropWhile_eq_drop)
  have "\<exists>neg sg. scan_sign (v @ x # r) = Some (neg, sg) \<and> sg \<le> length v"
    using assms(1) by (cases v) (auto simp: scan_sign_def ends_number_def)
  then obtain neg sg where sg: "scan_sign (v @ x # r) = Some (neg, sg)" "sg \<le> length v" by blast
  have "drop (?ws + sg) (u @ x # r) = drop sg v @ x # r"
    using sg(2) d by (metis add.commute drop_append drop_drop drop_eq_Nil2 diff_is_0_eq' drop0)
  then show ?thesis
    using sg(1) d scan_magnitude_ends [OF assms(1), of "drop sg v" r] by (auto simp: strtoull_def Let_def)
qed

lemma json_to_u64_total:
  assumes "inner buf (t # ts) c"
  shows "json_to_u64 erange buf t \<noteq> None"
proof -
  obtain a b where wf: "wf_cst c" and buf: "buf = a @ text_of c @ b" and stop: "stop_next b"
    and t: "t = hd (toks_of (int (length a)) c)"
    using assms by (auto simp: inner_def) (metis list.sel(1) toks_of_Cons append_Cons)
  obtain x b' where b: "b = x # b'" "ends_number x" using stop ends_number_stop by (cases b) (auto simp: stop_next_def)
  have "\<exists>k. tok_start t = int k \<and> k \<le> length buf \<and> strtoull (drop k buf) \<noteq> None"
  proof (cases c)
    case (CPrim s)
    then obtain y s' where "s = y # s'" "\<not> c_isspace y"
      using wf by (cases s) (auto simp: prim_ok_def primitive_bad_def primitive_stop_def c_isspace_def)
    then show ?thesis using strtoull_ends [OF b(2), of s b' s] by (simp add: t CPrim buf b(1))
  next
    case (CStr s)
    have "dropWhile c_isspace (s @ QUOTE # b) = dropWhile c_isspace s @ QUOTE # b"
      by (induction s) (auto simp: c_isspace_def)
    then have "strtoull (s @ QUOTE # b) \<noteq> None" by (rule strtoull_ends [OF ends_number_quote])
    then show ?thesis by (intro exI [of _ "Suc (length a)"]) (simp add: t CStr buf)
  next
    case (CArr es w)
    then show ?thesis using strtoull_ends [of "CHR ''[''" "[]" _ "[]"]
      by (auto simp: t buf c_isspace_def ends_number_def digit_val_def)
  next
    case (CObj ms w)
    then show ?thesis using strtoull_ends [of "CHR ''{''" "[]" _ "[]"]
      by (auto simp: t buf c_isspace_def ends_number_def digit_val_def)
  qed
  then show ?thesis by (auto simp: json_to_u64_def)
qed

lemma json_to_number_total: "inner buf (t # ts) c \<Longrightarrow> json_to_number erange buf t \<noteq> None"
  and json_to_u32_total: "inner buf (t # ts) c \<Longrightarrow> json_to_u32 erange buf t \<noteq> None"
  using json_to_u64_total [of buf t ts c erange]
  by (auto simp: json_to_number_def json_to_u32_def Let_def split: option.splits)

end
