(* ===== verification/Critbit.thy ===== *)
theory Critbit
  imports Payz_Prelude
begin

text \<open>
  Crit-bit trees, the shape shared by \<open>ccan/strmap\<close> and \<open>ccan/intmap\<close>: a leaf holds a key
  and a non-NULL value, an inner node a label naming one bit position and two children.
  The locale \<open>critbit\<close> is the contract under which the walks of both files are correct:
  keys are told apart by their bits, and a label names a position. The invariant
  \<open>cb_inv\<close> says that the keys below a node agree on all earlier bits and that the
  node's bit separates its children. The lemmas give look-up, splitting, insertion along
  the walk, deletion, and that the leaves come in the order of the keys.

  The locale \<open>ordered_map\<close> is what the clients of both maps rely on.
\<close>

datatype ('k, 'n, 'v) crit = Leaf 'k 'v | Node 'n "('k, 'n, 'v) crit" "('k, 'n, 'v) crit"

fun leaves :: "('k, 'n, 'v) crit \<Rightarrow> ('k \<times> 'v) list" where
  "leaves (Leaf k v) = [(k, v)]"
| "leaves (Node n a b) = leaves a @ leaves b"

fun keys :: "('k, 'n, 'v) crit \<Rightarrow> 'k set" where
  "keys (Leaf k v) = {k}"
| "keys (Node n a b) = keys a \<union> keys b"

lemma keys_leaves: "fst ` set (leaves t) = keys t"
  by (induction t) auto

lemma in_keys: "(k, v) \<in> set (leaves t) \<Longrightarrow> k \<in> keys t"
  using keys_leaves [of t] by force

lemma keysE: "k \<in> keys t \<Longrightarrow> \<exists>v. (k, v) \<in> set (leaves t)"
  using keys_leaves [of t] by force

lemma leaves_not_Nil [simp]: "leaves t \<noteq> []"
  by (induction t) auto

text \<open>The leftmost and the rightmost leaf.\<close>

fun leftmost :: "('k, 'n, 'v) crit \<Rightarrow> 'k \<times> 'v" where
  "leftmost (Leaf k v) = (k, v)"
| "leftmost (Node n a b) = leftmost a"

fun rightmost :: "('k, 'n, 'v) crit \<Rightarrow> 'k \<times> 'v" where
  "rightmost (Leaf k v) = (k, v)"
| "rightmost (Node n a b) = rightmost b"

lemma leftmost_hd: "leftmost t = hd (leaves t)"
  by (induction t) auto

lemma rightmost_last: "rightmost t = last (leaves t)"
  by (induction t) auto

locale critbit =
  fixes kbit :: "'k \<Rightarrow> nat \<Rightarrow> bool"
    and pos :: "'n \<Rightarrow> nat"
    and key_ok :: "'k \<Rightarrow> bool"
  assumes kbit_inj: "key_ok k \<Longrightarrow> key_ok k' \<Longrightarrow> (\<And>p. kbit k p = kbit k' p) \<Longrightarrow> k = k'"
begin

definition agree :: "nat \<Rightarrow> 'k \<Rightarrow> 'k \<Rightarrow> bool" where
  "agree q k k' \<longleftrightarrow> (\<forall>p<q. kbit k p = kbit k' p)"

definition first_diff :: "nat \<Rightarrow> 'k \<Rightarrow> 'k \<Rightarrow> bool" where
  "first_diff q k k' \<longleftrightarrow> agree q k k' \<and> kbit k q \<noteq> kbit k' q"

fun cb_inv :: "('k, 'n, 'v) crit \<Rightarrow> bool" where
  "cb_inv (Leaf k v) \<longleftrightarrow> key_ok k"
| "cb_inv (Node n a b) \<longleftrightarrow> cb_inv a \<and> cb_inv b \<and>
     (\<forall>k\<in>keys a. \<not> kbit k (pos n)) \<and> (\<forall>k\<in>keys b. kbit k (pos n)) \<and>
     (\<forall>k\<in>keys a \<union> keys b. \<forall>k'\<in>keys a \<union> keys b. agree (pos n) k k')"

fun walk :: "'k \<Rightarrow> ('k, 'n, 'v) crit \<Rightarrow> 'k \<times> 'v" where
  "walk k (Leaf k' v) = (k', v)"
| "walk k (Node n a b) = (if kbit k (pos n) then walk k b else walk k a)"

definition split :: "'n \<Rightarrow> bool \<Rightarrow> 'k \<Rightarrow> 'v \<Rightarrow> ('k, 'n, 'v) crit \<Rightarrow> ('k, 'n, 'v) crit" where
  "split n dir k v t = (if dir then Node n t (Leaf k v) else Node n (Leaf k v) t)"

fun ins :: "'n \<Rightarrow> bool \<Rightarrow> 'k \<Rightarrow> 'v \<Rightarrow> ('k, 'n, 'v) crit \<Rightarrow> ('k, 'n, 'v) crit" where
  "ins m dir k v (Leaf k' v') = split m dir k v (Leaf k' v')"
| "ins m dir k v (Node n a b) =
     (if pos m < pos n then split m dir k v (Node n a b)
      else if kbit k (pos n) then Node n a (ins m dir k v b)
      else Node n (ins m dir k v a) b)"

fun prune :: "'k \<Rightarrow> ('k, 'n, 'v) crit \<Rightarrow> ('k, 'n, 'v) crit option" where
  "prune k (Leaf k' v) = None"
| "prune k (Node n a b) =
     (if kbit k (pos n)
      then (case prune k b of None \<Rightarrow> Some a | Some b' \<Rightarrow> Some (Node n a b'))
      else (case prune k a of None \<Rightarrow> Some b | Some a' \<Rightarrow> Some (Node n a' b)))"

lemma agree_sym: "agree q k k' \<Longrightarrow> agree q k' k"
  by (simp add: agree_def)

lemma agree_trans: "agree q a b \<Longrightarrow> agree q b c \<Longrightarrow> agree q a c"
  by (simp add: agree_def)

lemma agree_mono: "agree q a b \<Longrightarrow> p \<le> q \<Longrightarrow> agree p a b"
  by (simp add: agree_def)

lemma agreeD: "agree q a b \<Longrightarrow> p < q \<Longrightarrow> kbit a p = kbit b p"
  by (simp add: agree_def)

lemma agree_first_diff: "agree q a b \<Longrightarrow> first_diff p a b \<Longrightarrow> q \<le> p"
  by (meson agreeD first_diff_def not_less)

lemma first_diff_agree: "first_diff p k c \<Longrightarrow> agree q c k' \<Longrightarrow> p < q \<Longrightarrow> first_diff p k k'"
  by (auto simp: first_diff_def agree_def)

lemma first_diff_exists:
  assumes "key_ok k" "key_ok k'" "k \<noteq> k'"
  shows "\<exists>q. first_diff q k k'"
proof -
  obtain p where "kbit k p \<noteq> kbit k' p"
    using assms kbit_inj by blast
  then have "first_diff (LEAST p. kbit k p \<noteq> kbit k' p) k k'"
    unfolding first_diff_def agree_def
    using LeastI [of "\<lambda>p. kbit k p \<noteq> kbit k' p"] not_less_Least [of _ "\<lambda>p. kbit k p \<noteq> kbit k' p"]
    by blast
  then show ?thesis ..
qed

lemma cb_inv_key_ok: "cb_inv t \<Longrightarrow> k \<in> keys t \<Longrightarrow> key_ok k"
  by (induction t) auto

lemma walk_in: "walk k t \<in> set (leaves t)"
  by (induction t) auto

lemma walk_key_in: "fst (walk k t) \<in> keys t"
  by (induction t) auto

lemma walk_member: "cb_inv t \<Longrightarrow> (k, v) \<in> set (leaves t) \<Longrightarrow> walk k t = (k, v)"
proof (induction t)
  case (Leaf k' v')
  then show ?case by simp
next
  case (Node n a b)
  then consider "(k, v) \<in> set (leaves a)" | "(k, v) \<in> set (leaves b)" by auto
  then show ?case
  proof cases
    case 1
    then have "k \<in> keys a" by (rule in_keys)
    with Node 1 show ?thesis by auto
  next
    case 2
    then have "k \<in> keys b" by (rule in_keys)
    with Node 2 show ?thesis by auto
  qed
qed

text \<open>The leaves are sorted by the first bit where keys differ.\<close>

definition kless :: "'k \<Rightarrow> 'k \<Rightarrow> bool" where
  "kless k k' \<longleftrightarrow> (\<exists>q. agree q k k' \<and> \<not> kbit k q \<and> kbit k' q)"

lemma kless_irrefl: "\<not> kless k k"
  by (simp add: kless_def)

lemma leaves_sorted: "cb_inv t \<Longrightarrow> sorted_wrt kless (map fst (leaves t))"
proof (induction t)
  case (Leaf k v)
  then show ?case by simp
next
  case (Node n a b)
  then have "kless k k'" if "k \<in> keys a" "k' \<in> keys b" for k k'
    using that unfolding kless_def cb_inv.simps by blast
  with Node show ?case by (auto simp: sorted_wrt_append dest!: in_keys)
qed

lemma sorted_kless_distinct: "sorted_wrt kless xs \<Longrightarrow> distinct xs"
  by (induction xs) (auto dest: bspec simp: kless_irrefl)

lemma leaves_distinct: "cb_inv t \<Longrightarrow> distinct (map fst (leaves t))"
  by (simp add: leaves_sorted sorted_kless_distinct)

lemma walk_lookup:
  assumes "cb_inv t"
  shows "(case walk k t of (k', v) \<Rightarrow> if k = k' then Some v else None) = map_of (leaves t) k"
proof (cases "k \<in> keys t")
  case True
  then obtain v where v: "(k, v) \<in> set (leaves t)" using keysE by metis
  with assms have "walk k t = (k, v)" by (rule walk_member)
  moreover have "map_of (leaves t) k = Some v"
    using v leaves_distinct [OF assms] by simp
  ultimately show ?thesis by simp
next
  case False
  then have "fst (walk k t) \<noteq> k" using walk_key_in by metis
  moreover from False have "map_of (leaves t) k = None" by (simp add: map_of_eq_None_iff keys_leaves)
  ultimately show ?thesis by (simp add: case_prod_beta)
qed

lemma split_leaves:
  "set (leaves (split n dir k v t)) = insert (k, v) (set (leaves t))"
  by (auto simp: split_def)

lemma split_keys [simp]: "keys (split n dir k v t) = insert k (keys t)"
  by (auto simp: split_def)

lemma split_inv:
  assumes "cb_inv t" "key_ok k" "dir = kbit k (pos n)"
    and "\<And>k'. k' \<in> keys t \<Longrightarrow> first_diff (pos n) k k'"
  shows "cb_inv (split n dir k v t)"
proof -
  have ag: "agree (pos n) k' k''" if "k' \<in> insert k (keys t)" "k'' \<in> insert k (keys t)" for k' k''
  proof -
    have "agree (pos n) k x" if "x \<in> insert k (keys t)" for x
      using that assms(4) by (auto simp: first_diff_def agree_def)
    with that show ?thesis by (meson agree_sym agree_trans)
  qed
  have "kbit k' (pos n) = (\<not> dir)" if "k' \<in> keys t" for k'
    using assms(3,4) that by (auto simp: first_diff_def)
  with assms(1,2,3) ag show ?thesis by (auto simp: split_def)
qed

lemma ins_leaves:
  "set (leaves (ins m dir k v t)) = insert (k, v) (set (leaves t))"
  by (induction t) (auto simp: split_leaves)

lemma ins_keys [simp]: "keys (ins m dir k v t) = insert k (keys t)"
  by (induction t) auto

lemma ins_inv:
  assumes "cb_inv t" "key_ok k" "dir = kbit k (pos m)"
    and "first_diff (pos m) k (fst (walk k t))"
  shows "cb_inv (ins m dir k v t)"
  using assms
proof (induction t)
  case (Leaf k' v')
  then show ?case using split_inv [of "Leaf k' v'" k dir m v] by simp
next
  case (Node n a b)
  define c where "c = fst (walk k (Node n a b))"
  have c: "c \<in> keys (Node n a b)"
    unfolding c_def by (rule walk_key_in)
  have agc: "agree (pos n) c k'" if "k' \<in> keys (Node n a b)" for k'
    using that c Node.prems(1) by auto
  have fd: "first_diff (pos m) k c"
    using Node.prems(4) by (simp add: c_def)
  show ?case
  proof (cases "pos m < pos n")
    case True
    then have "first_diff (pos m) k k'" if "k' \<in> keys (Node n a b)" for k'
      using first_diff_agree [OF fd agc [OF that]] by simp
    with True Node.prems show ?thesis
      using split_inv [of "Node n a b" k dir m v] by simp
  next
    case False
    have cbit: "kbit c (pos n) = kbit k (pos n)"
    proof (cases "kbit k (pos n)")
      case True
      then have "c \<in> keys b" unfolding c_def using walk_key_in [of k b] by simp
      with True Node.prems(1) show ?thesis by simp
    next
      case False
      then have "c \<in> keys a" unfolding c_def using walk_key_in [of k a] by simp
      with False Node.prems(1) show ?thesis by simp
    qed
    with False fd have less: "pos n < pos m"
      by (metis first_diff_def linorder_neqE_nat)
    then have "agree (pos n) k c"
      using fd by (meson agree_mono first_diff_def less_imp_le)
    then have agk: "agree (pos n) k k'" if "k' \<in> keys (Node n a b)" for k'
      using agc [OF that] by (rule agree_trans)
    have ag: "agree (pos n) k' k''"
      if "k' \<in> insert k (keys (Node n a b))" "k'' \<in> insert k (keys (Node n a b))" for k' k''
      using that agk by (metis agree_def agree_sym agree_trans insertE)
    show ?thesis
    proof (cases "kbit k (pos n)")
      case True
      with Node have "cb_inv (ins m dir k v b)" by simp
      with True False Node.prems(1) ag show ?thesis
        by auto
    next
      case dir0: False
      with Node have "cb_inv (ins m dir k v a)" by simp
      with False dir0 Node.prems(1) ag show ?thesis
        by auto
    qed
  qed
qed

lemma prune_leaves:
  assumes "cb_inv t" "k \<in> keys t"
  shows "(case prune k t of None \<Rightarrow> [] | Some t' \<Rightarrow> leaves t') =
    filter (\<lambda>(k', v). k' \<noteq> k) (leaves t)"
  using assms
proof (induction t)
  case (Leaf k' v)
  then show ?case by simp
next
  case (Node n a b)
  show ?case
  proof (cases "kbit k (pos n)")
    case True
    with Node.prems have "k \<notin> keys a" "k \<in> keys b" by auto
    moreover from this have "filter (\<lambda>(k', v). k' \<noteq> k) (leaves a) = leaves a"
      by (intro filter_True) (auto dest: in_keys)
    ultimately show ?thesis
      using True Node by (auto split: option.splits)
  next
    case False
    with Node.prems have "k \<notin> keys b" "k \<in> keys a" by auto
    moreover from this have "filter (\<lambda>(k', v). k' \<noteq> k) (leaves b) = leaves b"
      by (intro filter_True) (auto dest: in_keys)
    ultimately show ?thesis
      using False Node by (auto split: option.splits)
  qed
qed

lemma prune_subset: "prune k t = Some t' \<Longrightarrow> keys t' \<subseteq> keys t"
proof (induction t arbitrary: t')
  case (Leaf k' v)
  then show ?case by simp
next
  case (Node n a b)
  show ?case
  proof (cases "kbit k (pos n)")
    case True
    with Node show ?thesis by (cases "prune k b") auto
  next
    case False
    with Node show ?thesis by (cases "prune k a") auto
  qed
qed

lemma cb_inv_Node_mono:
  assumes "cb_inv (Node n a b)" "cb_inv a'" "cb_inv b'" "keys a' \<subseteq> keys a" "keys b' \<subseteq> keys b"
  shows "cb_inv (Node n a' b')"
proof -
  have sub: "keys a' \<union> keys b' \<subseteq> keys a \<union> keys b"
    using assms(4,5) by (rule Un_mono)
  have "\<forall>k\<in>keys a' \<union> keys b'. \<forall>k'\<in>keys a' \<union> keys b'. agree (pos n) k k'"
  proof (intro ballI)
    fix k k'
    assume "k \<in> keys a' \<union> keys b'" "k' \<in> keys a' \<union> keys b'"
    with sub have "k \<in> keys a \<union> keys b" "k' \<in> keys a \<union> keys b" by blast+
    with assms(1) show "agree (pos n) k k'" unfolding cb_inv.simps by blast
  qed
  moreover from assms(1) have "\<forall>k\<in>keys a. \<not> kbit k (pos n)" "\<forall>k\<in>keys b. kbit k (pos n)"
    by simp_all
  then have "\<forall>k\<in>keys a'. \<not> kbit k (pos n)" "\<forall>k\<in>keys b'. kbit k (pos n)"
    using assms(4,5) by blast+
  ultimately show ?thesis using assms(2,3) by simp
qed

lemma prune_inv: "cb_inv t \<Longrightarrow> prune k t = Some t' \<Longrightarrow> cb_inv t'"
proof (induction t arbitrary: t')
  case (Leaf k' v)
  then show ?case by simp
next
  case (Node n a b)
  show ?case
  proof (cases "kbit k (pos n)")
    case True
    show ?thesis
    proof (cases "prune k b")
      case None
      with True Node.prems show ?thesis by simp
    next
      case (Some b')
      from Some have "cb_inv b'" "keys b' \<subseteq> keys b"
        using Node.IH(2) [OF _ Some] Node.prems(1) prune_subset [OF Some] by simp_all
      then have "cb_inv (Node n a b')"
        using Node.prems(1) cb_inv_Node_mono [OF Node.prems(1) _ _ subset_refl, of b'] by simp
      with True Some Node.prems show ?thesis by simp
    qed
  next
    case False
    show ?thesis
    proof (cases "prune k a")
      case None
      with False Node.prems show ?thesis by simp
    next
      case (Some a')
      from Some have "cb_inv a'" "keys a' \<subseteq> keys a"
        using Node.IH(1) [OF _ Some] Node.prems(1) prune_subset [OF Some] by simp_all
      then have "cb_inv (Node n a' b)"
        using Node.prems(1) cb_inv_Node_mono [OF Node.prems(1) _ _ _ subset_refl, of a'] by simp
      with False Some Node.prems show ?thesis by simp
    qed
  qed
qed

end

section \<open>The interface of the maps\<close>

text \<open>
  What the clients of \<open>strmap\<close> and \<open>uintmap\<close> rely on: look-up agrees with the list of
  entries, which is strictly sorted; \<open>add\<close> refuses a key that is present and otherwise
  adds exactly one entry; \<open>del\<close> removes exactly the entry of the key.
\<close>

locale ordered_map =
  fixes empty :: 'm
    and lookup :: "'m \<Rightarrow> 'k \<Rightarrow> 'v option"
    and add :: "'m \<Rightarrow> 'k \<Rightarrow> 'v \<Rightarrow> bool \<times> 'm"
    and del :: "'m \<Rightarrow> 'k \<Rightarrow> 'm"
    and entries :: "'m \<Rightarrow> ('k \<times> 'v) list"
    and invar :: "'m \<Rightarrow> bool"
    and key_ok :: "'k \<Rightarrow> bool"
    and less :: "'k \<Rightarrow> 'k \<Rightarrow> bool"
  assumes invar_empty: "invar empty"
    and entries_empty: "entries empty = []"
    and lookup_entries: "invar m \<Longrightarrow> lookup m k = map_of (entries m) k"
    and entries_sorted: "invar m \<Longrightarrow> sorted_wrt less (map fst (entries m))"
    and less_irrefl: "\<not> less k k"
    and entries_key_ok: "invar m \<Longrightarrow> (k, v) \<in> set (entries m) \<Longrightarrow> key_ok k"
    and add_present: "invar m \<Longrightarrow> lookup m k \<noteq> None \<Longrightarrow> add m k v = (False, m)"
    and add_fresh: "invar m \<Longrightarrow> key_ok k \<Longrightarrow> lookup m k = None \<Longrightarrow>
      fst (add m k v) \<and> invar (snd (add m k v)) \<and>
      set (entries (snd (add m k v))) = insert (k, v) (set (entries m))"
    and invar_del: "invar m \<Longrightarrow> invar (del m k)"
    and entries_del: "invar m \<Longrightarrow> entries (del m k) = filter (\<lambda>(k', v). k' \<noteq> k) (entries m)"
begin

lemma sorted_distinct: "sorted_wrt less xs \<Longrightarrow> distinct xs"
  by (induction xs) (auto dest: bspec simp: less_irrefl)

lemma entries_distinct: "invar m \<Longrightarrow> distinct (map fst (entries m))"
  by (simp add: entries_sorted sorted_distinct)

lemma lookup_Some_iff: "invar m \<Longrightarrow> lookup m k = Some v \<longleftrightarrow> (k, v) \<in> set (entries m)"
  by (simp add: lookup_entries entries_distinct)

lemma lookup_empty: "lookup empty k = None"
  by (simp add: lookup_entries invar_empty entries_empty)

lemma lookup_eqI:
  assumes "invar m" "invar m'"
    and "\<And>k v. (k, v) \<in> set (entries m) \<longleftrightarrow> (k, v) \<in> set (entries m')"
  shows "lookup m = lookup m'"
proof
  fix k
  have "lookup m k = Some v \<longleftrightarrow> lookup m' k = Some v" for v
    using assms by (simp add: lookup_Some_iff)
  then show "lookup m k = lookup m' k" by (metis not_None_eq)
qed

lemma lookup_add:
  assumes "invar m" "key_ok k" "lookup m k = None"
  shows "lookup (snd (add m k v)) = (lookup m)(k \<mapsto> v)"
proof
  fix k'
  note af = add_fresh [OF assms, of v]
  have nk: "(k, w) \<notin> set (entries m)" for w
    using assms lookup_Some_iff [of m k w] by simp
  have "lookup (snd (add m k v)) k' = Some w \<longleftrightarrow> ((lookup m)(k \<mapsto> v)) k' = Some w" for w
    using af assms nk by (auto simp: lookup_Some_iff)
  then show "lookup (snd (add m k v)) k' = ((lookup m)(k \<mapsto> v)) k'" by (metis not_None_eq)
qed

lemma invar_add: "invar m \<Longrightarrow> key_ok k \<Longrightarrow> invar (snd (add m k v))"
  using add_fresh add_present by (metis snd_conv)

lemma lookup_del:
  assumes "invar m"
  shows "lookup (del m k) = (lookup m)(k := None)"
proof
  fix k'
  have "lookup (del m k) k' = Some w \<longleftrightarrow> ((lookup m)(k := None)) k' = Some w" for w
    using assms by (auto simp: lookup_Some_iff invar_del entries_del)
  then show "lookup (del m k) k' = ((lookup m)(k := None)) k'" by (metis not_None_eq)
qed

lemma entries_eq_Nil_iff: "invar m \<Longrightarrow> entries m = [] \<longleftrightarrow> lookup m = Map.empty"
  by (auto simp: lookup_entries fun_eq_iff) (metis map_of_eq_empty_iff ext)

lemma fst_entries_dom: "invar m \<Longrightarrow> fst ` set (entries m) = dom (lookup m)"
  by (force simp: dom_def lookup_Some_iff)

end

end
