(* ===== verification/Strmap.thy ===== *)
theory Strmap
  imports Critbit
begin

text \<open>
  \<open>ccan/strmap/strmap.c\<close>: maps from C strings to non-NULL pointers, as crit-bit trees.
  \<open>struct strmap\<close> is \<open>None\<close> when \<open>u.n\<close> is NULL; otherwise it is a leaf (\<open>v\<close> set, \<open>u.s\<close> the
  key) or a node. \<open>malloc\<close> is taken to succeed. The interpretation \<open>sm\<close> at the end
  shows that the operations implement \<open>ordered_map\<close> with the order of \<open>strcmp\<close>.
\<close>

record str_label =
  byte_num :: nat
  bit_num :: nat

type_synonym 'v strmap_node = "(string, str_label, 'v) crit"
type_synonym 'v strmap = "'v strmap_node option"

definition strmap_init :: "'v strmap" where
  "strmap_init = None"

definition strmap_empty :: "'v strmap \<Rightarrow> bool" where
  "strmap_empty m = (m = None)"

text \<open>The direction a member takes at a node.\<close>

definition str_direction :: "string \<Rightarrow> str_label \<Rightarrow> bool" where
  "str_direction member n =
     (if byte_num n < length member then bit (c_at member (byte_num n)) (bit_num n) else False)"

fun closest :: "'v strmap_node \<Rightarrow> string \<Rightarrow> string \<times> 'v" where
  "closest (Leaf s v) member = (s, v)"
| "closest (Node n a b) member =
     (if str_direction member n then closest b member else closest a member)"

definition strmap_get :: "'v strmap \<Rightarrow> string \<Rightarrow> 'v option" where
  "strmap_get m member =
     (case m of
        None \<Rightarrow> None
      | Some n \<Rightarrow> (case closest n member of (s, v) \<Rightarrow> if member = s then Some v else None))"

text \<open>The loop that finds the first byte where two strings differ; \<open>None\<close> when they are equal.\<close>

function differ_byte :: "string \<Rightarrow> string \<Rightarrow> nat \<Rightarrow> nat option" where
  "differ_byte s member i =
     (if c_at s i = c_at member i
      then (if c_at member i = 0 then None else differ_byte s member (Suc i))
      else Some i)"
  by pat_completeness auto
termination
  by (relation "measure (\<lambda>(s, member, i). length member - i)")
    (auto simp: c_at_def split: if_splits)

declare differ_byte.simps [simp del]

fun ilog32_nz :: "nat \<Rightarrow> nat" where
  "ilog32_nz n = (if n = 0 then 0 else Suc (ilog32_nz (n div 2)))"

declare ilog32_nz.simps [simp del]

definition strmap_split :: "str_label \<Rightarrow> bool \<Rightarrow> string \<Rightarrow> 'v \<Rightarrow> 'v strmap_node \<Rightarrow> 'v strmap_node" where
  "strmap_split newn new_dir member v n =
     (if new_dir then Node newn n (Leaf member v) else Node newn (Leaf member v) n)"

text \<open>The second walk of \<open>strmap_add_\<close>: down to the first node that differs.\<close>

fun strmap_insert :: "str_label \<Rightarrow> bool \<Rightarrow> string \<Rightarrow> 'v \<Rightarrow> 'v strmap_node \<Rightarrow> 'v strmap_node" where
  "strmap_insert newn new_dir member v (Leaf s w) = strmap_split newn new_dir member v (Leaf s w)"
| "strmap_insert newn new_dir member v (Node n a b) =
     (if byte_num n > byte_num newn \<or>
         byte_num n = byte_num newn \<and> bit_num n < bit_num newn
      then strmap_split newn new_dir member v (Node n a b)
      else if str_direction member n
      then Node n a (strmap_insert newn new_dir member v b)
      else Node n (strmap_insert newn new_dir member v a) b)"

definition strmap_add :: "'v strmap \<Rightarrow> string \<Rightarrow> 'v \<Rightarrow> bool \<times> 'v strmap" where
  "strmap_add m member v =
     (case m of
        None \<Rightarrow> (True, Some (Leaf member v))
      | Some t \<Rightarrow>
          (let s = fst (closest t member) in
           case differ_byte s member 0 of
             None \<Rightarrow> (False, m)
           | Some byte \<Rightarrow>
               (let bit_no = ilog32_nz (Bit_Operations.xor (c_at s byte) (c_at member byte)) - 1;
                    new_dir = bit (c_at member byte) bit_no
                in (True, Some (strmap_insert \<lparr>byte_num = byte, bit_num = bit_no\<rparr>
                                  new_dir member v t)))))"

fun strmap_unlink :: "'v strmap_node \<Rightarrow> string \<Rightarrow> 'v strmap_node option" where
  "strmap_unlink (Leaf s v) member = None"
| "strmap_unlink (Node n a b) member =
     (if str_direction member n
      then (case strmap_unlink b member of None \<Rightarrow> Some a | Some b' \<Rightarrow> Some (Node n a b'))
      else (case strmap_unlink a member of None \<Rightarrow> Some b | Some a' \<Rightarrow> Some (Node n a' b)))"

definition strmap_del :: "'v strmap \<Rightarrow> string \<Rightarrow> (string \<times> 'v) option \<times> 'v strmap" where
  "strmap_del m member =
     (case m of
        None \<Rightarrow> (None, m)
      | Some t \<Rightarrow>
          (case closest t member of
             (s, v) \<Rightarrow> if member \<noteq> s then (None, m)
                      else (Some (s, v), strmap_unlink t member)))"

text \<open>\<open>iterate\<close>: the handler sees members left to right and stops the walk by returning false.\<close>

fun iterate :: "'v strmap_node \<Rightarrow> (string \<Rightarrow> 'v \<Rightarrow> 's \<Rightarrow> bool \<times> 's) \<Rightarrow> 's \<Rightarrow> bool \<times> 's" where
  "iterate (Leaf s v) handle d = handle s v d"
| "iterate (Node n a b) handle d =
     (case iterate a handle d of (ok, d') \<Rightarrow> if ok then iterate b handle d' else (False, d'))"

definition strmap_iterate :: "'v strmap \<Rightarrow> (string \<Rightarrow> 'v \<Rightarrow> 's \<Rightarrow> bool \<times> 's) \<Rightarrow> 's \<Rightarrow> 's" where
  "strmap_iterate m handle d = (case m of None \<Rightarrow> d | Some t \<Rightarrow> snd (iterate t handle d))"

definition strmap_clear :: "'v strmap \<Rightarrow> 'v strmap" where
  "strmap_clear m = None"

subsection \<open>The specification side\<close>

definition strmap_entries :: "'v strmap \<Rightarrow> (string \<times> 'v) list" where
  "strmap_entries m = (case m of None \<Rightarrow> [] | Some t \<Rightarrow> leaves t)"

text \<open>Bit positions: bytes in order, the most significant bit of a byte first.\<close>

definition str_kbit :: "string \<Rightarrow> nat \<Rightarrow> bool" where
  "str_kbit s p = bit (c_at s (p div 8)) (7 - p mod 8)"

definition str_pos :: "str_label \<Rightarrow> nat" where
  "str_pos n = 8 * byte_num n + (7 - bit_num n)"


fun labels_ok :: "'v strmap_node \<Rightarrow> bool" where
  "labels_ok (Leaf s v) = True"
| "labels_ok (Node n a b) = (bit_num n < 8 \<and> labels_ok a \<and> labels_ok b)"

subsection \<open>Bits\<close>

lemma ilog32_nz_bit: "0 < n \<Longrightarrow> bit n (ilog32_nz n - 1)"
proof (induction n rule: ilog32_nz.induct)
  case (1 n)
  show ?case
  proof (cases "n div 2 = 0")
    case True
    with 1 have "n = 1" by simp
    then show ?thesis by (simp add: ilog32_nz.simps bit_0)
  next
    case False
    with 1 have "bit (n div 2) (ilog32_nz (n div 2) - 1)" by simp
    moreover have "ilog32_nz (n div 2) \<noteq> 0"
      using False by (subst ilog32_nz.simps) simp
    ultimately show ?thesis
      using 1 by (subst ilog32_nz.simps) (simp flip: bit_Suc)
  qed
qed

lemma ilog32_nz_above: "ilog32_nz n \<le> j \<Longrightarrow> \<not> bit n j"
proof (induction n arbitrary: j rule: ilog32_nz.induct)
  case (1 n)
  show ?case
  proof (cases "n = 0")
    case False
    with 1 show ?thesis
      by (cases j) (simp_all add: ilog32_nz.simps [of n] bit_Suc)
  qed simp
qed

lemma ilog32_nz_le: "n < 2 ^ k \<Longrightarrow> ilog32_nz n \<le> k"
proof (induction n arbitrary: k rule: ilog32_nz.induct)
  case (1 n)
  show ?case
  proof (cases "n = 0")
    case True
    then show ?thesis by (simp add: ilog32_nz.simps)
  next
    case False
    with 1 obtain k' where k: "k = Suc k'" by (cases k) auto
    with 1 False have "ilog32_nz (n div 2) \<le> k'" by auto
    with False k show ?thesis by (subst ilog32_nz.simps) simp
  qed
qed

lemma byte_bit_high: "x < 256 \<Longrightarrow> 8 \<le> j \<Longrightarrow> \<not> bit (x :: nat) j"
  using ilog32_nz_above [of x j] ilog32_nz_le [of x 8] by simp

lemma xor_byte_less: "x < 256 \<Longrightarrow> y < 256 \<Longrightarrow> Bit_Operations.xor x y < (256 :: nat)"
proof -
  assume "x < 256" "y < 256"
  then have "take_bit 8 (Bit_Operations.xor x y) = Bit_Operations.xor x y"
    by (intro bit_eqI) (meson byte_bit_high bit_take_bit_iff bit_xor_iff linorder_not_less)
  then show ?thesis
    using take_bit_nat_less_exp [of 8 "Bit_Operations.xor x y"] by simp
qed

lemma xor_eq_0_iff_nat: "Bit_Operations.xor x y = (0 :: nat) \<longleftrightarrow> x = y"
  by (auto simp: bit_eq_iff bit_xor_iff)

subsection \<open>Where strings differ\<close>

lemma differ_byte_Some:
  "differ_byte s m i = Some b \<Longrightarrow> i \<le> b \<and> c_at s b \<noteq> c_at m b \<and> (\<forall>j. i \<le> j \<and> j < b \<longrightarrow> c_at s j = c_at m j)"
proof (induction s m i rule: differ_byte.induct)
  case (1 s m i)
  show ?case
  proof (cases "c_at s i = c_at m i")
    case True
    with 1 have *: "Suc i \<le> b \<and> c_at s b \<noteq> c_at m b \<and> (\<forall>j. Suc i \<le> j \<and> j < b \<longrightarrow> c_at s j = c_at m j)"
      by (subst (asm) (2) differ_byte.simps) (auto split: if_splits)
    with True show ?thesis by (metis Suc_leD le_antisym not_less_eq_eq)
  next
    case False
    with 1 show ?thesis by (subst (asm) (2) differ_byte.simps) auto
  qed
qed

lemma differ_byte_None:
  "differ_byte s m i = None \<Longrightarrow> c_string s \<Longrightarrow> c_string m \<Longrightarrow> i \<le> j \<Longrightarrow> c_at s j = c_at m j"
proof (induction s m i rule: differ_byte.induct)
  case (1 s m i)
  from 1 have eq: "c_at s i = c_at m i"
    by (subst (asm) (2) differ_byte.simps) (auto split: if_splits)
  show ?case
  proof (cases "c_at m i = 0")
    case True
    with eq 1(3,4) have "length s \<le> i" "length m \<le> i"
      using c_at_pos [of s i] c_at_pos [of m i] by (auto simp flip: linorder_not_less)
    with 1 show ?thesis by simp
  next
    case False
    with eq 1 have "differ_byte s m (Suc i) = None"
      by (subst (asm) (2) differ_byte.simps) simp
    with False eq 1 show ?thesis by (metis le_neq_implies_less Suc_leI)
  qed
qed

lemma differ_byte_eq_None_iff:
  assumes "c_string s" "c_string m"
  shows "differ_byte s m 0 = None \<longleftrightarrow> s = m"
proof
  assume "differ_byte s m 0 = None"
  then show "s = m"
    using differ_byte_None assms by (intro c_string_eqI) auto
next
  assume "s = m"
  then show "differ_byte s m 0 = None"
    using differ_byte_Some [of s m 0] by (cases "differ_byte s m 0") auto
qed

subsection \<open>Crit-bit structure of C strings\<close>

lemma bit_pos_div_mod:
  fixes i k :: nat
  assumes "k < 8"
  shows "(8 * i + (7 - k)) div 8 = i" "7 - (8 * i + (7 - k)) mod 8 = k"
  using assms by (simp_all only: div_mult_self4 mod_mult_self4) simp_all

lemma str_kbit_inj:
  assumes "c_string s" "c_string t" "\<And>p. str_kbit s p = str_kbit t p"
  shows "s = t"
proof (rule c_string_eqI [OF assms(1,2)])
  fix i
  show "c_at s i = c_at t i"
  proof (rule bit_eqI)
    fix j
    show "bit (c_at s i) j = bit (c_at t i) j"
    proof (cases "j < 8")
      case True
      then show ?thesis
        using assms(3) [of "8 * i + (7 - j)"] by (simp only: str_kbit_def bit_pos_div_mod)
    next
      case False
      then show ?thesis by (simp add: byte_bit_high c_at_less)
    qed
  qed
qed

interpretation scb: critbit str_kbit str_pos c_string
  by unfold_locales (rule str_kbit_inj)

lemma str_direction_kbit: "bit_num n < 8 \<Longrightarrow> str_direction m n = str_kbit m (str_pos n)"
  by (simp only: str_direction_def str_kbit_def str_pos_def bit_pos_div_mod) simp

lemma closest_walk: "labels_ok t \<Longrightarrow> closest t m = scb.walk m t"
  by (induction t) (auto simp: str_direction_kbit)

lemma strmap_unlink_prune: "labels_ok t \<Longrightarrow> strmap_unlink t m = scb.prune m t"
  by (induction t) (auto simp: str_direction_kbit)

lemma str_pos_less_iff:
  "bit_num m < 8 \<Longrightarrow> bit_num n < 8 \<Longrightarrow>
   str_pos m < str_pos n \<longleftrightarrow> byte_num n > byte_num m \<or> byte_num n = byte_num m \<and> bit_num n < bit_num m"
  by (auto simp: str_pos_def)

lemma strmap_insert_ins:
  "labels_ok t \<Longrightarrow> bit_num newn < 8 \<Longrightarrow> strmap_insert newn d m v t = scb.ins newn d m v t"
  by (induction t) (auto simp: str_direction_kbit str_pos_less_iff strmap_split_def scb.split_def)

lemma strmap_insert_labels_ok:
  "labels_ok t \<Longrightarrow> bit_num newn < 8 \<Longrightarrow> labels_ok (strmap_insert newn d m v t)"
  by (induction t) (auto simp: strmap_split_def)

lemma strmap_unlink_labels_ok:
  "labels_ok t \<Longrightarrow> (case strmap_unlink t m of None \<Rightarrow> True | Some t' \<Rightarrow> labels_ok t')"
  by (induction t) (simp_all split: option.splits)

text \<open>The byte and bit that \<open>strmap_add_\<close> computes name the first bit where the strings differ.\<close>

lemma differ_bit_first_diff:
  assumes "differ_byte s m 0 = Some b"
    and "k = ilog32_nz (Bit_Operations.xor (c_at s b) (c_at m b)) - 1"
  shows "k < 8" "scb.first_diff (str_pos \<lparr>byte_num = b, bit_num = k\<rparr>) m s"
    "str_kbit m (str_pos \<lparr>byte_num = b, bit_num = k\<rparr>) = bit (c_at m b) k"
proof -
  let ?x = "Bit_Operations.xor (c_at s b) (c_at m b)"
  have neq: "c_at s b \<noteq> c_at m b" and before: "\<And>j. j < b \<Longrightarrow> c_at s j = c_at m j"
    using differ_byte_Some [OF assms(1)] by auto
  have pos: "0 < ?x"
    using neq xor_eq_0_iff_nat by (metis gr0I)
  have le: "ilog32_nz ?x \<le> 8"
    using ilog32_nz_le [of ?x 8] xor_byte_less [OF c_at_less c_at_less, of s b m b] by simp
  have ge: "0 < ilog32_nz ?x"
    using pos by (subst ilog32_nz.simps) simp
  show k8: "k < 8" using le ge assms(2) by simp
  let ?p = "str_pos \<lparr>byte_num = b, bit_num = k\<rparr>"
  have p: "?p = 8 * b + (7 - k)" by (simp add: str_pos_def)
  then have pd: "?p div 8 = b" and pm: "7 - ?p mod 8 = k" using k8 by (simp_all only: bit_pos_div_mod)
  show "str_kbit m ?p = bit (c_at m b) k"
    by (simp only: str_kbit_def pd pm)
  have "bit ?x k" using ilog32_nz_bit [OF pos] assms(2) by simp
  then have "str_kbit m ?p \<noteq> str_kbit s ?p"
    by (auto simp: str_kbit_def pd pm bit_xor_iff simp del: str_pos_def)
  moreover have "str_kbit m q = str_kbit s q" if "q < ?p" for q
  proof (cases "q div 8 = b")
    case True
    with that k8 have "k < 7 - q mod 8" unfolding p by presburger
    then have "\<not> bit ?x (7 - q mod 8)"
      using ilog32_nz_above [of ?x "7 - q mod 8"] assms(2) by simp
    with True show ?thesis by (auto simp: str_kbit_def bit_xor_iff)
  next
    case False
    have "q < Suc b * 8" using that unfolding p by simp
    then have "q div 8 < Suc b" by (rule less_mult_imp_div_less)
    with False have "q div 8 < b" by simp
    then show ?thesis by (simp add: str_kbit_def before)
  qed
  ultimately show "scb.first_diff ?p m s"
    by (simp add: scb.first_diff_def scb.agree_def)
qed

definition strmap_inv :: "'v strmap \<Rightarrow> bool" where
  "strmap_inv m \<longleftrightarrow> (case m of None \<Rightarrow> True | Some t \<Rightarrow> scb.cb_inv t \<and> labels_ok t)"

lemma strmap_get_entries: "strmap_inv m \<Longrightarrow> strmap_get m k = map_of (strmap_entries m) k"
  by (auto simp: strmap_get_def strmap_inv_def strmap_entries_def closest_walk
      simp flip: scb.walk_lookup split: option.splits)

lemma strmap_add_None: "strmap_add None k v = (True, Some (Leaf k v))"
  by (simp add: strmap_add_def)

lemma strmap_add_node:
  assumes "scb.cb_inv t" "labels_ok t" "c_string k"
  shows "strmap_get (Some t) k \<noteq> None \<Longrightarrow> strmap_add (Some t) k v = (False, Some t)"
    and "strmap_get (Some t) k = None \<Longrightarrow>
      \<exists>t'. strmap_add (Some t) k v = (True, Some t') \<and> scb.cb_inv t' \<and> labels_ok t' \<and>
        set (leaves t') = insert (k, v) (set (leaves t))"
proof -
  let ?s = "fst (closest t k)"
  have s: "?s \<in> keys t"
    using assms by (simp add: closest_walk scb.walk_key_in)
  then have cs: "c_string ?s"
    using assms scb.cb_inv_key_ok by blast
  have get: "strmap_get (Some t) k = None \<longleftrightarrow> ?s \<noteq> k"
    by (auto simp: strmap_get_def split: prod.splits)
  note iff = differ_byte_eq_None_iff [OF cs assms(3)]
  show "strmap_add (Some t) k v = (False, Some t)" if "strmap_get (Some t) k \<noteq> None"
    using that get iff by (simp add: strmap_add_def)
  assume "strmap_get (Some t) k = None"
  with get iff obtain b where b: "differ_byte ?s k 0 = Some b" by auto
  define c where "c = ilog32_nz (Bit_Operations.xor (c_at ?s b) (c_at k b)) - 1"
  define n where "n = \<lparr>byte_num = b, bit_num = c\<rparr>"
  note d = differ_bit_first_diff [OF b c_def, folded n_def]
  have lab: "bit_num n < 8" using d(1) by (simp add: n_def)
  let ?t' = "strmap_insert n (bit (c_at k b) c) k v t"
  have "strmap_add (Some t) k v = (True, Some ?t')"
    by (simp add: strmap_add_def b c_def n_def Let_def)
  moreover have "scb.cb_inv ?t'"
    using assms d closest_walk [OF assms(2), of k]
    by (simp add: strmap_insert_ins lab scb.ins_inv)
  moreover have "labels_ok ?t'"
    using assms lab by (simp add: strmap_insert_labels_ok)
  moreover have "set (leaves ?t') = insert (k, v) (set (leaves t))"
    using assms lab by (simp add: strmap_insert_ins scb.ins_leaves)
  ultimately show "\<exists>t'. strmap_add (Some t) k v = (True, Some t') \<and> scb.cb_inv t' \<and> labels_ok t' \<and>
        set (leaves t') = insert (k, v) (set (leaves t))" by blast
qed

subsection \<open>The order of iteration\<close>

lemma c_at_less_string:
  assumes "\<And>j. j < i \<Longrightarrow> c_at s j = c_at t j" "c_at s i < c_at t i" "c_string s" "c_string t"
  shows "s < t"
  using assms
proof (induction i arbitrary: s t)
  case 0
  then obtain d t' where t: "t = d # t'" by (cases t) (auto simp: c_at_def)
  with 0 show ?case
    by (cases s) (auto simp: less_char_def)
next
  case (Suc i)
  from Suc.prems(1) [of 0] Suc.prems(2-4) obtain c s' d t' where st: "s = c # s'" "t = d # t'"
    by (cases s; cases t) (auto simp: c_at_def)
  have "c = d" using Suc.prems(1) [of 0] st by simp
  moreover have "s' < t'"
    using Suc.prems Suc.prems(1) [of "Suc _"] st by (intro Suc.IH) auto
  ultimately show ?case using st by simp
qed

lemma kless_less:
  assumes "scb.kless s t" "c_string s" "c_string t"
  shows "s < t"
proof -
  obtain q where q: "scb.agree q s t" "\<not> str_kbit s q" "str_kbit t q"
    using assms(1) by (auto simp: scb.kless_def)
  let ?i = "q div 8"
  have bits: "bit (c_at s i) j = bit (c_at t i) j" if "j < 8" "8 * i + (7 - j) < q" for i j
    using q(1) that unfolding scb.agree_def by (metis bit_pos_div_mod str_kbit_def)
  have "c_at s j = c_at t j" if "j < ?i" for j
  proof (rule bit_eqI)
    fix b
    show "bit (c_at s j) b = bit (c_at t j) b"
    proof (cases "b < 8")
      case True
      have "8 * j + (7 - b) < q" using that by linarith
      with True bits show ?thesis by blast
    qed (simp add: byte_bit_high c_at_less)
  qed
  moreover have "c_at s ?i < c_at t ?i"
  proof (rule nat_less_highest_bit [of "7 - q mod 8"])
    fix b
    assume b: "7 - q mod 8 < b"
    show "bit (c_at s ?i) b = bit (c_at t ?i) b"
    proof (cases "b < 8")
      case True
      have "8 * ?i + (7 - b) < 8 * ?i + q mod 8" using b True by linarith
      then have "8 * ?i + (7 - b) < q" by simp
      with True bits show ?thesis by blast
    qed (simp add: byte_bit_high c_at_less)
  qed (use q in \<open>simp_all add: str_kbit_def\<close>)
  ultimately show ?thesis using assms(2,3) by (rule c_at_less_string)
qed

lemma strmap_entries_sorted: "strmap_inv m \<Longrightarrow> sorted_wrt (<) (map fst (strmap_entries m))"
proof (cases m)
  case (Some t)
  assume "strmap_inv m"
  with Some have inv: "scb.cb_inv t" by (simp add: strmap_inv_def)
  have "sorted_wrt (<) (map fst (leaves t))"
    using scb.leaves_sorted [OF inv]
  proof (rule sorted_wrt_mono_rel [rotated])
    fix x y
    assume "x \<in> set (map fst (leaves t))" "y \<in> set (map fst (leaves t))" "scb.kless x y"
    then show "x < y"
      using scb.cb_inv_key_ok [OF inv] kless_less by (auto simp: keys_leaves)
  qed
  with Some show ?thesis by (simp add: strmap_entries_def)
qed (simp add: strmap_entries_def)

lemma strmap_del_inv: "strmap_inv m \<Longrightarrow> strmap_inv (snd (strmap_del m k))"
proof (cases m)
  case (Some t)
  assume "strmap_inv m"
  with Some have "scb.cb_inv t" "labels_ok t" by (auto simp: strmap_inv_def)
  then show ?thesis
    using Some strmap_unlink_labels_ok [of t k] scb.prune_inv [of t k]
    by (auto simp: strmap_del_def strmap_inv_def strmap_unlink_prune split: option.splits prod.splits)
qed (simp add: strmap_del_def)

lemma strmap_del_entries:
  assumes "strmap_inv m"
  shows "strmap_entries (snd (strmap_del m k)) = filter (\<lambda>(k', v). k' \<noteq> k) (strmap_entries m)"
proof (cases m)
  case (Some t)
  with assms have inv: "scb.cb_inv t" "labels_ok t" by (auto simp: strmap_inv_def)
  show ?thesis
  proof (cases "k \<in> keys t")
    case True
    then obtain v where "(k, v) \<in> set (leaves t)" using keysE by metis
    with inv have "closest t k = (k, v)" by (simp add: closest_walk scb.walk_member)
    then show ?thesis
      using Some inv scb.prune_leaves [OF inv(1) True]
      by (simp add: strmap_del_def strmap_entries_def strmap_unlink_prune)
  next
    case False
    then have "fst (closest t k) \<noteq> k"
      using inv scb.walk_key_in [of k t] by (auto simp: closest_walk)
    moreover have "filter (\<lambda>(k', v). k' \<noteq> k) (leaves t) = leaves t"
      using False by (intro filter_True) (auto dest: in_keys)
    ultimately show ?thesis
      using Some by (auto simp: strmap_del_def strmap_entries_def split: prod.splits)
  qed
qed (simp add: strmap_del_def strmap_entries_def)

text \<open>\<open>strmap_del_\<close> returns the entry it removes, with its key.\<close>

lemma strmap_del_returns: "fst (strmap_del m k) = map_option (Pair k) (strmap_get m k)"
  by (cases m) (auto simp: strmap_del_def strmap_get_def split: prod.splits)

text \<open>\<open>strmap_add_\<close> of a key that is present changes nothing, also for keys with an inner NUL.\<close>

lemma strmap_add_present:
  assumes "strmap_inv m" "strmap_get m k \<noteq> None"
  shows "strmap_add m k v = (False, m)"
proof (cases m)
  case None
  with assms show ?thesis by (simp add: strmap_get_def)
next
  case (Some t)
  with assms have inv: "scb.cb_inv t" "labels_ok t" by (auto simp: strmap_inv_def)
  from assms Some have "fst (closest t k) = k"
    by (auto simp: strmap_get_def split: prod.splits if_splits)
  then have "k \<in> keys t" using inv scb.walk_key_in [of k t] by (simp add: closest_walk)
  then have "c_string k" using inv scb.cb_inv_key_ok by blast
  from strmap_add_node(1) [OF inv this] assms(2) Some show ?thesis by simp
qed

lemma strmap_add_fresh:
  assumes "strmap_inv m" "c_string k" "strmap_get m k = None"
  shows "fst (strmap_add m k v) \<and> strmap_inv (snd (strmap_add m k v)) \<and>
    set (strmap_entries (snd (strmap_add m k v))) = insert (k, v) (set (strmap_entries m))"
proof (cases m)
  case None
  with assms show ?thesis
    by (simp add: strmap_add_None strmap_inv_def strmap_entries_def)
next
  case (Some t)
  with assms have "scb.cb_inv t" "labels_ok t" by (auto simp: strmap_inv_def)
  from strmap_add_node(2) [OF this assms(2), of v] assms(3) Some show ?thesis
    by (auto simp: strmap_inv_def strmap_entries_def)
qed

lemma strmap_entries_key_ok: "strmap_inv m \<Longrightarrow> (k, v) \<in> set (strmap_entries m) \<Longrightarrow> c_string k"
  by (auto simp: strmap_inv_def strmap_entries_def split: option.splits
      dest: in_keys scb.cb_inv_key_ok)

interpretation sm: ordered_map strmap_init strmap_get strmap_add "\<lambda>m k. snd (strmap_del m k)"
  strmap_entries strmap_inv c_string "(<)"
proof unfold_locales
  show "strmap_inv strmap_init" "strmap_entries strmap_init = []"
    by (simp_all add: strmap_init_def strmap_inv_def strmap_entries_def)
qed ((rule strmap_get_entries strmap_entries_sorted strmap_entries_key_ok strmap_add_present
    strmap_add_fresh strmap_del_inv strmap_del_entries less_irrefl; assumption?)+)

text \<open>\<open>strmap_iterate\<close> is a left-to-right run over the entries that stops at the first \<open>false\<close>.\<close>

fun run_entries :: "(string \<times> 'v) list \<Rightarrow> (string \<Rightarrow> 'v \<Rightarrow> 's \<Rightarrow> bool \<times> 's) \<Rightarrow> 's \<Rightarrow> bool \<times> 's" where
  "run_entries [] handle d = (True, d)"
| "run_entries ((s, v) # es) handle d =
     (case handle s v d of (ok, d') \<Rightarrow> if ok then run_entries es handle d' else (False, d'))"

lemma run_entries_append:
  "run_entries (xs @ ys) handle d =
     (case run_entries xs handle d of (ok, d') \<Rightarrow> if ok then run_entries ys handle d' else (False, d'))"
  by (induction xs handle d rule: run_entries.induct) (auto split: prod.splits)

lemma iterate_run_entries: "iterate t handle d = run_entries (leaves t) handle d"
  by (induction t arbitrary: d) (auto simp: run_entries_append split: prod.splits)

lemma strmap_iterate_entries:
  "strmap_iterate m handle d = snd (run_entries (strmap_entries m) handle d)"
  by (simp add: strmap_iterate_def strmap_entries_def iterate_run_entries split: option.splits)

lemma strmap_empty_entries: "strmap_empty m \<longleftrightarrow> strmap_entries m = []"
  by (auto simp: strmap_empty_def strmap_entries_def split: option.splits)

subsection \<open>Keys with a prefix\<close>

text \<open>
  The loop of \<open>strmap_prefix_\<close>: it goes on to a leaf with zero bits beyond the prefix, and \<open>top\<close> is the subtree below the
  last node whose byte is in the prefix.
\<close>

definition strstarts :: "string \<Rightarrow> string \<Rightarrow> bool" where
  "strstarts s pre \<longleftrightarrow> take (length pre) s = pre"

fun prefix_walk :: "'v strmap_node \<Rightarrow> string \<Rightarrow> 'v strmap_node \<Rightarrow> 'v strmap_node \<times> string" where
  "prefix_walk (Leaf s v) pre sub = (sub, s)"
| "prefix_walk (Node n a b) pre sub =
     (let c = (if byte_num n < length pre then c_at pre (byte_num n) else 0) in
      if bit c (bit_num n) then prefix_walk b pre (if c \<noteq> 0 then b else sub)
      else prefix_walk a pre (if c \<noteq> 0 then a else sub))"

definition strmap_prefix :: "'v strmap \<Rightarrow> string \<Rightarrow> 'v strmap" where
  "strmap_prefix m pre = (case m of
     None \<Rightarrow> None
   | Some t \<Rightarrow> (case prefix_walk t pre t of (sub, s) \<Rightarrow> if strstarts s pre then Some sub else None))"

lemma labels_beyond:
  assumes "scb.cb_inv (Node n a b)" "\<forall>k\<in>keys (Node n a b). \<forall>k'\<in>keys (Node n a b). scb.agree q k k'"
  shows "q \<le> str_pos n"
proof -
  obtain ka kb where "ka \<in> keys a" "kb \<in> keys b" using leaves_not_Nil in_keys by (metis list.set_sel(1) prod.collapse)
  then have "str_kbit ka (str_pos n) \<noteq> str_kbit kb (str_pos n)" "scb.agree q ka kb" using assms by auto
  then show ?thesis by (metis scb.agreeD not_le)
qed

lemma prefix_walk_beyond:
  assumes "scb.cb_inv t" "labels_ok t" "\<forall>k\<in>keys t. \<forall>k'\<in>keys t. scb.agree (8 * length pre) k k'"
  shows "\<exists>s\<in>keys t. prefix_walk t pre sub = (sub, s)"
  using assms
proof (induction t)
  case (Node n a b)
  have "8 * length pre \<le> str_pos n" using labels_beyond [OF Node.prems(1,3)] .
  then have "\<not> byte_num n < length pre" using Node.prems(2) by (simp add: str_pos_def)
  then have "prefix_walk (Node n a b) pre sub = prefix_walk a pre sub" by (simp add: Let_def)
  then show ?case using Node by auto
qed simp

lemma agree_bytes:
  assumes "scb.agree (8 * q) k k'" "i < q"
  shows "c_at k i = c_at k' i"
proof (rule bit_eqI)
  fix j
  show "bit (c_at k i) j = bit (c_at k' i) j"
  proof (cases "j < 8")
    case True
    then have "8 * i + (7 - j) < 8 * q" using assms(2) by auto
    then show ?thesis using True scb.agreeD [OF assms(1), of "8 * i + (7 - j)"] by (simp only: str_kbit_def bit_pos_div_mod)
  qed (use byte_bit_high c_at_less in auto)
qed

lemma prefix_bytes:
  assumes "c_string pre"
  shows "strstarts s pre \<longleftrightarrow> (\<forall>i<length pre. c_at pre i = c_at s i)"
  using assms
proof (induction pre arbitrary: s)
  case (Cons c pre)
  have c: "0 < (of_char c :: nat)" using c_at_pos [OF Cons.prems, of 0] by (simp only: c_at_Cons_0) simp
  have "c_string pre" using Cons.prems by (simp add: c_string_def)
  then show ?case using Cons.IH c unfolding strstarts_def by (cases s) (auto simp: All_less_Suc2 c_at_def [of "[]"] strstarts_def)
qed (simp add: strstarts_def)

lemma prefix_walk_spec:
  assumes "scb.cb_inv t" "labels_ok t" "c_string pre"
  shows "\<exists>sub s. prefix_walk t pre t = (sub, s) \<and> s \<in> keys sub \<and> scb.cb_inv sub \<and> labels_ok sub \<and>
    filter (\<lambda>x. strstarts (fst x) pre) (leaves t) = (if strstarts s pre then leaves sub else [])"
proof -
  have "\<exists>sub s. prefix_walk t pre t0 = (sub, s) \<and> s \<in> keys sub \<and> scb.cb_inv sub \<and> labels_ok sub \<and>
    filter (\<lambda>x. strstarts (fst x) pre) (leaves t) = (if strstarts s pre then leaves sub else [])" if "t0 = t" for t0
    using assms(1,2) that
  proof (induction t arbitrary: t0)
    case (Leaf k v)
    then show ?case by auto
  next
    case (Node n a b)
    show ?case
    proof (cases "byte_num n < length pre")
      case False
      have q: "8 * length pre \<le> str_pos n" using False Node.prems(2) by (auto simp: str_pos_def not_less)
      have ag: "\<forall>k\<in>keys (Node n a b). \<forall>k'\<in>keys (Node n a b). scb.agree (8 * length pre) k k'"
        using Node.prems(1) scb.agree_mono [OF _ q] by auto
      obtain s where s: "s \<in> keys (Node n a b)" "prefix_walk (Node n a b) pre t0 = (t0, s)"
        using prefix_walk_beyond [OF Node.prems(1,2) ag] by blast
      have "strstarts k pre = strstarts s pre" if "k \<in> keys (Node n a b)" for k
        using ag that s(1) agree_bytes prefix_bytes [OF assms(3)] by metis
      then have all: "\<forall>x\<in>set (leaves (Node n a b)). strstarts (fst x) pre = strstarts s pre" using keys_leaves by (metis imageI)
      have "filter (\<lambda>x. strstarts (fst x) pre) (leaves (Node n a b)) = (if strstarts s pre then leaves (Node n a b) else [])"
        using all by (auto simp del: leaves.simps intro: filter_True filter_False)
      then show ?thesis using s Node.prems by (intro exI [of _ t0] exI [of _ s]) (simp del: leaves.simps)
    next
      case True
      let ?c = "c_at pre (byte_num n)"
      have c0: "?c \<noteq> 0" using c_at_pos [OF assms(3) True] by simp
      have dir: "bit ?c (bit_num n) = str_kbit pre (str_pos n)" using str_direction_kbit [of n pre] Node.prems(2) True by (simp add: str_direction_def)
      have no: "\<not> strstarts k pre" if "str_kbit k (str_pos n) \<noteq> str_kbit pre (str_pos n)" for k
      proof
        assume "strstarts k pre"
        then have "c_at pre (byte_num n) = c_at k (byte_num n)" using prefix_bytes [OF assms(3)] True by blast
        moreover have "str_pos n div 8 = byte_num n" using Node.prems(2) by (simp only: str_pos_def labels_ok.simps bit_pos_div_mod)
        ultimately show False using that by (simp add: str_kbit_def)
      qed
      have none: "filter (\<lambda>x. strstarts (fst x) pre) (leaves u) = []" if "\<forall>k\<in>keys u. str_kbit k (str_pos n) \<noteq> str_kbit pre (str_pos n)" for u :: "'a strmap_node"
        using that no in_keys by (fastforce simp: filter_empty_conv)
      show ?thesis
      proof (cases "bit ?c (bit_num n)")
        case bT: True
        then show ?thesis using Node.IH(2) [of b] Node.prems none [of a] dir True c0 by (simp add: Let_def)
      next
        case bF: False
        then show ?thesis using Node.IH(1) [of a] Node.prems none [of b] dir True c0 by (simp add: Let_def)
      qed
    qed
  qed
  then show ?thesis by blast
qed

text \<open>The subtree holds exactly the entries whose key starts with the prefix.\<close>

lemma strmap_prefix_entries:
  assumes "strmap_inv m" "c_string pre"
  shows "strmap_inv (strmap_prefix m pre) \<and> strmap_entries (strmap_prefix m pre) = filter (\<lambda>x. strstarts (fst x) pre) (strmap_entries m)"
proof (cases m)
  case (Some t)
  then obtain sub s where "prefix_walk t pre t = (sub, s)" "scb.cb_inv sub" "labels_ok sub"
    "filter (\<lambda>x. strstarts (fst x) pre) (leaves t) = (if strstarts s pre then leaves sub else [])"
    using prefix_walk_spec [of t pre] assms by (auto simp: strmap_inv_def)
  then show ?thesis by (simp add: Some strmap_prefix_def strmap_inv_def strmap_entries_def)
qed (simp add: strmap_prefix_def strmap_inv_def strmap_entries_def)

end
