(* ===== verification/Intmap.thy ===== *)
theory Intmap
  imports Critbit
begin

text \<open>
  \<open>ccan/intmap/intmap.c\<close>: maps from 64-bit indices to non-NULL pointers. A node's label
  holds both the prefix common to its keys and, as its lowest set bit, the position of
  the bit that separates its children. \<open>malloc\<close> is taken to succeed. The interpretation
  \<open>im\<close> shows that the operations implement \<open>ordered_map\<close> with the numeric order.
\<close>

unbundle bit_operations_syntax

type_synonym index = u64
type_synonym 'v intmap_node = "(index, index, 'v) crit"
type_synonym 'v intmap = "'v intmap_node option"

definition intmap_init :: "'v intmap" where
  "intmap_init = None"

definition intmap_empty :: "'v intmap \<Rightarrow> bool" where
  "intmap_empty m = (m = None)"

text \<open>The least and the most significant set bit of a non-zero word.\<close>

definition bitops_ls64 :: "u64 \<Rightarrow> nat" where
  "bitops_ls64 u = (case find (\<lambda>i. bit u i) [0..<64] of Some i \<Rightarrow> i | None \<Rightarrow> 64)"

definition bitops_hs64 :: "u64 \<Rightarrow> nat" where
  "bitops_hs64 u = (case find (\<lambda>i. bit u i) (rev [0..<64]) of Some i \<Rightarrow> i | None \<Rightarrow> 64)"

definition critbit_of :: "index \<Rightarrow> nat" where
  "critbit_of n = bitops_ls64 n"

definition prefix_mask :: "nat \<Rightarrow> index" where
  "prefix_mask crit = push_bit crit (- 2)"

definition prefix_and_critbit :: "index \<Rightarrow> nat \<Rightarrow> index" where
  "prefix_and_critbit v n = (let c = push_bit n 1 in (v AND NOT (c - 1)) OR c)"

fun intmap_walk :: "'v intmap_node \<Rightarrow> index \<Rightarrow> index \<times> 'v" where
  "intmap_walk (Leaf i v) index = (i, v)"
| "intmap_walk (Node n a b) index =
     (if bit index (critbit_of n) then intmap_walk b index else intmap_walk a index)"

definition intmap_get :: "'v intmap \<Rightarrow> index \<Rightarrow> 'v option" where
  "intmap_get m index =
     (case m of
        None \<Rightarrow> None
      | Some t \<Rightarrow> (case intmap_walk t index of (i, v) \<Rightarrow> if index = i then Some v else None))"

definition split_node :: "'v intmap_node \<Rightarrow> index \<Rightarrow> index \<Rightarrow> 'v \<Rightarrow> 'v intmap_node" where
  "split_node n nodeindex index v =
     (let crit = bitops_hs64 (nodeindex XOR index);
          newn = prefix_and_critbit index crit
      in if bit index crit then Node newn n (Leaf index v) else Node newn (Leaf index v) n)"

text \<open>The loop of \<open>intmap_add_\<close>; \<open>None\<close> is the \<open>EEXIST\<close> return.\<close>

fun intmap_add_node :: "'v intmap_node \<Rightarrow> index \<Rightarrow> 'v \<Rightarrow> 'v intmap_node option" where
  "intmap_add_node (Leaf i w) index v =
     (if index = i then None else Some (split_node (Leaf i w) i index v))"
| "intmap_add_node (Node n a b) index v =
     (let crit = critbit_of n; mask = prefix_mask crit in
      if index AND mask \<noteq> n AND mask
      then Some (split_node (Node n a b) (n AND mask) index v)
      else if bit index crit
      then map_option (\<lambda>b'. Node n a b') (intmap_add_node b index v)
      else map_option (\<lambda>a'. Node n a' b) (intmap_add_node a index v))"

definition intmap_add :: "'v intmap \<Rightarrow> index \<Rightarrow> 'v \<Rightarrow> bool \<times> 'v intmap" where
  "intmap_add m index v =
     (case m of
        None \<Rightarrow> (True, Some (Leaf index v))
      | Some t \<Rightarrow> (case intmap_add_node t index v of
                    None \<Rightarrow> (False, m)
                  | Some t' \<Rightarrow> (True, Some t')))"

fun intmap_unlink :: "'v intmap_node \<Rightarrow> index \<Rightarrow> 'v intmap_node option" where
  "intmap_unlink (Leaf i v) index = None"
| "intmap_unlink (Node n a b) index =
     (if bit index (critbit_of n)
      then (case intmap_unlink b index of None \<Rightarrow> Some a | Some b' \<Rightarrow> Some (Node n a b'))
      else (case intmap_unlink a index of None \<Rightarrow> Some b | Some a' \<Rightarrow> Some (Node n a' b)))"

definition intmap_del :: "'v intmap \<Rightarrow> index \<Rightarrow> 'v option \<times> 'v intmap" where
  "intmap_del m index =
     (case m of
        None \<Rightarrow> (None, m)
      | Some t \<Rightarrow> (case intmap_walk t index of
                    (i, v) \<Rightarrow> if index \<noteq> i then (None, m) else (Some v, intmap_unlink t index)))"

definition intmap_first :: "'v intmap \<Rightarrow> (index \<times> 'v) option" where
  "intmap_first m = map_option leftmost m"

definition intmap_last :: "'v intmap \<Rightarrow> (index \<times> 'v) option" where
  "intmap_last m = map_option rightmost m"

definition intmap_clear :: "'v intmap \<Rightarrow> 'v intmap" where
  "intmap_clear m = intmap_init"

subsection \<open>The specification side\<close>

definition intmap_entries :: "'v intmap \<Rightarrow> (index \<times> 'v) list" where
  "intmap_entries m = (case m of None \<Rightarrow> [] | Some t \<Rightarrow> leaves t)"

definition int_kbit :: "index \<Rightarrow> nat \<Rightarrow> bool" where
  "int_kbit k p = (p < 64 \<and> bit k (63 - p))"

definition int_pos :: "index \<Rightarrow> nat" where
  "int_pos n = 63 - critbit_of n"

text \<open>A label has a critical bit and carries the prefix of every key below it.\<close>

fun prefixes_ok :: "'v intmap_node \<Rightarrow> bool" where
  "prefixes_ok (Leaf i v) = True"
| "prefixes_ok (Node n a b) \<longleftrightarrow> prefixes_ok a \<and> prefixes_ok b \<and> critbit_of n < 64 \<and>
     (\<forall>k\<in>keys a \<union> keys b. \<forall>i. critbit_of n < i \<longrightarrow> bit n i = bit k i)"

subsection \<open>Words and bits\<close>

lemma u64_bit_high [simp]: "64 \<le> i \<Longrightarrow> \<not> bit (k :: u64) i"
  using bit_imp_le_length [of k i] by auto

lemma u64_bit_eqI: "(\<And>i. i < 64 \<Longrightarrow> bit a i = bit b i) \<Longrightarrow> a = (b :: u64)"
  by (rule bit_word_eqI) simp

lemma xor_eq_0_iff_u64: "x XOR y = 0 \<longleftrightarrow> x = (y :: u64)"
  by (auto simp: bit_eq_iff bit_xor_iff)

lemma bitops_hs64_props:
  assumes "u \<noteq> 0"
  shows "bitops_hs64 u < 64" "bit u (bitops_hs64 u)" "\<And>j. bitops_hs64 u < j \<Longrightarrow> \<not> bit u j"
proof -
  obtain b where b: "b < 64" "bit u b"
    using assms u64_bit_eqI [of u 0] by auto
  then obtain i where i: "find (\<lambda>i. bit u i) (rev [0..<64]) = Some i"
    by (cases "find (\<lambda>i. bit u i) (rev [0..<64])") (auto simp: find_None_iff)
  note p = find_rev_upt_Some [OF i]
  show "bitops_hs64 u < 64" "bit u (bitops_hs64 u)"
    using p by (simp_all add: bitops_hs64_def i)
  show "\<not> bit u j" if "bitops_hs64 u < j" for j
    using p that by (cases "j < 64") (auto simp: bitops_hs64_def i)
qed

lemma bit_prefix_and_critbit:
  assumes "c < 64"
  shows "bit (prefix_and_critbit v c) i = (i = c \<or> c < i \<and> bit v i)"
proof (cases "i < 64")
  case True
  have "push_bit c 1 - 1 = (mask c :: u64)"
    by (simp add: mask_eq_exp_minus_1 push_bit_eq_mult)
  with True assms show ?thesis
    by (auto simp: prefix_and_critbit_def Let_def bit_simps)
qed (use assms in auto)

lemma critbit_of_prefix_and_critbit:
  assumes "c < 64"
  shows "critbit_of (prefix_and_critbit v c) = c"
proof -
  have "bit (prefix_and_critbit v c) c" "\<And>j. j < c \<Longrightarrow> \<not> bit (prefix_and_critbit v c) j"
    using assms by (simp_all add: bit_prefix_and_critbit)
  then have "find (\<lambda>i. bit (prefix_and_critbit v c) i) [0..<64] = Some c"
    using assms by (auto simp: find_Some_iff)
  then show ?thesis by (simp add: critbit_of_def bitops_ls64_def)
qed

lemma bit_prefix_mask: "bit (prefix_mask c) i = (c < i \<and> i < 64)"
proof -
  have "(- 2 :: u64) = NOT 1" by simp
  then show ?thesis
    unfolding prefix_mask_def by (auto simp: bit_simps)
qed

lemma and_prefix_mask_eq_iff:
  "x AND prefix_mask c = y AND prefix_mask c \<longleftrightarrow> (\<forall>i. c < i \<longrightarrow> bit x i = bit y i)"
proof -
  have "bit x i = bit y i" if "x AND prefix_mask c = y AND prefix_mask c" "c < i" for i
    using that by (metis bit_and_iff bit_prefix_mask u64_bit_high linorder_not_less)
  moreover have "x AND prefix_mask c = y AND prefix_mask c" if "\<forall>i. c < i \<longrightarrow> bit x i = bit y i"
    using that by (intro u64_bit_eqI) (auto simp: bit_and_iff bit_prefix_mask)
  ultimately show ?thesis by blast
qed

lemma int_kbit_inj: "(\<And>p. int_kbit k p = int_kbit k' p) \<Longrightarrow> k = k'"
proof (rule u64_bit_eqI)
  fix i :: nat
  assume *: "\<And>p. int_kbit k p = int_kbit k' p" "i < 64"
  have "63 - i < 64" by simp
  with * show "bit k i = bit k' i"
    using *(1) [of "63 - i"] by (auto simp: int_kbit_def)
qed

interpretation icb: critbit int_kbit int_pos "\<lambda>_. True"
  by unfold_locales (rule int_kbit_inj)

subsection \<open>The walks\<close>

lemma bit_critbit_kbit: "critbit_of n < 64 \<Longrightarrow> bit k (critbit_of n) = int_kbit k (int_pos n)"
  by (auto simp: int_kbit_def int_pos_def)

lemma intmap_walk_walk: "prefixes_ok t \<Longrightarrow> intmap_walk t k = icb.walk k t"
  by (induction t) (auto simp: bit_critbit_kbit)

lemma intmap_unlink_prune: "prefixes_ok t \<Longrightarrow> intmap_unlink t k = icb.prune k t"
  by (induction t) (simp_all add: bit_critbit_kbit)

lemma first_diffI:
  assumes "c < 64" "bit k c \<noteq> bit k' c" "\<And>i. c < i \<Longrightarrow> bit k i = bit k' i"
  shows "icb.first_diff (63 - c) k k'"
proof -
  have "int_kbit k p = int_kbit k' p" if "p < 63 - c" for p
    using that assms by (auto simp: int_kbit_def)
  moreover have "int_kbit k (63 - c) \<noteq> int_kbit k' (63 - c)"
    using assms by (auto simp: int_kbit_def)
  ultimately show ?thesis by (simp add: icb.first_diff_def icb.agree_def)
qed

lemma agree_pos_bits:
  assumes "critbit_of n < 64" "\<And>i. critbit_of n < i \<Longrightarrow> bit k i = bit k' i"
  shows "icb.agree (int_pos n) k k'"
  using assms by (auto simp: icb.agree_def int_pos_def int_kbit_def)

text \<open>
  Splitting a tree whose keys all agree with \<open>nodeindex\<close> at and above the highest bit
  where \<open>nodeindex\<close> and the new index differ.
\<close>

lemma split_node_ok:
  assumes "icb.cb_inv t" "prefixes_ok t" "nodeindex \<noteq> index"
    and "\<And>k i. k \<in> keys t \<Longrightarrow> bitops_hs64 (nodeindex XOR index) \<le> i \<Longrightarrow> bit k i = bit nodeindex i"
  shows "icb.cb_inv (split_node t nodeindex index v)" "prefixes_ok (split_node t nodeindex index v)"
    "set (leaves (split_node t nodeindex index v)) = insert (index, v) (set (leaves t))"
    "keys (split_node t nodeindex index v) = insert index (keys t)"
proof -
  let ?x = "nodeindex XOR index"
  let ?c = "bitops_hs64 ?x"
  let ?n = "prefix_and_critbit index ?c"
  have "?x \<noteq> 0" using assms(3) by (simp add: xor_eq_0_iff_u64)
  note hs = bitops_hs64_props [OF this]
  have crit: "critbit_of ?n = ?c" by (rule critbit_of_prefix_and_critbit [OF hs(1)])
  have above: "bit k i = bit index i" if "k \<in> keys t" "?c < i" for k i
    using assms(4) [OF that(1), of i] hs(3) [OF that(2)] that(2) by (simp add: bit_xor_iff)
  have fd: "icb.first_diff (int_pos ?n) index k" if "k \<in> keys t" for k
    unfolding int_pos_def crit
    using hs(1,2) assms(4) [OF that, of ?c] above [OF that]
    by (intro first_diffI) (auto simp: bit_xor_iff)
  have sp: "split_node t nodeindex index v = icb.split ?n (bit index ?c) index v t"
    by (simp add: split_node_def icb.split_def Let_def)
  have dir: "bit index ?c = int_kbit index (int_pos ?n)"
    using bit_critbit_kbit [of ?n index] hs(1) crit by simp
  show "icb.cb_inv (split_node t nodeindex index v)"
    unfolding sp using assms(1) dir fd by (intro icb.split_inv) auto
  show "prefixes_ok (split_node t nodeindex index v)"
    using assms(2) hs(1) above
    by (auto simp: sp icb.split_def crit bit_prefix_and_critbit)
  show "set (leaves (split_node t nodeindex index v)) = insert (index, v) (set (leaves t))"
    by (simp add: sp icb.split_leaves)
  show "keys (split_node t nodeindex index v) = insert index (keys t)"
    by (simp add: sp)
qed

lemma intmap_add_node_ok:
  assumes "icb.cb_inv t" "prefixes_ok t"
  shows "(case intmap_add_node t index v of
       None \<Rightarrow> index \<in> keys t
     | Some t' \<Rightarrow> index \<notin> keys t \<and> icb.cb_inv t' \<and> prefixes_ok t' \<and>
         keys t' = insert index (keys t) \<and>
         set (leaves t') = insert (index, v) (set (leaves t)))"
  using assms
proof (induction t)
  case (Leaf i w)
  then show ?case
    using split_node_ok [of "Leaf i w" i index v] by auto
next
  case (Node n a b)
  let ?c = "critbit_of n"
  have c64: "?c < 64" using Node.prems by simp
  have pre: "bit n i = bit k i" if "k \<in> keys a \<union> keys b" "?c < i" for k i
    using Node.prems(2) that by simp
  show ?case
  proof (cases "index AND prefix_mask ?c = n AND prefix_mask ?c")
    case False
    let ?m = "n AND prefix_mask ?c"
    have ne: "?m \<noteq> index"
      using False by (metis and.assoc and.idem)
    let ?x = "?m XOR index"
    have x0: "?x \<noteq> 0"
      using ne by (simp add: xor_eq_0_iff_u64)
    note hs = bitops_hs64_props [OF x0]
    obtain i where i: "?c < i" "bit index i \<noteq> bit n i"
      using False and_prefix_mask_eq_iff by blast
    then have "i < 64" by (metis linorder_not_less u64_bit_high)
    with i have "bit ?x i" by (simp add: bit_xor_iff bit_and_iff bit_prefix_mask)
    with hs(3) have "i \<le> bitops_hs64 ?x" by (metis linorder_not_less)
    with i have gt: "?c < bitops_hs64 ?x" by simp
    have kb: "bit k j = bit ?m j" if "k \<in> keys (Node n a b)" "bitops_hs64 ?x \<le> j" for k j
      using pre [of k j] that gt
      by (cases "j < 64") (auto simp: bit_and_iff bit_prefix_mask)
    have "index \<notin> keys (Node n a b)"
      using i pre [of index i] by auto
    then show ?thesis
      using False split_node_ok [OF Node.prems ne kb, of v] by (simp add: Let_def)
  next
    case True
    then have eq: "\<And>i. ?c < i \<Longrightarrow> bit index i = bit n i"
      using and_prefix_mask_eq_iff by blast
    have ag: "icb.agree (int_pos n) k k'"
      if "k \<in> insert index (keys a \<union> keys b)" "k' \<in> insert index (keys a \<union> keys b)" for k k'
    proof (rule agree_pos_bits [OF c64])
      fix i assume "?c < i"
      with that eq pre show "bit k i = bit k' i" by (metis insertE)
    qed
    have dirs: "\<forall>k\<in>keys a. \<not> int_kbit k (int_pos n)" "\<forall>k\<in>keys b. int_kbit k (int_pos n)"
      using Node.prems(1) by simp_all
    have bitk: "bit index ?c = int_kbit index (int_pos n)" by (rule bit_critbit_kbit [OF c64])
    show ?thesis
    proof (cases "bit index ?c")
      case bT: True
      then have "index \<notin> keys a" using dirs(1) bitk by blast
      with bT True Node.prems Node.IH(2) ag eq pre c64 dirs bitk show ?thesis
        by (cases "intmap_add_node b index v") (simp_all add: Let_def)
    next
      case bF: False
      then have "index \<notin> keys b" using dirs(2) bitk by blast
      with bF True Node.prems Node.IH(1) ag eq pre c64 dirs bitk show ?thesis
        by (cases "intmap_add_node a index v") (simp_all add: Let_def)
    qed
  qed
qed

subsection \<open>The interface\<close>

definition intmap_inv :: "'v intmap \<Rightarrow> bool" where
  "intmap_inv m \<longleftrightarrow> (case m of None \<Rightarrow> True | Some t \<Rightarrow> icb.cb_inv t \<and> prefixes_ok t)"

lemma intmap_get_entries: "intmap_inv m \<Longrightarrow> intmap_get m k = map_of (intmap_entries m) k"
  by (auto simp: intmap_get_def intmap_inv_def intmap_entries_def intmap_walk_walk
      simp flip: icb.walk_lookup split: option.splits)

lemma in_keys_iff_get:
  assumes "intmap_inv (Some t)"
  shows "intmap_get (Some t) k = None \<longleftrightarrow> k \<notin> keys t"
  using intmap_get_entries [OF assms, of k]
  by (simp add: intmap_entries_def map_of_eq_None_iff keys_leaves)

lemma intmap_add_present:
  assumes "intmap_inv m" "intmap_get m k \<noteq> None"
  shows "intmap_add m k v = (False, m)"
proof (cases m)
  case None
  with assms show ?thesis by (simp add: intmap_get_def)
next
  case (Some t)
  with assms have inv: "icb.cb_inv t" "prefixes_ok t" by (auto simp: intmap_inv_def)
  from assms Some have "k \<in> keys t" using in_keys_iff_get [of t k] by simp
  with Some intmap_add_node_ok [OF inv, of k v] show ?thesis
    by (simp add: intmap_add_def split: option.splits)
qed

lemma intmap_add_fresh:
  assumes "intmap_inv m" "intmap_get m k = None"
  shows "fst (intmap_add m k v) \<and> intmap_inv (snd (intmap_add m k v)) \<and>
    set (intmap_entries (snd (intmap_add m k v))) = insert (k, v) (set (intmap_entries m))"
proof (cases m)
  case None
  then show ?thesis by (simp add: intmap_add_def intmap_inv_def intmap_entries_def)
next
  case (Some t)
  with assms have inv: "icb.cb_inv t" "prefixes_ok t" by (auto simp: intmap_inv_def)
  from assms Some have "k \<notin> keys t" using in_keys_iff_get [of t k] by simp
  with Some intmap_add_node_ok [OF inv, of k v] show ?thesis
    by (simp add: intmap_add_def intmap_inv_def intmap_entries_def split: option.splits)
qed

lemma intmap_unlink_prefixes_ok:
  "prefixes_ok t \<Longrightarrow> (case intmap_unlink t k of None \<Rightarrow> True | Some t' \<Rightarrow> prefixes_ok t' \<and> keys t' \<subseteq> keys t)"
proof (induction t)
  case (Node n a b)
  have *: "prefixes_ok (Node n a' b')"
    if "prefixes_ok a'" "prefixes_ok b'" "keys a' \<subseteq> keys a" "keys b' \<subseteq> keys b" for a' b'
  proof -
    have "keys a' \<union> keys b' \<subseteq> keys a \<union> keys b" using that by blast
    with Node.prems that(1,2) show ?thesis unfolding prefixes_ok.simps by blast
  qed
  show ?case
  proof (cases "bit k (critbit_of n)")
    case True
    with Node * [of a] show ?thesis by (cases "intmap_unlink b k") auto
  next
    case False
    with Node * [of _ b] show ?thesis by (cases "intmap_unlink a k") auto
  qed
qed simp

lemma intmap_del_inv: "intmap_inv m \<Longrightarrow> intmap_inv (snd (intmap_del m k))"
proof (cases m)
  case (Some t)
  assume "intmap_inv m"
  with Some have "icb.cb_inv t" "prefixes_ok t" by (auto simp: intmap_inv_def)
  then show ?thesis
    using Some intmap_unlink_prefixes_ok [of t k] icb.prune_inv [of t k]
    by (auto simp: intmap_del_def intmap_inv_def intmap_unlink_prune split: option.splits prod.splits)
qed (simp add: intmap_del_def)

lemma intmap_del_entries:
  assumes "intmap_inv m"
  shows "intmap_entries (snd (intmap_del m k)) = filter (\<lambda>(k', v). k' \<noteq> k) (intmap_entries m)"
proof (cases m)
  case (Some t)
  with assms have inv: "icb.cb_inv t" "prefixes_ok t" by (auto simp: intmap_inv_def)
  show ?thesis
  proof (cases "k \<in> keys t")
    case True
    then obtain v where "(k, v) \<in> set (leaves t)" using keysE by metis
    with inv have "intmap_walk t k = (k, v)" by (simp add: intmap_walk_walk icb.walk_member)
    then show ?thesis
      using Some inv icb.prune_leaves [OF inv(1) True]
      by (simp add: intmap_del_def intmap_entries_def intmap_unlink_prune)
  next
    case False
    then have "fst (intmap_walk t k) \<noteq> k"
      using inv icb.walk_key_in [of k t] by (auto simp: intmap_walk_walk)
    moreover have "filter (\<lambda>(k', v). k' \<noteq> k) (leaves t) = leaves t"
      using False by (intro filter_True) (auto dest: in_keys)
    ultimately show ?thesis
      using Some by (auto simp: intmap_del_def intmap_entries_def split: prod.splits)
  qed
qed (simp add: intmap_del_def intmap_entries_def)

lemma int_kless_less:
  assumes "icb.kless k k'"
  shows "k < k'"
proof -
  obtain q where q: "icb.agree q k k'" "\<not> int_kbit k q" "int_kbit k' q"
    using assms by (auto simp: icb.kless_def)
  then have q64: "q < 64" by (simp add: int_kbit_def)
  have "unat k < unat k'"
  proof (rule nat_less_highest_bit [of "63 - q"])
    show "\<not> bit (unat k) (63 - q)" "bit (unat k') (63 - q)"
      using q q64 by (auto simp: int_kbit_def bit_unsigned_iff)
    fix j
    assume j: "63 - q < j"
    show "bit (unat k) j = bit (unat k') j"
    proof (cases "j < 64")
      case True
      with j q64 have "63 - j < q" "63 - (63 - j) = j" by auto
      with q(1) True show ?thesis
        unfolding icb.agree_def by (metis bit_unsigned_iff int_kbit_def less_trans q64)
    qed (simp add: bit_unsigned_iff)
  qed
  then show ?thesis by (simp add: word_less_nat_alt)
qed

lemma intmap_entries_sorted: "intmap_inv m \<Longrightarrow> sorted_wrt (<) (map fst (intmap_entries m))"
proof (cases m)
  case (Some t)
  assume "intmap_inv m"
  with Some have inv: "icb.cb_inv t" by (simp add: intmap_inv_def)
  have "sorted_wrt (<) (map fst (leaves t))"
    using icb.leaves_sorted [OF inv]
    by (rule sorted_wrt_mono_rel [rotated]) (rule int_kless_less)
  with Some show ?thesis by (simp add: intmap_entries_def)
qed (simp add: intmap_entries_def)

interpretation im: ordered_map intmap_init intmap_get intmap_add "\<lambda>m k. snd (intmap_del m k)"
  intmap_entries intmap_inv "\<lambda>_. True" "(<)"
proof unfold_locales
  show "intmap_inv intmap_init" "intmap_entries intmap_init = []"
    by (simp_all add: intmap_init_def intmap_inv_def intmap_entries_def)
qed ((rule intmap_get_entries intmap_entries_sorted TrueI intmap_add_present
    intmap_add_fresh intmap_del_inv intmap_del_entries less_irrefl; assumption?)+)

lemma intmap_empty_entries: "intmap_empty m \<longleftrightarrow> intmap_entries m = []"
  by (auto simp: intmap_empty_def intmap_entries_def split: option.splits)

lemma intmap_first_entries:
  "intmap_first m = (case intmap_entries m of [] \<Rightarrow> None | e # _ \<Rightarrow> Some e)"
proof (cases m)
  case (Some t)
  then show ?thesis
    using leaves_not_Nil [of t]
    by (cases "leaves t") (auto simp: intmap_first_def intmap_entries_def leftmost_hd)
qed (simp add: intmap_first_def intmap_entries_def)

lemma intmap_last_entries:
  "intmap_last m = (if intmap_entries m = [] then None else Some (last (intmap_entries m)))"
  by (cases m) (auto simp: intmap_last_def intmap_entries_def rightmost_last)

text \<open>The first and the last index bound every index present.\<close>

lemma sorted_wrt_hd_last:
  fixes xs :: "'a :: preorder list"
  assumes "sorted_wrt (<) xs" "x \<in> set xs"
  shows "hd xs \<le> x" "x \<le> last xs"
proof -
  show "hd xs \<le> x" using assms by (cases xs) (auto intro: less_imp_le)
  show "x \<le> last xs"
    using assms by (induction xs) (auto intro: less_imp_le)
qed

lemma intmap_bounds:
  assumes "intmap_inv m" "intmap_get m k = Some v"
  obtains lo vlo hi vhi where
    "intmap_first m = Some (lo, vlo)" "intmap_last m = Some (hi, vhi)" "lo \<le> k" "k \<le> hi"
proof -
  let ?es = "intmap_entries m"
  have kv: "(k, v) \<in> set ?es" using im.lookup_Some_iff [OF assms(1)] assms(2) by simp
  then have ne: "?es \<noteq> []" by (cases ?es) simp_all
  from imageI [OF kv, of fst] have "k \<in> set (map fst ?es)" by simp
  note b = sorted_wrt_hd_last [OF intmap_entries_sorted [OF assms(1)] this]
  have "intmap_first m = Some (hd ?es)"
    using ne by (cases ?es) (simp_all add: intmap_first_entries)
  moreover have "intmap_last m = Some (last ?es)" using ne by (simp add: intmap_last_entries)
  ultimately show ?thesis
    using b ne
    by (intro that [of "fst (hd ?es)" "snd (hd ?es)" "fst (last ?es)" "snd (last ?es)"])
      (simp_all add: hd_map last_map)
qed

subsection \<open>Iteration\<close>

text \<open>
  The loop of \<open>intmap_after_\<close>. The argument \<open>prev\<close> is the greater branch at the last node where the
  lesser one was taken.
\<close>

fun after_walk :: "'v intmap_node \<Rightarrow> index \<Rightarrow> 'v intmap_node option \<Rightarrow> (index \<times> 'v) option" where
  "after_walk (Leaf i v) index prev = (if index \<le> i then Some (i, v) else map_option leftmost prev)"
| "after_walk (Node n a b) index prev =
     (let crit = critbit_of n; idx = drop_bit crit index; direction = idx AND 1; idx' = idx OR 1; prefix = drop_bit crit n in
      if idx' < prefix then Some (leftmost (Node n a b))
      else if prefix < idx' then map_option leftmost prev
      else if direction = 0 then after_walk a index (Some b) else after_walk b index prev)"

definition intmap_after :: "'v intmap \<Rightarrow> index \<Rightarrow> (index \<times> 'v) option" where
  "intmap_after m i = (let index = i + 1 in
     if index = 0 then None else case m of None \<Rightarrow> None | Some t \<Rightarrow> after_walk t index None)"

fun before_walk :: "'v intmap_node \<Rightarrow> index \<Rightarrow> 'v intmap_node option \<Rightarrow> (index \<times> 'v) option" where
  "before_walk (Leaf i v) index prev = (if i \<le> index then Some (i, v) else map_option rightmost prev)"
| "before_walk (Node n a b) index prev =
     (let crit = critbit_of n; idx = drop_bit crit index; direction = idx AND 1; idx' = idx OR 1; prefix = drop_bit crit n in
      if prefix < idx' then Some (rightmost (Node n a b))
      else if idx' < prefix then map_option rightmost prev
      else if direction = 0 then before_walk a index prev else before_walk b index (Some a))"

definition intmap_before :: "'v intmap \<Rightarrow> index \<Rightarrow> (index \<times> 'v) option" where
  "intmap_before m i = (let index = i - 1 in
     if index = - 1 then None else case m of None \<Rightarrow> None | Some t \<Rightarrow> before_walk t index None)"

text \<open>\<open>intmap_iterate_\<close>: the callback says whether to go on; the data it changes is the state.\<close>

fun iterate_node :: "(index \<Rightarrow> 'v \<Rightarrow> 's \<Rightarrow> bool \<times> 's) \<Rightarrow> index \<Rightarrow> 'v intmap_node \<Rightarrow> 's \<Rightarrow> bool \<times> 's" where
  "iterate_node handle offset (Leaf i v) s = handle (i - offset) v s"
| "iterate_node handle offset (Node n a b) s =
     (case iterate_node handle offset a s of (go, s') \<Rightarrow> if go then iterate_node handle offset b s' else (False, s'))"

definition intmap_iterate :: "(index \<Rightarrow> 'v \<Rightarrow> 's \<Rightarrow> bool \<times> 's) \<Rightarrow> index \<Rightarrow> 'v intmap \<Rightarrow> 's \<Rightarrow> bool \<times> 's" where
  "intmap_iterate handle offset m s = (case m of None \<Rightarrow> (True, s) | Some t \<Rightarrow> iterate_node handle offset t s)"

text \<open>The tests on shifted words compare the bits above the critical one.\<close>

lemma unat_or_one: "unat ((w :: u64) OR 1) = 2 * (unat w div 2) + 1"
proof -
  have "unat (w OR 1) = unat w OR unat (1 :: u64)" by (rule unsigned_or_eq)
  also have "\<dots> = unat w + of_bool (even (unat w))" by (simp only: unsigned_1 or_one_eq)
  also have "\<dots> = 2 * (unat w div 2) + 1" by (cases "even (unat w)") (auto elim!: evenE oddE)
  finally show ?thesis .
qed

lemma unat_bit: "bit (w :: u64) c \<longleftrightarrow> odd (unat w div 2 ^ c)"
proof -
  have "bit (unat w) c = bit w c" by (cases "c < 64") (simp_all add: bit_unsigned_iff)
  then show ?thesis using bit_iff_odd [of "unat w" c] by blast
qed

lemma bit_critbit: "critbit_of n < 64 \<Longrightarrow> bit n (critbit_of n)"
  by (auto simp: critbit_of_def bitops_ls64_def dest: find_upt_Some split: option.splits)

lemma unat_prefix:
  assumes "critbit_of n < 64"
  shows "unat (drop_bit (critbit_of n) n) = 2 * (unat n div 2 ^ Suc (critbit_of n)) + 1"
proof -
  let ?m = "unat n div 2 ^ critbit_of n"
  have "odd ?m" using bit_critbit [OF assms] unat_bit by blast
  then have "2 * (?m div 2) + 1 = ?m" by (rule odd_two_times_div_two_succ)
  then show ?thesis by (simp only: unat_drop_bit power_Suc2 div_mult2_eq)
qed

lemma unat_index: "unat (drop_bit c (i :: u64) OR 1) = 2 * (unat i div 2 ^ Suc c) + 1"
  by (simp only: unat_or_one unat_drop_bit power_Suc2 div_mult2_eq)

lemma same_prefix:
  assumes "\<And>i. c < i \<Longrightarrow> bit (n :: u64) i = bit k i"
  shows "unat n div 2 ^ Suc c = unat k div 2 ^ Suc c"
proof -
  have "drop_bit (Suc c) (unat n) = drop_bit (Suc c) (unat k)"
    by (rule bit_eqI) (auto simp: bit_drop_bit_eq bit_unsigned_iff assms)
  then show ?thesis by (simp add: drop_bit_eq_div)
qed

lemma div_less_imp_less: "(a :: nat) div d < b div d \<Longrightarrow> a < b"
  by (meson div_le_mono leD not_le)

lemma find_rev_last: "xs \<noteq> [] \<Longrightarrow> \<forall>x\<in>set xs. P x \<Longrightarrow> find P (rev xs) = Some (last xs)"
  by (cases xs rule: rev_cases) auto

lemma find_False: "find (\<lambda>x. False) xs = None"
  by (induction xs) auto

lemma find_append_case: "find P (xs @ ys) = (case find P xs of Some x \<Rightarrow> Some x | None \<Rightarrow> find P ys)"
  by (induction xs) auto

lemma half_less: "even p \<Longrightarrow> odd q \<Longrightarrow> p div 2 = q div 2 \<Longrightarrow> p < (q :: nat)"
  by presburger

lemma prefix_tests:
  assumes "critbit_of n < 64"
  shows "drop_bit (critbit_of n) i OR 1 < drop_bit (critbit_of n) n \<longleftrightarrow> unat i div 2 ^ Suc (critbit_of n) < unat n div 2 ^ Suc (critbit_of n)"
    "drop_bit (critbit_of n) n < drop_bit (critbit_of n) i OR 1 \<longleftrightarrow> unat n div 2 ^ Suc (critbit_of n) < unat i div 2 ^ Suc (critbit_of n)"
  unfolding word_less_nat_alt unat_index unat_prefix [OF assms] by auto

lemma direction_bit: "drop_bit c (i :: u64) AND 1 = 0 \<longleftrightarrow> \<not> bit i c"
  by (simp add: and_one_eq bit_iff_odd_drop_bit even_iff_mod_2_eq_zero [symmetric])

text \<open>All keys below a node on one side of the index.\<close>

lemma node_outside:
  assumes "prefixes_ok (Node n a b)" "k \<in> keys a \<union> keys b"
  shows "drop_bit (critbit_of n) i OR 1 < drop_bit (critbit_of n) n \<Longrightarrow> i < k"
    "drop_bit (critbit_of n) n < drop_bit (critbit_of n) i OR 1 \<Longrightarrow> k < i"
proof -
  have c: "critbit_of n < 64" and "unat n div 2 ^ Suc (critbit_of n) = unat k div 2 ^ Suc (critbit_of n)"
    using assms same_prefix [of "critbit_of n" n k] by auto
  then show "drop_bit (critbit_of n) i OR 1 < drop_bit (critbit_of n) n \<Longrightarrow> i < k"
    "drop_bit (critbit_of n) n < drop_bit (critbit_of n) i OR 1 \<Longrightarrow> k < i"
    using prefix_tests [OF c, of i] div_less_imp_less unfolding word_less_nat_alt [of i k] word_less_nat_alt [of k i] by metis+
qed

lemma node_inside:
  assumes "prefixes_ok (Node n a b)" "k \<in> keys a \<union> keys b" "bit k (critbit_of n) \<noteq> bit i (critbit_of n)"
    and "\<not> drop_bit (critbit_of n) i OR 1 < drop_bit (critbit_of n) n" "\<not> drop_bit (critbit_of n) n < drop_bit (critbit_of n) i OR 1"
  shows "if bit i (critbit_of n) then k < i else i < k"
proof -
  let ?c = "critbit_of n"
  have c: "?c < 64" and "unat n div 2 ^ Suc ?c = unat k div 2 ^ Suc ?c" using assms(1,2) same_prefix [of ?c n k] by auto
  then have eq: "unat k div 2 ^ Suc ?c = unat i div 2 ^ Suc ?c" using assms(4,5) by (simp add: prefix_tests [OF c] del: power_Suc)
  have less: "x < y" if "\<not> bit x ?c" "bit y ?c" "unat x div 2 ^ Suc ?c = unat y div 2 ^ Suc ?c" for x y :: u64
  proof -
    have "even (unat x div 2 ^ ?c)" "odd (unat y div 2 ^ ?c)" using that unat_bit by blast+
    moreover have "unat x div 2 ^ ?c div 2 = unat y div 2 ^ ?c div 2" using that(3) by (simp only: power_Suc2 div_mult2_eq)
    ultimately have "unat x div 2 ^ ?c < unat y div 2 ^ ?c" by (rule half_less)
    then show ?thesis unfolding word_less_nat_alt by (rule div_less_imp_less)
  qed
  show ?thesis using less [of k i] less [of i k] assms(3) eq by auto
qed

lemma after_walk_spec:
  assumes "icb.cb_inv t" "prefixes_ok t"
  shows "after_walk t index prev = (case find (\<lambda>x. index \<le> fst x) (leaves t) of Some x \<Rightarrow> Some x | None \<Rightarrow> map_option leftmost prev)"
  using assms
proof (induction t arbitrary: prev)
  case (Node n a b)
  let ?c = "critbit_of n"
  have c: "?c < 64" using Node.prems(2) by simp
  have dirs: "\<And>k. k \<in> keys a \<Longrightarrow> \<not> bit k ?c" "\<And>k. k \<in> keys b \<Longrightarrow> bit k ?c"
    using Node.prems(1) bit_critbit_kbit [OF c] by auto
  have key: "fst x \<in> keys a \<union> keys b" if "x \<in> set (leaves a @ leaves b)" for x using that in_keys [of "fst x" "snd x"] by auto
  consider (lt) "drop_bit ?c index OR 1 < drop_bit ?c n" | (gt) "drop_bit ?c n < drop_bit ?c index OR 1"
    | (eq) "\<not> drop_bit ?c index OR 1 < drop_bit ?c n" "\<not> drop_bit ?c n < drop_bit ?c index OR 1" by blast
  then show ?case
  proof cases
    case lt
    then have "\<forall>x\<in>set (leaves (Node n a b)). index \<le> fst x"
      using node_outside(1) [OF Node.prems(2) key lt] less_imp_le unfolding leaves.simps by blast
    then have "find (\<lambda>x. index \<le> fst x) (leaves (Node n a b)) = Some (leftmost (Node n a b))"
      unfolding leftmost_hd by (rule find_all_hd [OF leaves_not_Nil])
    then show ?thesis using lt by (simp add: Let_def)
  next
    case gt
    then have "\<forall>x\<in>set (leaves (Node n a b)). \<not> index \<le> fst x" 
      using node_outside(2) [OF Node.prems(2) key gt] unfolding leaves.simps not_le by blast
    then have "find (\<lambda>x. index \<le> fst x) (leaves (Node n a b)) = None" by (simp only: find_None_iff) blast
    then show ?thesis using gt less_not_sym [OF gt] by (simp add: Let_def)
  next
    case eq
    note inside = node_inside [OF Node.prems(2) _ _ eq]
    show ?thesis
    proof (cases "bit index ?c")
      case True
      then have "\<forall>x\<in>set (leaves a). \<not> index \<le> fst x" using inside dirs(1) in_keys by (fastforce simp: not_le)
      then show ?thesis using True eq Node by (simp add: Let_def direction_bit find_none_append)
    next
      case False
      then have "\<forall>x\<in>set (leaves b). index \<le> fst x" using inside dirs(2) in_keys by (fastforce intro: less_imp_le)
      then have "find (\<lambda>x. index \<le> fst x) (leaves b) = Some (leftmost b)" unfolding leftmost_hd by (rule find_all_hd [OF leaves_not_Nil])
      then show ?thesis using False eq Node by (simp add: Let_def direction_bit find_append_case split: option.split)
    qed
  qed
qed simp

lemma before_walk_spec:
  assumes "icb.cb_inv t" "prefixes_ok t"
  shows "before_walk t index prev = (case find (\<lambda>x. fst x \<le> index) (rev (leaves t)) of Some x \<Rightarrow> Some x | None \<Rightarrow> map_option rightmost prev)"
  using assms
proof (induction t arbitrary: prev)
  case (Node n a b)
  let ?c = "critbit_of n"
  have c: "?c < 64" using Node.prems(2) by simp
  have dirs: "\<And>k. k \<in> keys a \<Longrightarrow> \<not> bit k ?c" "\<And>k. k \<in> keys b \<Longrightarrow> bit k ?c"
    using Node.prems(1) bit_critbit_kbit [OF c] by auto
  have key: "fst x \<in> keys a \<union> keys b" if "x \<in> set (leaves a @ leaves b)" for x using that in_keys [of "fst x" "snd x"] by auto
  consider (lt) "drop_bit ?c index OR 1 < drop_bit ?c n" | (gt) "drop_bit ?c n < drop_bit ?c index OR 1"
    | (eq) "\<not> drop_bit ?c index OR 1 < drop_bit ?c n" "\<not> drop_bit ?c n < drop_bit ?c index OR 1" by blast
  then show ?case
  proof cases
    case gt
    then have "\<forall>x\<in>set (leaves (Node n a b)). fst x \<le> index"
      using node_outside(2) [OF Node.prems(2) key gt] less_imp_le unfolding leaves.simps by blast
    then have "find (\<lambda>x. fst x \<le> index) (rev (leaves (Node n a b))) = Some (rightmost (Node n a b))"
      unfolding rightmost_last by (rule find_rev_last [OF leaves_not_Nil])
    then show ?thesis using gt by (simp add: Let_def)
  next
    case lt
    then have "\<forall>x\<in>set (leaves (Node n a b)). \<not> fst x \<le> index"
      using node_outside(1) [OF Node.prems(2) key lt] unfolding leaves.simps not_le by blast
    then have "find (\<lambda>x. fst x \<le> index) (rev (leaves (Node n a b))) = None" by (simp only: find_None_iff set_rev) blast
    then show ?thesis using lt less_not_sym [OF lt] by (simp add: Let_def)
  next
    case eq
    note inside = node_inside [OF Node.prems(2) _ _ eq]
    show ?thesis
    proof (cases "bit index ?c")
      case False
      then have "\<forall>x\<in>set (rev (leaves b)). \<not> fst x \<le> index" using inside dirs(2) in_keys by (fastforce simp: not_le)
      then show ?thesis using False eq Node by (simp add: Let_def direction_bit find_none_append)
    next
      case True
      then have "\<forall>x\<in>set (leaves a). fst x \<le> index" using inside dirs(1) in_keys by (fastforce intro: less_imp_le)
      then have "find (\<lambda>x. fst x \<le> index) (rev (leaves a)) = Some (rightmost a)" unfolding rightmost_last by (rule find_rev_last [OF leaves_not_Nil])
      then show ?thesis using True eq Node by (simp add: Let_def direction_bit find_append_case split: option.split)
    qed
  qed
qed simp

text \<open>The next and the previous index that are present, and every entry in order.\<close>

lemma intmap_after_entries:
  assumes "intmap_inv m"
  shows "intmap_after m k = find (\<lambda>x. k < fst x) (intmap_entries m)"
proof (cases "k + 1 = 0")
  case True
  then have "k = - 1" by (simp add: eq_neg_iff_add_eq_0)
  then have "\<not> k < x" for x by simp
  then show ?thesis using True by (simp add: intmap_after_def find_False)
next
  case False
  then have "k + 1 \<le> x \<longleftrightarrow> k < x" for x
    using unatSuc [of k] by (auto simp: word_le_nat_alt word_less_nat_alt add.commute)
  then show ?thesis using False assms
    by (cases m) (auto simp: intmap_after_def intmap_inv_def intmap_entries_def Let_def after_walk_spec split: option.split)
qed

lemma intmap_before_entries:
  assumes "intmap_inv m"
  shows "intmap_before m k = find (\<lambda>x. fst x < k) (rev (intmap_entries m))"
proof (cases "k = 0")
  case True
  then show ?thesis by (simp add: intmap_before_def find_False)
next
  case False
  then have "x \<le> k - 1 \<longleftrightarrow> x < k" for x
    using unat_minus_one [of k] unat_gt_0 [of k] by (auto simp: word_le_nat_alt word_less_nat_alt)
  then show ?thesis using False assms
    by (cases m) (auto simp: intmap_before_def intmap_inv_def intmap_entries_def Let_def before_walk_spec split: option.split)
qed

fun while_true :: "('a \<Rightarrow> 's \<Rightarrow> bool \<times> 's) \<Rightarrow> 'a list \<Rightarrow> 's \<Rightarrow> bool \<times> 's" where
  "while_true f [] s = (True, s)"
| "while_true f (x # xs) s = (case f x s of (go, s') \<Rightarrow> if go then while_true f xs s' else (False, s'))"

lemma while_true_append:
  "while_true f (xs @ ys) s = (case while_true f xs s of (go, s') \<Rightarrow> if go then while_true f ys s' else (False, s'))"
  by (induction xs arbitrary: s) (auto split: prod.split)

lemma intmap_iterate_entries: "intmap_iterate handle offset m s = while_true (\<lambda>(i, v). handle (i - offset) v) (intmap_entries m) s"
proof (cases m)
  case (Some t)
  have "iterate_node handle offset t s = while_true (\<lambda>(i, v). handle (i - offset) v) (leaves t) s" for s
    by (induction t arbitrary: s) (auto simp: while_true_append split: prod.split)
  then show ?thesis by (simp add: intmap_iterate_def intmap_entries_def Some)
qed (simp add: intmap_iterate_def intmap_entries_def)

end
