(* ===== verification/Ec.thy ===== *)
theory Ec
  imports Json_Out Strmap Intmap
begin

text \<open>
  \<open>plugins/payz/ecs/ec.c\<close>: the entity-component table, a map from entity IDs to rows, a row
  a map from component names to cells. A row is reached through a pointer kept in the
  entity map; writing to it is \<open>row_write\<close>, which replaces the row at its leaf.
\<close>

record ec_cell =
  cell_component :: string
  cell_buffer :: string
  cell_tok :: tokptr

type_synonym ec_entityrow = "ec_cell strmap"

record ec =
  next_entity :: u32
  null_buffer :: string
  null_tok :: tokptr
  entity_map :: "ec_entityrow intmap"

definition ec_new :: ec where
  "ec_new =
     \<lparr>next_entity = 1, null_buffer = ''null'',
      null_tok = [\<lparr>tok_type = JSMN_PRIMITIVE, tok_start = 0, tok_end = 4, tok_size = 0\<rparr>],
      entity_map = intmap_init\<rparr>"

definition ec_newentity :: "ec \<Rightarrow> u32 \<times> ec" where
  "ec_newentity ec = (next_entity ec, ec\<lparr>next_entity := next_entity ec + 1\<rparr>)"

definition ec_get_entity_bounds :: "ec \<Rightarrow> (u32 \<times> u32) run" where
  "ec_get_entity_bounds ec =
     (if intmap_empty (entity_map ec) then Some (0, 0)
      else do {
        (im_min, _) \<leftarrow> intmap_first (entity_map ec);
        (im_max, _) \<leftarrow> intmap_last (entity_map ec);
        Some (ucast im_min, ucast im_max + 1) })"

definition ec_get_components_from_strmap :: "string \<Rightarrow> ec_cell \<Rightarrow> string list \<Rightarrow> bool \<times> string list" where
  "ec_get_components_from_strmap name cell components = (True, components @ [name])"

definition ec_get_components :: "ec \<Rightarrow> u32 \<Rightarrow> string list option run" where
  "ec_get_components ec entity =
     (case intmap_get (entity_map ec) (ucast entity) of
        None \<Rightarrow> Some None
      | Some entityrow \<Rightarrow> (
          let components = strmap_iterate entityrow ec_get_components_from_strmap [] in do {
          c_assert (length components \<noteq> 0);
          Some (Some components) }))"

definition ec_get_component :: "ec \<Rightarrow> u32 \<Rightarrow> string \<Rightarrow> bool \<times> string \<times> tokptr" where
  "ec_get_component ec entity component =
     (case intmap_get (entity_map ec) (ucast entity) of
        None \<Rightarrow> (False, null_buffer ec, null_tok ec)
      | Some entityrow \<Rightarrow>
          (case strmap_get entityrow component of
             None \<Rightarrow> (False, null_buffer ec, null_tok ec)
           | Some cell \<Rightarrow> (True, cell_buffer cell, cell_tok cell)))"

definition ec_entityrow_new :: ec_entityrow where
  "ec_entityrow_new = strmap_init"

definition ec_cell_new :: "string \<Rightarrow> string \<Rightarrow> tokptr \<Rightarrow> ec_cell run" where
  "ec_cell_new component buffer tok = do {
     t \<leftarrow> deref tok;
     text \<leftarrow> full_text buffer t;
     after \<leftarrow> json_next tok;
     let offset = json_tok_full t;
     let toks = take (length tok - length after) tok;
     let adjusted = (if offset \<noteq> 0
                     then map (\<lambda>t. t\<lparr>tok_start := tok_start t - offset, tok_end := tok_end t - offset\<rparr>) toks
                     else toks);
     Some \<lparr>cell_component = component, cell_buffer = text, cell_tok = adjusted\<rparr> }"

fun set_leaf :: "'k \<Rightarrow> 'v \<Rightarrow> ('k, 'n, 'v) crit \<Rightarrow> ('k, 'n, 'v) crit" where
  "set_leaf k v (Leaf i w) = (if i = k then Leaf i v else Leaf i w)"
| "set_leaf k v (Node n l r) = Node n (set_leaf k v l) (set_leaf k v r)"

definition row_write :: "ec \<Rightarrow> u32 \<Rightarrow> ec_entityrow \<Rightarrow> ec" where
  "row_write ec entity row =
     ec\<lparr>entity_map := map_option (set_leaf (ucast entity) row) (entity_map ec)\<rparr>"

definition ec_detach_component :: "ec \<Rightarrow> u32 \<Rightarrow> string \<Rightarrow> ec" where
  "ec_detach_component ec entity component =
     (case intmap_get (entity_map ec) (ucast entity) of
        None \<Rightarrow> ec
      | Some entityrow \<Rightarrow>
          (case strmap_get entityrow component of
             None \<Rightarrow> ec
           | Some cell \<Rightarrow>
               (let row = snd (strmap_del entityrow component);
                    ec' = row_write ec entity row
                in if strmap_empty row
                   then ec'\<lparr>entity_map := snd (intmap_del (entity_map ec') (ucast entity))\<rparr>
                   else ec')))"

definition ec_attach_component :: "ec \<Rightarrow> u32 \<Rightarrow> string \<Rightarrow> string \<Rightarrow> tokptr \<Rightarrow> ec run" where
  "ec_attach_component ec entity component buffer tok = (
     let (ec1, row1) =
       (case intmap_get (entity_map ec) (ucast entity) of
          None \<Rightarrow> (ec\<lparr>entity_map := snd (intmap_add (entity_map ec) (ucast entity) ec_entityrow_new)\<rparr>,
                   ec_entityrow_new)
        | Some entityrow \<Rightarrow>
            (case strmap_get entityrow component of
               None \<Rightarrow> (ec, entityrow)
             | Some cell \<Rightarrow> (let row = snd (strmap_del entityrow component) in (row_write ec entity row, row))))
     in do {
     cell \<leftarrow> ec_cell_new component buffer tok;
     Some (row_write ec1 entity (snd (strmap_add row1 (cell_component cell) cell))) })"

text \<open>\<open>ec_set_component\<close>; \<open>ec_detach\<close> is the call with two NULL pointers.\<close>

definition ec_set_component :: "ec \<Rightarrow> u32 \<Rightarrow> string \<Rightarrow> string option \<Rightarrow> tokptr option \<Rightarrow> ec run" where
  "ec_set_component ec entity component buffer tok =
     (case (buffer, tok) of
        (Some buf, Some tk) \<Rightarrow> do {
          t \<leftarrow> deref tk;
          null \<leftarrow> json_tok_is_null buf t;
          if null then Some (ec_detach_component ec entity component)
          else ec_attach_component ec entity component buf tk }
      | _ \<Rightarrow> do {
          c_assert (buffer = None \<and> tok = None);
          Some (ec_detach_component ec entity component) })"

definition ec_set_component_datuml :: "ec \<Rightarrow> u32 \<Rightarrow> string \<Rightarrow> string option \<Rightarrow> ec run" where
  "ec_set_component_datuml ec entity component v = do {
     tok \<leftarrow> (case v of Some text \<Rightarrow> json_parse_simple text | None \<Rightarrow> Some None);
     ec_set_component ec entity component v tok }"

definition ec_set_component_datum :: "ec \<Rightarrow> u32 \<Rightarrow> string \<Rightarrow> string option \<Rightarrow> ec run" where
  "ec_set_component_datum ec entity component valuez = ec_set_component_datuml ec entity component valuez"

subsection \<open>Writing through a row pointer\<close>

lemma keys_set_leaf [simp]: "keys (set_leaf k v t) = keys t"
  by (induction t) auto

lemma leaves_set_leaf: "leaves (set_leaf k v t) = map (\<lambda>(i, w). (i, if i = k then v else w)) (leaves t)"
  by (induction t) auto

lemma cb_inv_set_leaf [simp]: "icb.cb_inv (set_leaf k v t) = icb.cb_inv t"
  by (induction t) auto

lemma prefixes_ok_set_leaf [simp]: "prefixes_ok (set_leaf k v t) = prefixes_ok t"
  by (induction t) auto

lemma intmap_inv_set_leaf [simp]: "intmap_inv (map_option (set_leaf k v) m) = intmap_inv m"
  by (cases m) (auto simp: intmap_inv_def)

lemma intmap_get_set_leaf:
  assumes "intmap_inv m"
  shows "intmap_get (map_option (set_leaf k v) m) i =
    (if i = k then map_option (\<lambda>_. v) (intmap_get m k) else intmap_get m i)"
proof -
  have map_of_upd: "map_of (map (\<lambda>(i, w). (i, if i = k then v else w)) xs) i =
      (if i = k then map_option (\<lambda>_. v) (map_of xs k) else map_of xs i)" for xs :: "(index \<times> 'a) list"
    by (induction xs) auto
  have "intmap_get (map_option (set_leaf k v) m) i = map_of (intmap_entries (map_option (set_leaf k v) m)) i"
    using assms by (simp add: intmap_get_entries)
  then show ?thesis
    using assms
    by (cases m) (simp_all add: intmap_get_entries intmap_entries_def leaves_set_leaf map_of_upd)
qed

subsection \<open>Invariant and abstract table\<close>

text \<open>\<open>json_tok_is_null\<close> in terms of the layout tree.\<close>

definition null_cst :: "cst \<Rightarrow> bool" where
  "null_cst c \<longleftrightarrow> (case c of CPrim s \<Rightarrow> s \<noteq> [] \<and> hd s = CHR ''n'' | _ \<Rightarrow> False)"

lemma json_tok_is_null_denotes:
  assumes "denotes buf (t # ts) c"
  shows "json_tok_is_null buf t = Some (null_cst c)"
proof (cases c)
  case (CPrim s)
  with assms obtain x s' where s: "s = x # s'" by (cases s) (auto simp: denotes_def prim_ok_def)
  show ?thesis
    using assms by (auto simp: CPrim s denotes_def json_tok_is_null_def null_cst_def char_at_def)
qed (use denotes_type [OF assms] in \<open>simp_all add: json_tok_is_null_def null_cst_def\<close>)

text \<open>A cell holds the text and the tokens of a layout tree that is not null.\<close>

definition cell_of :: "string \<Rightarrow> cst \<Rightarrow> ec_cell" where
  "cell_of component c = \<lparr>cell_component = component, cell_buffer = text_of c, cell_tok = toks_of 0 c\<rparr>"

definition cell_ok :: "string \<Rightarrow> ec_cell \<Rightarrow> bool" where
  "cell_ok component cell \<longleftrightarrow> (\<exists>c. wf_cst c \<and> \<not> null_cst c \<and> cell = cell_of component c)"

definition row_ok :: "ec_entityrow \<Rightarrow> bool" where
  "row_ok row \<longleftrightarrow> strmap_inv row \<and> (\<forall>cn cell. strmap_get row cn = Some cell \<longrightarrow> cell_ok cn cell)"

definition ec_inv :: "ec \<Rightarrow> bool" where
  "ec_inv ec \<longleftrightarrow>
     null_buffer ec = ''null'' \<and>
     null_tok ec = [\<lparr>tok_type = JSMN_PRIMITIVE, tok_start = 0, tok_end = 4, tok_size = 0\<rparr>] \<and>
     intmap_inv (entity_map ec) \<and>
     (\<forall>i row. intmap_get (entity_map ec) i = Some row \<longrightarrow>
        unat i < 2 ^ 32 \<and> row_ok row \<and> \<not> strmap_empty row)"

text \<open>The abstract table: what is attached under an entity and a component name.\<close>

definition ec_table :: "ec \<Rightarrow> u32 \<Rightarrow> string \<Rightarrow> (string \<times> tokptr) option" where
  "ec_table ec entity component =
     (case intmap_get (entity_map ec) (ucast entity) of
        None \<Rightarrow> None
      | Some row \<Rightarrow> map_option (\<lambda>cell. (cell_buffer cell, cell_tok cell)) (strmap_get row component))"

definition null_toks :: tokptr where
  "null_toks = [\<lparr>tok_type = JSMN_PRIMITIVE, tok_start = 0, tok_end = 4, tok_size = 0\<rparr>]"

lemma ec_get_component_table:
  "ec_inv ec \<Longrightarrow> ec_get_component ec e cn =
     (case ec_table ec e cn of None \<Rightarrow> (False, ''null'', null_toks) | Some (buf, ts) \<Rightarrow> (True, buf, ts))"
  by (auto simp: ec_get_component_def ec_table_def ec_inv_def null_toks_def split: option.splits)

lemma ec_table_cst:
  assumes "ec_inv ec" "ec_table ec e cn = Some (buf, ts)"
  shows "\<exists>c. wf_cst c \<and> \<not> null_cst c \<and> buf = text_of c \<and> ts = toks_of 0 c"
  using assms by (fastforce simp: ec_table_def ec_inv_def row_ok_def cell_ok_def cell_of_def split: option.splits)

lemma unat_ucast_u32 [simp]: "unat (ucast (e :: u32) :: u64) = unat e"
  using unat_u32_less [of e] by (simp add: unsigned_ucast_eq take_bit_nat_eq_self)

lemma ucast_u32_u64_inj [simp]: "(ucast (e :: u32) :: u64) = ucast e' \<longleftrightarrow> e = e'"
  by (metis unat_ucast_u32 word_unat_eq_iff)

lemma ec_inv_new: "ec_inv ec_new"
  by (simp add: ec_inv_def ec_new_def im.invar_empty im.lookup_empty)

lemma ec_table_new: "ec_table ec_new e cn = None"
  by (simp add: ec_table_def ec_new_def im.lookup_empty)

lemma cell_ok_cell_of: "wf_cst c \<Longrightarrow> \<not> null_cst c \<Longrightarrow> cell_ok cn (cell_of cn c)"
  by (auto simp: cell_ok_def)

subsection \<open>A new cell\<close>

lemma ec_cell_new_denotes:
  assumes "denotes buf ts c"
  shows "ec_cell_new component buf ts = Some (cell_of component c)"
proof -
  obtain a b rest where buf: "buf = a @ text_of c @ b" and ts: "ts = toks_of (int (length a)) c @ rest"
    using assms by (auto simp: denotes_def)
  obtain t us where tus: "ts = t # us" using denotes_deref [OF assms] by blast
  have t: "t = hd (toks_of (int (length a)) c)"
    using tus ts toks_of_Cons [of "int (length a)" c] by (metis append_Cons list.inject)
  then have off: "json_tok_full t = int (length a)" by (simp add: full_hd_toks_of)
  have full: "full_text buf t = Some (text_of c)"
    using denotes_full_text assms tus by blast
  have nx: "json_next ts = Some rest" by (simp add: ts)
  have tk: "take (length ts - length rest) ts = toks_of (int (length a)) c" by (simp add: ts)
  have sh: "map (\<lambda>t. t\<lparr>tok_start := tok_start t - int (length a), tok_end := tok_end t - int (length a)\<rparr>)
      (toks_of (int (length a)) c) = toks_of 0 c"
    using toks_shift(1) [of "int (length a)" "- int (length a)" c]
    by (simp add: tok_shift_def [abs_def])
  show ?thesis
    using full nx tk sh off unfolding ec_cell_new_def cell_of_def Let_def
    by (auto simp: tus)
qed

subsection \<open>Attaching and detaching\<close>

lemma entity_map_row_write:
  assumes "intmap_inv (entity_map ec)"
  shows "intmap_get (entity_map (row_write ec e row)) i =
    (if i = ucast e then map_option (\<lambda>_. row) (intmap_get (entity_map ec) i) else intmap_get (entity_map ec) i)"
  using assms by (simp add: row_write_def intmap_get_set_leaf)

lemma row_write_fields [simp]:
  "next_entity (row_write ec e row) = next_entity ec" "null_buffer (row_write ec e row) = null_buffer ec"
  "null_tok (row_write ec e row) = null_tok ec"
  "intmap_inv (entity_map (row_write ec e row)) = intmap_inv (entity_map ec)"
  by (simp_all add: row_write_def)

text \<open>
  A changed table: the row of \<open>e\<close> is \<open>r\<close> (absent when \<open>None\<close>), everything else is kept.
\<close>

definition ec_upd :: "ec \<Rightarrow> u32 \<Rightarrow> ec_entityrow option \<Rightarrow> ec \<Rightarrow> bool" where
  "ec_upd ec e r ec' \<longleftrightarrow>
     next_entity ec' = next_entity ec \<and> null_buffer ec' = null_buffer ec \<and> null_tok ec' = null_tok ec \<and>
     intmap_inv (entity_map ec') \<and>
     (\<forall>i. intmap_get (entity_map ec') i = (if i = ucast e then r else intmap_get (entity_map ec) i))"

lemma ec_upd_inv:
  assumes "ec_inv ec" "ec_upd ec e r ec'" "\<And>row. r = Some row \<Longrightarrow> row_ok row \<and> \<not> strmap_empty row"
  shows "ec_inv ec'"
  using assms unat_u32_less [of e] by (auto simp: ec_inv_def ec_upd_def split: if_splits)

lemma ec_upd_table:
  assumes "ec_upd ec e r ec'"
  shows "ec_table ec' e' cn' = (if e' = e then
     (case r of None \<Rightarrow> None | Some row \<Rightarrow> map_option (\<lambda>cell. (cell_buffer cell, cell_tok cell)) (strmap_get row cn'))
     else ec_table ec e' cn')"
  using assms by (auto simp: ec_upd_def ec_table_def split: option.splits)

lemma row_ok_del: "row_ok row \<Longrightarrow> row_ok (snd (strmap_del row cn))"
  by (auto simp: row_ok_def sm.invar_del sm.lookup_del)

lemma row_ok_add:
  assumes "row_ok row" "strmap_get row cn = None" "c_string cn" "cell_ok cn cell"
  shows "row_ok (snd (strmap_add row cn cell))" "\<not> strmap_empty (snd (strmap_add row cn cell))"
    "strmap_get (snd (strmap_add row cn cell)) = (strmap_get row)(cn \<mapsto> cell)"
proof -
  have inv: "strmap_inv row" using assms(1) by (simp add: row_ok_def)
  show get: "strmap_get (snd (strmap_add row cn cell)) = (strmap_get row)(cn \<mapsto> cell)"
    using inv assms by (simp add: sm.lookup_add)
  have inv': "strmap_inv (snd (strmap_add row cn cell))" using inv assms by (simp add: sm.invar_add)
  show "row_ok (snd (strmap_add row cn cell))"
    using assms get inv' by (auto simp: row_ok_def)
  show "\<not> strmap_empty (snd (strmap_add row cn cell))"
    using get sm.entries_eq_Nil_iff [OF inv'] by (auto simp: strmap_empty_entries)
qed

lemma strmap_empty_get: "strmap_inv row \<Longrightarrow> strmap_empty row \<longleftrightarrow> strmap_get row = Map.empty"
  by (simp add: strmap_empty_entries sm.entries_eq_Nil_iff)

lemma ec_detach_component_spec:
  assumes "ec_inv ec"
  shows "ec_inv (ec_detach_component ec e cn) \<and>
    next_entity (ec_detach_component ec e cn) = next_entity ec \<and>
    (\<forall>e' cn'. ec_table (ec_detach_component ec e cn) e' cn' =
      (if e' = e \<and> cn' = cn then None else ec_table ec e' cn'))"
proof (cases "intmap_get (entity_map ec) (ucast e)")
  case None
  with assms show ?thesis by (auto simp: ec_detach_component_def ec_table_def)
next
  case (Some row)
  have row: "row_ok row" "strmap_inv row" and im: "intmap_inv (entity_map ec)"
    using assms Some by (auto simp: ec_inv_def row_ok_def)
  let ?row = "snd (strmap_del row cn)"
  have row': "row_ok ?row" "strmap_get ?row = (strmap_get row)(cn := None)"
    using row by (simp_all add: row_ok_del sm.lookup_del)
  then have inv': "strmap_inv ?row" by (simp add: row_ok_def)
  show ?thesis
  proof (cases "strmap_get row cn")
    case None
    with Some assms show ?thesis by (auto simp: ec_detach_component_def ec_table_def)
  next
    case cell: (Some cell)
    let ?r = "if strmap_empty ?row then None else Some ?row"
    have upd: "ec_upd ec e ?r (ec_detach_component ec e cn)"
      using Some cell im
      by (simp add: ec_detach_component_def ec_upd_def Let_def entity_map_row_write im.lookup_del im.invar_del)
    have "ec_inv (ec_detach_component ec e cn)"
      using row' by (intro ec_upd_inv [OF assms upd]) (auto split: if_splits)
    moreover have "ec_table (ec_detach_component ec e cn) e' cn' =
        (if e' = e \<and> cn' = cn then None else ec_table ec e' cn')" for e' cn'
    proof -
      have "strmap_get row cn' = None" if "strmap_empty ?row" "cn' \<noteq> cn"
        using that row'(2) strmap_empty_get [OF inv'] by (metis fun_upd_apply)
      then show ?thesis
        unfolding ec_upd_table [OF upd] using row'(2) Some by (auto simp: ec_table_def)
    qed
    ultimately show ?thesis using upd by (simp add: ec_upd_def)
  qed
qed

lemma ec_attach_component_spec:
  assumes "ec_inv ec" "c_string cn" "denotes buf ts c" "\<not> null_cst c"
  shows "\<exists>ec'. ec_attach_component ec e cn buf ts = Some ec' \<and> ec_inv ec' \<and> next_entity ec' = next_entity ec \<and>
    (\<forall>e' cn'. ec_table ec' e' cn' =
      (if e' = e \<and> cn' = cn then Some (text_of c, toks_of 0 c) else ec_table ec e' cn'))"
proof -
  have im: "intmap_inv (entity_map ec)" using assms(1) by (simp add: ec_inv_def)
  have wf: "wf_cst c" using assms(3) by (simp add: denotes_def)
  let ?cell = "cell_of cn c"
  let ?old = "case intmap_get (entity_map ec) (ucast e) of None \<Rightarrow> strmap_init
     | Some row \<Rightarrow> (case strmap_get row cn of None \<Rightarrow> row | Some _ \<Rightarrow> snd (strmap_del row cn))"
  have old: "row_ok ?old" "strmap_get ?old cn = None"
    using assms(1) row_ok_del [of _ cn]
    by (auto simp: ec_inv_def row_ok_def sm.invar_empty sm.lookup_empty sm.lookup_del split: option.splits)
  have getold: "strmap_get ?old cn' = (if cn' = cn then None else
      case intmap_get (entity_map ec) (ucast e) of None \<Rightarrow> None | Some row \<Rightarrow> strmap_get row cn')" for cn'
    using assms(1) by (auto simp: ec_inv_def row_ok_def sm.lookup_empty sm.lookup_del split: option.splits)
  let ?new = "snd (strmap_add ?old cn ?cell)"
  note new = row_ok_add [OF old assms(2) cell_ok_cell_of [OF wf assms(4)]]
  let ?ec1 = "case intmap_get (entity_map ec) (ucast e) of
      None \<Rightarrow> ec\<lparr>entity_map := snd (intmap_add (entity_map ec) (ucast e) ec_entityrow_new)\<rparr>
    | Some row \<Rightarrow> (case strmap_get row cn of None \<Rightarrow> ec | Some _ \<Rightarrow> row_write ec e (snd (strmap_del row cn)))"
  have run: "ec_attach_component ec e cn buf ts = Some (row_write ?ec1 e ?new)"
    using ec_cell_new_denotes [OF assms(3), of cn]
    by (auto simp: ec_attach_component_def cell_of_def ec_entityrow_new_def Let_def split: option.splits)
  have upd: "ec_upd ec e (Some ?new) (row_write ?ec1 e ?new)"
    using im by (auto simp: ec_upd_def entity_map_row_write im.lookup_add im.invar_add split: option.splits)
  have inv: "ec_inv (row_write ?ec1 e ?new)"
    using ec_upd_inv [OF assms(1) upd] new by auto
  have tab: "ec_table (row_write ?ec1 e ?new) e' cn' =
      (if e' = e \<and> cn' = cn then Some (text_of c, toks_of 0 c) else ec_table ec e' cn')" for e' cn'
    unfolding ec_upd_table [OF upd] new(3) option.case fun_upd_apply getold
    by (auto simp: cell_of_def ec_table_def split: option.splits)
  show ?thesis using run inv tab upd by (auto simp: ec_upd_def)
qed

subsection \<open>The contract of a component table\<close>

text \<open>
  \<open>setsystems.c\<close> and \<open>ecsys.c\<close> work on a table through the two function pointers
  \<open>get_component\<close> and \<open>set_component\<close>. The locale states what they rely on.
\<close>

type_synonym ctable = "u32 \<Rightarrow> string \<Rightarrow> (string \<times> tokptr) option"

definition tab_upd :: "ctable \<Rightarrow> u32 \<Rightarrow> string \<Rightarrow> (string \<times> tokptr) option \<Rightarrow> ctable" where
  "tab_upd t e cn v = (\<lambda>e' cn'. if e' = e \<and> cn' = cn then v else t e' cn')"

definition attached :: "cst \<Rightarrow> string \<times> tokptr" where
  "attached c = (text_of c, toks_of 0 c)"

definition value_of :: "cst \<Rightarrow> (string \<times> tokptr) option" where
  "value_of c = (if null_cst c then None else Some (attached c))"

lemma tab_upd_same [simp]: "tab_upd t e cn v e cn = v"
  by (simp add: tab_upd_def)

lemma tab_upd_other [simp]: "e' \<noteq> e \<or> cn' \<noteq> cn \<Longrightarrow> tab_upd t e cn v e' cn' = t e' cn'"
  by (auto simp: tab_upd_def)

lemma tab_upd_twice [simp]: "tab_upd (tab_upd t e cn v) e cn w = tab_upd t e cn w"
  by (auto simp: tab_upd_def fun_eq_iff)

lemma denotes_attached: "wf_cst c \<Longrightarrow> denotes (text_of c) (toks_of 0 c @ rest) c"
  by (rule denotesI [where a = "[]" and b = "[]" and rest = rest]) auto

lemma denotes_attached' [simp]: "wf_cst c \<Longrightarrow> denotes (text_of c) (toks_of 0 c) c"
  using denotes_attached [of c "[]"] by simp

lemma denotes_null: "denotes ''null'' null_toks (CPrim ''null'')"
  by (rule denotesI [where a = "[]" and b = "[]" and rest = "[]"])
    (auto simp: null_toks_def prim_ok_def primitive_stop_def primitive_bad_def)

locale component_table =
  fixes get_component :: "'ec \<Rightarrow> u32 \<Rightarrow> string \<Rightarrow> bool \<times> string \<times> tokptr"
    and set_component :: "'ec \<Rightarrow> u32 \<Rightarrow> string \<Rightarrow> string option \<Rightarrow> tokptr option \<Rightarrow> 'ec run"
    and inv :: "'ec \<Rightarrow> bool"
    and table :: "'ec \<Rightarrow> ctable"
  assumes get_table: "inv ec \<Longrightarrow> get_component ec e cn =
      (case table ec e cn of None \<Rightarrow> (False, ''null'', null_toks) | Some (buf, ts) \<Rightarrow> (True, buf, ts))"
    and table_cst: "inv ec \<Longrightarrow> table ec e cn = Some x \<Longrightarrow> \<exists>c. wf_cst c \<and> \<not> null_cst c \<and> x = attached c"
    and set_denotes: "inv ec \<Longrightarrow> c_string cn \<Longrightarrow> denotes buf ts c \<Longrightarrow>
      \<exists>ec'. set_component ec e cn (Some buf) (Some ts) = Some ec' \<and> inv ec' \<and>
        table ec' = tab_upd (table ec) e cn (value_of c)"
    and set_null: "inv ec \<Longrightarrow>
      \<exists>ec'. set_component ec e cn None None = Some ec' \<and> inv ec' \<and> table ec' = tab_upd (table ec) e cn None"
begin

lemma get_denotes:
  assumes "inv ec"
  shows "\<exists>c buf ts. get_component ec e cn = (table ec e cn \<noteq> None, buf, ts) \<and> denotes buf ts c \<and>
    (case table ec e cn of None \<Rightarrow> c = CPrim ''null'' | Some x \<Rightarrow> x = attached c \<and> \<not> null_cst c)"
proof (cases "table ec e cn")
  case None
  with assms show ?thesis using denotes_null by (auto simp: get_table)
next
  case (Some x)
  then obtain c where c: "wf_cst c" "\<not> null_cst c" "x = attached c" using table_cst [OF assms] by blast
  with Some assms show ?thesis
    by (intro exI [of _ c]) (simp add: get_table attached_def)
qed

lemma get_present: "inv ec \<Longrightarrow> fst (get_component ec e cn) \<longleftrightarrow> table ec e cn \<noteq> None"
  by (auto simp: get_table split: option.splits)

lemma set_get:
  assumes "inv ec" "c_string cn" "denotes buf ts c"
  shows "\<exists>ec'. set_component ec e cn (Some buf) (Some ts) = Some ec' \<and> inv ec' \<and>
    get_component ec' e cn = (if null_cst c then (False, ''null'', null_toks) else (True, text_of c, toks_of 0 c)) \<and>
    (\<forall>e' cn'. e' \<noteq> e \<or> cn' \<noteq> cn \<longrightarrow> get_component ec' e' cn' = get_component ec e' cn')"
proof -
  obtain ec' where "set_component ec e cn (Some buf) (Some ts) = Some ec'" and inv: "inv ec'"
    and tab: "table ec' = tab_upd (table ec) e cn (value_of c)"
    using set_denotes [OF assms] by blast
  then show ?thesis using assms(1) by (auto simp: get_table value_of_def attached_def)
qed

end

lemma ec_set_component_denotes:
  assumes "ec_inv ec" "c_string cn" "denotes buf ts c"
  shows "\<exists>ec'. ec_set_component ec e cn (Some buf) (Some ts) = Some ec' \<and> ec_inv ec' \<and>
    next_entity ec' = next_entity ec \<and> ec_table ec' = tab_upd (ec_table ec) e cn (value_of c)"
proof -
  obtain t us where ts: "ts = t # us" using denotes_deref [OF assms(3)] by blast
  have null: "json_tok_is_null buf t = Some (null_cst c)"
    using json_tok_is_null_denotes assms(3) ts by blast
  show ?thesis
  proof (cases "null_cst c")
    case True
    then show ?thesis
      using ec_detach_component_spec [OF assms(1), of e cn] null ts
      by (auto simp: ec_set_component_def value_of_def tab_upd_def fun_eq_iff)
  next
    case False
    then show ?thesis
      using ec_attach_component_spec [OF assms False, of e] null ts
      by (auto simp: ec_set_component_def value_of_def tab_upd_def attached_def fun_eq_iff)
  qed
qed

lemma ec_set_component_null:
  assumes "ec_inv ec"
  shows "\<exists>ec'. ec_set_component ec e cn None None = Some ec' \<and> ec_inv ec' \<and>
    next_entity ec' = next_entity ec \<and> ec_table ec' = tab_upd (ec_table ec) e cn None"
  using ec_detach_component_spec [OF assms, of e cn]
  by (auto simp: ec_set_component_def tab_upd_def fun_eq_iff)

interpretation ect: component_table ec_get_component ec_set_component ec_inv ec_table
proof
  show "ec_inv ec \<Longrightarrow> ec_table ec e cn = Some x \<Longrightarrow> \<exists>c. wf_cst c \<and> \<not> null_cst c \<and> x = attached c" for ec e cn x
    using ec_table_cst [of ec e cn "fst x" "snd x"] unfolding attached_def by (metis prod.collapse)
qed (use ec_get_component_table ec_set_component_denotes ec_set_component_null in blast)+

subsection \<open>Listing\<close>

lemma run_entries_collect:
  "run_entries xs ec_get_components_from_strmap acc = (True, acc @ map fst xs)"
  by (induction xs arbitrary: acc) (auto simp: ec_get_components_from_strmap_def)

lemma ec_get_components_spec:
  assumes "ec_inv ec"
  shows "case ec_get_components ec e of
      None \<Rightarrow> False
    | Some None \<Rightarrow> (\<forall>cn. ec_table ec e cn = None)
    | Some (Some cns) \<Rightarrow> cns \<noteq> [] \<and> sorted_wrt (<) cns \<and> set cns = {cn. ec_table ec e cn \<noteq> None}"
proof (cases "intmap_get (entity_map ec) (ucast e)")
  case None
  then show ?thesis by (simp add: ec_get_components_def ec_table_def)
next
  case (Some row)
  then have row: "strmap_inv row" "\<not> strmap_empty row"
    using assms by (auto simp: ec_inv_def row_ok_def)
  have comps: "strmap_iterate row ec_get_components_from_strmap [] = map fst (strmap_entries row)"
    by (simp add: strmap_iterate_entries run_entries_collect)
  have ne: "strmap_entries row \<noteq> []" using row by (simp add: strmap_empty_entries)
  have "set (map fst (strmap_entries row)) = dom (strmap_get row)"
    using sm.fst_entries_dom [OF row(1)] by simp
  then show ?thesis
    using Some comps ne strmap_entries_sorted [OF row(1)]
    by (auto simp: ec_get_components_def ec_table_def Let_def dom_def)
qed

definition occupied :: "ec \<Rightarrow> u32 set" where
  "occupied ec = {e. \<exists>cn. ec_table ec e cn \<noteq> None}"

lemma occupied_iff:
  assumes "ec_inv ec"
  shows "e \<in> occupied ec \<longleftrightarrow> intmap_get (entity_map ec) (ucast e) \<noteq> None"
proof (cases "intmap_get (entity_map ec) (ucast e)")
  case None
  then show ?thesis by (simp add: occupied_def ec_table_def)
next
  case (Some row)
  then have "strmap_inv row" "\<not> strmap_empty row"
    using assms by (auto simp: ec_inv_def row_ok_def)
  then obtain cn where "strmap_get row cn \<noteq> None" by (auto simp: strmap_empty_get fun_eq_iff)
  with Some show ?thesis by (auto simp: occupied_def ec_table_def)
qed

lemma ucast_ucast_u32 [simp]: "(ucast (ucast (e :: u32) :: u64) :: u32) = e"
  using unat_u32_less [of e] by (simp add: word_unat_eq_iff unsigned_ucast_eq unsigned_take_bit_eq take_bit_nat_eq_self)

lemma ucast_ucast_u64: "unat (i :: u64) < 2 ^ 32 \<Longrightarrow> (ucast (ucast i :: u32) :: u64) = i"
  by (simp add: word_unat_eq_iff unsigned_ucast_eq unsigned_take_bit_eq take_bit_nat_eq_self)

lemma ucast_le_u32: "(ucast (e :: u32) :: u64) \<le> ucast e' \<longleftrightarrow> e \<le> e'"
  by (simp add: word_le_nat_alt)

lemma ec_get_entity_bounds_empty:
  assumes "ec_inv ec" "occupied ec = {}"
  shows "ec_get_entity_bounds ec = Some (0, 0)"
proof -
  have im: "intmap_inv (entity_map ec)" using assms(1) by (simp add: ec_inv_def)
  have "intmap_get (entity_map ec) i = None" for i
  proof (rule ccontr)
    assume "intmap_get (entity_map ec) i \<noteq> None"
    then have "unat i < 2 ^ 32" "intmap_get (entity_map ec) (ucast (ucast i :: u32)) \<noteq> None"
      using assms(1) by (auto simp: ec_inv_def ucast_ucast_u64)
    then have "(ucast i :: u32) \<in> occupied ec" using occupied_iff [OF assms(1)] by blast
    with assms(2) show False by simp
  qed
  then have "intmap_get (entity_map ec) = Map.empty" by auto
  then show ?thesis
    using im.entries_eq_Nil_iff [OF im] by (simp add: ec_get_entity_bounds_def intmap_empty_entries)
qed

lemma ec_get_entity_bounds_spec:
  assumes "ec_inv ec" "occupied ec \<noteq> {}"
  shows "\<exists>lo hi. ec_get_entity_bounds ec = Some (lo, hi + 1) \<and> lo \<in> occupied ec \<and> hi \<in> occupied ec \<and>
    (\<forall>e\<in>occupied ec. lo \<le> e \<and> e \<le> hi)"
proof -
  have im: "intmap_inv (entity_map ec)" using assms(1) by (simp add: ec_inv_def)
  obtain e0 row0 where "intmap_get (entity_map ec) (ucast (e0 :: u32)) = Some row0"
    using assms occupied_iff [OF assms(1)] by blast
  then obtain lo vlo hi vhi where fl: "intmap_first (entity_map ec) = Some (lo, vlo)"
    "intmap_last (entity_map ec) = Some (hi, vhi)"
    using intmap_bounds [OF im] by metis
  have ne: "intmap_entries (entity_map ec) \<noteq> []"
    using fl(1) by (auto simp: intmap_first_entries split: list.splits)
  have "(lo, vlo) \<in> set (intmap_entries (entity_map ec))" "(hi, vhi) \<in> set (intmap_entries (entity_map ec))"
    using fl ne last_in_set [OF ne] by (auto simp: intmap_first_entries intmap_last_entries split: list.splits)
  then have get: "intmap_get (entity_map ec) lo = Some vlo" "intmap_get (entity_map ec) hi = Some vhi"
    by (simp_all add: im.lookup_Some_iff [OF im])
  then have small: "unat lo < 2 ^ 32" "unat hi < 2 ^ 32" using assms(1) by (auto simp: ec_inv_def)
  have "ec_get_entity_bounds ec = Some (ucast lo, ucast hi + 1)"
    using fl ne by (simp add: ec_get_entity_bounds_def intmap_empty_entries)
  moreover have "ucast lo \<in> occupied ec" "ucast hi \<in> occupied ec"
    using get small by (simp_all add: occupied_iff [OF assms(1)] ucast_ucast_u64)
  moreover have "ucast lo \<le> e \<and> e \<le> ucast hi" if e: "e \<in> occupied ec" for e :: u32
  proof -
    obtain row where "intmap_get (entity_map ec) (ucast e) = Some row"
      using e occupied_iff [OF assms(1)] by blast
    then obtain l v h w where "intmap_first (entity_map ec) = Some (l, v)"
      "intmap_last (entity_map ec) = Some (h, w)" "l \<le> ucast e" "ucast e \<le> h"
      using intmap_bounds [OF im] by metis
    with fl have "lo \<le> ucast e" "ucast e \<le> hi" by simp_all
    then show ?thesis
      using small ucast_le_u32 [of "ucast lo" e] ucast_le_u32 [of e "ucast hi"] by (simp add: ucast_ucast_u64)
  qed
  ultimately show ?thesis by blast
qed

subsection \<open>Allocating entities\<close>

fun ec_newentities :: "nat \<Rightarrow> ec \<Rightarrow> u32 list \<times> ec" where
  "ec_newentities 0 ec = ([], ec)"
| "ec_newentities (Suc n) ec =
     (let (e, ec1) = ec_newentity ec; (es, ec2) = ec_newentities n ec1 in (e # es, ec2))"

lemma ec_newentities_spec:
  "fst (ec_newentities n ec) = map (\<lambda>i. next_entity ec + of_nat i) [0..<n] \<and>
   ec_table (snd (ec_newentities n ec)) = ec_table ec \<and>
   (ec_inv (snd (ec_newentities n ec)) \<longleftrightarrow> ec_inv ec)"
proof (induction n arbitrary: ec)
  case (Suc n)
  have "map (\<lambda>i. next_entity ec + 1 + of_nat i) [0..<n] = map (\<lambda>i. next_entity ec + of_nat i) (map Suc [0..<n])"
    by (simp add: add.assoc)
  also have "map Suc [0..<n] = [1..<Suc n]" by (simp only: map_Suc_upt One_nat_def)
  finally have "map (\<lambda>i. next_entity ec + 1 + of_nat i) [0..<n] = map (\<lambda>i. next_entity ec + of_nat i) [1..<Suc n]" .
  moreover have "[0..<Suc n] = 0 # [1..<Suc n]" by (simp add: upt_conv_Cons)
  moreover have "ec_table (ec\<lparr>next_entity := x\<rparr>) = ec_table ec" "ec_inv (ec\<lparr>next_entity := x\<rparr>) = ec_inv ec" for x
    by (auto simp: ec_table_def ec_inv_def fun_eq_iff)
  ultimately show ?case
    using Suc [of "ec\<lparr>next_entity := next_entity ec + 1\<rparr>"]
    by (simp add: ec_newentity_def Let_def split_beta del: upt_Suc)
qed simp

lemma ec_newentities_next:
  "next_entity (snd (ec_newentities n ec)) = next_entity ec + of_nat n"
  by (induction n arbitrary: ec) (auto simp: ec_newentity_def split_beta Let_def)

lemma ec_newentities_distinct:
  assumes "n < 2 ^ 32"
  shows "distinct (fst (ec_newentities n ec_new))" "0 \<notin> set (fst (ec_newentities n ec_new))"
proof -
  let ?id = "\<lambda>i. 1 + of_nat i :: u32"
  have id: "fst (ec_newentities n ec_new) = map ?id [0..<n]"
    using ec_newentities_spec [of n ec_new] by (simp add: ec_new_def)
  have unat: "unat (?id i) = Suc i" if "i < n" for i
    using unat_of_nat_u32 [of "Suc i"] that assms by (simp del: unat_of_nat)
  then have "inj_on ?id {0..<n}" by (intro inj_onI) (metis Suc_inject atLeastLessThan_iff)
  then show "distinct (fst (ec_newentities n ec_new))" by (simp only: id distinct_map) simp
  show "0 \<notin> set (fst (ec_newentities n ec_new))"
    using unat by (auto simp: id) (metis Zero_not_Suc unsigned_0)
qed

subsection \<open>Histories of a table\<close>

text \<open>
  The calls that change a table, as data: a new entity, a text attached to a component of an
  entity, a component detached. \<open>ec_exec\<close> runs one on the table of the program, \<open>tab_exec\<close>
  on the abstract pair of next identifier and contents.
\<close>

datatype ec_op = NewEntity | Attach u32 string cst | Detach u32 string

fun op_ok :: "ec_op \<Rightarrow> bool" where
  "op_ok (Attach e cn c) \<longleftrightarrow> c_string cn \<and> wf_cst c"
| "op_ok _ \<longleftrightarrow> True"

fun ec_exec :: "ec_op \<Rightarrow> ec \<Rightarrow> ec run" where
  "ec_exec NewEntity ec = Some (snd (ec_newentity ec))"
| "ec_exec (Attach e cn c) ec = ec_set_component_datuml ec e cn (Some (text_of c))"
| "ec_exec (Detach e cn) ec = ec_set_component ec e cn None None"

fun tab_exec :: "ec_op \<Rightarrow> u32 \<times> ctable \<Rightarrow> u32 \<times> ctable" where
  "tab_exec NewEntity (n, t) = (n + 1, t)"
| "tab_exec (Attach e cn c) (n, t) = (n, tab_upd t e cn (value_of c))"
| "tab_exec (Detach e cn) (n, t) = (n, tab_upd t e cn None)"

fun ec_history :: "ec_op list \<Rightarrow> ec \<Rightarrow> ec run" where
  "ec_history [] ec = Some ec"
| "ec_history (op # ops) ec = do { ec' \<leftarrow> ec_exec op ec; ec_history ops ec' }"

definition ec_abs :: "ec \<Rightarrow> u32 \<times> ctable" where
  "ec_abs ec = (next_entity ec, ec_table ec)"

lemma ec_exec_refines:
  assumes "ec_inv ec" "op_ok op"
  shows "\<exists>ec'. ec_exec op ec = Some ec' \<and> ec_inv ec' \<and> ec_abs ec' = tab_exec op (ec_abs ec)"
proof (cases op)
  case NewEntity
  then show ?thesis using assms
    by (auto simp: ec_newentity_def ec_abs_def ec_inv_def ec_table_def fun_eq_iff)
next
  case (Attach e cn c)
  then have "denotes (text_of c) (toks_of 0 c @ [terminator]) c" "c_string cn" "wf_cst c"
    using assms denotes_attached by auto
  then show ?thesis
    using ec_set_component_denotes [OF assms(1)] Attach
    by (auto simp: ec_set_component_datuml_def json_parse_simple_text ec_abs_def)
next
  case (Detach e cn)
  then show ?thesis using ec_set_component_null [OF assms(1)] by (auto simp: ec_abs_def)
qed

lemma ec_history_refines:
  "ec_inv ec \<Longrightarrow> list_all op_ok ops \<Longrightarrow>
   \<exists>ec'. ec_history ops ec = Some ec' \<and> ec_inv ec' \<and> ec_abs ec' = fold tab_exec ops (ec_abs ec)"
proof (induction ops arbitrary: ec)
  case (Cons op ops)
  then obtain ec1 where "ec_exec op ec = Some ec1" "ec_inv ec1" "ec_abs ec1 = tab_exec op (ec_abs ec)"
    using ec_exec_refines by fastforce
  with Cons.IH [of ec1] Cons.prems show ?case by simp
qed simp

end
