(* ===== verification/Parsing.thy ===== *)
theory Parsing
  imports Json_Out
begin

text \<open>
  \<open>plugins/payz/parsing.c\<close>: an array of JSON strings, or a single string, as a C array of
  unescaped strings.
\<close>

definition unescaped :: "string \<Rightarrow> string option" where
  "unescaped bytes = json_escape_unescape (json_escape_string bytes)"

definition json_to_array_of_strings :: "string \<Rightarrow> tokptr \<Rightarrow> string list option run" where
  "json_to_array_of_strings buffer tok = do {
     t \<leftarrow> deref tok;
     if tok_type t = JSMN_STRING then do {
       s \<leftarrow> slice buffer (tok_start t) (tok_end t);
       case unescaped s of None \<Rightarrow> Some None | Some u \<Rightarrow> Some (Some [u]) }
     else if tok_type t \<noteq> JSMN_ARRAY then Some None
     else after_loop
       (json_for_each_arr tok
          (\<lambda>j_str arr. do {
             j \<leftarrow> deref j_str;
             if tok_type j \<noteq> JSMN_STRING then Some (Inl None)
             else do {
               s \<leftarrow> slice buffer (tok_start j) (tok_end j);
               case unescaped s of None \<Rightarrow> Some (Inl None) | Some u \<Rightarrow> Some (Inr (arr @ [u])) } }) [])
       (\<lambda>arr. Some (Some arr)) }"

subsection \<open>What it reads\<close>

fun string_of_cst :: "cst \<Rightarrow> string option" where
  "string_of_cst (CStr s) = unescaped s"
| "string_of_cst c = None"

fun strings_of_cst :: "cst \<Rightarrow> string list option" where
  "strings_of_cst (CStr s) = map_option (\<lambda>u. [u]) (unescaped s)"
| "strings_of_cst (CArr es w) = those (map string_of_cst (es_list es))"
| "strings_of_cst c = None"

lemma early_strings:
  assumes "list_all2 (inner buf) ptrs cs"
    and "\<And>ptr c arr. inner buf ptr c \<Longrightarrow>
      f ptr arr = Some (case string_of_cst c of None \<Rightarrow> Inl None | Some u \<Rightarrow> Inr (arr @ [u]))"
  shows "after_loop (early f ptrs arr) (\<lambda>arr. Some (Some arr)) =
    Some (map_option (\<lambda>us. arr @ us) (those (map string_of_cst cs)))"
  using assms(1)
proof (induction arbitrary: arr rule: list_all2_induct)
  case Nil
  then show ?case by (simp add: after_loop_def)
next
  case (Cons ptr ptrs c cs)
  show ?case
  proof (cases "string_of_cst c")
    case None
    with assms(2) [OF Cons(1)] show ?thesis by (simp add: after_loop_def)
  next
    case (Some u)
    with assms(2) [OF Cons(1)] Cons.IH [of "arr @ [u]"] show ?thesis
      by (simp add: option.map_comp comp_def)
  qed
qed

lemma json_to_array_of_strings_denotes:
  assumes "denotes buf ts c"
  shows "json_to_array_of_strings buf ts = Some (strings_of_cst c)"
proof -
  obtain t us where ts: "ts = t # us" using denotes_deref [OF assms] by blast
  have ty: "tok_type t = type_of_cst c" using denotes_type assms ts by blast
  show ?thesis
  proof (cases c)
    case (CStr s)
    then show ?thesis
      using ty denotes_string [of buf t us s] assms
      by (auto simp: json_to_array_of_strings_def ts split: option.splits)
  next
    case (CArr es w)
    let ?f = "(\<lambda>j_str arr. do {
             j \<leftarrow> deref j_str;
             if tok_type j \<noteq> JSMN_STRING then Some (Inl None)
             else do {
               s \<leftarrow> slice buf (tok_start j) (tok_end j);
               case unescaped s of None \<Rightarrow> Some (Inl None) | Some u \<Rightarrow> Some (Inr (arr @ [u])) } })
        :: tokptr \<Rightarrow> string list \<Rightarrow> (string list option + string list) run"
    obtain ptrs where ptrs: "list_all2 (inner buf) ptrs (es_list es)"
      and "\<forall>(f :: tokptr \<Rightarrow> string list \<Rightarrow> (string list option + string list) run) s.
         json_for_each_arr ts f s = early f ptrs s"
      using json_for_each_arr_denotes [OF assms [unfolded CArr]] by blast
    then have loop: "json_for_each_arr ts ?f [] = early ?f ptrs []" by blast
    have body: "?f ptr arr = Some (case string_of_cst c of None \<Rightarrow> Inl None | Some u \<Rightarrow> Inr (arr @ [u]))"
      if i: "inner buf ptr c" for ptr c arr
    proof -
      note d = inner_denotes [OF i]
      obtain j js where ptr: "ptr = j # js" using denotes_deref [OF d] by blast
      then show ?thesis
        using d denotes_type [of buf j js c] denotes_string [of buf j js]
        by (cases c) (auto split: option.splits)
    qed
    show ?thesis
      using early_strings [OF ptrs body, where arr = "[]"] loop ty CArr
      by (simp add: json_to_array_of_strings_def ts option.map_id0 [unfolded id_def])
  qed (use ty in \<open>simp_all add: json_to_array_of_strings_def ts\<close>)
qed

text \<open>Printing an array of strings and reading it back.\<close>

lemma unescaped_escape: "c_string s \<Longrightarrow> list_all unescapable s \<Longrightarrow> unescaped (json_escape s) = Some s"
  by (simp add: unescaped_def json_escape_string_def json_escape_unescape_escape c_string_json_escape)

lemma strings_of_mk_arr:
  "list_all (\<lambda>s. c_string s \<and> list_all unescapable s) ss \<Longrightarrow>
   strings_of_cst (mk_arr (map CString ss)) = Some ss"
  by (induction ss) (simp_all add: mk_arr_def CString_def unescaped_escape del: mk_es.simps)

subsection \<open>Texts that come out of JSON strings\<close>

lemma unescape_char_ascii:
  assumes "unescape_char e = Some u"
  shows "ascii_text [BACKSLASH, e]" "ascii_text [u]"
proof -
  have "e \<in> set (QUOTE # BACKSLASH # ''nbftr/'')"
    using assms unfolding unescape_char_def by (simp split: if_split_asm) blast
  moreover have "u \<in> {LF, CHR 0x08, CHR 0x0C, TAB, CR} \<or> u = e"
    using assms unfolding unescape_char_def by (simp split: if_split_asm)
  moreover have "list_all (\<lambda>c. ascii_text [c]) (QUOTE # BACKSLASH # ''nbftr/'')" "ascii_text [LF, CHR 0x08, CHR 0x0C, TAB, CR]"
    by (simp_all add: ascii_text_def)
  ultimately show "ascii_text [BACKSLASH, e]" "ascii_text [u]"
    unfolding ascii_text_def list_all_iff by fastforce+
qed

lemma utf8_check_loop_unescape:
  "json_escape_unescape s = Some t \<Longrightarrow> utf8_check_loop st need s \<Longrightarrow> utf8_check_loop st need t"
proof (induction s arbitrary: t st need rule: json_escape_unescape.induct)
  case (2 c cs)
  show ?case
  proof (cases "c = BACKSLASH")
    case False
    then obtain t' where "t = c # t'" "json_escape_unescape cs = Some t'" using 2(3) by auto
    with 2(1) [OF False] 2(4) show ?thesis by (auto split: prod.splits option.splits if_splits)
  next
    case True
    then obtain e ds u t' where cs: "cs = e # ds" "unescape_char e = Some u" "json_escape_unescape ds = Some t'" "t = u # t'"
      using 2(3) by (auto split: list.splits option.splits)
    have asc: "ascii_text [BACKSLASH, e]" "ascii_text [u]" using unescape_char_ascii [OF cs(2)] .
    have "used_len st = total_len st" "utf8_check_loop UTF8_STATE_INIT False ds"
      using 2(4) utf8_check_loop_ascii_append [OF asc(1), of st need ds] by (simp_all add: True cs(1))
    then have "used_len st = total_len st" "utf8_check_loop UTF8_STATE_INIT False t'"
      using 2(2) [of e ds u t'] True cs by auto
    then show ?thesis using utf8_check_loop_ascii_append [OF asc(2), of st need t'] by (simp add: cs(4))
  qed
qed simp

lemma unescaped_utf8: "str_ok s \<Longrightarrow> unescaped s = Some t \<Longrightarrow> utf8_check t \<and> c_string t"
  using utf8_check_loop_unescape [of s t UTF8_STATE_INIT False] utf8_check_loop_no_NUL [of UTF8_STATE_INIT False t]
  by (simp add: unescaped_def json_escape_string_def str_ok_c_string) (simp add: str_ok_def utf8_check_def)

lemma wf_es_list: "wf_es b es \<Longrightarrow> list_all wf_cst (es_list es)"
  by (induction es arbitrary: b rule: es_list.induct) auto

lemma those_map_Some:
  "those (map f xs) = Some ys \<Longrightarrow> y \<in> set ys \<Longrightarrow> \<exists>x\<in>set xs. f x = Some y"
  by (induction xs arbitrary: ys) (auto split: option.splits)

lemma strings_of_cst_utf8:
  assumes "wf_cst c" "strings_of_cst c = Some ss" "s \<in> set ss"
  shows "utf8_check s \<and> c_string s"
proof (cases c)
  case (CStr raw)
  then show ?thesis using assms unescaped_utf8 [of raw] by auto
next
  case (CArr es w)
  then obtain x where x: "x \<in> set (es_list es)" "string_of_cst x = Some s"
    using assms those_map_Some by fastforce
  moreover have "wf_cst x" using x(1) CArr assms(1) wf_es_list by (auto simp: list_all_iff)
  ultimately show ?thesis using unescaped_utf8 by (metis string_of_cst.elims option.distinct(1) wf_cst.simps(2))
qed (use assms in auto)

end
