(* ===== verification/Setsystems.thy ===== *)
theory Setsystems
  imports Ec Parsing
begin

text \<open>
  \<open>plugins/payz/setsystems.c\<close>: reading and writing one field of the object kept in the
  \<open>lightningd:systems\<close> component. The functions get the table's operations as arguments; the
  lemmas are proved for every component table.
\<close>

definition syscomp :: string where
  "syscomp = ''lightningd:systems''"

text \<open>The loop that copies the fields of the existing object but the one being modified.\<close>

definition copy_field :: "string \<Rightarrow> string \<Rightarrow> tokptr \<Rightarrow> json_stream \<Rightarrow> (unit + json_stream) run" where
  "copy_field buffer fieldname key js = do {
     k \<leftarrow> deref key;
     skip \<leftarrow> json_tok_streq buffer k fieldname;
     if skip then Some (Inr js)
     else do {
       name \<leftarrow> json_strdup buffer k;
       js' \<leftarrow> json_add_tok js (Some name) (tl key) buffer;
       Some (Inr js') } }"

definition payz_generic_setsystems_tok ::
  "('ec \<Rightarrow> u32 \<Rightarrow> string \<Rightarrow> bool \<times> string \<times> tokptr) \<Rightarrow>
   ('ec \<Rightarrow> u32 \<Rightarrow> string \<Rightarrow> string option \<Rightarrow> tokptr option \<Rightarrow> 'ec run) \<Rightarrow>
   'ec \<Rightarrow> u32 \<Rightarrow> string \<Rightarrow> string option \<Rightarrow> tokptr option \<Rightarrow> 'ec run" where
  "payz_generic_setsystems_tok get_component set_component ec entity fieldname value_buffer value_toks = do {
     js \<leftarrow> json_object_start new_json_stream None;
     let (_, buffer, toks) = get_component ec entity syscomp;
     t \<leftarrow> deref toks;
     js \<leftarrow> (if tok_type t = JSMN_OBJECT then do {
              r \<leftarrow> json_for_each_obj toks (copy_field buffer fieldname) js;
              case r of Inl _ \<Rightarrow> None | Inr js' \<Rightarrow> Some js' }
            else Some js);
     js \<leftarrow> (case value_buffer of
              None \<Rightarrow> Some js
            | Some buf \<Rightarrow> do { ts \<leftarrow> value_toks; json_add_tok js (Some fieldname) ts buf });
     js \<leftarrow> json_object_end js;
     let contents = json_out_contents js;
     ncomp_toks \<leftarrow> (case contents of None \<Rightarrow> None | Some text \<Rightarrow> json_parse_simple text);
     set_component ec entity syscomp contents ncomp_toks }"

definition payz_generic_getsystems ::
  "('ec \<Rightarrow> u32 \<Rightarrow> string \<Rightarrow> bool \<times> string \<times> tokptr) \<Rightarrow>
   'ec \<Rightarrow> u32 \<Rightarrow> string \<Rightarrow> (string \<Rightarrow> tokptr \<Rightarrow> 'x option run) \<Rightarrow> 'x option run" where
  "payz_generic_getsystems get_entity ec entity fieldname json_to_x = (
     let (found, buffer, toks) = get_entity ec entity syscomp in
     if \<not> found then Some None
     else do {
       m \<leftarrow> json_get_member buffer toks fieldname;
       case m of None \<Rightarrow> Some None | Some ts \<Rightarrow> json_to_x buffer ts })"

text \<open>The variant whose reader allocates: NULL is the failure of the reader.\<close>

definition payz_generic_getsystems_tal ::
  "('ec \<Rightarrow> u32 \<Rightarrow> string \<Rightarrow> bool \<times> string \<times> tokptr) \<Rightarrow>
   'ec \<Rightarrow> u32 \<Rightarrow> string \<Rightarrow> (string \<Rightarrow> tokptr \<Rightarrow> 'x option run) \<Rightarrow> 'x option run" where
  "payz_generic_getsystems_tal get_entity ec entity fieldname json_to_x = (
     let (found, buffer, toks) = get_entity ec entity syscomp in
     if \<not> found then Some None
     else do {
       m \<leftarrow> json_get_member buffer toks fieldname;
       case m of
         None \<Rightarrow> Some None
       | Some ts \<Rightarrow> do {
           x \<leftarrow> json_to_x buffer ts;
           case x of None \<Rightarrow> Some None | Some v \<Rightarrow> Some (Some v) } })"

subsection \<open>The object and its fields\<close>

lemma c_string_syscomp [simp]: "c_string syscomp"
  by (simp add: syscomp_def)

fun members :: "cst \<Rightarrow> (string \<times> cst) list" where
  "members (CObj ms w) = ms_list ms"
| "members c = []"

definition set_field :: "string \<Rightarrow> cst option \<Rightarrow> (string \<times> cst) list \<Rightarrow> (string \<times> cst) list" where
  "set_field f v ms = filter (\<lambda>m. fst m \<noteq> f) ms @ (case v of None \<Rightarrow> [] | Some c \<Rightarrow> [(f, c)])"

lemma map_of_filter_neq: "map_of (filter (\<lambda>m. fst m \<noteq> f) ms) = (map_of ms)(f := None)"
  by (induction ms) (auto simp: fun_eq_iff)

lemma map_of_set_field: "map_of (set_field f v ms) = (map_of ms)(f := v)"
  by (cases v) (auto simp: set_field_def map_of_filter_neq map_add_def fun_eq_iff split: option.splits)

lemma wf_ms_list: "wf_ms b ms \<Longrightarrow> list_all wf_member (ms_list ms)"
  by (induction ms arbitrary: b rule: ms_list.induct) (auto simp: wf_member_def)

lemma wf_members: "wf_cst c \<Longrightarrow> list_all wf_member (members c)"
  by (cases c) (auto simp: wf_ms_list)

lemma wf_set_field:
  "list_all wf_member ms \<Longrightarrow> str_ok f \<Longrightarrow> (\<And>c. v = Some c \<Longrightarrow> wf_cst c) \<Longrightarrow> list_all wf_member (set_field f v ms)"
  by (cases v) (auto simp: set_field_def wf_member_def list_all_iff)

lemma members_mk_obj [simp]: "members (mk_obj ms) = ms"
  by (simp add: mk_obj_def)

lemma null_cst_mk_obj [simp]: "\<not> null_cst (mk_obj ms)"
  by (simp add: mk_obj_def null_cst_def)

lemma early_copy_fields:
  assumes "list_all2 (denotes_member buf) ptrs ms" "list_all wf_member ms"
  shows "early (copy_field buf f) ptrs js =
    Some (Inr (fold (\<lambda>(k, c). add_value (Some k) c) (filter (\<lambda>m. fst m \<noteq> f) ms) js))"
  using assms
proof (induction arbitrary: js rule: list_all2_induct)
  case (Cons ptr ptrs m ms)
  obtain t ts where ptr: "ptr = t # ts" and ty: "tok_type t = JSMN_STRING"
    and sl: "slice buf (tok_start t) (tok_end t) = Some (fst m)" and i: "inner buf ts (snd m)"
    using Cons(1) by (auto simp: denotes_member_def)
  have eq: "json_tok_streq buf t f = Some (fst m = f)"
    using sl length_slice [OF sl] by (auto simp: json_tok_streq_def json_tok_strneq_def ty)
  have cs: "c_string (fst m)" using Cons.prems by (simp add: wf_member_def str_ok_c_string)
  have "copy_field buf f ptr js =
      Some (Inr (if fst m = f then js else add_value (Some (fst m)) (snd m) js))"
    using eq sl cs json_add_tok_eq [OF inner_denotes [OF i], of js "Some (fst m)"]
    by (simp add: copy_field_def ptr json_strdup_def)
  with Cons show ?case by (cases m) auto
qed simp

context component_table
begin

text \<open>The object in the component before a call; nothing attached, or no object, has no fields.\<close>

definition holds :: "'ec \<Rightarrow> u32 \<Rightarrow> string \<Rightarrow> cst \<Rightarrow> bool" where
  "holds ec e cn c \<longleftrightarrow> wf_cst c \<and> \<not> null_cst c \<and> table ec e cn = Some (attached c)"

definition fields :: "'ec \<Rightarrow> u32 \<Rightarrow> (string \<times> cst) list \<Rightarrow> bool" where
  "fields ec e ms \<longleftrightarrow> (case table ec e syscomp of None \<Rightarrow> ms = []
     | Some x \<Rightarrow> \<exists>c. wf_cst c \<and> \<not> null_cst c \<and> x = attached c \<and> ms = members c)"

lemma fields_exists: "inv ec \<Longrightarrow> \<exists>ms. fields ec e ms"
  using table_cst [of ec e syscomp] by (cases "table ec e syscomp") (fastforce simp: fields_def)+

lemma fields_wf: "fields ec e ms \<Longrightarrow> list_all wf_member ms"
  using wf_members by (auto simp: fields_def split: option.splits)

lemma setsystems_spec:
  assumes "inv ec" "fields ec e ms" "str_ok f"
    and v: "case v of None \<Rightarrow> vb = None | Some c \<Rightarrow> \<exists>buf ts. vb = Some buf \<and> vt = Some ts \<and> denotes buf ts c"
  shows "\<exists>ec'. payz_generic_setsystems_tok get_component set_component ec e f vb vt = Some ec' \<and> inv ec' \<and>
    table ec' = tab_upd (table ec) e syscomp (Some (attached (mk_obj (set_field f v ms))))"
proof -
  let ?js0 = "(json_out_member_direct new_json_stream None ''{'')\<lparr>jout_empty := True\<rparr>"
  let ?add = "\<lambda>(k, c). add_value (Some k) c"
  let ?old = "filter (\<lambda>m. fst m \<noteq> f) ms"
  obtain b buf ts where get: "get_component ec e syscomp = (b, buf, ts)"
    by (metis prod_cases3)
  obtain c where d: "denotes buf ts c" and ms: "ms = members c"
  proof (cases "table ec e syscomp")
    case None
    then show thesis
      using that [of "CPrim ''null''"] get assms(1,2) denotes_null by (simp add: get_table fields_def)
  next
    case (Some x)
    then obtain c where "wf_cst c" "x = attached c" "ms = members c" using assms(2) by (auto simp: fields_def)
    moreover from this have "buf = text_of c" "ts = toks_of 0 c"
      using get assms(1) Some by (simp_all add: get_table attached_def)
    ultimately show thesis using that [of c] by simp
  qed
  obtain t us where ts: "ts = t # us" using denotes_deref [OF d] by blast
  have ty: "tok_type t = type_of_cst c" using denotes_type d ts by blast
  have wf: "list_all wf_member ms" using fields_wf assms(2) .
  have copy: "(if tok_type t = JSMN_OBJECT then do {
        r \<leftarrow> json_for_each_obj ts (copy_field buf f) ?js0;
        case r of Inl _ \<Rightarrow> None | Inr js' \<Rightarrow> Some js' } else Some ?js0) = Some (fold ?add ?old ?js0)"
  proof (cases c)
    case (CObj cms w)
    obtain ptrs where ptrs: "list_all2 (denotes_member buf) ptrs (ms_list cms)"
      and "\<forall>(g :: tokptr \<Rightarrow> json_stream \<Rightarrow> (unit + json_stream) run) s. json_for_each_obj ts g s = early g ptrs s"
      using json_for_each_obj_denotes [OF d [unfolded CObj]] by blast
    then have "json_for_each_obj ts (copy_field buf f) ?js0 = Some (Inr (fold ?add ?old ?js0))"
      using early_copy_fields [OF ptrs, of f ?js0] wf by (simp add: ms CObj)
    then show ?thesis using ty CObj by simp
  qed (use ty ms in simp_all)
  have val: "(case vb of None \<Rightarrow> Some js | Some buf \<Rightarrow> do { ts \<leftarrow> vt; json_add_tok js (Some f) ts buf }) =
      Some (fold ?add (case v of None \<Rightarrow> [] | Some c \<Rightarrow> [(f, c)]) js)" for js
    using v by (cases v) (auto simp: json_add_tok_eq)
  let ?obj = "mk_obj (set_field f v ms)"
  have wfo: "wf_cst ?obj"
    using v by (intro wf_mk_obj wf_set_field wf assms(3)) (auto simp: denotes_def)
  have fin: "json_object_end (fold ?add (case v of None \<Rightarrow> [] | Some c \<Rightarrow> [(f, c)]) (fold ?add ?old ?js0)) =
      Some \<lparr>jout_empty = False, outbuf = text_of ?obj\<rparr>"
    using write_object [of "set_field f v ms" new_json_stream None] by (simp add: set_field_def add_value_new)
  have ne: "text_of ?obj \<noteq> []" by (simp add: mk_obj_def)
  have dr: "deref ts = Some t" by (simp add: ts)
  have "payz_generic_setsystems_tok get_component set_component ec e f vb vt =
      set_component ec e syscomp (Some (text_of ?obj)) (Some (toks_of 0 ?obj @ [terminator]))"
    unfolding payz_generic_setsystems_tok_def json_object_start_eq get Let_def prod.case dr Option.bind.bind_lunit
      copy val fin
    using ne json_parse_simple_text [OF wfo] by (simp add: json_out_contents_def)
  then show ?thesis
    using set_denotes [OF assms(1) c_string_syscomp denotes_attached [OF wfo]]
    by (simp add: value_of_def)
qed

text \<open>A field of the object, as the readers see it.\<close>

lemma getsystems_spec:
  assumes "inv ec" "holds ec e syscomp c"
  shows "case map_of (members c) f of
      None \<Rightarrow> payz_generic_getsystems get_component ec e f rd = Some None
    | Some cv \<Rightarrow> \<exists>buf ts. inner buf ts cv \<and> payz_generic_getsystems get_component ec e f rd = rd buf ts"
proof -
  have wf: "wf_cst c" and tab: "table ec e syscomp = Some (attached c)" using assms(2) by (auto simp: holds_def)
  have get: "get_component ec e syscomp = (True, text_of c, toks_of 0 c)"
    using assms(1) tab by (simp add: get_table attached_def)
  have d: "denotes (text_of c) (toks_of 0 c) c" using wf by simp
  show ?thesis
  proof (cases c)
    case (CObj ms w)
    show ?thesis
    proof (cases "map_of (ms_list ms) f")
      case None
      then show ?thesis
        using json_get_member_denotes [OF d [unfolded CObj], of f]
        by (simp add: payz_generic_getsystems_def get CObj)
    next
      case (Some cv)
      then obtain ts' where "json_get_member (text_of c) (toks_of 0 c) f = Some (Some ts')"
        and i: "inner (text_of c) ts' cv"
        using json_get_member_denotes [OF d [unfolded CObj], of f] unfolding CObj by auto
      then have "payz_generic_getsystems get_component ec e f rd = rd (text_of c) ts'"
        by (simp add: payz_generic_getsystems_def get)
      then show ?thesis using i Some CObj by auto
    qed
  qed (use json_get_member_not_object [OF d, of f] in \<open>simp_all add: payz_generic_getsystems_def get\<close>)
qed

lemma getsystems_tal_eq:
  fixes rd :: "string \<Rightarrow> tokptr \<Rightarrow> 'x option run"
  shows "payz_generic_getsystems_tal get_component ec e f rd = payz_generic_getsystems get_component ec e f rd"
proof -
  have id: "case_option (Some None) (\<lambda>v. Some (Some v)) = (Some :: 'x option \<Rightarrow> 'x option run)"
    by (auto simp: fun_eq_iff split: option.splits)
  show ?thesis
    unfolding payz_generic_getsystems_tal_def payz_generic_getsystems_def id Option.bind_runit by (rule refl)
qed

lemma getsystems_absent:
  "inv ec \<Longrightarrow> table ec e syscomp = None \<Longrightarrow> payz_generic_getsystems get_component ec e f rd = Some None"
  by (simp add: payz_generic_getsystems_def get_table)

text \<open>Reading a field after writing it; the other fields keep their values.\<close>

lemma set_get_systems:
  assumes "inv ec" "str_ok f" "denotes buf ts c"
  shows "\<exists>ec'. payz_generic_setsystems_tok get_component set_component ec e f (Some buf) (Some ts) = Some ec' \<and>
    inv ec' \<and> (\<exists>buf' ts'. inner buf' ts' c \<and> payz_generic_getsystems get_component ec' e f rd = rd buf' ts')"
proof -
  obtain ms where ms: "fields ec e ms" using fields_exists [OF assms(1)] by blast
  have v: "case Some c of None \<Rightarrow> Some buf = None
      | Some c \<Rightarrow> \<exists>b t. Some buf = Some b \<and> Some ts = Some t \<and> denotes b t c" using assms(3) by simp
  obtain ec' where ec': "payz_generic_setsystems_tok get_component set_component ec e f (Some buf) (Some ts) = Some ec'"
    "inv ec'" "table ec' = tab_upd (table ec) e syscomp (Some (attached (mk_obj (set_field f (Some c) ms))))"
    using setsystems_spec [OF assms(1) ms assms(2) v] by blast
  have "wf_cst (mk_obj (set_field f (Some c) ms))"
    using assms fields_wf [OF ms] by (intro wf_mk_obj wf_set_field) (auto simp: denotes_def)
  then have "holds ec' e syscomp (mk_obj (set_field f (Some c) ms))"
    using ec'(3) by (simp add: holds_def)
  then show ?thesis
    using getsystems_spec [OF ec'(2), of e "mk_obj (set_field f (Some c) ms)" f rd] ec' by (simp add: map_of_set_field)
qed

end

end
