(* ===== verification/Libplugin.thy ===== *)
theory Libplugin
  imports Json_Out Strmap Intmap
begin

text \<open>
  The half of \<open>plugins/libplugin.c\<close> that the payment plugin's handlers call: replies to a
  command, notifications, log messages and outgoing requests. The two arrays of streams that
  wait to be written to lightningd are lists of the texts of the messages; the event loop that
  writes them is not modelled. A callback of an outgoing request is a value of type \<open>'r\<close>.
\<close>

record command =
  cmd_id :: "u64 option"
  methodname :: string
  usage_only :: bool

datatype command_result = COMPLETE | PENDING

record 'r plugin =
  js_arr :: "string list"
  rpc_js_arr :: "string list"
  next_outreq_id :: u64
  out_reqs :: "'r intmap"
  usagemap :: "string strmap"

text \<open>The text that \<open>%.*s\<close> prints for \<open>json_tok_full_len\<close> and \<open>json_tok_full\<close> of a token.\<close>

definition full_str :: "string \<Rightarrow> tokptr \<Rightarrow> string run" where
  "full_str buffer tok = do {
     t \<leftarrow> deref tok;
     text \<leftarrow> full_text buffer t;
     Some (tal_strndup text) }"

datatype log_level = LOG_IO_OUT | LOG_IO_IN | LOG_DBG | LOG_INFORM | LOG_UNUSUAL | LOG_BROKEN

definition ld_send :: "'r plugin \<Rightarrow> json_stream \<Rightarrow> 'r plugin" where
  "ld_send p js = p\<lparr>js_arr := js_arr p @ [outbuf js]\<rparr>"

definition ld_rpc_send :: "'r plugin \<Rightarrow> json_stream \<Rightarrow> 'r plugin" where
  "ld_rpc_send p js = p\<lparr>rpc_js_arr := rpc_js_arr p @ [outbuf js]\<rparr>"

text \<open>\<open>json_object_compat_end\<close> (without \<open>COMPAT_V070\<close>) and \<open>json_stream_close\<close>.\<close>

definition json_object_compat_end :: "json_stream \<Rightarrow> json_stream run" where
  "json_object_compat_end js = json_object_end js"

definition json_stream_close :: "json_stream \<Rightarrow> json_stream run" where
  "json_stream_close js = json_stream_double_cr js"

definition jsonrpc_request_start :: "'r plugin \<Rightarrow> string \<Rightarrow> 'r \<Rightarrow> (json_stream \<times> 'r plugin) run" where
  "jsonrpc_request_start p meth cb = do {
     let rid = next_outreq_id p;
     let p' = p\<lparr>next_outreq_id := rid + 1, out_reqs := snd (intmap_add (out_reqs p) rid cb)\<rparr>;
     js \<leftarrow> json_object_start new_json_stream None;
     let js = json_add_string js (Some ''jsonrpc'') ''2.0'';
     let js = json_add_u64 js (Some ''id'') rid;
     let js = json_add_string js (Some ''method'') meth;
     js \<leftarrow> json_object_start js (Some ''params'');
     Some (js, p') }"

definition send_outreq :: "'r plugin \<Rightarrow> json_stream \<Rightarrow> (command_result \<times> 'r plugin) run" where
  "send_outreq p js = do {
     js \<leftarrow> json_object_end js;
     js \<leftarrow> json_object_compat_end js;
     js \<leftarrow> json_stream_close js;
     Some (PENDING, ld_rpc_send p js) }"

definition jsonrpc_finish_and_send :: "'r plugin \<Rightarrow> json_stream \<Rightarrow> 'r plugin run" where
  "jsonrpc_finish_and_send p js = do {
     js \<leftarrow> json_object_compat_end js;
     js \<leftarrow> json_stream_close js;
     Some (ld_send p js) }"

definition jsonrpc_stream_start :: "command \<Rightarrow> json_stream run" where
  "jsonrpc_stream_start cmd = do {
     js \<leftarrow> json_object_start new_json_stream None;
     let js = json_add_string js (Some ''jsonrpc'') ''2.0'';
     cid \<leftarrow> cmd_id cmd;
     Some (json_add_u64 js (Some ''id'') cid) }"

definition jsonrpc_stream_success :: "command \<Rightarrow> json_stream run" where
  "jsonrpc_stream_success cmd = do {
     js \<leftarrow> jsonrpc_stream_start cmd;
     json_object_start js (Some ''result'') }"

definition command_complete :: "'r plugin \<Rightarrow> command \<Rightarrow> json_stream \<Rightarrow> (command_result \<times> 'r plugin) run" where
  "command_complete p cmd result = do {
     js \<leftarrow> json_object_compat_end result;
     js \<leftarrow> json_stream_close js;
     Some (COMPLETE, ld_send p js) }"

definition command_finished :: "'r plugin \<Rightarrow> command \<Rightarrow> json_stream \<Rightarrow> (command_result \<times> 'r plugin) run" where
  "command_finished p cmd response = do {
     js \<leftarrow> json_object_end response;
     command_complete p cmd js }"

definition json_out_obj :: "string option \<Rightarrow> string option \<Rightarrow> json_out run" where
  "json_out_obj fieldname str = do {
     j \<leftarrow> json_out_start json_out_new None (CHR ''{'');
     let j = (case str of None \<Rightarrow> j | Some s \<Rightarrow> json_out_addstr j fieldname s);
     j \<leftarrow> json_out_end j (CHR ''}'');
     Some (json_out_finished j) }"

definition command_success :: "'r plugin \<Rightarrow> command \<Rightarrow> json_out \<Rightarrow> (command_result \<times> 'r plugin) run" where
  "command_success p cmd result = do {
     js \<leftarrow> jsonrpc_stream_start cmd;
     let (js, _) = json_out_add_splice js (Some ''result'') result;
     command_complete p cmd js }"

definition command_done_err :: "'r plugin \<Rightarrow> command \<Rightarrow> u32 \<Rightarrow> string \<Rightarrow> json_out option \<Rightarrow> (command_result \<times> 'r plugin) run" where
  "command_done_err p cmd code errmsg data = do {
     js \<leftarrow> jsonrpc_stream_start cmd;
     js \<leftarrow> json_object_start js (Some ''error'');
     let js = json_add_errcode js (Some ''code'') code;
     let js = json_add_string js (Some ''message'') errmsg;
     let js = (case data of None \<Rightarrow> js | Some d \<Rightarrow> fst (json_out_add_splice js (Some ''data'') d));
     js \<leftarrow> json_object_end js;
     command_complete p cmd js }"

text \<open>\<open>command_fail\<close> after formatting its message.\<close>

definition command_fail :: "'r plugin \<Rightarrow> command \<Rightarrow> u32 \<Rightarrow> string \<Rightarrow> (command_result \<times> 'r plugin) run" where
  "command_fail p cmd code msg = command_done_err p cmd code msg None"

definition command_param_failed :: command_result where
  "command_param_failed = COMPLETE"

definition command_still_pending :: command_result where
  "command_still_pending = PENDING"

definition notification_handled :: "'r plugin \<Rightarrow> command_result \<times> 'r plugin" where
  "notification_handled p = (COMPLETE, p)"

definition level_name :: "log_level \<Rightarrow> string" where
  "level_name l =
     (if l = LOG_DBG then ''debug'' else if l = LOG_INFORM then ''info''
      else if l = LOG_UNUSUAL then ''warn'' else ''error'')"

definition plugin_log :: "'r plugin \<Rightarrow> log_level \<Rightarrow> string \<Rightarrow> 'r plugin run" where
  "plugin_log p l msg = do {
     js \<leftarrow> json_object_start new_json_stream None;
     let js = json_add_string js (Some ''jsonrpc'') ''2.0'';
     let js = json_add_string js (Some ''method'') ''log'';
     js \<leftarrow> json_object_start js (Some ''params'');
     let js = json_add_string js (Some ''level'') (level_name l);
     let js = json_out_addv js (Some ''message'') True msg;
     js \<leftarrow> json_object_end js;
     jsonrpc_finish_and_send p js }"

definition plugin_notification_start :: "string \<Rightarrow> json_stream run" where
  "plugin_notification_start meth = do {
     js \<leftarrow> json_object_start new_json_stream None;
     let js = json_add_string js (Some ''jsonrpc'') ''2.0'';
     let js = json_add_string js (Some ''method'') meth;
     json_object_start js (Some ''params'') }"

definition plugin_notification_end :: "'r plugin \<Rightarrow> json_stream \<Rightarrow> 'r plugin run" where
  "plugin_notification_end p js = do {
     js \<leftarrow> json_object_end js;
     jsonrpc_finish_and_send p js }"

text \<open>
  \<open>handle_rpc_reply\<close>: the reply to an outgoing request is handed to its callback, as an error
  or as a result; a reply without an ID is ignored. \<open>plugin_err\<close> ends the process.
\<close>

datatype rpc_reply = ReplyIgnored | ReplyError tokptr | ReplyResult tokptr

definition handle_rpc_reply :: "'r plugin \<Rightarrow> bool \<Rightarrow> string \<Rightarrow> tokptr \<Rightarrow> (rpc_reply \<times> 'r option \<times> 'r plugin) run" where
  "handle_rpc_reply p erange buf toks = do {
     idtok \<leftarrow> json_get_member buf toks ''id'';
     case idtok of
       None \<Rightarrow> Some (ReplyIgnored, None, p)
     | Some it \<Rightarrow> do {
         t \<leftarrow> deref it;
         rid \<leftarrow> json_to_u64 erange buf t;
         case rid of
           None \<Rightarrow> None
         | Some n \<Rightarrow>
             (case intmap_get (out_reqs p) n of
                None \<Rightarrow> None
              | Some out \<Rightarrow> do {
                  let p' = p\<lparr>out_reqs := snd (intmap_del (out_reqs p) n)\<rparr>;
                  err \<leftarrow> json_get_member buf toks ''error'';
                  case err of
                    Some c \<Rightarrow> Some (ReplyError c, Some out, p')
                  | None \<Rightarrow> do {
                      res \<leftarrow> json_get_member buf toks ''result'';
                      case res of None \<Rightarrow> None | Some c \<Rightarrow> Some (ReplyResult c, Some out, p') } }) } }"

subsection \<open>The messages\<close>

text \<open>The text that is queued for a JSON-RPC object with given members.\<close>

definition message :: "(string \<times> cst) list \<Rightarrow> string" where
  "message ms = text_of (mk_obj ms) @ [LF, LF]"

abbreviation VERSION :: "string \<times> cst" where
  "VERSION \<equiv> (''jsonrpc'', CStr ''2.0'')"

definition start_obj :: "json_stream \<Rightarrow> string option \<Rightarrow> json_stream" where
  "start_obj js f = (json_out_member_direct js f ''{'')\<lparr>jout_empty := True\<rparr>"

definition add_members :: "(string \<times> cst) list \<Rightarrow> json_stream \<Rightarrow> json_stream" where
  "add_members ms js = fold (\<lambda>(k, c). add_value (Some k) c) ms js"

lemma add_members_append: "add_members b (add_members a js) = add_members (a @ b) js"
  by (simp add: add_members_def)

lemma add_members_single: "add_value (Some k) c js = add_members [(k, c)] js"
  by (simp add: add_members_def)

lemma add_value_members: "add_value (Some k) c (add_members ms js) = add_members (ms @ [(k, c)]) js"
  by (simp add: add_members_def)

lemma end_members: "json_object_end (add_members ms (start_obj js f)) = Some (add_value f (mk_obj ms) js)"
  using write_object [of ms js f] by (simp add: add_members_def start_obj_def)

lemma start_obj_eq: "json_object_start js f = Some (start_obj js f)"
  by (simp add: json_object_start_eq start_obj_def)

lemma CString_plain: "\<not> json_escape_needed s \<Longrightarrow> CString s = CStr s"
  by (simp add: CString_def json_escape_not_needed)

lemma json_add_u64_eq: "json_add_u64 js f v = add_value f (CPrim (dec_of_nat (unat v))) js"
  by (simp add: json_add_u64_def json_add_member_def json_out_addv_def json_out_direct_def add_value_def
      json_out_member_direct_def)

lemma json_add_version: "json_add_string js (Some ''jsonrpc'') ''2.0'' = add_value (Some ''jsonrpc'') (CStr ''2.0'') js"
  by (simp add: json_add_string_eq CString_plain json_escape_needed_def escape_control_def)

lemma finish_message:
  "json_stream_close (add_value None (mk_obj ms) new_json_stream) =
     Some \<lparr>jout_empty = True, outbuf = message ms\<rparr>"
proof -
  let ?t = "text_of (mk_obj ms)"
  have t: "?t = (CHR ''{'' # text_ms (mk_ms True ms)) @ [CHR ''}'']" by (simp add: mk_obj_def)
  have "length ?t \<ge> 2" "?t ! (length ?t - 1) = CHR ''}''"
    unfolding t by (simp_all add: nth_append)
  then show ?thesis
    by (simp add: json_stream_close_def json_stream_double_cr_def add_value_new json_out_finished_def
        json_stream_append_def json_out_direct_def message_def Let_def)
qed

lemma jsonrpc_finish_and_send_message:
  "jsonrpc_finish_and_send p (add_members ms (start_obj new_json_stream None)) =
     Some (p\<lparr>js_arr := js_arr p @ [message ms]\<rparr>)"
  by (simp add: jsonrpc_finish_and_send_def json_object_compat_end_def end_members finish_message ld_send_def)

definition reply :: "u64 \<Rightarrow> string \<times> cst \<Rightarrow> string" where
  "reply rid m = message [VERSION, (''id'', CPrim (dec_of_nat (unat rid))), m]"

lemma jsonrpc_stream_start_eq:
  "cmd_id cmd = Some rid \<Longrightarrow> jsonrpc_stream_start cmd =
     Some (add_members [VERSION, (''id'', CPrim (dec_of_nat (unat rid)))] (start_obj new_json_stream None))"
  by (simp add: jsonrpc_stream_start_def start_obj_eq json_add_version json_add_u64_eq add_members_def)

lemma command_complete_reply:
  "command_complete p cmd (add_members [VERSION, (''id'', CPrim (dec_of_nat (unat rid))), m] (start_obj new_json_stream None)) =
     Some (COMPLETE, p\<lparr>js_arr := js_arr p @ [reply rid m]\<rparr>)"
  by (simp add: command_complete_def json_object_compat_end_def end_members finish_message ld_send_def reply_def)

lemma json_out_obj_empty: "json_out_obj None None = Some \<lparr>jout_empty = True, outbuf = text_of (mk_obj [])\<rparr>"
  by (simp add: json_out_obj_def json_out_start_def json_out_end_def json_out_new_def json_out_member_direct_def
      field_prefix_def json_out_direct_def json_out_finished_def mk_obj_def)

lemma command_success_empty:
  assumes "cmd_id cmd = Some rid"
  shows "(do { obj \<leftarrow> json_out_obj None None; command_success p cmd obj }) =
    Some (COMPLETE, p\<lparr>js_arr := js_arr p @ [reply rid (''result'', mk_obj [])]\<rparr>)"
proof -
  have "json_out_add_splice js (Some ''result'') \<lparr>jout_empty = True, outbuf = text_of (mk_obj [])\<rparr> =
      (add_value (Some ''result'') (mk_obj []) js, True)" for js
    by (simp add: json_out_add_splice_def json_out_contents_def add_value_def mk_obj_def)
  then show ?thesis
    using command_complete_reply [of p cmd rid "(''result'', mk_obj [])"]
    by (simp add: json_out_obj_empty command_success_def jsonrpc_stream_start_eq [OF assms] add_value_members)
qed

lemma command_finished_reply:
  "command_finished p cmd (add_members ms (start_obj
      (add_members [VERSION, (''id'', CPrim (dec_of_nat (unat rid)))] (start_obj new_json_stream None)) (Some ''result''))) =
     Some (COMPLETE, p\<lparr>js_arr := js_arr p @ [reply rid (''result'', mk_obj ms)]\<rparr>)"
  using command_complete_reply [of p cmd rid "(''result'', mk_obj ms)"]
  by (simp add: command_finished_def end_members add_value_members)

lemma tal_strndup_cut: "json_add_string js f s = add_value f (CString (tal_strndup s)) js"
  using json_add_string_eq [of "tal_strndup s" js f] by (simp add: json_add_string_def json_add_stringn_def)

text \<open>The reply of a command that fails.\<close>

definition error_reply :: "u64 \<Rightarrow> u32 \<Rightarrow> string \<Rightarrow> string" where
  "error_reply rid code msg =
     reply rid (''error'', mk_obj [(''code'', CPrim (dec_of_int (sint code))), (''message'', CString msg)])"

lemma command_fail_reply:
  assumes "cmd_id cmd = Some rid"
  shows "command_fail p cmd code msg =
    Some (COMPLETE, p\<lparr>js_arr := js_arr p @ [error_reply rid code (tal_strndup msg)]\<rparr>)"
  using command_complete_reply [of p cmd rid
      "(''error'', mk_obj [(''code'', CPrim (dec_of_int (sint code))), (''message'', CString (tal_strndup msg))])"] assms
  by (simp add: command_fail_def command_done_err_def jsonrpc_stream_start_eq start_obj_eq json_add_errcode_eq
      tal_strndup_cut add_members_single add_members_append end_members [of _ _ "Some _"] error_reply_def)

lemma denotes_full_str: "denotes buf ts c \<Longrightarrow> full_str buf ts = Some (tal_strndup (text_of c))"
  using denotes_deref [of buf ts c] denotes_full_text by (fastforce simp: full_str_def)

end
