(* ===== verification/Json_Scan.thy ===== *)
theory Json_Scan
  imports Json_Out
begin

text \<open>
  \<open>json_scan\<close> of \<open>common/json.c\<close>: extracting values from a token tree by a guide string such
  as \<open>{error:{message:%}}\<close>. The variable arguments are a list of formatters, each a name and
  a function from a token to a value; the values stored through the argument pointers are
  collected in order. An assertion on the guide is a fault. The functions call each other
  recursively; \<open>json_scan\<close> bounds the depth of the calls by the length of the guide.
\<close>

type_synonym 'v fmt = "string \<times> (string \<Rightarrow> tokptr \<Rightarrow> 'v option run)"

record 'v scan =
  guide :: string
  fmts :: "'v fmt list"
  outs :: "'v list"

text \<open>Success (\<open>None\<close>) or an error message, and the state.\<close>

type_synonym 'v scan_res = "(string option \<times> 'v scan) run"

definition handle_percent :: "string \<Rightarrow> tokptr \<Rightarrow> 'v scan \<Rightarrow> 'v scan_res" where
  "handle_percent buf tok st =
     (case fmts st of
        [] \<Rightarrow> None
      | (fmtname, fmt) # fs \<Rightarrow> do {
          r \<leftarrow> fmt buf tok;
          case r of
            Some v \<Rightarrow> Some (None, st\<lparr>fmts := fs, outs := outs st @ [v]\<rparr>)
          | None \<Rightarrow> do {
              t \<leftarrow> deref tok;
              s \<leftarrow> full_text buf t;
              Some (Some (fmtname @ '' could not parse '' @ s), st\<lparr>fmts := fs\<rparr>) } })"

definition literal_char :: "char \<Rightarrow> bool" where
  "literal_char c \<longleftrightarrow> (let b = (of_char c :: nat) in
     65 \<le> b \<and> b \<le> 90 \<or> 97 \<le> b \<and> b \<le> 122 \<or> 48 \<le> b \<and> b \<le> 57 \<or> c = CHR ''_'' \<or> c = CHR ''-'')"

definition parse_literal :: "string \<Rightarrow> string \<times> string" where
  "parse_literal g = (takeWhile literal_char g, dropWhile literal_char g)"

text \<open>\<open>strtol(guide, &endp, 10)\<close> with its assertions: at least one digit, and a \<open>u32\<close>.\<close>

definition parse_number :: "string \<Rightarrow> (u32 \<times> string) run" where
  "parse_number g = (
     let g1 = dropWhile c_isspace g;
         (neg, g2) = (case g1 of c # cs \<Rightarrow> if c = CHR ''-'' then (True, cs)
                        else if c = CHR ''+'' then (False, cs) else (False, g1) | [] \<Rightarrow> (False, []));
         ds = takeWhile cisdigit g2;
         v = foldl (\<lambda>n c. n * 10 + (of_char c - 48)) (0 :: nat) ds;
         l = (if neg then - int v else int v)
     in do {
     c_assert (ds \<noteq> []);
     c_assert (0 \<le> l \<and> l < 2 ^ 32);
     Some (of_int l, dropWhile cisdigit g2) })"

definition guide_peek :: "string \<Rightarrow> char" where
  "guide_peek g = (case g of [] \<Rightarrow> NUL | c # _ \<Rightarrow> c)"

definition guide_consume_one :: "string \<Rightarrow> (char \<times> string) run" where
  "guide_consume_one g = (case g of [] \<Rightarrow> None | c # g' \<Rightarrow> Some (c, g'))"

definition guide_must_be :: "string \<Rightarrow> char \<Rightarrow> string run" where
  "guide_must_be g c = do { (actual, g') \<leftarrow> guide_consume_one g; c_assert (actual = c); Some g' }"

definition mem_eq :: "string \<Rightarrow> jsmntok \<Rightarrow> string \<Rightarrow> bool run" where
  "mem_eq buf t str =
     (if tok_end t - tok_start t \<noteq> int (length str) then Some False
      else do { s \<leftarrow> slice buf (tok_start t) (tok_end t); Some (s = str) })"

text \<open>
  The seven mutually recursive functions. Each takes the recursive calls as an argument
  \<open>call\<close>; \<open>scan_call\<close> ties the knot.
\<close>

datatype scan_fun = FIELDVAL | FIELD | FIELDLIST | OBJ | ARRELEM | ARRLIST | ARR

type_synonym 'v scanner = "string \<Rightarrow> tokptr \<Rightarrow> 'v scan \<Rightarrow> 'v scan_res"

definition parse_fieldval :: "(scan_fun \<Rightarrow> 'v scanner) \<Rightarrow> 'v scanner" where
  "parse_fieldval call buf tok st =
     (if guide_peek (guide st) = CHR ''{'' then call OBJ buf tok st
      else if guide_peek (guide st) = CHR ''['' then call ARR buf tok st
      else if guide_peek (guide st) = CHR ''%'' then do {
        (_, g) \<leftarrow> guide_consume_one (guide st);
        handle_percent buf tok (st\<lparr>guide := g\<rparr>) }
      else do {
        let (literal, g) = parse_literal (guide st);
        t \<leftarrow> deref tok;
        eq \<leftarrow> mem_eq buf t literal;
        if eq then Some (None, st\<lparr>guide := g\<rparr>)
        else do {
          s \<leftarrow> full_text buf t;
          Some (Some (s @ '' does not match expected '' @ literal), st\<lparr>guide := g\<rparr>) } })"

definition parse_field :: "(scan_fun \<Rightarrow> 'v scanner) \<Rightarrow> 'v scanner" where
  "parse_field call buf tok st = do {
     let (memname, g) = parse_literal (guide st);
     g' \<leftarrow> guide_must_be g (CHR '':'');
     member \<leftarrow> json_get_membern buf tok memname;
     case member of
       None \<Rightarrow> Some (Some (''object does not have member '' @ memname), st\<lparr>guide := g'\<rparr>)
     | Some m \<Rightarrow> call FIELDVAL buf m (st\<lparr>guide := g'\<rparr>) }"

definition parse_fieldlist :: "(scan_fun \<Rightarrow> 'v scanner) \<Rightarrow> 'v scanner" where
  "parse_fieldlist call buf tok st = do {
     (err, st') \<leftarrow> call FIELD buf tok st;
     if err \<noteq> None then Some (err, st')
     else if guide_peek (guide st') \<noteq> CHR '','' then Some (None, st')
     else do {
       (_, g) \<leftarrow> guide_consume_one (guide st');
       call FIELDLIST buf tok (st'\<lparr>guide := g\<rparr>) } }"

definition parse_obj :: "(scan_fun \<Rightarrow> 'v scanner) \<Rightarrow> 'v scanner" where
  "parse_obj call buf tok st = do {
     g \<leftarrow> guide_must_be (guide st) (CHR ''{'');
     t \<leftarrow> deref tok;
     if tok_type t \<noteq> JSMN_OBJECT then do {
       s \<leftarrow> full_text buf t;
       Some (Some (''token is not an object: '' @ s), st\<lparr>guide := g\<rparr>) }
     else do {
       (err, st') \<leftarrow> call FIELDLIST buf tok (st\<lparr>guide := g\<rparr>);
       if err \<noteq> None then Some (err, st')
       else do { g' \<leftarrow> guide_must_be (guide st') (CHR ''}''); Some (None, st'\<lparr>guide := g'\<rparr>) } } }"

definition parse_arrelem :: "(scan_fun \<Rightarrow> 'v scanner) \<Rightarrow> 'v scanner" where
  "parse_arrelem call buf tok st = do {
     (idx, g) \<leftarrow> parse_number (guide st);
     g' \<leftarrow> guide_must_be g (CHR '':'');
     member \<leftarrow> json_get_arr tok (unat idx);
     case member of
       None \<Rightarrow> do {
         t \<leftarrow> deref tok;
         s \<leftarrow> full_text buf t;
         Some (Some (''token has no index '' @ dec_of_nat (unat idx) @ '': '' @ s), st\<lparr>guide := g'\<rparr>) }
     | Some m \<Rightarrow> call FIELDVAL buf m (st\<lparr>guide := g'\<rparr>) }"

definition parse_arrlist :: "(scan_fun \<Rightarrow> 'v scanner) \<Rightarrow> 'v scanner" where
  "parse_arrlist call buf tok st = do {
     (err, st') \<leftarrow> call ARRELEM buf tok st;
     if err \<noteq> None then Some (err, st')
     else if guide_peek (guide st') \<noteq> CHR '','' then Some (None, st')
     else do {
       (_, g) \<leftarrow> guide_consume_one (guide st');
       call ARRLIST buf tok (st'\<lparr>guide := g\<rparr>) } }"

definition parse_arr :: "(scan_fun \<Rightarrow> 'v scanner) \<Rightarrow> 'v scanner" where
  "parse_arr call buf tok st = do {
     g \<leftarrow> guide_must_be (guide st) (CHR ''['');
     t \<leftarrow> deref tok;
     if tok_type t \<noteq> JSMN_ARRAY then do {
       s \<leftarrow> full_text buf t;
       Some (Some (''token is not an array: '' @ s), st\<lparr>guide := g\<rparr>) }
     else do {
       (err, st') \<leftarrow> call ARRLIST buf tok (st\<lparr>guide := g\<rparr>);
       if err \<noteq> None then Some (err, st')
       else do { g' \<leftarrow> guide_must_be (guide st') (CHR '']''); Some (None, st'\<lparr>guide := g'\<rparr>) } } }"

primrec scan_call :: "nat \<Rightarrow> scan_fun \<Rightarrow> 'v scanner" where
  "scan_call 0 = (\<lambda>f buf tok st. None)"
| "scan_call (Suc n) = (\<lambda>f. case f of
     FIELDVAL \<Rightarrow> parse_fieldval (scan_call n) | FIELD \<Rightarrow> parse_field (scan_call n)
   | FIELDLIST \<Rightarrow> parse_fieldlist (scan_call n) | OBJ \<Rightarrow> parse_obj (scan_call n)
   | ARRELEM \<Rightarrow> parse_arrelem (scan_call n) | ARRLIST \<Rightarrow> parse_arrlist (scan_call n)
   | ARR \<Rightarrow> parse_arr (scan_call n))"

definition parse_guide :: "(scan_fun \<Rightarrow> 'v scanner) \<Rightarrow> 'v scanner" where
  "parse_guide call buf tok st =
     (if guide_peek (guide st) = CHR ''{'' then call OBJ buf tok st
      else if guide_peek (guide st) = CHR ''['' then call ARR buf tok st
      else do {
        g \<leftarrow> guide_must_be (guide st) (CHR ''%'');
        handle_percent buf tok (st\<lparr>guide := g\<rparr>) })"

text \<open>
  \<open>json_scan\<close>: the values, or the error message. Every nesting level and every field takes
  at least one character of the guide and at most four calls.
\<close>

definition json_scan :: "string \<Rightarrow> tokptr \<Rightarrow> string \<Rightarrow> 'v fmt list \<Rightarrow> (string + 'v list) run" where
  "json_scan buf tok orig_guide ap = do {
     (err, st) \<leftarrow> parse_guide (scan_call (4 * length orig_guide + 4)) buf tok \<lparr>guide = orig_guide, fmts = ap, outs = []\<rparr>;
     case err of
       Some errmsg \<Rightarrow>
         Some (Inl (''Parsing '' @ [CHR 0x27]
                 @ take (length orig_guide - length (guide st)) orig_guide @ [CHR 0x27] @ '': '' @ errmsg))
     | None \<Rightarrow> do { c_assert (guide st = []); Some (Inr (outs st)) } }"

subsection \<open>Scanning along a path\<close>

text \<open>
  The guides of the program are paths of member names. \<open>path_get\<close> is what such a guide means
  on the layout tree.
\<close>

fun path_guide :: "string list \<Rightarrow> string" where
  "path_guide [] = ''%''"
| "path_guide (k # ks) = CHR ''{'' # k @ CHR '':'' # path_guide ks @ [CHR ''}'']"

fun path_get :: "cst \<Rightarrow> string list \<Rightarrow> cst option" where
  "path_get c [] = Some c"
| "path_get (CObj ms w) (k # ks) =
     (case map_of (ms_list ms) k of None \<Rightarrow> None | Some c \<Rightarrow> path_get c ks)"
| "path_get c (k # ks) = None"

lemma literal_char_simps:
  "\<not> literal_char (CHR '':'')" "\<not> literal_char (CHR ''{'')" "\<not> literal_char (CHR ''%'')"
  by (simp_all add: literal_char_def)

lemma takeWhile_literal: "list_all literal_char k \<Longrightarrow> parse_literal (k @ CHR '':'' # g) = (k, CHR '':'' # g)"
  by (induction k) (auto simp: parse_literal_def literal_char_simps)

lemma guide_must_be_hit [simp]: "guide_must_be (c # g) c = Some g"
  by (simp add: guide_must_be_def guide_consume_one_def)

lemma guide_peek_Cons [simp]: "guide_peek (c # g) = c"
  by (simp add: guide_peek_def)

lemma path_guide_peek: "guide_peek (path_guide ks @ g) = (if ks = [] then CHR ''%'' else CHR ''{'')"
  by (cases ks) simp_all

definition pct_result ::
  "string \<Rightarrow> (string \<Rightarrow> tokptr \<Rightarrow> 'v option run) \<Rightarrow> string \<Rightarrow> tokptr \<Rightarrow> cst \<Rightarrow> string \<Rightarrow> string \<Rightarrow> 'v scan_res" where
  "pct_result name f buf ts c gerr gok =
     (case f buf ts of
        None \<Rightarrow> None
      | Some (Some v) \<Rightarrow> Some (None, \<lparr>guide = gok, fmts = [], outs = [v]\<rparr>)
      | Some None \<Rightarrow> Some (Some (name @ '' could not parse '' @ text_of c), \<lparr>guide = gerr, fmts = [], outs = []\<rparr>))"

definition scan_outcome ::
  "'v scan_res \<Rightarrow> string \<Rightarrow> (string \<Rightarrow> tokptr \<Rightarrow> 'v option run) \<Rightarrow> string \<Rightarrow> tokptr \<Rightarrow> cst \<Rightarrow>
   string list \<Rightarrow> string \<Rightarrow> string \<Rightarrow> bool" where
  "scan_outcome res name f buf ts c ks gerr gok \<longleftrightarrow>
     (case path_get c ks of
        None \<Rightarrow> \<exists>err st'. res = Some (Some err, st')
      | Some c' \<Rightarrow> \<exists>ts'. (if ks = [] then ts' = ts else inner buf ts' c') \<and>
          res = pct_result name f buf ts' c' gerr gok)"

lemma handle_percent_one:
  assumes "denotes buf ts c"
  shows "handle_percent buf ts \<lparr>guide = g, fmts = [(name, f)], outs = []\<rparr> = pct_result name f buf ts c g g"
proof -
  obtain t us where ts: "ts = t # us" using denotes_deref [OF assms] by blast
  have "full_text buf t = Some (text_of c)" using denotes_full_text assms ts by blast
  then show ?thesis by (auto simp: handle_percent_def pct_result_def ts split: option.splits)
qed

lemma scan_outcome_close:
  assumes "scan_outcome res name f buf ts c ks gerr (CHR ''}'' # g)" "inner buf ts c"
    "path_get c0 (k # ks) = path_get c ks"
  shows "scan_outcome (do { (err, st') \<leftarrow> res;
      if err \<noteq> None then Some (err, st')
      else do { g' \<leftarrow> guide_must_be (guide st') (CHR ''}''); Some (None, st'\<lparr>guide := g'\<rparr>) } })
    name f buf ts0 c0 (k # ks) gerr g"
proof (cases "path_get c ks")
  case None
  with assms(1,3) show ?thesis by (auto simp: scan_outcome_def)
next
  case (Some c')
  obtain ts' where i: "inner buf ts' c'" and res: "res = pct_result name f buf ts' c' gerr (CHR ''}'' # g)"
    using assms(1,2) Some by (cases "ks = []") (auto simp: scan_outcome_def)
  have "(do { (err, st') \<leftarrow> res;
      if err \<noteq> None then Some (err, st')
      else do { g' \<leftarrow> guide_must_be (guide st') (CHR ''}''); Some (None, st'\<lparr>guide := g'\<rparr>) } }) =
      pct_result name f buf ts' c' gerr g"
    unfolding res pct_result_def by (cases "f buf ts'") (auto split: option.splits)
  then show ?thesis
    using i Some assms(3) by (auto simp: scan_outcome_def)
qed

text \<open>The list of fields ends after the only one.\<close>

lemma scan_outcome_last:
  assumes "scan_outcome res name f buf ts c ks gerr (CHR ''}'' # g)"
  shows "(do { (err, st') \<leftarrow> res;
     if err \<noteq> None then Some (err, st')
     else if guide_peek (guide st') \<noteq> CHR '','' then Some (None, st')
     else do { (_, g) \<leftarrow> guide_consume_one (guide st'); h (st'\<lparr>guide := g\<rparr>) } }) = res"
proof (cases "path_get c ks")
  case None
  with assms show ?thesis by (auto simp: scan_outcome_def)
next
  case (Some c')
  then obtain ts' where "res = pct_result name f buf ts' c' gerr (CHR ''}'' # g)"
    using assms by (auto simp: scan_outcome_def)
  then show ?thesis by (cases "f buf ts'") (auto simp: pct_result_def split: option.splits)
qed

lemma scan_call_FIELDLIST: "scan_call (Suc n) FIELDLIST = parse_fieldlist (scan_call n)"
  by simp

lemma scan_path:
  assumes "list_all (list_all literal_char) ks" "denotes buf ts c" "4 * length ks < n" "guide_peek g \<noteq> CHR '',''"
  shows "scan_outcome (scan_call n FIELDVAL buf ts \<lparr>guide = path_guide ks @ g, fmts = [(name, f)], outs = []\<rparr>)
    name f buf ts c ks (replicate (length ks) (CHR ''}'') @ g) g"
  using assms
proof (induction ks arbitrary: ts c n g)
  case Nil
  then obtain m where n: "n = Suc m" by (cases n) auto
  show ?case
    using Nil handle_percent_one [OF Nil(2), of g name f]
    by (auto simp: n parse_fieldval_def guide_consume_one_def scan_outcome_def)
next
  case (Cons k ks)
  define m where "m = n - 4"
  have n: "n = Suc (Suc (Suc (Suc m)))" "4 * length ks < m" using Cons.prems(3) by (simp_all add: m_def)
  obtain t us where ts: "ts = t # us" using denotes_deref [OF Cons.prems(2)] by blast
  then have ty: "tok_type t = type_of_cst c" using denotes_type Cons.prems(2) by blast
  let ?st = "\<lparr>guide = path_guide (k # ks) @ g, fmts = [(name, f)], outs = []\<rparr>"
  have lit: "parse_literal (k @ CHR '':'' # path_guide ks @ CHR ''}'' # g) = (k, CHR '':'' # path_guide ks @ CHR ''}'' # g)"
    using Cons.prems(1) by (simp add: takeWhile_literal)
  have full: "full_text buf t = Some (text_of c)" using denotes_full_text Cons.prems(2) ts by blast
  show ?case
  proof (cases "type_of_cst c = JSMN_OBJECT")
    case False
    then have "path_get c (k # ks) = None" by (cases c) auto
    then show ?thesis
      using False ty full by (simp add: n parse_fieldval_def parse_obj_def ts scan_outcome_def)
  next
    case True
    then obtain ms w where c: "c = CObj ms w" by (cases c) auto
    show ?thesis
    proof (cases "map_of (ms_list ms) k")
      case None
      then have "json_get_membern buf ts k = Some None"
        using json_get_member_denotes [OF Cons.prems(2) [unfolded c], of k] by (simp add: json_get_member_def)
      then show ?thesis
        using None True ty lit
        by (simp add: n c parse_fieldval_def parse_obj_def parse_fieldlist_def parse_field_def ts scan_outcome_def)
    next
      case (Some c1)
      then obtain ts1 where get: "json_get_membern buf ts k = Some (Some ts1)" and i: "inner buf ts1 c1"
        using json_get_member_denotes [OF Cons.prems(2) [unfolded c], of k] by (auto simp: json_get_member_def)
      let ?r = "scan_call m FIELDVAL buf ts1 \<lparr>guide = path_guide ks @ CHR ''}'' # g, fmts = [(name, f)], outs = []\<rparr>"
      have IH: "scan_outcome ?r name f buf ts1 c1 ks (replicate (length ks) (CHR ''}'') @ CHR ''}'' # g) (CHR ''}'' # g)"
        using Cons.prems n inner_denotes [OF i] by (intro Cons.IH) auto
      have "scan_call n FIELDVAL buf ts ?st = (do { (err, st') \<leftarrow> ?r;
          if err \<noteq> None then Some (err, st')
          else do { g' \<leftarrow> guide_must_be (guide st') (CHR ''}''); Some (None, st'\<lparr>guide := g'\<rparr>) } })"
      proof -
        let ?st1 = "\<lparr>guide = k @ CHR '':'' # path_guide ks @ CHR ''}'' # g, fmts = [(name, f)], outs = []\<rparr>"
        have "scan_call (Suc m) FIELD buf ts ?st1 = ?r"
          using get lit by (simp add: parse_field_def)
        then have "scan_call (Suc (Suc m)) FIELDLIST buf ts ?st1 = ?r"
          using scan_outcome_last [OF IH, of "scan_call (Suc m) FIELDLIST buf ts"]
          by (simp only: scan_call_FIELDLIST [of "Suc m"] parse_fieldlist_def)
        then show ?thesis
          using True ty by (simp add: n parse_fieldval_def parse_obj_def ts del: scan_call.simps(2))
            (simp add: parse_fieldval_def parse_obj_def)
      qed
      moreover have "replicate (length ks) (CHR ''}'') @ CHR ''}'' # g = replicate (length (k # ks)) (CHR ''}'') @ g"
        by (simp add: replicate_app_Cons_same)
      moreover have "path_get c (k # ks) = path_get c1 ks" using Some by (simp add: c)
      ultimately show ?thesis
        using scan_outcome_close [OF IH i, of c k ts] by metis
    qed
  qed
qed

text \<open>
  A path guide applies its formatter to the value at the path, and fails with a message when
  there is none or when the formatter rejects it; it never faults on its own.
\<close>

lemma length_path_guide: "3 * length ks < length (path_guide ks)"
  by (induction ks) auto

lemma json_scan_path:
  assumes "list_all (list_all literal_char) ks" "ks \<noteq> []" "denotes buf ts c"
  shows "case path_get c ks of
      None \<Rightarrow> \<exists>err. json_scan buf ts (path_guide ks) [(name, f)] = Some (Inl err)
    | Some c' \<Rightarrow> \<exists>ts'. inner buf ts' c' \<and>
        (case f buf ts' of
           None \<Rightarrow> json_scan buf ts (path_guide ks) [(name, f)] = None
         | Some (Some v) \<Rightarrow> json_scan buf ts (path_guide ks) [(name, f)] = Some (Inr [v])
         | Some None \<Rightarrow> \<exists>err. json_scan buf ts (path_guide ks) [(name, f)] = Some (Inl err))"
proof -
  let ?n = "4 * length (path_guide ks) + 4"
  let ?st = "\<lparr>guide = path_guide ks, fmts = [(name, f)], outs = []\<rparr>"
  have peek: "guide_peek (path_guide ks) = CHR ''{''" using assms(2) by (cases ks) auto
  have "scan_outcome (scan_call (Suc ?n) FIELDVAL buf ts ?st) name f buf ts c ks (replicate (length ks) (CHR ''}'')) []"
    using scan_path [OF assms(1,3), of "Suc ?n" "[]" name f] length_path_guide [of ks]
    by (simp add: guide_peek_def del: scan_call.simps)
  moreover have "scan_call (Suc n) FIELDVAL buf ts ?st = parse_guide (scan_call n) buf ts ?st" for n
    using peek by (simp add: parse_fieldval_def parse_guide_def)
  ultimately have out: "scan_outcome (parse_guide (scan_call ?n) buf ts ?st) name f buf ts c ks
      (replicate (length ks) (CHR ''}'')) []" by metis
  show ?thesis
  proof (cases "path_get c ks")
    case None
    with out show ?thesis by (auto simp: scan_outcome_def json_scan_def)
  next
    case (Some c')
    then obtain ts' where i: "inner buf ts' c'"
      and res: "parse_guide (scan_call ?n) buf ts ?st = pct_result name f buf ts' c' (replicate (length ks) (CHR ''}'')) []"
      using out assms(2) by (auto simp: scan_outcome_def)
    then show ?thesis
      using Some by (cases "f buf ts'")
        (auto simp: json_scan_def pct_result_def intro!: exI [of _ ts'] split: option.splits)
  qed
qed

subsection \<open>Guides with several members\<close>

text \<open>A guide that lists members of one object, each with its formatter, gives the values in order when every member is there and can be read.\<close>

fun fields_guide :: "string list \<Rightarrow> string" where
  "fields_guide [] = []"
| "fields_guide [k] = k @ '':%''"
| "fields_guide (k # ks) = k @ '':%,'' @ fields_guide ks"

definition field_reads :: "string \<Rightarrow> tokptr \<Rightarrow> string \<times> 'v fmt \<times> 'v \<Rightarrow> bool" where
  "field_reads buf tok x \<longleftrightarrow> (case x of (k, (name, f), v) \<Rightarrow>
     list_all literal_char k \<and> (\<exists>ts. json_get_membern buf tok k = Some (Some ts) \<and> f buf ts = Some (Some v)))"

lemma scan_field:
  assumes "field_reads buf tok (k, (name, f), v)"
  shows "scan_call (Suc (Suc n)) FIELD buf tok \<lparr>guide = k @ '':%'' @ g, fmts = (name, f) # fs, outs = os\<rparr> =
    Some (None, \<lparr>guide = g, fmts = fs, outs = os @ [v]\<rparr>)"
  using assms takeWhile_literal [of k "CHR ''%'' # g"]
  by (auto simp: field_reads_def parse_field_def parse_fieldval_def handle_percent_def guide_consume_one_def)

lemma scan_fieldlist:
  assumes "list_all (field_reads buf tok) xs" "xs \<noteq> []"
  shows "scan_call (Suc (Suc (n + length xs))) FIELDLIST buf tok
      \<lparr>guide = fields_guide (map fst xs) @ ''}'', fmts = map (fst \<circ> snd) xs, outs = os\<rparr> =
    Some (None, \<lparr>guide = ''}'', fmts = [], outs = os @ map (snd \<circ> snd) xs\<rparr>)"
  using assms
proof (induction xs arbitrary: os)
  case (Cons x xs)
  obtain k name f v where x: "x = (k, (name, f), v)" by (metis prod.exhaust)
  then have r: "field_reads buf tok (k, (name, f), v)" using Cons.prems by simp
  show ?case
  proof (cases xs)
    case Nil
    then show ?thesis using scan_field [OF r, of n "''}''" "[]" os]
      by (simp add: x parse_fieldlist_def del: scan_call.simps) (simp add: parse_fieldlist_def)
  next
    case (Cons y ys)
    then have "scan_call (Suc (Suc (n + length (x # xs)))) FIELDLIST buf tok
        \<lparr>guide = fields_guide (map fst (x # xs)) @ ''}'', fmts = map (fst \<circ> snd) (x # xs), outs = os\<rparr> =
      scan_call (Suc (Suc (n + length xs))) FIELDLIST buf tok
        \<lparr>guide = fields_guide (map fst xs) @ ''}'', fmts = map (fst \<circ> snd) xs, outs = os @ [v]\<rparr>"
      using scan_field [OF r, of "n + length xs" "CHR '','' # fields_guide (map fst xs) @ ''}''" "map (fst \<circ> snd) xs" os]
      by (simp add: x scan_call_FIELDLIST parse_fieldlist_def guide_consume_one_def del: scan_call.simps)
    then show ?thesis using Cons.IH Cons.prems Cons by (simp add: x comp_def del: scan_call.simps)
  qed
qed simp

lemma scan_call_OBJ: "scan_call (Suc n) OBJ = parse_obj (scan_call n)"
  by simp

lemma length_fields_guide: "length ks \<le> length (fields_guide ks)"
  by (induction ks rule: fields_guide.induct) simp_all

lemma json_scan_fields:
  assumes "tok = t # ts" "tok_type t = JSMN_OBJECT" "list_all (field_reads buf tok) xs" "xs \<noteq> []"
  shows "json_scan buf tok (CHR ''{'' # fields_guide (map fst xs) @ ''}'') (map (fst \<circ> snd) xs) = Some (Inr (map (snd \<circ> snd) xs))"
proof -
  let ?g = "fields_guide (map fst xs)"
  obtain n where n: "4 * length (CHR ''{'' # ?g @ ''}'') + 4 = Suc (Suc (Suc (n + length xs)))"
    using length_fields_guide [of "map fst xs"] less_eqE [of "3 + length xs" "4 * length (CHR ''{'' # ?g @ ''}'') + 4"] by fastforce
  have "scan_call (Suc (Suc (Suc (n + length xs)))) OBJ buf tok \<lparr>guide = CHR ''{'' # ?g @ ''}'', fmts = map (fst \<circ> snd) xs, outs = []\<rparr> =
      Some (None, \<lparr>guide = [], fmts = [], outs = map (snd \<circ> snd) xs\<rparr>)"
    using assms(1,2) scan_fieldlist [OF assms(3,4), of n "[]"]
    by (simp add: scan_call_OBJ parse_obj_def c_assert_def del: scan_call.simps)
  then show ?thesis
    unfolding json_scan_def n by (simp add: parse_guide_def c_assert_def del: scan_call.simps)
qed

end
