(* ===== verification/Ecsys.thy ===== *)
theory Ecsys
  imports Setsystems Libplugin Json_Scan
begin

text \<open>
  \<open>plugins/payz/ecs/ecsys.c\<close>: the registered systems and the advancement of an entity. The
  entity-component table is reached through the function pointers \<open>get_component\<close> and
  \<open>set_component\<close>, which are arguments here. \<open>ecsys_advance\<close> ends by calling one of two
  callbacks; it returns which one (\<open>Inl code\<close>: the error callback, \<open>Inr ()\<close>: the normal one).
\<close>

record ecsys_registered =
  reg_system :: string
  requiredComponents :: "string list"
  disallowedComponents :: "string list"

record ecsys =
  system_map :: "ecsys_registered strmap"

definition ecsys_new :: ecsys where
  "ecsys_new = \<lparr>system_map = strmap_init\<rparr>"

definition ecsys_register :: "ecsys \<Rightarrow> string \<Rightarrow> string list option \<Rightarrow> string list option \<Rightarrow> ecsys run" where
  "ecsys_register ecsys sys required disallowed = (
     let reg = \<lparr>reg_system = sys,
                requiredComponents = (case required of None \<Rightarrow> [] | Some r \<Rightarrow> r),
                disallowedComponents = (case disallowed of None \<Rightarrow> [] | Some d \<Rightarrow> d)\<rparr>;
         (added, m) = strmap_add (system_map ecsys) sys reg
     in do {
     c_assert added;
     Some (ecsys\<lparr>system_map := m\<rparr>) })"

definition ecsys_system_exists :: "ecsys \<Rightarrow> string \<Rightarrow> bool" where
  "ecsys_system_exists ecsys sys = (strmap_get (system_map ecsys) sys \<noteq> None)"

definition PAY_ECS_INVALID_SYSTEMS_COMPONENT :: u32 where
  "PAY_ECS_INVALID_SYSTEMS_COMPONENT = 2200"

definition PAY_ECS_NOT_ADVANCEABLE :: u32 where
  "PAY_ECS_NOT_ADVANCEABLE = 2201"

definition ECSYS_SYSTEM_NOTIFICATION :: string where
  "ECSYS_SYSTEM_NOTIFICATION = ''payecs_system_invoke''"

type_synonym 'ec getter = "'ec \<Rightarrow> u32 \<Rightarrow> string \<Rightarrow> bool \<times> string \<times> tokptr"
type_synonym 'ec setter = "'ec \<Rightarrow> u32 \<Rightarrow> string \<Rightarrow> string option \<Rightarrow> tokptr option \<Rightarrow> 'ec run"

definition system_matches :: "'ec getter \<Rightarrow> 'ec \<Rightarrow> u32 \<Rightarrow> ecsys_registered \<Rightarrow> bool" where
  "system_matches get_component ec entity sys =
     (if length (requiredComponents sys) = 0 then False
      else if list_ex (\<lambda>c. \<not> fst (get_component ec entity c)) (requiredComponents sys) then False
      else if list_ex (\<lambda>c. fst (get_component ec entity c)) (disallowedComponents sys) then False
      else True)"

fun add_required :: "'ec getter \<Rightarrow> 'ec \<Rightarrow> u32 \<Rightarrow> string list \<Rightarrow> json_stream \<Rightarrow> json_stream run" where
  "add_required get_component ec entity [] js = Some js"
| "add_required get_component ec entity (c # cs) js = (
     let (_, cmpbuf, cmptok) = get_component ec entity c in do {
     js' \<leftarrow> json_add_tok js (Some c) cmptok cmpbuf;
     add_required get_component ec entity cs js' })"

definition run_system :: "'ec getter \<Rightarrow> 'ec \<Rightarrow> 'r plugin \<Rightarrow> u32 \<Rightarrow> ecsys_registered \<Rightarrow> 'r plugin run" where
  "run_system get_component ec p entity sys = do {
     js \<leftarrow> plugin_notification_start ECSYS_SYSTEM_NOTIFICATION;
     let js = json_add_string js (Some ''system'') (reg_system sys);
     js \<leftarrow> json_object_start js (Some ''entity'');
     let js = json_add_u32 js (Some ''entity'') entity;
     js \<leftarrow> add_required get_component ec entity (requiredComponents sys) js;
     js \<leftarrow> json_object_end js;
     plugin_notification_end p js }"

text \<open>\<open>ecsys_advance_error\<close> up to the call of \<open>errcb\<close>.\<close>

definition ecsys_advance_error :: "'ec getter \<Rightarrow> 'ec setter \<Rightarrow> 'ec \<Rightarrow> u32 \<Rightarrow> u32 \<Rightarrow> string \<Rightarrow> 'ec run" where
  "ecsys_advance_error get_component set_component ec entity code msg = do {
     jout \<leftarrow> json_out_start json_out_new None (CHR ''{'');
     let jout = json_out_addv jout (Some ''code'') False (dec_of_int (sint code));
     let jout = json_out_addv jout (Some ''message'') True msg;
     jout \<leftarrow> json_out_end jout (CHR ''}'');
     let contents = json_out_contents jout;
     toks \<leftarrow> (case contents of None \<Rightarrow> None | Some text \<Rightarrow> json_parse_simple text);
     payz_generic_setsystems_tok get_component set_component ec entity ''error'' contents toks }"

datatype system_search = Unregistered string | Matching nat ecsys_registered | NoMatch

fun search_systems :: "'ec getter \<Rightarrow> 'ec \<Rightarrow> ecsys \<Rightarrow> u32 \<Rightarrow> string list \<Rightarrow> nat \<Rightarrow> system_search" where
  "search_systems get_component ec ecsys entity [] i = NoMatch"
| "search_systems get_component ec ecsys entity (s # ss) i =
     (case strmap_get (system_map ecsys) s of
        None \<Rightarrow> Unregistered s
      | Some sys \<Rightarrow>
          if system_matches get_component ec entity sys then Matching i sys
          else search_systems get_component ec ecsys entity ss (Suc i))"

definition msg_systems_absent :: string where
  "msg_systems_absent = ''Invalid `lightningd:systems`: invalid or absent `systems` field.''"

definition msg_unregistered :: "string \<Rightarrow> string" where
  "msg_unregistered s = ''Invalid `lightningd:systems`: `systems` array contains unregistered system: '' @ s"

definition msg_no_match :: string where
  "msg_no_match = ''No systems match, cannot advance.''"

definition ecsys_advance ::
  "'ec getter \<Rightarrow> 'ec setter \<Rightarrow> 'ec \<Rightarrow> ecsys \<Rightarrow> 'r plugin \<Rightarrow> u32 \<Rightarrow> ((u32 + unit) \<times> 'ec \<times> 'r plugin) run" where
  "ecsys_advance get_component set_component ec ecsys p entity = do {
     found \<leftarrow> payz_generic_getsystems_tal get_component ec entity ''systems'' json_to_array_of_strings;
     case found of
       None \<Rightarrow> do {
         ec' \<leftarrow> ecsys_advance_error get_component set_component ec entity
                  PAY_ECS_INVALID_SYSTEMS_COMPONENT msg_systems_absent;
         Some (Inl PAY_ECS_INVALID_SYSTEMS_COMPONENT, ec', p) }
     | Some systems \<Rightarrow>
         (case search_systems get_component ec ecsys entity systems 0 of
            Unregistered s \<Rightarrow> do {
              ec' \<leftarrow> ecsys_advance_error get_component set_component ec entity
                       PAY_ECS_INVALID_SYSTEMS_COMPONENT (msg_unregistered s);
              Some (Inl PAY_ECS_INVALID_SYSTEMS_COMPONENT, ec', p) }
          | NoMatch \<Rightarrow> do {
              ec' \<leftarrow> ecsys_advance_error get_component set_component ec entity
                       PAY_ECS_NOT_ADVANCEABLE msg_no_match;
              Some (Inl PAY_ECS_NOT_ADVANCEABLE, ec', p) }
          | Matching current sys \<Rightarrow> do {
              let buffer = dec_of_nat current;
              toks \<leftarrow> json_parse_simple buffer;
              ec' \<leftarrow> payz_generic_setsystems_tok get_component set_component ec entity ''current''
                       (Some buffer) toks;
              p' \<leftarrow> run_system get_component ec' p entity sys;
              Some (Inr (), ec', p') }) }"

text \<open>\<open>ecsys_err_wrap\<close>: the error is read back from the table and logged.\<close>

definition scan_strdup :: "string \<Rightarrow> tokptr \<Rightarrow> string option run" where
  "scan_strdup buf ts = do { t \<leftarrow> deref ts; s \<leftarrow> json_strdup buf t; Some (Some s) }"

definition ecsys_err_wrap :: "'ec getter \<Rightarrow> 'ec \<Rightarrow> 'r plugin \<Rightarrow> u32 \<Rightarrow> u32 \<Rightarrow> 'r plugin run" where
  "ecsys_err_wrap get_component ec p entity code = (
     let level = (if code = PAY_ECS_NOT_ADVANCEABLE then LOG_UNUSUAL else LOG_BROKEN);
         (_, buffer, tok) = get_component ec entity ''lightningd:systems''
     in do {
     r \<leftarrow> json_scan buffer tok ''{error:{message:%}}'' [(''json_strdup'', scan_strdup)];
     case r of
       Inl err \<Rightarrow> None
     | Inr vals \<Rightarrow> plugin_log p level (''entity '' @ dec_of_nat (unat entity) @ '': '' @ hd vals) })"

definition ecsys_advance_done :: "'ec getter \<Rightarrow> 'ec setter \<Rightarrow> 'ec \<Rightarrow> ecsys \<Rightarrow> 'r plugin \<Rightarrow> u32 \<Rightarrow> ('ec \<times> 'r plugin) run" where
  "ecsys_advance_done get_component set_component ec ecsys p entity = do {
     (r, ec', p') \<leftarrow> ecsys_advance get_component set_component ec ecsys p entity;
     case r of
       Inr _ \<Rightarrow> Some (ec', p')
     | Inl code \<Rightarrow> do { p'' \<leftarrow> ecsys_err_wrap get_component ec' p' entity code; Some (ec', p'') } }"

subsection \<open>Registration\<close>

definition ecsys_inv :: "ecsys \<Rightarrow> bool" where
  "ecsys_inv ecsys \<longleftrightarrow> strmap_inv (system_map ecsys) \<and>
     (\<forall>s reg. strmap_get (system_map ecsys) s = Some reg \<longrightarrow> reg_system reg = s)"

lemma ecsys_inv_new: "ecsys_inv ecsys_new"
  by (simp add: ecsys_inv_def ecsys_new_def sm.invar_empty sm.lookup_empty)

lemma ecsys_inv_name: "ecsys_inv ecsys \<Longrightarrow> strmap_get (system_map ecsys) s = Some reg \<Longrightarrow> c_string s"
  using strmap_entries_key_ok sm.lookup_Some_iff by (metis ecsys_inv_def)

lemma ecsys_register_fresh:
  assumes "ecsys_inv ecsys" "c_string s" "\<not> ecsys_system_exists ecsys s"
  shows "\<exists>ecsys'. ecsys_register ecsys s req dis = Some ecsys' \<and> ecsys_inv ecsys' \<and>
    strmap_get (system_map ecsys') = (strmap_get (system_map ecsys))(s \<mapsto>
      \<lparr>reg_system = s, requiredComponents = (case req of None \<Rightarrow> [] | Some r \<Rightarrow> r),
       disallowedComponents = (case dis of None \<Rightarrow> [] | Some d \<Rightarrow> d)\<rparr>)"
proof -
  let ?reg = "\<lparr>reg_system = s, requiredComponents = (case req of None \<Rightarrow> [] | Some r \<Rightarrow> r),
       disallowedComponents = (case dis of None \<Rightarrow> [] | Some d \<Rightarrow> d)\<rparr>"
  let ?m = "snd (strmap_add (system_map ecsys) s ?reg)"
  have inv: "strmap_inv (system_map ecsys)" and none: "strmap_get (system_map ecsys) s = None"
    using assms by (simp_all add: ecsys_inv_def ecsys_system_exists_def)
  have "fst (strmap_add (system_map ecsys) s ?reg)" "strmap_inv ?m"
    using sm.add_fresh [OF inv assms(2) none, of ?reg] by simp_all
  moreover have "strmap_get ?m = (strmap_get (system_map ecsys))(s \<mapsto> ?reg)"
    using sm.lookup_add [OF inv assms(2) none] by simp
  ultimately show ?thesis
    using assms(1) by (auto simp: ecsys_register_def split_beta Let_def ecsys_inv_def)
qed

lemma ecsys_register_twice:
  assumes "ecsys_inv ecsys" "ecsys_system_exists ecsys s"
  shows "ecsys_register ecsys s req dis = None"
  using sm.add_present [of "system_map ecsys" s] assms
  by (simp add: ecsys_register_def ecsys_inv_def ecsys_system_exists_def)

subsection \<open>Searching\<close>

definition matches :: "ctable \<Rightarrow> u32 \<Rightarrow> ecsys_registered \<Rightarrow> bool" where
  "matches t e sys \<longleftrightarrow> requiredComponents sys \<noteq> [] \<and>
     (\<forall>c\<in>set (requiredComponents sys). t e c \<noteq> None) \<and> (\<forall>c\<in>set (disallowedComponents sys). t e c = None)"

definition skips :: "ctable \<Rightarrow> u32 \<Rightarrow> ecsys \<Rightarrow> string \<Rightarrow> bool" where
  "skips t e ecsys s \<longleftrightarrow> (\<exists>reg. strmap_get (system_map ecsys) s = Some reg \<and> \<not> matches t e reg)"

fun first_system :: "ctable \<Rightarrow> u32 \<Rightarrow> ecsys \<Rightarrow> string list \<Rightarrow> nat \<Rightarrow> system_search" where
  "first_system t e ecsys [] i = NoMatch"
| "first_system t e ecsys (s # ss) i =
     (case strmap_get (system_map ecsys) s of
        None \<Rightarrow> Unregistered s
      | Some reg \<Rightarrow> if matches t e reg then Matching i reg else first_system t e ecsys ss (Suc i))"

lemma first_system_skip:
  "list_all (skips t e ecsys) ss \<Longrightarrow> first_system t e ecsys (ss @ rest) i = first_system t e ecsys rest (i + length ss)"
  by (induction ss arbitrary: i) (auto simp: skips_def)

lemma first_system_cases:
  obtains (NoMatch) "first_system t e ecsys ss i = NoMatch" "list_all (skips t e ecsys) ss"
  | (Unregistered) pre s post where "ss = pre @ s # post" "list_all (skips t e ecsys) pre"
      "strmap_get (system_map ecsys) s = None" "first_system t e ecsys ss i = Unregistered s"
  | (Matching) pre s post reg where "ss = pre @ s # post" "list_all (skips t e ecsys) pre"
      "strmap_get (system_map ecsys) s = Some reg" "matches t e reg"
      "first_system t e ecsys ss i = Matching (i + length pre) reg"
proof (cases "list_all (skips t e ecsys) ss")
  case True
  then show thesis using first_system_skip [OF True, of "[]" i] NoMatch by simp
next
  case False
  then obtain pre s post where ss: "ss = pre @ s # post" "list_all (skips t e ecsys) pre" "\<not> skips t e ecsys s"
    using split_list_first_prop [of ss "\<lambda>s. \<not> skips t e ecsys s"] by (auto simp: list_all_iff)
  show thesis
  proof (cases "strmap_get (system_map ecsys) s")
    case None
    then show thesis using Unregistered [OF ss(1,2)] first_system_skip [OF ss(2), of "s # post" i] ss(1) by simp
  next
    case (Some reg)
    then show thesis
      using Matching [OF ss(1,2), of reg] first_system_skip [OF ss(2), of "s # post" i] ss(1,3)
      by (simp add: skips_def)
  qed
qed

lemma prim_ok_dec_of_int: "wf_cst (CPrim (dec_of_int i))"
  using prim_ok_dec [of "nat i"] prim_ok_dec [of "nat (- i)"]
  by (auto simp: dec_of_int_def prim_ok_def primitive_stop_def primitive_bad_def)

definition error_cst :: "u32 \<Rightarrow> string \<Rightarrow> cst" where
  "error_cst code msg = mk_obj [(''code'', CPrim (dec_of_int (sint code))), (''message'', CString msg)]"

lemma wf_error_cst: "c_string msg \<Longrightarrow> utf8_check msg \<Longrightarrow> wf_cst (error_cst code msg)"
  unfolding error_cst_def
  by (intro wf_mk_obj) (simp add: wf_member_def prim_ok_dec_of_int [unfolded wf_cst.simps] wf_CString [unfolded CString_def wf_cst.simps]
      str_ok_plain_text plain_text_def CString_def)

lemma text_plus_ne: "text_of (mk_obj ms) \<noteq> []"
  by (simp add: mk_obj_def)

definition systems_of :: "(string \<times> cst) list \<Rightarrow> string list option" where
  "systems_of ms = (case map_of ms ''systems'' of None \<Rightarrow> None | Some c \<Rightarrow> strings_of_cst c)"

lemma utf8_check_prefix: "plain_text a \<Longrightarrow> utf8_check s \<Longrightarrow> utf8_check (a @ s)"
  using utf8_check_loop_ascii_append [OF plain_text_ascii, of a UTF8_STATE_INIT False s]
  by (cases "a = []") (auto simp: utf8_check_def UTF8_STATE_INIT_def)

lemma utf8_check_msg:
  "utf8_check s \<Longrightarrow> utf8_check (''Invalid `lightningd:systems`: `systems` array contains unregistered system: '' @ s)"
  by (rule utf8_check_prefix) (simp add: plain_text_def)

definition notify_cst :: "string \<Rightarrow> u32 \<Rightarrow> (string \<times> cst) list \<Rightarrow> (string \<times> cst) list" where
  "notify_cst sys e vals =
     [VERSION, (''method'', CString ECSYS_SYSTEM_NOTIFICATION),
      (''params'', mk_obj [(''system'', CString sys),
         (''entity'', mk_obj ((''entity'', CPrim (dec_of_nat (unat e))) # vals))])]"

lemma json_out_start_none: "json_out_start json_out_new None (CHR ''{'') = Some (start_obj new_json_stream None)"
  using start_obj_eq [of new_json_stream None] by (simp add: json_object_start_def new_json_stream_def)

lemma json_out_addv_plain_eq: "json_out_addv js f False s = add_value f (CPrim s) js"
  by (simp add: json_out_addv_def json_out_direct_def add_value_def json_out_member_direct_def)

lemma plugin_notification_start_eq:
  "c_string meth \<Longrightarrow> plugin_notification_start meth =
     Some (start_obj (add_members [VERSION, (''method'', CString meth)] (start_obj new_json_stream None)) (Some ''params''))"
  by (simp add: plugin_notification_start_def start_obj_eq json_add_version json_add_string_eq add_members_def)

lemma plugin_notification_end_eq:
  "plugin_notification_end p (add_members ps (start_obj (add_members ms (start_obj new_json_stream None)) (Some ''params''))) =
     Some (p\<lparr>js_arr := js_arr p @ [message (ms @ [(''params'', mk_obj ps)])]\<rparr>)"
  by (simp add: plugin_notification_end_def end_members add_value_members jsonrpc_finish_and_send_message)

definition log_message :: "log_level \<Rightarrow> string \<Rightarrow> string" where
  "log_message l msg = message [VERSION, (''method'', CString ''log''),
     (''params'', mk_obj [(''level'', CString (level_name l)), (''message'', CString msg)])]"

lemma plugin_log_message: "plugin_log p l msg = Some (p\<lparr>js_arr := js_arr p @ [log_message l msg]\<rparr>)"
proof -
  have "c_string (level_name l)" by (simp add: level_name_def)
  then show ?thesis
    using jsonrpc_finish_and_send_message [of p "[VERSION, (''method'', CString ''log''),
     (''params'', mk_obj [(''level'', CString (level_name l)), (''message'', CString msg)])]"]
    by (simp add: plugin_log_def start_obj_eq json_add_version json_add_string_eq json_out_addv_quote_eq log_message_def
        add_members_single add_members_append end_members [of _ _ "Some _"])
qed

lemma denotes_string_text:
  assumes "denotes buf ts (CStr s)" "c_string s"
  shows "\<exists>t us. ts = t # us \<and> json_strdup buf t = Some s"
  using assms denotes_deref [OF assms(1)] denotes_string by (fastforce simp: json_strdup_def)

context component_table
begin

lemma system_matches_iff: "inv ec \<Longrightarrow> system_matches get_component ec e sys \<longleftrightarrow> matches (table ec) e sys"
  by (auto simp only: system_matches_def matches_def get_present list_ex_iff length_0_conv split: if_split)

lemma search_systems_first:
  "inv ec \<Longrightarrow> search_systems get_component ec ecsys e ss i = first_system (table ec) e ecsys ss i"
  by (induction ss arbitrary: i) (auto simp: system_matches_iff split: option.splits)

lemma advance_error_spec:
  assumes "inv ec" "fields ec e ms" "c_string msg" "utf8_check msg"
  shows "\<exists>ec'. ecsys_advance_error get_component set_component ec e code msg = Some ec' \<and> inv ec' \<and>
    table ec' = tab_upd (table ec) e syscomp (Some (attached (mk_obj (set_field ''error'' (Some (error_cst code msg)) ms))))"
proof -
  let ?c = "error_cst code msg"
  have wf: "wf_cst ?c" using wf_error_cst assms(3,4) by blast
  have out: "json_out_end (json_out_addv (json_out_addv (start_obj new_json_stream None) (Some ''code'') False
      (dec_of_int (sint code))) (Some ''message'') True msg) (CHR ''}'') = Some \<lparr>jout_empty = False, outbuf = text_of ?c\<rparr>"
    using end_members [of "[(''code'', CPrim (dec_of_int (sint code))), (''message'', CString msg)]" new_json_stream None]
    by (simp add: json_out_addv_plain_eq json_out_addv_quote_eq add_members_def error_cst_def
        json_object_end_def add_value_new)
  have text_ne: "(text_of ?c = []) = False" using text_plus_ne by (simp add: error_cst_def)
  have ok: "str_ok ''error''" by (simp add: layout_eval)
  have run: "ecsys_advance_error get_component set_component ec e code msg =
      payz_generic_setsystems_tok get_component set_component ec e ''error'' (Some (text_of ?c)) (Some (toks_of 0 ?c @ [terminator]))"
    unfolding ecsys_advance_error_def json_out_start_none Option.bind.bind_lunit Let_def out json_out_contents_def json_out.select_convs
      text_ne if_False option.case json_parse_simple_text [OF wf] by (rule refl)
  have "case Some ?c of None \<Rightarrow> Some (text_of ?c) = None
      | Some c \<Rightarrow> \<exists>buf ts. Some (text_of ?c) = Some buf \<and> Some (toks_of 0 ?c @ [terminator]) = Some ts \<and> denotes buf ts c"
    using denotes_attached [OF wf] by simp
  from setsystems_spec [OF assms(1,2) ok this] show ?thesis
    unfolding run .
qed

lemma add_required_spec:
  assumes "inv ec"
  shows "\<exists>vals. list_all2 (\<lambda>cn v. case table ec e cn of None \<Rightarrow> v = CPrim ''null'' | Some x \<Rightarrow> x = attached v) cns vals \<and>
    list_all wf_cst vals \<and>
    (\<forall>js. add_required get_component ec e cns js = Some (add_members (zip cns vals) js))"
proof (induction cns)
  case (Cons cn cns)
  then obtain vals where vals: "list_all2 (\<lambda>cn v. case table ec e cn of None \<Rightarrow> v = CPrim ''null'' | Some x \<Rightarrow> x = attached v) cns vals"
    "list_all wf_cst vals"
    "\<forall>js. add_required get_component ec e cns js = Some (add_members (zip cns vals) js)" by blast
  obtain c buf ts where c: "get_component ec e cn = (table ec e cn \<noteq> None, buf, ts)" "denotes buf ts c"
    "case table ec e cn of None \<Rightarrow> c = CPrim ''null'' | Some x \<Rightarrow> x = attached c \<and> \<not> null_cst c"
    using get_denotes [OF assms] by blast
  have "add_required get_component ec e (cn # cns) js = Some (add_members (zip (cn # cns) (c # vals)) js)" for js
    using json_add_tok_eq [OF c(2), of js "Some cn"] vals(3) by (simp add: c(1) add_members_def)
  moreover have "wf_cst c" using c(2) by (simp add: denotes_def)
  ultimately show ?case using vals(1,2) c(3) by (intro exI [of _ "c # vals"]) (auto split: option.splits)
qed (simp add: add_members_def)

lemma run_system_spec:
  assumes "inv ec" "c_string (reg_system sys)"
  shows "\<exists>vals. list_all2 (\<lambda>cn v. case table ec e cn of None \<Rightarrow> v = CPrim ''null'' | Some x \<Rightarrow> x = attached v) (requiredComponents sys) vals \<and>
    list_all wf_cst vals \<and>
    run_system get_component ec p e sys = Some (p\<lparr>js_arr := js_arr p @
      [message (notify_cst (reg_system sys) e (zip (requiredComponents sys) vals))]\<rparr>)"
proof -
  let ?e = "(''entity'', CPrim (dec_of_nat (unat e)))"
  obtain vals where vals: "list_all2 (\<lambda>cn v. case table ec e cn of None \<Rightarrow> v = CPrim ''null'' | Some x \<Rightarrow> x = attached v)
      (requiredComponents sys) vals" "list_all wf_cst vals"
    and add: "\<forall>js. add_required get_component ec e (requiredComponents sys) js =
      Some (add_members (zip (requiredComponents sys) vals) js)"
    using add_required_spec [OF assms(1)] by blast
  let ?vs = "zip (requiredComponents sys) vals"
  have "c_string ECSYS_SYSTEM_NOTIFICATION" by (simp add: ECSYS_SYSTEM_NOTIFICATION_def)
  then have "run_system get_component ec p e sys =
    plugin_notification_end p (add_members [(''system'', CString (reg_system sys)), (''entity'', mk_obj (?e # ?vs))]
      (start_obj (add_members [VERSION, (''method'', CString ECSYS_SYSTEM_NOTIFICATION)] (start_obj new_json_stream None)) (Some ''params'')))"
    unfolding run_system_def
    by (simp only: plugin_notification_start_eq Option.bind.bind_lunit Let_def json_add_string_eq [OF assms(2)] start_obj_eq
        json_add_u32_eq add [rule_format] add_members_single [of "''entity''" "CPrim _"] add_members_single [of "''system''"]
        add_members_append append.simps end_members add_value_members)
  then show ?thesis using vals by (auto simp: plugin_notification_end_eq notify_cst_def)
qed

lemma get_systems_field:
  assumes "inv ec" "fields ec e ms"
  shows "payz_generic_getsystems_tal get_component ec e ''systems'' json_to_array_of_strings = Some (systems_of ms)"
proof (cases "table ec e syscomp")
  case None
  then show ?thesis
    using assms getsystems_absent [OF assms(1) None] by (simp add: getsystems_tal_eq fields_def systems_of_def)
next
  case (Some x)
  then obtain c where c: "holds ec e syscomp c" "ms = members c" using assms(2) by (auto simp: fields_def holds_def)
  show ?thesis
    using getsystems_spec [OF assms(1) c(1), of "''systems''" json_to_array_of_strings]
    by (auto simp: getsystems_tal_eq systems_of_def c(2) json_to_array_of_strings_denotes dest!: inner_denotes split: option.splits)
qed

definition advance_fails :: "'ec \<Rightarrow> u32 \<Rightarrow> (string \<times> cst) list \<Rightarrow> u32 \<Rightarrow> string \<Rightarrow> 'r plugin \<Rightarrow> ((u32 + unit) \<times> 'ec \<times> 'r plugin) run \<Rightarrow> bool" where
  "advance_fails ec e ms code msg p res \<longleftrightarrow> c_string msg \<and> utf8_check msg \<and> (\<exists>ec'. res = Some (Inl code, ec', p) \<and> inv ec' \<and>
     table ec' = tab_upd (table ec) e syscomp (Some (attached (mk_obj (set_field ''error'' (Some (error_cst code msg)) ms)))))"

definition advance_runs :: "'ec \<Rightarrow> u32 \<Rightarrow> (string \<times> cst) list \<Rightarrow> nat \<Rightarrow> ecsys_registered \<Rightarrow> 'r plugin \<Rightarrow> ((u32 + unit) \<times> 'ec \<times> 'r plugin) run \<Rightarrow> bool" where
  "advance_runs ec e ms i reg p res \<longleftrightarrow> (\<exists>ec' vals.
     res = Some (Inr (), ec', p\<lparr>js_arr := js_arr p @ [message (notify_cst (reg_system reg) e (zip (requiredComponents reg) vals))]\<rparr>) \<and>
     inv ec' \<and>
     table ec' = tab_upd (table ec) e syscomp (Some (attached (mk_obj (set_field ''current'' (Some (CPrim (dec_of_nat i))) ms)))) \<and>
     list_all wf_cst vals \<and> list_all2 (\<lambda>cn v. table ec' e cn = Some (attached v)) (requiredComponents reg) vals)"

lemma advance_failsI:
  assumes "inv ec" "fields ec e ms" "c_string msg" "utf8_check msg"
  shows "advance_fails ec e ms code msg p (do {
     ec' \<leftarrow> ecsys_advance_error get_component set_component ec e code msg; Some (Inl code, ec', p) })"
  using advance_error_spec [OF assms, of code] assms(3,4) by (auto simp: advance_fails_def)

lemma advance_runsI:
  assumes "inv ec" "fields ec e ms" "c_string (reg_system reg)" "matches (table ec) e reg"
  shows "advance_runs ec e ms i reg p (do {
      let buffer = dec_of_nat i;
      toks \<leftarrow> json_parse_simple buffer;
      ec' \<leftarrow> payz_generic_setsystems_tok get_component set_component ec e ''current'' (Some buffer) toks;
      p' \<leftarrow> run_system get_component ec' p e reg;
      Some (Inr (), ec', p') })"
proof -
  let ?c = "CPrim (dec_of_nat i)"
  have ok: "str_ok ''current''" by (simp add: layout_eval)
  have "case Some ?c of None \<Rightarrow> Some (dec_of_nat i) = None
      | Some c \<Rightarrow> \<exists>buf ts. Some (dec_of_nat i) = Some buf \<and> Some (toks_of 0 ?c @ [terminator]) = Some ts \<and> denotes buf ts c"
    using denotes_attached [OF wf_dec, of i] by simp
  from setsystems_spec [OF assms(1,2) ok this] obtain ec' where
    set: "payz_generic_setsystems_tok get_component set_component ec e ''current'' (Some (dec_of_nat i)) (Some (toks_of 0 ?c @ [terminator])) = Some ec'"
    and inv: "inv ec'" and tab: "table ec' = tab_upd (table ec) e syscomp (Some (attached (mk_obj (set_field ''current'' (Some ?c) ms))))"
    by blast
  have present: "table ec' e cn \<noteq> None" if "cn \<in> set (requiredComponents reg)" for cn
    using that assms(4) by (cases "cn = syscomp") (auto simp: tab matches_def)
  obtain vals where vals: "list_all2 (\<lambda>cn v. case table ec' e cn of None \<Rightarrow> v = CPrim ''null'' | Some x \<Rightarrow> x = attached v)
      (requiredComponents reg) vals" "list_all wf_cst vals"
    and run: "run_system get_component ec' p e reg = Some (p\<lparr>js_arr := js_arr p @
      [message (notify_cst (reg_system reg) e (zip (requiredComponents reg) vals))]\<rparr>)"
    using run_system_spec [OF inv assms(3)] by blast
  have "list_all2 (\<lambda>cn v. table ec' e cn = Some (attached v)) (requiredComponents reg) vals"
    using vals(1) present by (auto simp: list_all2_conv_all_nth split: option.splits) (metis nth_mem option.exhaust)+
  then show ?thesis
    using set run inv tab vals(2) json_parse_simple_text [OF wf_dec, of i]
    unfolding advance_runs_def by (intro exI [of _ ec'] exI [of _ vals]) simp
qed

lemma advance_spec:
  assumes "inv ec" "fields ec e ms" "ecsys_inv ecsys"
  defines "res p \<equiv> ecsys_advance get_component set_component ec ecsys p e"
  shows "case systems_of ms of
      None \<Rightarrow> advance_fails ec e ms PAY_ECS_INVALID_SYSTEMS_COMPONENT msg_systems_absent p (res p)
    | Some ss \<Rightarrow> (case first_system (table ec) e ecsys ss 0 of
        NoMatch \<Rightarrow> advance_fails ec e ms PAY_ECS_NOT_ADVANCEABLE msg_no_match p (res p)
      | Unregistered s \<Rightarrow> advance_fails ec e ms PAY_ECS_INVALID_SYSTEMS_COMPONENT (msg_unregistered s) p (res p)
      | Matching i reg \<Rightarrow> advance_runs ec e ms i reg p (res p))"
proof (cases "systems_of ms")
  case None
  have "advance_fails ec e ms PAY_ECS_INVALID_SYSTEMS_COMPONENT msg_systems_absent p (res p)"
    using advance_failsI [OF assms(1,2), of msg_systems_absent PAY_ECS_INVALID_SYSTEMS_COMPONENT p]
    by (simp add: res_def ecsys_advance_def get_systems_field [OF assms(1,2)] None plain_text_utf8 msg_systems_absent_def plain_text_def)
  then show ?thesis by (simp add: None)
next
  case (Some ss)
  have res: "res p = (case first_system (table ec) e ecsys ss 0 of
            Unregistered s \<Rightarrow> do {
              ec' \<leftarrow> ecsys_advance_error get_component set_component ec e
                       PAY_ECS_INVALID_SYSTEMS_COMPONENT (msg_unregistered s);
              Some (Inl PAY_ECS_INVALID_SYSTEMS_COMPONENT, ec', p) }
          | NoMatch \<Rightarrow> do {
              ec' \<leftarrow> ecsys_advance_error get_component set_component ec e
                       PAY_ECS_NOT_ADVANCEABLE msg_no_match;
              Some (Inl PAY_ECS_NOT_ADVANCEABLE, ec', p) }
          | Matching current sys \<Rightarrow> do {
              let buffer = dec_of_nat current;
              toks \<leftarrow> json_parse_simple buffer;
              ec' \<leftarrow> payz_generic_setsystems_tok get_component set_component ec e ''current''
                       (Some buffer) toks;
              p' \<leftarrow> run_system get_component ec' p e sys;
              Some (Inr (), ec', p') })"
    by (simp add: res_def ecsys_advance_def get_systems_field [OF assms(1,2)] Some search_systems_first [OF assms(1)])
  show ?thesis
  proof (cases rule: first_system_cases [of "table ec" e ecsys ss 0])
    case NoMatch
    then show ?thesis
      using advance_failsI [OF assms(1,2), of msg_no_match PAY_ECS_NOT_ADVANCEABLE p]
      by (simp add: Some res msg_no_match_def plain_text_utf8 plain_text_def)
  next
    case (Unregistered pre s post)
    obtain c where "map_of ms ''systems'' = Some c" "strings_of_cst c = Some ss"
      using Some by (auto simp: systems_of_def split: option.splits)
    moreover from this have "wf_cst c"
      using fields_wf [OF assms(2)] map_of_SomeD [of ms "''systems''" c] by (fastforce simp: list_all_iff wf_member_def)
    ultimately have "utf8_check s \<and> c_string s" using strings_of_cst_utf8 Unregistered(1) by auto
    then have "c_string (msg_unregistered s) \<and> utf8_check (msg_unregistered s)"
      using utf8_check_msg by (simp add: msg_unregistered_def)
    then show ?thesis
      using advance_failsI [OF assms(1,2), of "msg_unregistered s" PAY_ECS_INVALID_SYSTEMS_COMPONENT p] Unregistered(4)
      by (simp add: Some res)
  next
    case (Matching pre s post reg)
    have "c_string (reg_system reg)" using Matching(3) assms(3) ecsys_inv_name [OF assms(3)] by (auto simp: ecsys_inv_def)
    then show ?thesis
      using advance_runsI [OF assms(1,2) _ Matching(4), of "0 + length pre" p] Matching(5) by (simp add: Some res)
  qed
qed

lemma scan_error_message:
  assumes "inv ec" "c_string msg" "utf8_check msg" "list_all wf_member ms"
    and "table ec e syscomp = Some (attached (mk_obj (set_field ''error'' (Some (error_cst code msg)) ms)))"
  shows "\<exists>buffer tok. get_component ec e syscomp = (True, buffer, tok) \<and>
    json_scan buffer tok ''{error:{message:%}}'' [(''json_strdup'', scan_strdup)] = Some (Inr [json_escape msg])"
proof -
  let ?c = "mk_obj (set_field ''error'' (Some (error_cst code msg)) ms)"
  have wf: "wf_cst ?c"
    using assms(4) wf_error_cst [OF assms(2,3), of code] by (intro wf_mk_obj wf_set_field) (auto simp: layout_eval)
  have get: "get_component ec e syscomp = (True, text_of ?c, toks_of 0 ?c)"
    using assms(1,5) by (simp add: get_table attached_def)
  have path: "path_get ?c [''error'', ''message''] = Some (CString msg)"
    by (simp add: mk_obj_def map_of_set_field error_cst_def)
  have lit: "list_all (list_all literal_char) [''error'', ''message'']" by (simp add: literal_char_def)
  have guide: "path_guide [''error'', ''message''] = ''{error:{message:%}}''" by simp
  obtain ts where ts: "inner (text_of ?c) ts (CString msg)"
    and scan: "case scan_strdup (text_of ?c) ts of
           None \<Rightarrow> json_scan (text_of ?c) (toks_of 0 ?c) ''{error:{message:%}}'' [(''json_strdup'', scan_strdup)] = None
         | Some (Some v) \<Rightarrow> json_scan (text_of ?c) (toks_of 0 ?c) ''{error:{message:%}}'' [(''json_strdup'', scan_strdup)] = Some (Inr [v])
         | Some None \<Rightarrow> \<exists>err. json_scan (text_of ?c) (toks_of 0 ?c) ''{error:{message:%}}'' [(''json_strdup'', scan_strdup)] = Some (Inl err)"
    using json_scan_path [OF lit _ denotes_attached' [OF wf], of "''json_strdup''" scan_strdup]
    unfolding path guide by auto
  have "scan_strdup (text_of ?c) ts = Some (Some (json_escape msg))"
    using denotes_string_text [OF inner_denotes [OF ts [unfolded CString_def]]] c_string_json_escape [OF assms(2)]
    by (auto simp: scan_strdup_def)
  with scan get show ?thesis by simp
qed

lemma err_wrap_spec:
  assumes "inv ec" "c_string msg" "utf8_check msg" "list_all wf_member ms"
    and "table ec e syscomp = Some (attached (mk_obj (set_field ''error'' (Some (error_cst code msg)) ms)))"
  shows "ecsys_err_wrap get_component ec p e code' = Some (p\<lparr>js_arr := js_arr p @
    [log_message (if code' = PAY_ECS_NOT_ADVANCEABLE then LOG_UNUSUAL else LOG_BROKEN)
       (''entity '' @ dec_of_nat (unat e) @ '': '' @ json_escape msg)]\<rparr>)"
  using scan_error_message [OF assms] by (auto simp: ecsys_err_wrap_def syscomp_def plugin_log_message)

lemma advance_done_runs:
  assumes "inv ec" "ecsys_inv ecsys"
  shows "\<exists>ec' p'. ecsys_advance_done get_component set_component ec ecsys p e = Some (ec', p') \<and> inv ec' \<and>
    length (js_arr p') = Suc (length (js_arr p)) \<and> take (length (js_arr p)) (js_arr p') = js_arr p \<and>
    (\<forall>e' cn. e' \<noteq> e \<or> cn \<noteq> syscomp \<longrightarrow> table ec' e' cn = table ec e' cn)"
proof -
  obtain ms where ms: "fields ec e ms" using fields_exists [OF assms(1)] by blast
  let ?res = "ecsys_advance get_component set_component ec ecsys p e"
  consider code msg where "advance_fails ec e ms code msg p ?res" | i reg where "advance_runs ec e ms i reg p ?res"
    using advance_spec [OF assms(1) ms assms(2), of p]
    by (auto split: option.splits system_search.splits)
  then show ?thesis
  proof cases
    case (1 code msg)
    then obtain ec' where res: "?res = Some (Inl code, ec', p)" and inv: "inv ec'" and ok: "c_string msg" "utf8_check msg"
      and tab: "table ec' = tab_upd (table ec) e syscomp (Some (attached (mk_obj (set_field ''error'' (Some (error_cst code msg)) ms))))"
      by (auto simp: advance_fails_def)
    have "table ec' e syscomp = Some (attached (mk_obj (set_field ''error'' (Some (error_cst code msg)) ms)))"
      by (simp add: tab)
    from err_wrap_spec [OF inv ok fields_wf [OF ms] this, of p code] show ?thesis
      using inv by (simp add: ecsys_advance_done_def res tab)
  next
    case (2 i reg)
    then show ?thesis by (auto simp: advance_runs_def ecsys_advance_done_def)
  qed
qed

end

end
