(* ===== verification/Ecs.thy ===== *)
theory Ecs
  imports Ecsys
begin

text \<open>
  \<open>plugins/payz/ecs/ecs.c\<close>: the framework object that owns the component table, the registry of
  systems and the map from the names of built-in systems to their code. The code of a system is a value of
  the type parameter \<open>'f\<close>; \<open>ecs_system_notify\<close> takes the function that runs it as an argument.
\<close>

record 'f ecs_system_wrapper =
  wrapper_name :: string
  wrapper_func :: 'f
  wrapper_required :: "string list"

record 'f ecs =
  ec_of :: ec
  ecsys_of :: ecsys
  system_funcs :: "'f ecs_system_wrapper strmap"

definition ecs_new :: "'f ecs" where
  "ecs_new = \<lparr>ec_of = ec_new, ecsys_of = ecsys_new, system_funcs = strmap_init\<rparr>"

subsection \<open>Delegation\<close>

definition ecs_newentity :: "'f ecs \<Rightarrow> u32 \<times> 'f ecs" where
  "ecs_newentity ecs = (let (e, ec) = ec_newentity (ec_of ecs) in (e, ecs\<lparr>ec_of := ec\<rparr>))"

definition ecs_get_entity_bounds :: "'f ecs \<Rightarrow> (u32 \<times> u32) run" where
  "ecs_get_entity_bounds ecs = ec_get_entity_bounds (ec_of ecs)"

definition ecs_get_components :: "'f ecs \<Rightarrow> u32 \<Rightarrow> string list option run" where
  "ecs_get_components ecs entity = ec_get_components (ec_of ecs) entity"

definition ecs_get_component :: "'f ecs \<Rightarrow> u32 \<Rightarrow> string \<Rightarrow> bool \<times> string \<times> tokptr" where
  "ecs_get_component ecs entity component = ec_get_component (ec_of ecs) entity component"

definition ecs_set_component :: "'f ecs \<Rightarrow> u32 \<Rightarrow> string \<Rightarrow> string option \<Rightarrow> tokptr option \<Rightarrow> 'f ecs run" where
  "ecs_set_component ecs entity component buffer tok = do {
     ec \<leftarrow> ec_set_component (ec_of ecs) entity component buffer tok;
     Some (ecs\<lparr>ec_of := ec\<rparr>) }"

definition ecs_set_component_datuml :: "'f ecs \<Rightarrow> u32 \<Rightarrow> string \<Rightarrow> string option \<Rightarrow> 'f ecs run" where
  "ecs_set_component_datuml ecs entity component v = do {
     ec \<leftarrow> ec_set_component_datuml (ec_of ecs) entity component v;
     Some (ecs\<lparr>ec_of := ec\<rparr>) }"

definition ecs_set_component_datum :: "'f ecs \<Rightarrow> u32 \<Rightarrow> string \<Rightarrow> string option \<Rightarrow> 'f ecs run" where
  "ecs_set_component_datum ecs entity component valuez = do {
     ec \<leftarrow> ec_set_component_datum (ec_of ecs) entity component valuez;
     Some (ecs\<lparr>ec_of := ec\<rparr>) }"

definition ecs_advance :: "'r plugin \<Rightarrow> 'f ecs \<Rightarrow> u32 \<Rightarrow> ((u32 + unit) \<times> 'f ecs \<times> 'r plugin) run" where
  "ecs_advance p ecs entity = do {
     (r, ec, p') \<leftarrow> ecsys_advance ec_get_component ec_set_component (ec_of ecs) (ecsys_of ecs) p entity;
     Some (r, ecs\<lparr>ec_of := ec\<rparr>, p') }"

definition ecs_done :: "'r plugin \<Rightarrow> 'f ecs \<Rightarrow> (command_result \<times> 'f ecs \<times> 'r plugin) run" where
  "ecs_done p ecs = (let (r, p') = notification_handled p in Some (r, ecs, p'))"

definition ecs_advance_done :: "'r plugin \<Rightarrow> 'f ecs \<Rightarrow> u32 \<Rightarrow> (command_result \<times> 'f ecs \<times> 'r plugin) run" where
  "ecs_advance_done p ecs entity = do {
     (ec, p') \<leftarrow> ecsys_advance_done ec_get_component ec_set_component (ec_of ecs) (ecsys_of ecs) p entity;
     ecs_done p' (ecs\<lparr>ec_of := ec\<rparr>) }"

definition ecs_system_exists :: "'f ecs \<Rightarrow> string \<Rightarrow> bool" where
  "ecs_system_exists ecs sys = ecsys_system_exists (ecsys_of ecs) sys"

subsection \<open>Triggering of built-in systems\<close>

type_synonym ('f, 'r) system_code =
  "'f \<Rightarrow> 'f ecs \<Rightarrow> 'r plugin \<Rightarrow> u32 \<Rightarrow> string \<Rightarrow> tokptr \<Rightarrow> (command_result \<times> 'f ecs \<times> 'r plugin) run"

definition scan_u32 :: "bool \<Rightarrow> string \<Rightarrow> tokptr \<Rightarrow> u32 option run" where
  "scan_u32 erange buf ts = do { t \<leftarrow> deref ts; json_to_u32 erange buf t }"

text \<open>A complaint about a parameter, with its text, after which the notification is handled.\<close>

definition quoted :: "string \<Rightarrow> string" where
  "quoted s = CHR 0x27 # s @ [CHR 0x27]"

definition log_handled :: "'r plugin \<Rightarrow> 'f ecs \<Rightarrow> string \<Rightarrow> string \<Rightarrow> tokptr \<Rightarrow> (command_result \<times> 'f ecs \<times> 'r plugin) run" where
  "log_handled p ecs msg buffer tok = do {
     text \<leftarrow> full_str buffer tok;
     p' \<leftarrow> plugin_log p LOG_UNUSUAL (msg @ text);
     let (r, p'') = notification_handled p';
     Some (r, ecs, p'') }"

fun missing_required :: "string \<Rightarrow> tokptr \<Rightarrow> string list \<Rightarrow> string option run" where
  "missing_required buffer entity [] = Some None"
| "missing_required buffer entity (c # cs) = do {
     m \<leftarrow> json_get_member buffer entity c;
     if m = None then Some (Some c) else missing_required buffer entity cs }"

definition ecs_system_notify ::
  "('f, 'r) system_code \<Rightarrow> bool \<Rightarrow> 'f ecs \<Rightarrow> 'r plugin \<Rightarrow> string \<Rightarrow> tokptr \<Rightarrow> (command_result \<times> 'f ecs \<times> 'r plugin) run" where
  "ecs_system_notify call erange ecs p buffer params = do {
     r \<leftarrow> json_scan buffer params ''{system:%}'' [(''json_strdup'', scan_strdup)];
     case r of
       Inl err \<Rightarrow> log_handled p ecs
         (''Triggered '' @ quoted ECSYS_SYSTEM_NOTIFICATION @ '' without '' @ quoted ''system'' @ '' parameter: '') buffer params
     | Inr vals \<Rightarrow>
         (case strmap_get (system_funcs ecs) (hd vals) of
            None \<Rightarrow> (let (r, p') = notification_handled p in Some (r, ecs, p'))
          | Some wrapper \<Rightarrow> do {
              ent \<leftarrow> json_get_member buffer params ''entity'';
              case ent of
                None \<Rightarrow> log_handled p ecs
                  (''Triggered '' @ quoted ECSYS_SYSTEM_NOTIFICATION @ '' without '' @ quoted ''entity'' @ '' parameter: '') buffer params
              | Some entity \<Rightarrow> do {
                  r2 \<leftarrow> json_scan buffer entity ''{entity:%}'' [(''json_to_u32'', scan_u32 erange)];
                  case r2 of
                    Inl err \<Rightarrow> log_handled p ecs
                      (''Triggered '' @ quoted ECSYS_SYSTEM_NOTIFICATION @ '' without '' @ quoted ''entity'' @ '' ID: '' @ quoted ''entity'' @ '': '')
                      buffer entity
                  | Inr ids \<Rightarrow> do {
                      missing \<leftarrow> missing_required buffer entity (wrapper_required wrapper);
                      case missing of
                        Some c \<Rightarrow> log_handled p ecs
                          (''Triggered '' @ quoted ECSYS_SYSTEM_NOTIFICATION @ '' on system '' @ quoted (wrapper_name wrapper) @
                           '' without being provided required component '' @ quoted c @ '': '') buffer entity
                      | None \<Rightarrow> call (wrapper_func wrapper) ecs p (hd ids) buffer entity } } }) }"

subsection \<open>Registration\<close>

text \<open>
  A description is an array of tagged entries closed by \<open>OVER_AND_OUT\<close>; reading past the end of an
  array without it is a fault.
\<close>

datatype 'f ecs_register_desc =
    OVER_AND_OUT | NAME string | FUNC 'f | REQUIRE string | DISALLOW string | DONE

record 'f reg_state =
  rs_name :: "string option"
  rs_func :: "'f option"
  rs_required :: "string list option"
  rs_disallowed :: "string list option"

definition rs_clear :: "'f reg_state" where
  "rs_clear = \<lparr>rs_name = None, rs_func = None, rs_required = None, rs_disallowed = None\<rparr>"

definition tal_expand :: "'a list option \<Rightarrow> 'a \<Rightarrow> 'a list option" where
  "tal_expand xs x = (case xs of None \<Rightarrow> Some [x] | Some ys \<Rightarrow> Some (ys @ [x]))"

definition register_done :: "'f ecs \<Rightarrow> 'f reg_state \<Rightarrow> 'f ecs run" where
  "register_done ecs st = (case rs_name st of
     None \<Rightarrow> None
   | Some name \<Rightarrow> do {
       ecsys' \<leftarrow> ecsys_register (ecsys_of ecs) name (rs_required st) (rs_disallowed st);
       let ecs' = ecs\<lparr>ecsys_of := ecsys'\<rparr>;
       case rs_func st of
         None \<Rightarrow> Some ecs'
       | Some f \<Rightarrow>
           Some (ecs'\<lparr>system_funcs := snd (strmap_add (system_funcs ecs') name
             \<lparr>wrapper_name = name, wrapper_func = f,
              wrapper_required = (case rs_required st of None \<Rightarrow> [] | Some r \<Rightarrow> r)\<rparr>)\<rparr>) })"

fun ecs_register_loop :: "'f ecs \<Rightarrow> 'f reg_state \<Rightarrow> 'f ecs_register_desc list \<Rightarrow> 'f ecs run" where
  "ecs_register_loop ecs st [] = None"
| "ecs_register_loop ecs st (OVER_AND_OUT # ds) = do {
     c_assert (rs_name st = None);
     c_assert (rs_func st = None);
     c_assert (rs_required st = None);
     c_assert (rs_disallowed st = None);
     Some ecs }"
| "ecs_register_loop ecs st (NAME n # ds) = do {
     c_assert (rs_name st = None);
     ecs_register_loop ecs (st\<lparr>rs_name := Some n\<rparr>) ds }"
| "ecs_register_loop ecs st (FUNC f # ds) = do {
     c_assert (rs_func st = None);
     ecs_register_loop ecs (st\<lparr>rs_func := Some f\<rparr>) ds }"
| "ecs_register_loop ecs st (REQUIRE c # ds) = do {
     c_assert (rs_name st \<noteq> None);
     ecs_register_loop ecs (st\<lparr>rs_required := tal_expand (rs_required st) c\<rparr>) ds }"
| "ecs_register_loop ecs st (DISALLOW c # ds) = do {
     c_assert (rs_name st \<noteq> None \<and> rs_required st \<noteq> None);
     ecs_register_loop ecs (st\<lparr>rs_disallowed := tal_expand (rs_disallowed st) c\<rparr>) ds }"
| "ecs_register_loop ecs st (DONE # ds) = do {
     ecs' \<leftarrow> register_done ecs st;
     ecs_register_loop ecs' rs_clear ds }"

definition ecs_register :: "'f ecs \<Rightarrow> 'f ecs_register_desc list \<Rightarrow> 'f ecs run" where
  "ecs_register ecs to_register = ecs_register_loop ecs rs_clear to_register"

definition ecs_register_begin :: "'f ecs_register_desc list" where
  "ecs_register_begin = [OVER_AND_OUT]"

fun append_descs :: "'f ecs_register_desc list \<Rightarrow> 'f ecs_register_desc list \<Rightarrow> 'f ecs_register_desc list run" where
  "append_descs arr [] = None"
| "append_descs arr (d # ds) =
     (if d = OVER_AND_OUT then Some (arr @ [d]) else append_descs (arr @ [d]) ds)"

definition ecs_register_concat ::
  "'f ecs_register_desc list \<Rightarrow> 'f ecs_register_desc list \<Rightarrow> 'f ecs_register_desc list run" where
  "ecs_register_concat arr to_add = (case to_add of
     [] \<Rightarrow> None
   | d # ds \<Rightarrow>
       if d = OVER_AND_OUT then Some arr
       else do {
         c_assert (arr \<noteq> []);
         append_descs (butlast arr @ [d]) ds })"

definition ecs_register_extend ::
  "'f ecs_register_desc list \<Rightarrow> 'f ecs_register_desc \<Rightarrow> 'f ecs_register_desc list run" where
  "ecs_register_extend arr d = do {
     c_assert (arr \<noteq> []);
     Some (butlast arr @ [d, OVER_AND_OUT]) }"

definition ecs_register_name :: "'f ecs_register_desc list \<Rightarrow> string \<Rightarrow> 'f ecs_register_desc list run" where
  "ecs_register_name arr name = ecs_register_extend arr (NAME name)"

definition ecs_register_func :: "'f ecs_register_desc list \<Rightarrow> 'f \<Rightarrow> 'f ecs_register_desc list run" where
  "ecs_register_func arr f = ecs_register_extend arr (FUNC f)"

definition ecs_register_require :: "'f ecs_register_desc list \<Rightarrow> string \<Rightarrow> 'f ecs_register_desc list run" where
  "ecs_register_require arr component = ecs_register_extend arr (REQUIRE component)"

definition ecs_register_disallow :: "'f ecs_register_desc list \<Rightarrow> string \<Rightarrow> 'f ecs_register_desc list run" where
  "ecs_register_disallow arr component = ecs_register_extend arr (DISALLOW component)"

definition ecs_register_done :: "'f ecs_register_desc list \<Rightarrow> 'f ecs_register_desc list run" where
  "ecs_register_done arr = ecs_register_extend arr DONE"


subsection \<open>The invariant of the framework\<close>

definition ecs_inv :: "'f ecs \<Rightarrow> bool" where
  "ecs_inv ecs \<longleftrightarrow> ec_inv (ec_of ecs) \<and> ecsys_inv (ecsys_of ecs) \<and> strmap_inv (system_funcs ecs) \<and>
     (\<forall>n w. strmap_get (system_funcs ecs) n = Some w \<longrightarrow> wrapper_name w = n \<and>
        (\<exists>reg. strmap_get (system_map (ecsys_of ecs)) n = Some reg \<and> requiredComponents reg = wrapper_required w))"

lemma ecs_inv_new: "ecs_inv ecs_new"
  by (simp add: ecs_inv_def ecs_new_def ec_inv_new ecsys_inv_new sm.invar_empty sm.lookup_empty)

lemma ecs_inv_ec: "ecs_inv ecs \<Longrightarrow> ec_inv ec \<Longrightarrow> ecs_inv (ecs\<lparr>ec_of := ec\<rparr>)"
  by (simp add: ecs_inv_def)

interpretation ecst: component_table ecs_get_component ecs_set_component ecs_inv "\<lambda>ecs. ec_table (ec_of ecs)"
proof
  fix ecs :: "'f ecs" and e cn x
  assume inv: "ecs_inv ecs"
  then have ec: "ec_inv (ec_of ecs)" by (simp add: ecs_inv_def)
  show "ecs_get_component ecs e cn = (case ec_table (ec_of ecs) e cn of
      None \<Rightarrow> (False, ''null'', null_toks) | Some (buf, ts) \<Rightarrow> (True, buf, ts))"
    using ect.get_table [OF ec] by (simp add: ecs_get_component_def)
  show "ec_table (ec_of ecs) e cn = Some x \<Longrightarrow> \<exists>c. wf_cst c \<and> \<not> null_cst c \<and> x = attached c"
    using ect.table_cst [OF ec] .
  show "\<exists>ecs'. ecs_set_component ecs e cn None None = Some ecs' \<and> ecs_inv ecs' \<and>
      ec_table (ec_of ecs') = tab_upd (ec_table (ec_of ecs)) e cn None"
    using ect.set_null [OF ec, of e cn] ecs_inv_ec [OF inv] by (auto simp: ecs_set_component_def)
next
  fix ecs :: "'f ecs" and e cn buf ts c
  assume inv: "ecs_inv ecs" and "c_string cn" "denotes buf ts c"
  then show "\<exists>ecs'. ecs_set_component ecs e cn (Some buf) (Some ts) = Some ecs' \<and> ecs_inv ecs' \<and>
      ec_table (ec_of ecs') = tab_upd (ec_table (ec_of ecs)) e cn (value_of c)"
    using ect.set_denotes [of "ec_of ecs" cn buf ts c e] ecs_inv_ec [OF inv]
    by (auto simp: ecs_set_component_def ecs_inv_def)
qed

lemma ecs_advance_done_runs:
  assumes "ecs_inv ecs"
  shows "\<exists>ecs' p'. ecs_advance_done p ecs e = Some (COMPLETE, ecs', p') \<and> ecs_inv ecs' \<and>
    length (js_arr p') = Suc (length (js_arr p)) \<and> take (length (js_arr p)) (js_arr p') = js_arr p \<and>
    (\<forall>e' cn. e' \<noteq> e \<or> cn \<noteq> syscomp \<longrightarrow> ec_table (ec_of ecs') e' cn = ec_table (ec_of ecs) e' cn)"
  using ect.advance_done_runs [of "ec_of ecs" "ecsys_of ecs" p e] assms ecs_inv_ec [OF assms]
  by (auto simp: ecs_advance_done_def ecs_done_def notification_handled_def ecs_inv_def)

subsection \<open>Descriptions of systems\<close>

record 'f block =
  b_name :: string
  b_func :: "'f option"
  b_required :: "string list"
  b_disallowed :: "string list"

definition desc_of :: "'f block \<Rightarrow> 'f ecs_register_desc list" where
  "desc_of b = NAME (b_name b) # (case b_func b of None \<Rightarrow> [] | Some f \<Rightarrow> [FUNC f]) @
     map REQUIRE (b_required b) @ map DISALLOW (b_disallowed b) @ [DONE]"

definition opt_list :: "'a list \<Rightarrow> 'a list option" where
  "opt_list xs = (if xs = [] then None else Some xs)"

lemma loop_requires:
  "rs_name st \<noteq> None \<Longrightarrow> rs_required st = opt_list pre \<Longrightarrow>
   ecs_register_loop ecs st (map REQUIRE cs @ ds) = ecs_register_loop ecs (st\<lparr>rs_required := opt_list (pre @ cs)\<rparr>) ds"
proof (induction cs arbitrary: st pre)
  case (Cons c cs)
  have "ecs_register_loop ecs (st\<lparr>rs_required := opt_list (pre @ [c])\<rparr>) (map REQUIRE cs @ ds) =
      ecs_register_loop ecs (st\<lparr>rs_required := opt_list (pre @ [c])\<rparr>\<lparr>rs_required := opt_list ((pre @ [c]) @ cs)\<rparr>) ds"
    using Cons.prems by (intro Cons.IH) auto
  then show ?case using Cons.prems by (cases "pre = []") (auto simp: tal_expand_def opt_list_def)
qed (simp, metis reg_state.surjective reg_state.update_convs(3))

lemma loop_disallows:
  "rs_name st \<noteq> None \<Longrightarrow> rs_required st \<noteq> None \<or> cs = [] \<Longrightarrow> rs_disallowed st = opt_list pre \<Longrightarrow>
   ecs_register_loop ecs st (map DISALLOW cs @ ds) = ecs_register_loop ecs (st\<lparr>rs_disallowed := opt_list (pre @ cs)\<rparr>) ds"
proof (induction cs arbitrary: st pre)
  case (Cons c cs)
  have "ecs_register_loop ecs (st\<lparr>rs_disallowed := opt_list (pre @ [c])\<rparr>) (map DISALLOW cs @ ds) =
      ecs_register_loop ecs (st\<lparr>rs_disallowed := opt_list (pre @ [c])\<rparr>\<lparr>rs_disallowed := opt_list ((pre @ [c]) @ cs)\<rparr>) ds"
    using Cons.prems by (intro Cons.IH) auto
  then show ?case using Cons.prems by (cases "pre = []") (auto simp: tal_expand_def opt_list_def)
qed (simp, metis reg_state.surjective reg_state.update_convs(4))

lemma loop_block:
  assumes "b_disallowed b = [] \<or> b_required b \<noteq> []"
  shows "ecs_register_loop ecs rs_clear (desc_of b @ ds) = do {
     ecs' \<leftarrow> register_done ecs \<lparr>rs_name = Some (b_name b), rs_func = b_func b,
       rs_required = opt_list (b_required b), rs_disallowed = opt_list (b_disallowed b)\<rparr>;
     ecs_register_loop ecs' rs_clear ds }"
proof -
  let ?st = "\<lparr>rs_name = Some (b_name b), rs_func = b_func b, rs_required = None, rs_disallowed = None\<rparr>"
  have "ecs_register_loop ecs rs_clear (desc_of b @ ds) =
      ecs_register_loop ecs ?st (map REQUIRE (b_required b) @ map DISALLOW (b_disallowed b) @ DONE # ds)"
    by (simp add: desc_of_def rs_clear_def split: option.splits)
  also have "\<dots> = ecs_register_loop ecs (?st\<lparr>rs_required := opt_list (b_required b)\<rparr>)
      (map DISALLOW (b_disallowed b) @ DONE # ds)"
    using loop_requires [of ?st "[]"] by (simp add: opt_list_def)
  also have "\<dots> = ecs_register_loop ecs (?st\<lparr>rs_required := opt_list (b_required b), rs_disallowed := opt_list (b_disallowed b)\<rparr>) (DONE # ds)"
    using loop_disallows [of "?st\<lparr>rs_required := opt_list (b_required b)\<rparr>" "b_disallowed b" "[]"] assms by (auto simp: opt_list_def)
  finally show ?thesis by simp
qed

lemma loop_block_faults:
  assumes "b_disallowed b \<noteq> []" "b_required b = []"
  shows "ecs_register_loop ecs rs_clear (desc_of b @ ds) = None"
  using assms by (cases "b_disallowed b") (auto simp: desc_of_def rs_clear_def split: option.splits)

definition block_reg :: "'f block \<Rightarrow> ecsys_registered" where
  "block_reg b = \<lparr>reg_system = b_name b, requiredComponents = b_required b, disallowedComponents = b_disallowed b\<rparr>"

definition block_wrapper :: "'f block \<Rightarrow> 'f \<Rightarrow> 'f ecs_system_wrapper" where
  "block_wrapper b f = \<lparr>wrapper_name = b_name b, wrapper_func = f, wrapper_required = b_required b\<rparr>"

definition registered :: "'f block \<Rightarrow> 'f ecs \<Rightarrow> 'f ecs \<Rightarrow> bool" where
  "registered b ecs ecs' \<longleftrightarrow> ec_of ecs' = ec_of ecs \<and> ecs_inv ecs' \<and>
     strmap_get (system_map (ecsys_of ecs')) = (strmap_get (system_map (ecsys_of ecs)))(b_name b \<mapsto> block_reg b) \<and>
     strmap_get (system_funcs ecs') = (case b_func b of None \<Rightarrow> strmap_get (system_funcs ecs)
       | Some f \<Rightarrow> (strmap_get (system_funcs ecs))(b_name b \<mapsto> block_wrapper b f))"

lemma register_done_block:
  assumes "ecs_inv ecs" "c_string (b_name b)" "\<not> ecs_system_exists ecs (b_name b)"
  shows "\<exists>ecs'. register_done ecs \<lparr>rs_name = Some (b_name b), rs_func = b_func b,
       rs_required = opt_list (b_required b), rs_disallowed = opt_list (b_disallowed b)\<rparr> = Some ecs' \<and> registered b ecs ecs'"
proof -
  have unopt: "(case opt_list xs of None \<Rightarrow> [] | Some r \<Rightarrow> r) = xs" for xs :: "string list" by (simp add: opt_list_def)
  have inv: "ecsys_inv (ecsys_of ecs)" "ec_inv (ec_of ecs)" "strmap_inv (system_funcs ecs)" using assms(1) by (auto simp: ecs_inv_def)
  obtain ecsys' where reg: "ecsys_register (ecsys_of ecs) (b_name b) (opt_list (b_required b)) (opt_list (b_disallowed b)) = Some ecsys'"
    "ecsys_inv ecsys'" "strmap_get (system_map ecsys') = (strmap_get (system_map (ecsys_of ecs)))(b_name b \<mapsto> block_reg b)"
    using ecsys_register_fresh [OF inv(1) assms(2), of "opt_list (b_required b)" "opt_list (b_disallowed b)"] assms(3)
    by (auto simp: ecs_system_exists_def unopt block_reg_def)
  have none: "strmap_get (system_funcs ecs) (b_name b) = None"
    using assms(1,3) unfolding ecs_inv_def ecs_system_exists_def ecsys_system_exists_def
    by (metis not_Some_eq option.distinct(1))
  have add: "strmap_inv (snd (strmap_add (system_funcs ecs) (b_name b) w))"
    "strmap_get (snd (strmap_add (system_funcs ecs) (b_name b) w)) = (strmap_get (system_funcs ecs))(b_name b \<mapsto> w)" for w
    using sm.add_fresh [OF inv(3) assms(2) none, of w] sm.lookup_add [OF inv(3) assms(2) none, of w] by simp_all
  have old: "strmap_get (system_funcs ecs) n = Some w \<Longrightarrow> wrapper_name w = n \<and>
        (\<exists>reg. strmap_get (system_map (ecsys_of ecs)) n = Some reg \<and> requiredComponents reg = wrapper_required w)" for n w
    using assms(1) by (auto simp: ecs_inv_def)
  show ?thesis
  proof (cases "b_func b")
    case None
    then show ?thesis using reg inv old none
      by (auto simp: register_done_def registered_def ecs_inv_def)
  next
    case (Some f)
    then show ?thesis using reg inv old none add [of "block_wrapper b f"]
      by (auto simp: register_done_def registered_def ecs_inv_def unopt block_wrapper_def block_reg_def)
  qed
qed

fun registered_all :: "'f block list \<Rightarrow> 'f ecs \<Rightarrow> 'f ecs \<Rightarrow> bool" where
  "registered_all [] ecs ecs' \<longleftrightarrow> ecs' = ecs"
| "registered_all (b # bs) ecs ecs' \<longleftrightarrow> (\<exists>ecs1. registered b ecs ecs1 \<and> registered_all bs ecs1 ecs')"

definition block_ok :: "'f block \<Rightarrow> bool" where
  "block_ok b \<longleftrightarrow> c_string (b_name b) \<and> (b_disallowed b = [] \<or> b_required b \<noteq> [])"

lemma ecs_register_blocks:
  assumes "ecs_inv ecs" "list_all block_ok bs" "distinct (map b_name bs)" "\<forall>b\<in>set bs. \<not> ecs_system_exists ecs (b_name b)"
  shows "\<exists>ecs'. ecs_register ecs (concat (map desc_of bs) @ [OVER_AND_OUT]) = Some ecs' \<and> registered_all bs ecs ecs'"
  using assms
proof (induction bs arbitrary: ecs)
  case Nil
  then show ?case by (simp add: ecs_register_def rs_clear_def)
next
  case (Cons b bs)
  then obtain ecs1 where ecs1: "register_done ecs \<lparr>rs_name = Some (b_name b), rs_func = b_func b,
       rs_required = opt_list (b_required b), rs_disallowed = opt_list (b_disallowed b)\<rparr> = Some ecs1" "registered b ecs ecs1"
    using register_done_block [of ecs b] by (auto simp: block_ok_def)
  have "\<forall>b'\<in>set bs. \<not> ecs_system_exists ecs1 (b_name b')"
    using Cons.prems(3,4) ecs1(2)
    by (auto simp: registered_def ecs_system_exists_def ecsys_system_exists_def image_iff)
  then obtain ecs' where "ecs_register ecs1 (concat (map desc_of bs) @ [OVER_AND_OUT]) = Some ecs'" "registered_all bs ecs1 ecs'"
    using Cons.IH [of ecs1] Cons.prems ecs1(2) by (auto simp: registered_def)
  then show ?case
    using Cons.prems(2) ecs1 loop_block [of b ecs "concat (map desc_of bs) @ [OVER_AND_OUT]"]
    by (auto simp: ecs_register_def block_ok_def)
qed

subsection \<open>Delivery of a notification\<close>

definition invoke_params :: "string \<Rightarrow> u32 \<Rightarrow> (string \<times> cst) list \<Rightarrow> cst" where
  "invoke_params s e vals = mk_obj [(''system'', CString s),
     (''entity'', mk_obj ((''entity'', CPrim (dec_of_nat (unat e))) # vals))]"

lemma notify_cst_params: "notify_cst s e vals =
    [VERSION, (''method'', CString ECSYS_SYSTEM_NOTIFICATION), (''params'', invoke_params s e vals)]"
  by (simp add: notify_cst_def invoke_params_def)

lemma missing_required_none:
  assumes "denotes buf ts (mk_obj ms)" "\<forall>c\<in>set cs. map_of ms c \<noteq> None"
  shows "missing_required buf ts cs = Some None"
  using assms(2)
proof (induction cs)
  case (Cons c cs)
  then show ?case using json_get_member_mk_obj [OF assms(1), of c] by (auto split: option.splits)
qed simp

lemma scan_member:
  assumes "denotes buf ts (mk_obj ms)" "map_of ms k = Some c" "list_all literal_char k"
    and "\<And>ts'. inner buf ts' c \<Longrightarrow> f buf ts' = Some (Some v)"
  shows "json_scan buf ts (CHR ''{'' # k @ '':%}'') [(name, f)] = Some (Inr [v])"
proof -
  have "path_get (mk_obj ms) [k] = Some c" using assms(2) by (simp add: mk_obj_def)
  then show ?thesis
    using json_scan_path [of "[k]" buf ts "mk_obj ms" name f] assms by auto
qed

lemma notify_calls:
  assumes "strmap_get (system_funcs ecs) s = Some w" "\<not> json_escape_needed s" "c_string s"
    and "denotes buf params (invoke_params s e (zip (wrapper_required w) vals))" "length vals = length (wrapper_required w)"
  shows "\<exists>ts. inner buf ts (mk_obj ((''entity'', CPrim (dec_of_nat (unat e))) # zip (wrapper_required w) vals)) \<and>
    ecs_system_notify call erange ecs p buf params = call (wrapper_func w) ecs p e buf ts"
proof -
  let ?ent = "mk_obj ((''entity'', CPrim (dec_of_nat (unat e))) # zip (wrapper_required w) vals)"
  note d = assms(4) [unfolded invoke_params_def]
  have str: "scan_strdup buf ts = Some (Some s)" if "inner buf ts (CString s)" for ts
    using denotes_string_text [of buf ts s] inner_denotes [OF that] assms(2,3)
    by (auto simp: scan_strdup_def CString_plain)
  have lit: "list_all literal_char ''system''" "list_all literal_char ''entity''" by (simp_all add: literal_char_def)
  have sys: "json_scan buf params ''{system:%}'' [(''json_strdup'', scan_strdup)] = Some (Inr [s])"
    using scan_member [OF d, of "''system''" "CString s" scan_strdup s "''json_strdup''"] lit str by simp
  obtain ts where ts: "json_get_member buf params ''entity'' = Some (Some ts)" "inner buf ts ?ent"
    using json_get_member_mk_obj [OF d, of "''entity''"] by auto
  have num: "scan_u32 erange buf ts' = Some (Some e)" if i: "inner buf ts' (CPrim (dec_of_nat (unat e)))" for ts'
    using denotes_deref [OF inner_denotes [OF i]] json_to_u32_dec(1) [of buf _ _ e] i by (auto simp: scan_u32_def)
  have eid: "json_scan buf ts ''{entity:%}'' [(''json_to_u32'', scan_u32 erange)] = Some (Inr [e])"
    using scan_member [OF inner_denotes [OF ts(2)], of "''entity''" _ "scan_u32 erange" e "''json_to_u32''"] lit num by simp
  have "missing_required buf ts (wrapper_required w) = Some None"
  proof (rule missing_required_none [OF inner_denotes [OF ts(2)]], rule ballI)
    fix c assume "c \<in> set (wrapper_required w)"
    then have "map_of (zip (wrapper_required w) vals) c \<noteq> None" using assms(5) by (simp add: map_of_zip_is_None)
    then show "map_of ((''entity'', CPrim (dec_of_nat (unat e))) # zip (wrapper_required w) vals) c \<noteq> None" by simp
  qed
  then show ?thesis
    using ts assms(1) sys eid by (auto simp: ecs_system_notify_def)
qed

end
