(* ===== verification/Json_Equal.thy ===== *)
theory Json_Equal
  imports Json Json_Escape "HOL-Library.Finite_Map"
begin

text \<open>
  \<open>plugins/payz/json_equal.c\<close>: structural equality of two JSON data given by tokens. The
  loops over the children are \<open>equal_arr\<close> and \<open>equal_obj\<close>. On data without duplicate keys it
  decides the equality of the JSON values \<open>jval_of\<close>.
\<close>

text \<open>\<open>strncmp(a, b, n) == 0\<close> on two runs of \<open>n\<close> bytes.\<close>

definition strn_eq :: "string \<Rightarrow> string \<Rightarrow> bool" where
  "strn_eq a b \<longleftrightarrow> tal_strndup a = tal_strndup b"

function json_equal :: "string \<Rightarrow> tokptr \<Rightarrow> string \<Rightarrow> tokptr \<Rightarrow> bool run"
  and equal_arr :: "nat \<Rightarrow> string \<Rightarrow> tokptr \<Rightarrow> string \<Rightarrow> tokptr \<Rightarrow> bool run"
  and equal_obj :: "nat \<Rightarrow> string \<Rightarrow> tokptr \<Rightarrow> string \<Rightarrow> tokptr \<Rightarrow> bool run" where
  "json_equal buffer1 tok1 buffer2 tok2 =
     (case (tok1, tok2) of
        (t1 # ts1, t2 # ts2) \<Rightarrow>
          if tok_type t1 \<noteq> tok_type t2 then Some False
          else if tok_type t1 = JSMN_PRIMITIVE \<or> tok_type t1 = JSMN_STRING then
            (if tok_end t1 - tok_start t1 \<noteq> tok_end t2 - tok_start t2 then Some False
             else do {
               s1 \<leftarrow> slice buffer1 (tok_start t1) (tok_end t1);
               s2 \<leftarrow> slice buffer2 (tok_start t2) (tok_end t2);
               Some (strn_eq s1 s2) })
          else if tok_type t1 = JSMN_ARRAY then
            (if tok_size t1 \<noteq> tok_size t2 then Some False
             else case tok_count t1 of None \<Rightarrow> None | Some n \<Rightarrow> equal_arr n buffer1 ts1 buffer2 ts2)
          else if tok_type t1 = JSMN_OBJECT then
            (if tok_size t1 \<noteq> tok_size t2 then Some False
             else case tok_count t1 of None \<Rightarrow> None | Some n \<Rightarrow> equal_obj n buffer1 ts1 buffer2 tok2)
          else None
      | _ \<Rightarrow> None)"
| "equal_arr 0 buffer1 ts1 buffer2 ts2 = Some True"
| "equal_arr (Suc n) buffer1 ts1 buffer2 ts2 =
     (case json_equal buffer1 ts1 buffer2 ts2 of
        None \<Rightarrow> None
      | Some eq \<Rightarrow>
          if \<not> eq then Some False
          else (case (json_next ts1, json_next ts2) of
                  (Some ts1', Some ts2') \<Rightarrow> equal_arr n buffer1 ts1' buffer2 ts2'
                | _ \<Rightarrow> None))"
| "equal_obj 0 buffer1 key1 buffer2 tok2 = Some True"
| "equal_obj (Suc n) buffer1 key1 buffer2 tok2 =
     (case key1 of
        [] \<Rightarrow> None
      | k # value1 \<Rightarrow>
          (case slice buffer1 (tok_start k) (tok_end k) of
             None \<Rightarrow> None
           | Some label \<Rightarrow>
               (case json_get_membern buffer2 tok2 label of
                  None \<Rightarrow> None
                | Some None \<Rightarrow> Some False
                | Some (Some value2) \<Rightarrow>
                    (case json_equal buffer1 value1 buffer2 value2 of
                       None \<Rightarrow> None
                     | Some eq \<Rightarrow>
                         if \<not> eq then Some False
                         else (case json_next value1 of
                                 None \<Rightarrow> None
                               | Some key1' \<Rightarrow> equal_obj n buffer1 key1' buffer2 tok2)))))"
  by pat_completeness auto
termination
  by (relation "measure (\<lambda>x. case x of Inl (b1, t1, b2, t2) \<Rightarrow> 2 * length t1
      | Inr (Inl (n, b1, t1, b2, t2)) \<Rightarrow> Suc (2 * length t1)
      | Inr (Inr (n, b1, t1, b2, t2)) \<Rightarrow> Suc (2 * length t1))")
    (auto dest: json_next_less json_next_less [OF sym])

declare json_equal.simps [simp del]

subsection \<open>On layout trees\<close>

fun cst_equal :: "cst \<Rightarrow> cst \<Rightarrow> bool"
  and es_equal :: "celems \<Rightarrow> celems \<Rightarrow> bool"
  and ms_equal :: "cmembers \<Rightarrow> (string \<times> cst) list \<Rightarrow> bool" where
  "cst_equal (CPrim s) (CPrim s') \<longleftrightarrow> s = s'"
| "cst_equal (CStr s) (CStr s') \<longleftrightarrow> s = s'"
| "cst_equal (CArr es w) (CArr es' w') \<longleftrightarrow> n_es es = n_es es' \<and> es_equal es es'"
| "cst_equal (CObj ms w) (CObj ms' w') \<longleftrightarrow> n_ms ms = n_ms ms' \<and> ms_equal ms (ms_list ms')"
| "cst_equal c c' \<longleftrightarrow> False"
| "es_equal (ECons sep c es) (ECons sep' c' es') \<longleftrightarrow> cst_equal c c' \<and> es_equal es es'"
| "es_equal es es' \<longleftrightarrow> True"
| "ms_equal MNil kvs \<longleftrightarrow> True"
| "ms_equal (MCons sep k w1 w2 c ms) kvs \<longleftrightarrow>
     (case map_of kvs k of None \<Rightarrow> False | Some c' \<Rightarrow> cst_equal c c') \<and> ms_equal ms kvs"

lemma prim_ok_c_string: "prim_ok s \<Longrightarrow> c_string s"
  by (auto simp: prim_ok_def c_string_def list_all_iff)

lemma c_string_ws: "ws_ok w \<Longrightarrow> c_string w" and c_string_sep: "sep_ok w \<Longrightarrow> c_string w"
  by (auto simp: ws_ok_def sep_ok_def c_string_def list_all_iff)

lemma c_string_text_of: "wf_cst c \<Longrightarrow> c_string (text_of c)"
  and c_string_text_es: "wf_es b es \<Longrightarrow> c_string (text_es es)"
  and c_string_text_ms: "wf_ms b ms \<Longrightarrow> c_string (text_ms ms)"
proof (induction c and es and ms arbitrary: and b and b)
qed (auto simp: prim_ok_c_string str_ok_c_string c_string_sep c_string_ws)

lemma denotes_scalar:
  assumes "denotes buf (t # ts) c" "type_of_cst c = JSMN_PRIMITIVE \<or> type_of_cst c = JSMN_STRING"
  obtains s where "c = CPrim s \<or> c = CStr s" "slice buf (tok_start t) (tok_end t) = Some s" "c_string s"
proof -
  have "wf_cst c" using assms(1) by (simp add: denotes_def)
  then show ?thesis
    using assms that denotes_prim [of buf t ts] denotes_string [of buf t ts]
    by (cases c) (auto simp: prim_ok_c_string str_ok_c_string)
qed

lemma json_equal_scalar:
  assumes "denotes b1 ts1 c1" "denotes b2 ts2 c2" "type_of_cst c1 = JSMN_PRIMITIVE \<or> type_of_cst c1 = JSMN_STRING"
  shows "json_equal b1 ts1 b2 ts2 = Some (cst_equal c1 c2)"
proof -
  obtain t1 us1 t2 us2 where ts: "ts1 = t1 # us1" "ts2 = t2 # us2"
    using denotes_deref assms(1,2) by metis
  have ty: "tok_type t1 = type_of_cst c1" "tok_type t2 = type_of_cst c2"
    using denotes_type assms(1,2) ts by blast+
  show ?thesis
  proof (cases "type_of_cst c1 = type_of_cst c2")
    case True
    obtain s1 where s1: "c1 = CPrim s1 \<or> c1 = CStr s1" "slice b1 (tok_start t1) (tok_end t1) = Some s1" "c_string s1"
      using denotes_scalar assms(1,3) ts(1) by metis
    obtain s2 where s2: "c2 = CPrim s2 \<or> c2 = CStr s2" "slice b2 (tok_start t2) (tok_end t2) = Some s2" "c_string s2"
      using denotes_scalar assms(2,3) ts(2) True by metis
    have len: "tok_end t1 - tok_start t1 = int (length s1)" "tok_end t2 - tok_start t2 = int (length s2)"
      using length_slice [OF s1(2)] length_slice [OF s2(2)] by simp_all
    have "json_equal b1 ts1 b2 ts2 = Some (s1 = s2)"
      using True assms(3) ty s1(2,3) s2(2,3) len
      by (auto simp: json_equal.simps ts strn_eq_def)
    moreover have "cst_equal c1 c2 = (s1 = s2)" using s1(1) s2(1) True by auto
    ultimately show ?thesis by simp
  next
    case False
    then have "\<not> cst_equal c1 c2" by (cases c1; cases c2) auto
    with False ty show ?thesis by (simp add: json_equal.simps ts)
  qed
qed

lemma json_equal_mismatch:
  assumes "denotes b1 ts1 c1" "denotes b2 ts2 c2" "type_of_cst c1 \<noteq> type_of_cst c2"
  shows "json_equal b1 ts1 b2 ts2 = Some (cst_equal c1 c2)"
proof -
  obtain t1 us1 t2 us2 where ts: "ts1 = t1 # us1" "ts2 = t2 # us2"
    using denotes_deref assms(1,2) by metis
  have ty: "tok_type t1 = type_of_cst c1" "tok_type t2 = type_of_cst c2"
    using denotes_type assms(1,2) ts by blast+
  have "\<not> cst_equal c1 c2" using assms(3) by (cases c1; cases c2) auto
  with ty assms(3) show ?thesis by (simp add: json_equal.simps ts)
qed

lemma json_equal_toks:
  "wf_cst c \<Longrightarrow> denotes b2 ts2 c2 \<Longrightarrow>
     json_equal (a @ text_of c @ b) (toks_of (int (length a)) c @ rest) b2 ts2 = Some (cst_equal c c2)"
  "wf_es f es \<Longrightarrow> wf_es f2 es2 \<Longrightarrow> n_es es = n_es es2 \<Longrightarrow>
     equal_arr (n_es es) (a @ text_es es @ b) (toks_es (int (length a)) es @ rest)
       (a2 @ text_es es2 @ b2) (toks_es (int (length a2)) es2 @ rest2) = Some (es_equal es es2)"
  "wf_ms f ms \<Longrightarrow> denotes b2 ts2 (CObj ms2 wo) \<Longrightarrow>
     equal_obj (n_ms ms) (a @ text_ms ms @ b) (toks_ms (int (length a)) ms @ rest) b2 ts2 =
       Some (ms_equal ms (ms_list ms2))"
proof (induction c and f es and f ms arbitrary: a b rest b2 ts2 c2 and a b rest a2 b2 f2 es2 rest2
    and a b rest b2 ts2 ms2 wo rule: wf_cst_wf_es_wf_ms.induct)
  case (1 s)
  have "denotes (a @ text_of (CPrim s) @ b) (toks_of (int (length a)) (CPrim s) @ rest) (CPrim s)"
    using 1 by (intro denotesI) auto
  from json_equal_scalar [OF this "1.prems"(2)] show ?case by simp
next
  case (2 s)
  have "denotes (a @ text_of (CStr s) @ b) (toks_of (int (length a)) (CStr s) @ rest) (CStr s)"
    using 2 by (intro denotesI) auto
  from json_equal_scalar [OF this "2.prems"(2)] show ?case by simp
next
  case (3 es w)
  let ?b = "a @ text_of (CArr es w) @ b" and ?ts = "toks_of (int (length a)) (CArr es w) @ rest"
  have d: "denotes ?b ?ts (CArr es w)" using 3 by (intro denotesI) auto
  show ?case
  proof (cases "type_of_cst c2 = JSMN_ARRAY")
    case True
    then obtain es2 v where c2: "c2 = CArr es2 v" by (cases c2) auto
    obtain a2 r2 rest2 where b2: "b2 = (a2 @ [CHR ''['']) @ text_es es2 @ (v @ CHR '']'' # r2)"
      and ts2: "ts2 = toks_of (int (length a2)) c2 @ rest2" and wf2: "wf_es True es2"
      using "3.prems"(2) by (auto simp: denotes_def c2)
    show ?thesis
    proof (cases "n_es es = n_es es2")
      case eq: True
      have "equal_arr (n_es es) ?b (toks_es (int (length a) + 1) es @ rest) b2 (toks_es (int (length a2) + 1) es2 @ rest2) =
          Some (es_equal es es2)"
        using "3.IH" [OF _ wf2 eq, of "a @ [CHR ''['']" "w @ CHR '']'' # b" rest "a2 @ [CHR ''['']" "v @ CHR '']'' # r2" rest2]
          "3.prems"(1) b2 by (simp add: add.commute)
      then show ?thesis using eq by (simp add: json_equal.simps ts2 c2 tok_count_def)
    next
      case False
      then show ?thesis by (simp add: json_equal.simps ts2 c2 tok_count_def)
    qed
  qed (use json_equal_mismatch [OF d "3.prems"(2)] in simp)
next
  case (4 ms w)
  let ?b = "a @ text_of (CObj ms w) @ b" and ?ts = "toks_of (int (length a)) (CObj ms w) @ rest"
  have d: "denotes ?b ?ts (CObj ms w)" using 4 by (intro denotesI) auto
  show ?case
  proof (cases "type_of_cst c2 = JSMN_OBJECT")
    case True
    then obtain ms2 v where c2: "c2 = CObj ms2 v" by (cases c2) auto
    obtain a2 rest2 where ts2: "ts2 = toks_of (int (length (a2 :: string))) c2 @ rest2"
      using "4.prems"(2) unfolding denotes_def by blast
    have "equal_obj (n_ms ms) ?b (toks_ms (int (length a) + 1) ms @ rest) b2 ts2 = Some (ms_equal ms (ms_list ms2))"
      using "4.IH" [OF _ "4.prems"(2) [unfolded c2], of "a @ [CHR ''{'']" "w @ CHR ''}'' # b" rest]
        "4.prems"(1) by (simp add: add.commute)
    then show ?thesis by (auto simp: json_equal.simps ts2 c2 tok_count_def)
  qed (use json_equal_mismatch [OF d "4.prems"(2)] in simp)
next
  case (6 f sep c es)
  then obtain sep2 c2 es2' where es2: "es2 = ECons sep2 c2 es2'" by (cases es2) auto
  let ?d2 = "toks_of (int (length (a2 @ sep2))) c2 @ toks_es (int (length (a2 @ sep2 @ text_of c2))) es2' @ rest2"
  have "denotes (a2 @ text_es es2 @ b2) ?d2 c2"
    using "6.prems" es2 by (intro denotesI [where a = "a2 @ sep2" and b = "text_es es2' @ b2"]) auto
  then have "json_equal ((a @ sep) @ text_of c @ text_es es @ b)
      (toks_of (int (length (a @ sep))) c @ toks_es (int (length (a @ sep @ text_of c))) es @ rest)
      (a2 @ text_es es2 @ b2) ?d2 = Some (cst_equal c c2)"
    using "6.prems" by (intro "6.IH"(1)) auto
  moreover have "equal_arr (n_es es) ((a @ sep @ text_of c) @ text_es es @ b)
      (toks_es (int (length (a @ sep @ text_of c))) es @ rest)
      ((a2 @ sep2 @ text_of c2) @ text_es es2' @ b2) (toks_es (int (length (a2 @ sep2 @ text_of c2))) es2' @ rest2) =
      Some (es_equal es es2')"
    using "6.prems" es2 by (intro "6.IH"(2)) auto
  ultimately show ?case by (simp add: es2 add.assoc)
next
  case (8 f sep k w1 w2 c ms)
  let ?a1 = "a @ sep @ QUOTE # k @ QUOTE # w1 @ CHR '':'' # w2"
  let ?v = "toks_of (int (length ?a1)) c @ toks_ms (int (length (?a1 @ text_of c))) ms @ rest"
  have key: "slice (a @ text_ms (MCons sep k w1 w2 c ms) @ b) (int (length a) + int (length sep) + 1)
      (int (length a) + int (length sep) + 1 + int (length k)) = Some k"
    using slice_quoted [of "a @ sep" k "w1 @ CHR '':'' # w2 @ text_of c @ text_ms ms @ b"] by simp
  have rest: "equal_obj (n_ms ms) ((?a1 @ text_of c) @ text_ms ms @ b)
      (toks_ms (int (length (?a1 @ text_of c))) ms @ rest) b2 ts2 = Some (ms_equal ms (ms_list ms2))"
    using 8 by (intro "8.IH"(2)) auto
  show ?case
  proof (cases "map_of (ms_list ms2) k")
    case None
    then have "json_get_membern b2 ts2 k = Some None"
      using json_get_member_denotes [OF "8.prems"(2), of k] by (simp add: json_get_member_def)
    then show ?thesis using None key by simp
  next
    case (Some c')
    then obtain ts' where get: "json_get_membern b2 ts2 k = Some (Some ts')" and d: "denotes b2 ts' c'"
      using json_get_member_denotes [OF "8.prems"(2), of k] by (auto simp: json_get_member_def inner_denotes)
    have "json_equal (?a1 @ text_of c @ text_ms ms @ b) ?v b2 ts' = Some (cst_equal c c')"
      using "8.prems" d by (intro "8.IH"(1)) auto
    then show ?thesis using Some key get rest by (simp add: algebra_simps)
  qed
qed simp_all

lemma json_equal_denotes:
  assumes "denotes b1 ts1 c1" "denotes b2 ts2 c2"
  shows "json_equal b1 ts1 b2 ts2 = Some (cst_equal c1 c2)"
  using assms json_equal_toks(1) by (metis denotes_def)

subsection \<open>The JSON value\<close>

text \<open>
  What a layout tree says: objects are maps, the first member with a key counts. Strings are
  compared as they are written.
\<close>

datatype jval = JPrim string | JStr string | JArr "jval list" | JObj "(string, jval) fmap"

fun jval_of :: "cst \<Rightarrow> jval"
  and jvals_es :: "celems \<Rightarrow> jval list"
  and jvals_ms :: "cmembers \<Rightarrow> (string \<times> jval) list" where
  "jval_of (CPrim s) = JPrim s"
| "jval_of (CStr s) = JStr s"
| "jval_of (CArr es w) = JArr (jvals_es es)"
| "jval_of (CObj ms w) = JObj (fmap_of_list (jvals_ms ms))"
| "jvals_es ENil = []"
| "jvals_es (ECons sep c es) = jval_of c # jvals_es es"
| "jvals_ms MNil = []"
| "jvals_ms (MCons sep k w1 w2 c ms) = (k, jval_of c) # jvals_ms ms"

fun no_dup :: "cst \<Rightarrow> bool"
  and no_dup_es :: "celems \<Rightarrow> bool"
  and no_dup_ms :: "cmembers \<Rightarrow> bool" where
  "no_dup (CArr es w) \<longleftrightarrow> no_dup_es es"
| "no_dup (CObj ms w) \<longleftrightarrow> distinct (map fst (ms_list ms)) \<and> no_dup_ms ms"
| "no_dup c \<longleftrightarrow> True"
| "no_dup_es ENil \<longleftrightarrow> True"
| "no_dup_es (ECons sep c es) \<longleftrightarrow> no_dup c \<and> no_dup_es es"
| "no_dup_ms MNil \<longleftrightarrow> True"
| "no_dup_ms (MCons sep k w1 w2 c ms) \<longleftrightarrow> no_dup c \<and> no_dup_ms ms"

lemma jvals_ms_map: "jvals_ms ms = map (\<lambda>(k, c). (k, jval_of c)) (ms_list ms)"
  by (induction ms rule: ms_list.induct) auto

lemma length_jvals_es: "length (jvals_es es) = n_es es"
  by (induction es rule: n_es.induct) auto

lemma map_of_jvals_ms: "map_of (jvals_ms ms) k = map_option jval_of (map_of (ms_list ms) k)"
  by (induction ms rule: ms_list.induct) auto

lemma no_dup_map_of: "no_dup_ms ms \<Longrightarrow> map_of (ms_list ms) k = Some c \<Longrightarrow> no_dup c"
  by (induction ms rule: ms_list.induct) (auto split: if_splits)

text \<open>A map included in another with a domain that is not larger is that map.\<close>

lemma map_le_card_eq:
  assumes "m \<subseteq>\<^sub>m m'" "finite (dom m')" "card (dom m') \<le> card (dom m)"
  shows "m = m'"
proof -
  have "dom m \<subseteq> dom m'" using assms(1) by (rule map_le_implies_dom_le)
  then have "dom m = dom m'" using assms by (metis card_seteq)
  then show ?thesis using assms(1) by (metis map_le_antisym map_le_def)
qed

lemma card_dom_members: "distinct (map fst (ms_list ms)) \<Longrightarrow> card (dom (map_of (jvals_ms ms))) = n_ms ms"
proof -
  assume d: "distinct (map fst (ms_list ms))"
  have "map fst (jvals_ms ms) = map fst (ms_list ms)" by (simp add: jvals_ms_map comp_def split_beta)
  then have "dom (map_of (jvals_ms ms)) = set (map fst (ms_list ms))"
    by (metis dom_map_of_conv_image_fst list.set_map)
  then show ?thesis using distinct_card [OF d] by simp
qed

lemma members_equal_iff:
  assumes "distinct (map fst (ms_list ms))" "distinct (map fst (ms_list ms'))"
  shows "fmap_of_list (jvals_ms ms) = fmap_of_list (jvals_ms ms') \<longleftrightarrow>
    n_ms ms = n_ms ms' \<and> map_of (jvals_ms ms) \<subseteq>\<^sub>m map_of (jvals_ms ms')"
proof -
  have "fmap_of_list (jvals_ms ms) = fmap_of_list (jvals_ms ms') \<longleftrightarrow> map_of (jvals_ms ms) = map_of (jvals_ms ms')"
    by (metis fmap_of_list.rep_eq fmlookup_inject)
  moreover have "map_of (jvals_ms ms) = map_of (jvals_ms ms') \<longleftrightarrow>
      n_ms ms = n_ms ms' \<and> map_of (jvals_ms ms) \<subseteq>\<^sub>m map_of (jvals_ms ms')"
    using card_dom_members [OF assms(1)] card_dom_members [OF assms(2)]
      map_le_card_eq [of "map_of (jvals_ms ms)" "map_of (jvals_ms ms')"] finite_dom_map_of [of "jvals_ms ms'"]
    by (metis map_le_refl order_refl)
  ultimately show ?thesis by simp
qed

lemma cst_equal_jval:
  "no_dup c \<Longrightarrow> no_dup c' \<Longrightarrow> cst_equal c c' \<longleftrightarrow> jval_of c = jval_of c'"
  "no_dup_es es \<Longrightarrow> no_dup_es es' \<Longrightarrow> n_es es = n_es es' \<Longrightarrow> es_equal es es' \<longleftrightarrow> jvals_es es = jvals_es es'"
  "no_dup_ms ms \<Longrightarrow> distinct (map fst (ms_list ms)) \<Longrightarrow> no_dup_ms ms' \<Longrightarrow>
     ms_equal ms (ms_list ms') \<longleftrightarrow> map_of (jvals_ms ms) \<subseteq>\<^sub>m map_of (jvals_ms ms')"
proof (induction c and es and ms arbitrary: c' and es' and ms')
  case (CPrim s)
  then show ?case by (cases c') auto
next
  case (CStr s)
  then show ?case by (cases c') auto
next
  case ENil
  then show ?case by (cases es') auto
next
  case (CArr es w)
  then show ?case
    using length_jvals_es by (cases c') (auto, metis+)
next
  case (CObj ms w)
  show ?case
  proof (cases c')
    case c': (CObj ms' w')
    have "ms_equal ms (ms_list ms') \<longleftrightarrow> map_of (jvals_ms ms) \<subseteq>\<^sub>m map_of (jvals_ms ms')"
      using CObj c' by auto
    then show ?thesis
      using members_equal_iff [of ms ms'] CObj c' by simp
  qed auto
next
  case (ECons sep c es)
  then show ?case by (cases es') auto
next
  case (MCons sep k w1 w2 c ms)
  have "k \<notin> fst ` set (ms_list ms)" using MCons.prems by simp
  then have k: "map_of (jvals_ms ms) k = None"
    by (simp add: map_of_jvals_ms map_of_eq_None_iff)
  have "(case map_of (ms_list ms') k of None \<Rightarrow> False | Some c' \<Rightarrow> cst_equal c c') \<longleftrightarrow>
      map_of (jvals_ms ms') k = Some (jval_of c)"
    using MCons.IH(1) MCons.prems no_dup_map_of [of ms' k] by (auto simp: map_of_jvals_ms split: option.splits)
  moreover have "ms_equal ms (ms_list ms') \<longleftrightarrow> map_of (jvals_ms ms) \<subseteq>\<^sub>m map_of (jvals_ms ms')"
    using MCons by auto
  ultimately show ?case
    using k by (auto simp: map_le_def dom_def split: if_splits) 
qed auto

end
