(* ===== verification/Param.thy ===== *)
theory Param
  imports Parsing Ec Json_Equal Libplugin
begin

text \<open>
  \<open>common/param.c\<close>, \<open>common/json_tok.c\<close> and the parameter readers of \<open>plugins/payz/parsing.c\<close>: how a command
  takes its parameters, by position or by name. A reader either fails, with the error reply already
  queued (\<open>Inl\<close>), or yields a value (\<open>Inr\<close>); \<open>param\<close> returns the values in the order of the
  declarations, \<open>None\<close> for an optional parameter that was not given.
\<close>

definition JSONRPC2_INVALID_PARAMS :: u32 where
  "JSONRPC2_INVALID_PARAMS = word_of_int (- 32602)"

type_synonym ('r, 'a) reading = "((command_result \<times> 'r plugin) + 'a) run"
type_synonym ('r, 'a) reader = "'r plugin \<Rightarrow> command \<Rightarrow> string \<Rightarrow> string \<Rightarrow> tokptr \<Rightarrow> ('r, 'a) reading"

definition fail_reading :: "(command_result \<times> 'r plugin) run \<Rightarrow> ('r, 'a) reading" where
  "fail_reading r = do { x \<leftarrow> r; Some (Inl x) }"

definition command_fail_badparam ::
  "'r plugin \<Rightarrow> command \<Rightarrow> string \<Rightarrow> string \<Rightarrow> tokptr \<Rightarrow> string \<Rightarrow> (command_result \<times> 'r plugin) run" where
  "command_fail_badparam p cmd paramname buffer tok msg = do {
     text \<leftarrow> full_str buffer tok;
     command_fail p cmd JSONRPC2_INVALID_PARAMS
       (paramname @ '': '' @ msg @ '': invalid token '' @ CHR 0x27 # text @ [CHR 0x27]) }"

subsection \<open>Readers\<close>

definition param_array :: "('r, tokptr) reader" where
  "param_array p cmd name buffer tok = do {
     t \<leftarrow> deref tok;
     if tok_type t = JSMN_ARRAY then Some (Inr tok)
     else fail_reading (command_fail_badparam p cmd name buffer tok ''should be an array'') }"

definition param_string :: "('r, string) reader" where
  "param_string p cmd name buffer tok = do {
     t \<leftarrow> deref tok;
     s \<leftarrow> slice buffer (tok_start t) (tok_end t);
     Some (Inr (tal_strndup s)) }"

definition param_number :: "bool \<Rightarrow> ('r, u32) reader" where
  "param_number erange p cmd name buffer tok = do {
     t \<leftarrow> deref tok;
     n \<leftarrow> json_to_number erange buffer t;
     case n of
       Some num \<Rightarrow> Some (Inr num)
     | None \<Rightarrow> fail_reading (command_fail_badparam p cmd name buffer tok ''should be an integer'') }"

definition param_array_of_strings :: "('r, string list) reader" where
  "param_array_of_strings p cmd name buffer tok = do {
     arr \<leftarrow> json_to_array_of_strings buffer tok;
     case arr of
       Some ss \<Rightarrow> Some (Inr ss)
     | None \<Rightarrow> fail_reading (command_fail_badparam p cmd name buffer tok ''should be an array of strings.'') }"

definition as_value :: "('a \<Rightarrow> 'v) \<Rightarrow> ('r, 'a) reader \<Rightarrow> ('r, 'v) reader" where
  "as_value h rd p cmd name buffer tok = do {
     r \<leftarrow> rd p cmd name buffer tok;
     Some (case r of Inl x \<Rightarrow> Inl x | Inr a \<Rightarrow> Inr (h a)) }"

subsection \<open>Declarations and dispatch\<close>

record ('r, 'v) param =
  pname :: string
  prequired :: bool
  pcbx :: "('r, 'v) reader"

definition p_req :: "string \<Rightarrow> ('r, 'v) reader \<Rightarrow> ('r, 'v) param" where
  "p_req name cbx = \<lparr>pname = name, prequired = True, pcbx = cbx\<rparr>"

definition p_opt :: "string \<Rightarrow> ('r, 'v) reader \<Rightarrow> ('r, 'v) param" where
  "p_opt name cbx = \<lparr>pname = name, prequired = False, pcbx = cbx\<rparr>"

type_synonym 'v pvals = "'v option list"

fun post_check :: "'r plugin \<Rightarrow> command \<Rightarrow> ('r, 'v) param list \<Rightarrow> 'v pvals \<Rightarrow> ('r, unit) reading" where
  "post_check p cmd (d # ds) (v # vs) =
     (if \<not> prequired d then Some (Inr ())
      else if v = None then
        fail_reading (command_fail p cmd JSONRPC2_INVALID_PARAMS (''missing required parameter: '' @ pname d))
      else post_check p cmd ds vs)"
| "post_check p cmd _ _ = Some (Inr ())"

definition checked :: "'r plugin \<Rightarrow> command \<Rightarrow> ('r, 'v) param list \<Rightarrow> 'v pvals \<Rightarrow> ('r, 'v pvals) reading" where
  "checked p cmd params vals = do {
     r \<leftarrow> post_check p cmd params vals;
     Some (case r of Inl x \<Rightarrow> Inl x | Inr _ \<Rightarrow> Inr vals) }"

definition position_body ::
  "'r plugin \<Rightarrow> command \<Rightarrow> ('r, 'v) param list \<Rightarrow> string \<Rightarrow> bool \<Rightarrow> nat \<Rightarrow>
   tokptr \<Rightarrow> nat \<times> 'v pvals \<Rightarrow> (((command_result \<times> 'r plugin) + 'v pvals) + (nat \<times> 'v pvals)) run" where
  "position_body p cmd params buffer allow_extra got tok st = (
     let (i, vals) = st in
     if i = length params then
       (if \<not> allow_extra then do {
          r \<leftarrow> command_fail p cmd JSONRPC2_INVALID_PARAMS
            (''too many parameters: got '' @ dec_of_nat got @ '', expected '' @ dec_of_nat (length params));
          Some (Inl (Inl r)) }
        else do { r \<leftarrow> checked p cmd params vals; Some (Inl r) })
     else do {
       t \<leftarrow> deref tok;
       null \<leftarrow> json_tok_is_null buffer t;
       if null then Some (Inr (Suc i, vals))
       else do {
         r \<leftarrow> pcbx (params ! i) p cmd (pname (params ! i)) buffer tok;
         Some (case r of Inl x \<Rightarrow> Inl (Inl x) | Inr v \<Rightarrow> Inr (Suc i, vals[i := Some v])) } })"

definition parse_by_position ::
  "'r plugin \<Rightarrow> command \<Rightarrow> ('r, 'v) param list \<Rightarrow> string \<Rightarrow> tokptr \<Rightarrow> bool \<Rightarrow> ('r, 'v pvals) reading" where
  "parse_by_position p cmd params buffer tokens allow_extra = do {
     t \<leftarrow> deref tokens;
     got \<leftarrow> tok_count t;
     after_loop (json_for_each_arr tokens (position_body p cmd params buffer allow_extra got)
                   (0, replicate (length params) None))
       (\<lambda>(i, vals). checked p cmd params vals) }"

fun find_param :: "('r, 'v) param list \<Rightarrow> string \<Rightarrow> nat \<Rightarrow> nat option" where
  "find_param [] start i = None"
| "find_param (d # ds) start i =
     (if strn_eq (take (length start) (pname d)) start \<and> length (pname d) = length start then Some i
      else find_param ds start (Suc i))"

definition name_body ::
  "'r plugin \<Rightarrow> command \<Rightarrow> ('r, 'v) param list \<Rightarrow> string \<Rightarrow> bool \<Rightarrow>
   tokptr \<Rightarrow> 'v pvals \<Rightarrow> (((command_result \<times> 'r plugin) + 'v pvals) + 'v pvals) run" where
  "name_body p cmd params buffer allow_extra tok vals = do {
     t \<leftarrow> deref tok;
     label \<leftarrow> slice buffer (tok_start t) (tok_end t);
     case find_param params label 0 of
       None \<Rightarrow>
         if \<not> allow_extra then do {
           r \<leftarrow> command_fail p cmd JSONRPC2_INVALID_PARAMS
             (''unknown parameter: '' @ tal_strndup label @ '', this may be caused by a failure to autodetect key=value-style parameters. Please try using the -k flag and explicit key=value pairs of parameters.'');
           Some (Inl (Inl r)) }
         else Some (Inr vals)
     | Some i \<Rightarrow>
         if vals ! i \<noteq> None then do {
           r \<leftarrow> command_fail p cmd JSONRPC2_INVALID_PARAMS (''duplicate json names: '' @ pname (params ! i));
           Some (Inl (Inl r)) }
         else do {
           r \<leftarrow> pcbx (params ! i) p cmd (pname (params ! i)) buffer (tl tok);
           Some (case r of Inl x \<Rightarrow> Inl (Inl x) | Inr v \<Rightarrow> Inr (vals[i := Some v])) } }"

definition parse_by_name ::
  "'r plugin \<Rightarrow> command \<Rightarrow> ('r, 'v) param list \<Rightarrow> string \<Rightarrow> tokptr \<Rightarrow> bool \<Rightarrow> ('r, 'v pvals) reading" where
  "parse_by_name p cmd params buffer tokens allow_extra =
     after_loop (json_for_each_obj tokens (name_body p cmd params buffer allow_extra)
                   (replicate (length params) None))
       (\<lambda>vals. checked p cmd params vals)"

definition param_arr ::
  "'r plugin \<Rightarrow> command \<Rightarrow> string \<Rightarrow> tokptr \<Rightarrow> ('r, 'v) param list \<Rightarrow> bool \<Rightarrow> ('r, 'v pvals) reading" where
  "param_arr p cmd buffer tokens params allow_extra = do {
     t \<leftarrow> deref tokens;
     if tok_type t = JSMN_ARRAY then parse_by_position p cmd params buffer tokens allow_extra
     else if tok_type t = JSMN_OBJECT then parse_by_name p cmd params buffer tokens allow_extra
     else fail_reading (command_fail p cmd JSONRPC2_INVALID_PARAMS ''Expected array or object for params'') }"

fun param_usage :: "bool \<Rightarrow> ('r, 'v) param list \<Rightarrow> string" where
  "param_usage first [] = []"
| "param_usage first (d # ds) =
     (if first then [] else '' '') @ (if prequired d then pname d else CHR ''['' # pname d @ '']'') @ param_usage False ds"

text \<open>\<open>plugin_err\<close> (two usages for one command) ends the process.\<close>

definition command_set_usage :: "'r plugin \<Rightarrow> command \<Rightarrow> string \<Rightarrow> 'r plugin run" where
  "command_set_usage p cmd usage = (
     let (added, m) = strmap_add (usagemap p) (methodname cmd) usage
     in if added then Some (p\<lparr>usagemap := m\<rparr>) else None)"

text \<open>
  \<open>param\<close> with the declarations as a list; \<open>Inl\<close> is the answer false, with the plugin after the reply or the
  usage text was stored. No caller in these sources declares \<open>p_opt_any\<close>, which sets
  \<open>allow_extra\<close>.
\<close>

definition param :: "'r plugin \<Rightarrow> command \<Rightarrow> string \<Rightarrow> tokptr \<Rightarrow> ('r, 'v) param list \<Rightarrow> bool \<Rightarrow> ('r plugin + 'v pvals) run" where
  "param p cmd buffer tokens params allow_extra =
     (if usage_only cmd then do {
        p' \<leftarrow> command_set_usage p cmd (param_usage True params);
        Some (Inl p') }
      else do {
        r \<leftarrow> param_arr p cmd buffer tokens params allow_extra;
        Some (case r of Inl (_, p') \<Rightarrow> Inl p' | Inr vals \<Rightarrow> Inr vals) })"


subsection \<open>Parameters by name\<close>

lemma strn_eq_name: "c_string name \<Longrightarrow> c_string start \<Longrightarrow>
    strn_eq (take (length start) name) start \<and> length name = length start \<longleftrightarrow> name = start"
  by (auto simp: strn_eq_def)

lemma find_param_nth:
  "distinct (map pname ds) \<Longrightarrow> list_all (\<lambda>d. c_string (pname d)) ds \<Longrightarrow> i < length ds \<Longrightarrow>
   find_param ds (pname (ds ! i)) j = Some (j + i)"
proof (induction ds arbitrary: i j)
  case (Cons d ds)
  show ?case
  proof (cases i)
    case (Suc k)
    then have "pname d \<noteq> pname (ds ! k)" "c_string (pname (ds ! k))" using Cons.prems by (auto simp: list_all_length)
    then show ?thesis using Cons Suc strn_eq_name [of "pname d" "pname (ds ! k)"] by auto
  qed (use Cons.prems in \<open>simp add: strn_eq_def\<close>)
qed simp

lemma post_check_ok:
  "list_all2 (\<lambda>d v. prequired d \<longrightarrow> v \<noteq> None) ds vs \<Longrightarrow> post_check p cmd ds vs = Some (Inr ())"
  by (induction rule: list_all2_induct) auto

definition reads :: "('r, 'v) param \<Rightarrow> string \<Rightarrow> cst \<Rightarrow> 'v \<Rightarrow> bool" where
  "reads d buf c v \<longleftrightarrow> (\<forall>p cmd ts. inner buf ts c \<longrightarrow> pcbx d p cmd (pname d) buf ts = Some (Inr v))"

lemma early_name_body:
  assumes "distinct (map pname params)" "list_all (\<lambda>d. c_string (pname d)) params"
    and "list_all2 (denotes_member buf) ptrs ms" "distinct (map fst ms)"
    and "\<forall>(k, c)\<in>set ms. \<exists>d\<in>set params. pname d = k \<and> reads d buf c (val k c)"
    and "\<forall>d\<in>set params. pname d \<in> fst ` set ms \<longrightarrow> g d = None"
  shows "early (name_body p cmd params buf allow) ptrs (map g params) =
    Some (Inr (map (\<lambda>d. case map_of ms (pname d) of None \<Rightarrow> g d | Some c \<Rightarrow> Some (val (pname d) c)) params))"
  using assms(3-6)
proof (induction ptrs ms arbitrary: g rule: list_all2_induct)
  case (Cons ptr ptrs m ms)
  obtain k c where m: "m = (k, c)" by (cases m)
  obtain d where d: "d \<in> set params" "pname d = k" "reads d buf c (val k c)" using Cons.prems(2) m by auto
  then obtain i where i: "i < length params" "params ! i = d" by (auto simp: in_set_conv_nth)
  obtain t us where ptr: "ptr = t # us" "slice buf (tok_start t) (tok_end t) = Some k" "inner buf us c"
    using Cons.hyps(1) m by (auto simp: denotes_member_def)
  let ?g = "\<lambda>d'. if pname d' = k then Some (val k c) else g d'"
  have find: "find_param params k 0 = Some i" using find_param_nth [OF assms(1,2) i(1), of 0] d(2) i(2) by simp
  have none: "g d = None" using Cons.prems(3) d m by auto
  have upd: "(map g params)[i := Some (val k c)] = map ?g params"
  proof (rule nth_equalityI)
    fix j assume "j < length ((map g params)[i := Some (val k c)])"
    then have j: "j < length params" by simp
    have "pname (params ! j) = k \<longleftrightarrow> j = i" using nth_eq_iff_index_eq [OF assms(1), of j i] j i d(2) by simp
    then show "(map g params)[i := Some (val k c)] ! j = map ?g params ! j" using j i(1) by (auto simp: nth_list_update)
  qed simp
  have body: "name_body p cmd params buf allow ptr (map g params) = Some (Inr (map ?g params))"
    using d(3) ptr none i by (simp add: name_body_def find reads_def upd)
  have "early (name_body p cmd params buf allow) ptrs (map ?g params) =
      Some (Inr (map (\<lambda>d. case map_of ms (pname d) of None \<Rightarrow> ?g d | Some c \<Rightarrow> Some (val (pname d) c)) params))"
    using Cons.prems m by (intro Cons.IH) (auto simp: image_iff)
  moreover have "map_of ms k = None" using Cons.prems(1) m by (simp add: map_of_eq_None_iff)
  ultimately show ?case
    by (auto simp: body m split: option.splits intro!: map_cong)
qed (simp add: comp_def)

lemma param_by_name:
  assumes "\<not> usage_only cmd" "denotes buf ts (CObj ms w)"
    and "distinct (map pname params)" "list_all (\<lambda>d. c_string (pname d)) params"
    and "distinct (map fst (ms_list ms))"
    and "\<forall>(k, c)\<in>set (ms_list ms). \<exists>d\<in>set params. pname d = k \<and> reads d buf c (val k c)"
    and "\<forall>d\<in>set params. prequired d \<longrightarrow> pname d \<in> fst ` set (ms_list ms)"
  shows "param p cmd buf ts params allow =
    Some (Inr (map (\<lambda>d. map_option (val (pname d)) (map_of (ms_list ms) (pname d))) params))"
proof -
  let ?vals = "map (\<lambda>d. map_option (val (pname d)) (map_of (ms_list ms) (pname d))) params"
  obtain t us where ts: "ts = t # us" using denotes_deref [OF assms(2)] by blast
  have ty: "tok_type t = JSMN_OBJECT" using denotes_type [OF assms(2) [unfolded ts]] by simp
  obtain ptrs where ptrs: "list_all2 (denotes_member buf) ptrs (ms_list ms)"
    and loop: "\<forall>(f :: tokptr \<Rightarrow> 'b pvals \<Rightarrow> (((command_result \<times> 'a plugin) + 'b pvals) + 'b pvals) run) s. json_for_each_obj ts f s = early f ptrs s"
    using json_for_each_obj_denotes [OF assms(2)] by blast
  have "early (name_body p cmd params buf allow) ptrs (map (\<lambda>_. None) params) =
      Some (Inr (map (\<lambda>d. case map_of (ms_list ms) (pname d) of None \<Rightarrow> None | Some c \<Rightarrow> Some (val (pname d) c)) params))"
    by (rule early_name_body [OF assms(3,4) ptrs assms(5,6)]) simp
  then have "early (name_body p cmd params buf allow) ptrs (replicate (length params) None) = Some (Inr ?vals)"
    by (simp add: map_replicate_const map_option_case)
  moreover have "post_check p cmd params ?vals = Some (Inr ())"
    using assms(7) by (intro post_check_ok) (auto simp: list_all2_conv_all_nth, metis map_of_eq_None_iff nth_mem not_None_eq)
  ultimately have "parse_by_name p cmd params buf ts allow = Some (Inr ?vals)"
    by (simp add: parse_by_name_def loop after_loop_def checked_def)
  then show ?thesis
    using assms(1) ty by (simp add: param_def param_arr_def ts)
qed


subsection \<open>Every well-formed parameter text is answered\<close>

text \<open>The outcome of a loop or a reader: it does not fault, an early result satisfies \<open>J\<close>, a normal one \<open>I\<close>.\<close>

definition outcome :: "('r \<Rightarrow> bool) \<Rightarrow> ('s \<Rightarrow> bool) \<Rightarrow> ('r + 's) run \<Rightarrow> bool" where
  "outcome J I x \<longleftrightarrow> (case x of None \<Rightarrow> False | Some (Inl r) \<Rightarrow> J r | Some (Inr s) \<Rightarrow> I s)"

lemma outcome_simps [simp]:
  "\<not> outcome J I None" "outcome J I (Some (Inl r)) \<longleftrightarrow> J r" "outcome J I (Some (Inr s)) \<longleftrightarrow> I s"
  by (simp_all add: outcome_def)

lemma outcomeE:
  assumes "outcome J I x"
  obtains (early) r where "x = Some (Inl r)" "J r" | (normal) s where "x = Some (Inr s)" "I s"
  using assms by (auto simp: outcome_def split: option.splits sum.splits)

lemma outcome_early:
  assumes "list_all2 R ptrs xs" "I s" "\<And>ptr x s. R ptr x \<Longrightarrow> I s \<Longrightarrow> outcome J I (f ptr s)"
  shows "outcome J I (early f ptrs s)"
  using assms(1,2)
proof (induction arbitrary: s rule: list_all2_induct)
  case (Cons ptr ptrs x xs)
  from assms(3) [OF Cons.hyps(1) Cons.prems] show ?case
    by (cases rule: outcomeE) (auto intro: Cons.IH)
qed simp

definition failed :: "command \<Rightarrow> 'r plugin \<Rightarrow> command_result \<times> 'r plugin \<Rightarrow> bool" where
  "failed cmd p r \<longleftrightarrow> fst r = COMPLETE \<and> (\<exists>rid code msg. cmd_id cmd = Some rid \<and> c_string msg \<and>
     snd r = p\<lparr>js_arr := js_arr p @ [error_reply rid code msg]\<rparr>)"

definition good_reader :: "command \<Rightarrow> string \<Rightarrow> ('v \<Rightarrow> bool) \<Rightarrow> ('r, 'v) reader \<Rightarrow> bool" where
  "good_reader cmd buf Q rd \<longleftrightarrow> (\<forall>p name ts c. inner buf ts c \<longrightarrow> outcome (failed cmd p) Q (rd p cmd name buf ts))"

lemma good_readerI:
  "(\<And>p name ts c. inner buf ts c \<Longrightarrow> outcome (failed cmd p) Q (rd p cmd name buf ts)) \<Longrightarrow> good_reader cmd buf Q rd"
  by (simp add: good_reader_def)

lemma failed_command_fail:
  "cmd_id cmd = Some rid \<Longrightarrow> \<exists>r. command_fail p cmd code msg = Some r \<and> failed cmd p r"
  by (auto simp: command_fail_reply failed_def) (metis c_string_tal_strndup)

lemma outcome_fail: "cmd_id cmd = Some rid \<Longrightarrow> outcome (failed cmd p) Q (fail_reading (command_fail p cmd code msg))"
  using failed_command_fail [of cmd rid p code msg] by (auto simp: fail_reading_def)

lemma outcome_badparam:
  "cmd_id cmd = Some rid \<Longrightarrow> denotes buf ts c \<Longrightarrow>
   outcome (failed cmd p) Q (fail_reading (command_fail_badparam p cmd name buf ts msg))"
  by (simp add: command_fail_badparam_def denotes_full_str outcome_fail)

lemma outcome_as_value: "outcome J (\<lambda>a. Q (h a)) (rd p cmd name buf ts) \<Longrightarrow> outcome J Q (as_value h rd p cmd name buf ts)"
  by (erule outcomeE) (simp_all add: as_value_def)

lemma good_as_value: "good_reader cmd buf (\<lambda>a. Q (h a)) rd \<Longrightarrow> good_reader cmd buf Q (as_value h rd)"
  by (simp add: good_reader_def outcome_as_value)

lemma good_param_number:
  assumes "cmd_id cmd = Some rid"
  shows "good_reader cmd buf (\<lambda>_. True) (param_number erange)"
proof (rule good_readerI)
  fix p name ts c assume i: "inner buf ts c"
  then obtain t us where ts: "ts = t # us" using denotes_deref [OF inner_denotes] by blast
  show "outcome (failed cmd p) (\<lambda>_. True) (param_number erange p cmd name buf ts)"
    using outcome_badparam [OF assms inner_denotes [OF i]] json_to_number_total [of buf t us c erange] i ts
    by (auto simp: param_number_def split: option.splits)
qed

lemma good_param_array_of_strings:
  assumes "cmd_id cmd = Some rid"
  shows "good_reader cmd buf (list_all (\<lambda>s. utf8_check s \<and> c_string s)) param_array_of_strings"
proof (rule good_readerI)
  fix p name ts c assume i: "inner buf ts c"
  have wf: "wf_cst c" using i by (simp add: inner_def)
  show "outcome (failed cmd p) (list_all (\<lambda>s. utf8_check s \<and> c_string s)) (param_array_of_strings p cmd name buf ts)"
    using outcome_badparam [OF assms inner_denotes [OF i]] json_to_array_of_strings_denotes [OF inner_denotes [OF i]]
      strings_of_cst_utf8 [OF wf]
    by (cases "strings_of_cst c") (auto simp: param_array_of_strings_def list_all_iff)
qed

lemma denotes_slice:
  assumes "denotes buf (t # ts) c"
  shows "\<exists>s. slice buf (tok_start t) (tok_end t) = Some s"
proof (cases "tok_type t = JSMN_STRING")
  case True
  then obtain s where "c = CStr s" using denotes_type [OF assms] by (cases c) auto
  then show ?thesis using denotes_string assms by blast
next
  case False
  then show ?thesis using denotes_full_text [OF assms] by (simp add: full_text_def json_tok_full_def json_tok_full_len_def)
qed

lemma good_param_string: "good_reader cmd buf c_string param_string"
proof (rule good_readerI)
  fix p :: "'r plugin" and name ts c assume i: "inner buf ts c"
  then obtain t us where ts: "ts = t # us" using denotes_deref [OF inner_denotes] by blast
  obtain s where "slice buf (tok_start t) (tok_end t) = Some s"
    using denotes_slice [OF inner_denotes [OF i [unfolded ts]]] by blast
  then show "outcome (failed cmd p) c_string (param_string p cmd name buf ts)" by (simp add: param_string_def ts)
qed

definition req_first :: "('r, 'v) param list \<Rightarrow> bool" where
  "req_first ds \<longleftrightarrow> list_all (\<lambda>d. \<not> prequired d) (dropWhile prequired ds)"

definition vals_ok :: "('r, 'v) param list \<Rightarrow> (nat \<Rightarrow> 'v \<Rightarrow> bool) \<Rightarrow> 'v pvals \<Rightarrow> bool" where
  "vals_ok ds Q vals \<longleftrightarrow> length vals = length ds \<and> (\<forall>i<length ds. \<forall>v. vals ! i = Some v \<longrightarrow> Q i v)"

lemma vals_ok_none: "vals_ok ds Q (replicate (length ds) None)"
  by (simp add: vals_ok_def)

lemma vals_ok_update: "vals_ok ds Q vals \<Longrightarrow> i < length ds \<Longrightarrow> Q i v \<Longrightarrow> vals_ok ds Q (vals[i := Some v])"
  by (auto simp: vals_ok_def nth_list_update)

lemma post_check_outcome:
  assumes "cmd_id cmd = Some rid" "length vs = length ds"
  shows "outcome (failed cmd p) (\<lambda>_. list_all2 (\<lambda>d v. prequired d \<longrightarrow> v \<noteq> None)
      (takeWhile prequired ds) (take (length (takeWhile prequired ds)) vs)) (post_check p cmd ds vs)"
  using assms(2)
proof (induction ds arbitrary: vs)
  case (Cons d ds)
  then obtain v vs' where vs: "vs = v # vs'" by (cases vs) auto
  show ?case using Cons outcome_fail [OF assms(1)] by (auto simp: vs)
qed simp

lemma find_param_less: "find_param ds s j = Some i \<Longrightarrow> j \<le> i \<and> i < j + length ds"
  by (induction ds s j rule: find_param.induct) (auto split: if_splits)


definition all_good :: "command \<Rightarrow> string \<Rightarrow> (nat \<Rightarrow> 'v \<Rightarrow> bool) \<Rightarrow> ('r, 'v) param list \<Rightarrow> bool" where
  "all_good cmd buf Q ds \<longleftrightarrow> (\<forall>i<length ds. good_reader cmd buf (Q i) (pcbx (ds ! i)))"

lemma all_goodD:
  "all_good cmd buf Q ds \<Longrightarrow> i < length ds \<Longrightarrow> inner buf ts c \<Longrightarrow>
   outcome (failed cmd p) (Q i) (pcbx (ds ! i) p cmd name buf ts)"
  unfolding all_good_def good_reader_def by blast

lemma outcome_fail_body:
  "cmd_id cmd = Some rid \<Longrightarrow>
   outcome (\<lambda>r. \<exists>x. r = Inl x \<and> failed cmd p x) I (do { r \<leftarrow> command_fail p cmd code msg; Some (Inl (Inl r)) })"
  using failed_command_fail [of cmd rid p code msg] by auto

lemma req_first_takeWhile:
  "req_first ds \<Longrightarrow> i < length ds \<Longrightarrow> prequired (ds ! i) \<Longrightarrow> i < length (takeWhile prequired ds)"
proof (induction ds arbitrary: i)
  case (Cons d ds)
  then show ?case by (cases "prequired d"; cases i) (auto simp: req_first_def list_all_length)
qed simp

lemma name_body_outcome:
  assumes "cmd_id cmd = Some rid" "all_good cmd buf Q ds" "denotes_member buf ptr m" "vals_ok ds Q vals"
  shows "outcome (\<lambda>r. \<exists>x. r = Inl x \<and> failed cmd p x) (vals_ok ds Q) (name_body p cmd ds buf False ptr vals)"
proof -
  obtain t us where ptr: "ptr = t # us" "slice buf (tok_start t) (tok_end t) = Some (fst m)" "inner buf us (snd m)"
    using assms(3) by (auto simp: denotes_member_def)
  note fail = outcome_fail_body [OF assms(1), of p]
  show ?thesis
  proof (cases "find_param ds (fst m) 0")
    case None
    then show ?thesis using fail by (simp add: name_body_def ptr)
  next
    case (Some i)
    then have i: "i < length ds" using find_param_less by fastforce
    show ?thesis
    proof (cases "vals ! i = None")
      case True
      from all_goodD [OF assms(2) i ptr(3), of p "pname (ds ! i)"] show ?thesis
        by (cases rule: outcomeE) (use Some True i assms(4) in \<open>auto simp: name_body_def ptr vals_ok_update\<close>)
    next
      case False
      then show ?thesis using Some fail by (simp add: name_body_def ptr)
    qed
  qed
qed

lemma position_body_outcome:
  assumes "cmd_id cmd = Some rid" "all_good cmd buf Q ds" "inner buf ptr c" "fst st \<le> length ds \<and> vals_ok ds Q (snd st)"
  shows "outcome (\<lambda>r. \<exists>x. r = Inl x \<and> failed cmd p x) (\<lambda>st. fst st \<le> length ds \<and> vals_ok ds Q (snd st))
    (position_body p cmd ds buf False got ptr st)"
proof -
  obtain i vals where st: "st = (i, vals)" by (cases st)
  obtain t us where ptr: "ptr = t # us" using denotes_deref [OF inner_denotes [OF assms(3)]] by blast
  have null: "json_tok_is_null buf t = Some (null_cst c)"
    using json_tok_is_null_denotes inner_denotes assms(3) ptr by blast
  note fail = outcome_fail_body [OF assms(1), of p]
  consider "i = length ds" | "i < length ds" "null_cst c" | "i < length ds" "\<not> null_cst c"
    using assms(4) st by fastforce
  then show ?thesis
  proof cases
    case 1
    then show ?thesis using fail by (simp add: position_body_def st)
  next
    case 2
    then show ?thesis using assms(4) null by (simp add: position_body_def st ptr)
  next
    case 3
    from all_goodD [OF assms(2) 3(1) assms(3), of p "pname (ds ! i)"] show ?thesis
      by (cases rule: outcomeE) (use 3 null assms(4) in \<open>auto simp: position_body_def st ptr vals_ok_update\<close>)
  qed
qed

definition vals_given :: "('r, 'v) param list \<Rightarrow> (nat \<Rightarrow> 'v \<Rightarrow> bool) \<Rightarrow> 'v pvals \<Rightarrow> bool" where
  "vals_given ds Q vals \<longleftrightarrow> length vals = length ds \<and>
     (\<forall>i<length ds. case vals ! i of None \<Rightarrow> \<not> prequired (ds ! i) | Some v \<Rightarrow> Q i v)"

lemma checked_outcome:
  assumes "cmd_id cmd = Some rid" "vals_ok ds Q vals" "req_first ds"
  shows "outcome (failed cmd p) (vals_given ds Q) (checked p cmd ds vals)"
proof -
  have len: "length vals = length ds" using assms(2) by (simp add: vals_ok_def)
  from post_check_outcome [OF assms(1) len, of p] show ?thesis
  proof (cases rule: outcomeE)
    case (normal s)
    have "vals ! i \<noteq> None" if "prequired (ds ! i)" "i < length ds" for i
      using normal(2) req_first_takeWhile [OF assms(3) that(2,1)] that by (auto simp: list_all2_conv_all_nth takeWhile_nth)
    then have "vals_given ds Q vals"
      using assms(2) by (fastforce simp: vals_given_def vals_ok_def split: option.splits)
    then show ?thesis by (simp add: checked_def normal(1))
  qed (simp add: checked_def)
qed


text \<open>
  A command whose required parameters come first and whose readers answer always gets either its values or
  a failure with one error reply, whatever well-formed JSON value its parameters are.
\<close>

lemma param_total:
  assumes "\<not> usage_only cmd" "cmd_id cmd = Some rid" "denotes buf ts c" "all_good cmd buf Q ds" "req_first ds"
  shows "outcome (\<lambda>p'. failed cmd p (COMPLETE, p')) (vals_given ds Q) (param p cmd buf ts ds False)"
proof -
  obtain t us where ts: "ts = t # us" using denotes_deref [OF assms(3)] by blast
  have ty: "tok_type t = type_of_cst c" using denotes_type assms(3) ts by blast
  note [intro] = checked_outcome [OF assms(2) _ assms(5)]
  have "outcome (failed cmd p) (vals_given ds Q) (param_arr p cmd buf ts ds False)"
  proof (cases c)
    case (CArr es w)
    obtain ptrs where ptrs: "list_all2 (inner buf) ptrs (es_list es)"
      and loop: "\<forall>(f :: tokptr \<Rightarrow> nat \<times> 'a pvals \<Rightarrow> (((command_result \<times> 'b plugin) + 'a pvals) + (nat \<times> 'a pvals)) run) s.
        json_for_each_arr ts f s = early f ptrs s"
      using json_for_each_arr_denotes [OF assms(3) [unfolded CArr]] by blast
    obtain n where n: "tok_count t = Some n"
      using denotes_hd [OF assms(3) [unfolded ts CArr]] by (auto simp: tok_count_def)
    have "outcome (\<lambda>r. \<exists>x. r = Inl x \<and> failed cmd p x) (\<lambda>st. fst st \<le> length ds \<and> vals_ok ds Q (snd st))
        (early (position_body p cmd ds buf False n) ptrs (0, replicate (length ds) None))"
      by (rule outcome_early [OF ptrs]) (simp add: vals_ok_none, rule position_body_outcome [OF assms(2,4)])
    then show ?thesis using ty n
      by (cases rule: outcomeE) (auto simp: param_arr_def parse_by_position_def ts CArr loop [unfolded ts] after_loop_def)
  next
    case (CObj ms w)
    obtain ptrs where ptrs: "list_all2 (denotes_member buf) ptrs (ms_list ms)"
      and loop: "\<forall>(f :: tokptr \<Rightarrow> 'a pvals \<Rightarrow> (((command_result \<times> 'b plugin) + 'a pvals) + 'a pvals) run) s.
        json_for_each_obj ts f s = early f ptrs s"
      using json_for_each_obj_denotes [OF assms(3) [unfolded CObj]] by blast
    have "outcome (\<lambda>r. \<exists>x. r = Inl x \<and> failed cmd p x) (vals_ok ds Q)
        (early (name_body p cmd ds buf False) ptrs (replicate (length ds) None))"
      by (rule outcome_early [OF ptrs]) (rule vals_ok_none, rule name_body_outcome [OF assms(2,4)])
    then show ?thesis using ty
      by (cases rule: outcomeE) (auto simp: param_arr_def parse_by_name_def ts CObj loop [unfolded ts] after_loop_def)
  qed (use ty outcome_fail [OF assms(2)] in \<open>simp_all add: param_arr_def ts\<close>)
  then show ?thesis
  proof (cases rule: outcomeE)
    case (early r)
    then have "failed cmd p (COMPLETE, snd r)" by (simp add: failed_def)
    then show ?thesis using assms(1) early(1) by (simp add: param_def split_beta)
  qed (use assms(1) in \<open>simp add: param_def\<close>)
qed

subsection \<open>Declarations, one by one\<close>

lemma all_good_Nil: "all_good cmd buf Q []"
  by (simp add: all_good_def)

lemma all_good_Cons:
  "all_good cmd buf ((!) (q # qs)) (d # ds) \<longleftrightarrow> good_reader cmd buf q (pcbx d) \<and> all_good cmd buf ((!) qs) ds"
  by (simp add: all_good_def All_less_Suc2)

lemma vals_given_Nil: "vals_given [] Q vals \<longleftrightarrow> vals = []"
  by (simp add: vals_given_def)

lemma vals_given_Cons:
  "vals_given (d # ds) ((!) (q # qs)) vals \<longleftrightarrow>
   (\<exists>v vs. vals = v # vs \<and> (case v of None \<Rightarrow> \<not> prequired d | Some x \<Rightarrow> q x) \<and> vals_given ds ((!) qs) vs)"
  by (cases vals) (auto simp: vals_given_def All_less_Suc2 cong: option.case_cong)

lemmas vals_given_eval = vals_given_Cons vals_given_Nil
lemmas all_good_eval = all_good_Cons all_good_Nil

lemma pcbx_simps [simp]:
  "pcbx (p_req n rd) = rd" "pcbx (p_opt n rd) = rd" "prequired (p_req n rd)" "\<not> prequired (p_opt n rd)"
  "pname (p_req n rd) = n" "pname (p_opt n rd) = n"
  by (simp_all add: p_req_def p_opt_def)

lemma good_reader_mono: "good_reader cmd buf Q rd \<Longrightarrow> (\<And>v. Q v \<Longrightarrow> Q' v) \<Longrightarrow> good_reader cmd buf Q' rd"
  unfolding good_reader_def outcome_def by (fastforce split: option.splits sum.splits)

lemma req_first_eval [simp]:
  "req_first []" "req_first (p_req n rd # ds) \<longleftrightarrow> req_first ds" "req_first (p_opt n rd # ds) \<longleftrightarrow> list_all (\<lambda>d. \<not> prequired d) ds"
  by (simp_all add: req_first_def)

lemma json_to_bool_total: "denotes buf (t # ts) c \<Longrightarrow> json_to_bool buf t \<noteq> None"
  using denotes_slice [of buf t ts c] by (auto simp: json_to_bool_def memeqstr_def)

subsection \<open>Parameters by name, relationally\<close>

definition reads_as :: "('r, 'v) param \<Rightarrow> string \<Rightarrow> cst \<Rightarrow> ('v \<Rightarrow> bool) \<Rightarrow> bool" where
  "reads_as d buf c Q \<longleftrightarrow> (\<forall>p cmd ts. inner buf ts c \<longrightarrow> (\<exists>v. pcbx d p cmd (pname d) buf ts = Some (Inr v) \<and> Q v))"

definition vals_rel :: "('r, 'v) param list \<Rightarrow> (string \<Rightarrow> 'v \<Rightarrow> bool) \<Rightarrow> string set \<Rightarrow> 'v pvals \<Rightarrow> bool" where
  "vals_rel ds Q given vals \<longleftrightarrow> list_all2 (\<lambda>d v. if pname d \<in> given then \<exists>x. v = Some x \<and> Q (pname d) x else v = None) ds vals"

lemma early_name_body_as:
  assumes "distinct (map pname ds)" "list_all (\<lambda>d. c_string (pname d)) ds"
    and "list_all2 (denotes_member buf) ptrs ms" "distinct (map fst ms)" "fst ` set ms \<inter> given = {}"
    and "\<forall>(k, c)\<in>set ms. \<exists>d\<in>set ds. pname d = k \<and> reads_as d buf c (Q k)"
    and "vals_rel ds Q given vals"
  shows "\<exists>vals'. early (name_body p cmd ds buf allow) ptrs vals = Some (Inr vals') \<and> vals_rel ds Q (given \<union> fst ` set ms) vals'"
  using assms(3-7)
proof (induction ptrs ms arbitrary: given vals rule: list_all2_induct)
  case (Cons ptr ptrs m ms)
  obtain k c where m: "m = (k, c)" by (cases m)
  obtain d where d: "d \<in> set ds" "pname d = k" "reads_as d buf c (Q k)" using Cons.prems(3) m by auto
  then obtain i where i: "i < length ds" "ds ! i = d" by (auto simp: in_set_conv_nth)
  obtain t us where ptr: "ptr = t # us" "slice buf (tok_start t) (tok_end t) = Some k" "inner buf us c"
    using Cons.hyps(1) m by (auto simp: denotes_member_def)
  have find: "find_param ds k 0 = Some i" using find_param_nth [OF assms(1,2) i(1), of 0] d(2) i(2) by simp
  have len: "length vals = length ds" using Cons.prems(4) by (simp add: vals_rel_def list_all2_lengthD)
  have none: "vals ! i = None" using Cons.prems(2,4) m i d(2) by (auto simp: vals_rel_def list_all2_conv_all_nth)
  obtain v where v: "pcbx d p cmd (pname d) buf us = Some (Inr v)" "Q k v" using d(3) ptr(3) unfolding reads_as_def by blast
  have name: "pname (ds ! j) = k \<longleftrightarrow> j = i" if "j < length ds" for j
    using nth_eq_iff_index_eq [OF assms(1), of j i] that i d(2) by simp
  have "vals_rel ds Q (insert k given) (vals[i := Some v])"
    unfolding vals_rel_def list_all2_conv_all_nth
  proof (intro conjI allI impI)
    fix j assume j: "j < length ds"
    then have old: "if pname (ds ! j) \<in> given then \<exists>x. vals ! j = Some x \<and> Q (pname (ds ! j)) x else vals ! j = None"
      using Cons.prems(4) by (simp add: vals_rel_def list_all2_conv_all_nth)
    show "if pname (ds ! j) \<in> insert k given then \<exists>x. vals[i := Some v] ! j = Some x \<and> Q (pname (ds ! j)) x
        else vals[i := Some v] ! j = None"
      using old name [OF j] v(2) len j by (cases "j = i") auto
  qed (simp add: len)
  moreover have "fst ` set ms \<inter> insert k given = {}" "distinct (map fst ms)"
    "\<forall>(k, c)\<in>set ms. \<exists>d\<in>set ds. pname d = k \<and> reads_as d buf c (Q k)"
    using Cons.prems(1-3) m by auto
  ultimately obtain vals' where "early (name_body p cmd ds buf allow) ptrs (vals[i := Some v]) = Some (Inr vals')"
    "vals_rel ds Q (insert k given \<union> fst ` set ms) vals'" using Cons.IH by blast
  moreover have "name_body p cmd ds buf allow ptr vals = Some (Inr (vals[i := Some v]))"
    using v(1) ptr none i by (simp add: name_body_def find)
  ultimately show ?case by (simp add: m)
qed simp

lemma param_by_name_as:
  assumes "\<not> usage_only cmd" "denotes buf ts (CObj ms w)"
    and "distinct (map pname ds)" "list_all (\<lambda>d. c_string (pname d)) ds" "distinct (map fst (ms_list ms))"
    and "\<forall>(k, c)\<in>set (ms_list ms). \<exists>d\<in>set ds. pname d = k \<and> reads_as d buf c (Q k)"
    and "\<forall>d\<in>set ds. prequired d \<longrightarrow> pname d \<in> fst ` set (ms_list ms)"
  shows "\<exists>vals. param p cmd buf ts ds allow = Some (Inr vals) \<and> vals_rel ds Q (fst ` set (ms_list ms)) vals"
proof -
  obtain t us where ts: "ts = t # us" using denotes_deref [OF assms(2)] by blast
  have ty: "tok_type t = JSMN_OBJECT" using denotes_type [OF assms(2) [unfolded ts]] by simp
  obtain ptrs where ptrs: "list_all2 (denotes_member buf) ptrs (ms_list ms)"
    and loop: "\<forall>(f :: tokptr \<Rightarrow> 'b pvals \<Rightarrow> (((command_result \<times> 'a plugin) + 'b pvals) + 'b pvals) run) s. json_for_each_obj ts f s = early f ptrs s"
    using json_for_each_obj_denotes [OF assms(2)] by blast
  have "vals_rel ds Q {} (replicate (length ds) None)" by (simp add: vals_rel_def list_all2_conv_all_nth)
  then obtain vals where vals: "early (name_body p cmd ds buf allow) ptrs (replicate (length ds) None) = Some (Inr vals)"
    "vals_rel ds Q (fst ` set (ms_list ms)) vals"
    using early_name_body_as [OF assms(3,4) ptrs assms(5) _ assms(6), of "{}"] by (simp, blast)
  have "post_check p cmd ds vals = Some (Inr ())"
    using vals(2) assms(7) by (intro post_check_ok) (fastforce simp: vals_rel_def list_all2_conv_all_nth)
  then have "parse_by_name p cmd ds buf ts allow = Some (Inr vals)"
    by (simp add: parse_by_name_def loop vals(1) after_loop_def checked_def)
  then show ?thesis using assms(1) ty vals(2) by (simp add: param_def param_arr_def ts)
qed

end
