(* ===== verification/Payz_State.thy ===== *)
theory Payz_State
  imports Ecs Param
begin

text \<open>
  The state the command handlers of the plugin share: the object \<open>payz_top\<close> of \<open>top.c\<close> (its framework and the names of
  the default systems) and the static variables of \<open>payecs_code.c\<close> (the registry of external systems, the trace of
  invocations and the number of traces still accepted). A handler takes and returns the state and the plugin.
\<close>

record payecs_external_system =
  ex_system :: string
  ex_required :: "string list"
  ex_disallowed :: "string list"

record payecs_systrace_entry =
  tr_entity :: u32
  tr_json :: string

record 'f payz =
  top_ecs :: "'f ecs"
  default_systems :: "string list"
  payecs_registry :: "payecs_external_system strmap"
  payecs_systraces :: "payecs_systrace_entry list"
  payecs_systraces_remaining :: u64

type_synonym ('f, 'r) handled = "(command_result \<times> 'f payz \<times> 'r plugin) run"
type_synonym ('f, 'r) handler = "'r plugin \<Rightarrow> command \<Rightarrow> 'f payz \<Rightarrow> string \<Rightarrow> tokptr \<Rightarrow> ('f, 'r) handled"

definition answer :: "'f payz \<Rightarrow> (command_result \<times> 'r plugin) run \<Rightarrow> ('f, 'r) handled" where
  "answer z r = do { (c, p) \<leftarrow> r; Some (c, z, p) }"

definition list_of :: "'a list option \<Rightarrow> 'a list" where
  "list_of xs = (case xs of None \<Rightarrow> [] | Some ys \<Rightarrow> ys)"

lemma list_of_simps [simp]: "list_of None = []" "list_of (Some xs) = xs"
  by (simp_all add: list_of_def)

subsection \<open>\<open>setsystems.c\<close> on the global object\<close>

definition payz_setsystems_tok :: "'f payz \<Rightarrow> u32 \<Rightarrow> string \<Rightarrow> string option \<Rightarrow> tokptr option \<Rightarrow> 'f payz run" where
  "payz_setsystems_tok z entity fieldname buffer toks = do {
     ecs \<leftarrow> payz_generic_setsystems_tok ecs_get_component ecs_set_component (top_ecs z) entity fieldname buffer toks;
     Some (z\<lparr>top_ecs := ecs\<rparr>) }"

definition payz_setsystems :: "'f payz \<Rightarrow> u32 \<Rightarrow> string \<Rightarrow> string \<Rightarrow> 'f payz run" where
  "payz_setsystems z entity fieldname v = do {
     toks \<leftarrow> json_parse_simple v;
     payz_setsystems_tok z entity fieldname (Some v) toks }"

definition payz_getsystems :: "'f payz \<Rightarrow> u32 \<Rightarrow> string \<Rightarrow> (string \<Rightarrow> tokptr \<Rightarrow> 'x option run) \<Rightarrow> 'x option run" where
  "payz_getsystems z entity fieldname json_to_x =
     payz_generic_getsystems ecs_get_component (top_ecs z) entity fieldname json_to_x"

definition payz_getsystems_tal :: "'f payz \<Rightarrow> u32 \<Rightarrow> string \<Rightarrow> (string \<Rightarrow> tokptr \<Rightarrow> 'x option run) \<Rightarrow> 'x option run" where
  "payz_getsystems_tal z entity fieldname json_to_x =
     payz_generic_getsystems_tal ecs_get_component (top_ecs z) entity fieldname json_to_x"

subsection \<open>The invariant of the plugin\<close>

text \<open>
  The framework is consistent; every external system in the registry is registered with the components it was
  declared with; the default systems are registered; and the trace holds the texts of JSON objects, at most
  100000 of them.
\<close>

definition MAX_SYSTRACES :: nat where
  "MAX_SYSTRACES = 100000"

definition ex_reg :: "payecs_external_system \<Rightarrow> ecsys_registered" where
  "ex_reg x = \<lparr>reg_system = ex_system x, requiredComponents = ex_required x, disallowedComponents = ex_disallowed x\<rparr>"

definition registry_ok :: "'f payz \<Rightarrow> bool" where
  "registry_ok z \<longleftrightarrow> strmap_inv (payecs_registry z) \<and>
     (\<forall>s x. strmap_get (payecs_registry z) s = Some x \<longrightarrow> ex_system x = s \<and>
        strmap_get (system_map (ecsys_of (top_ecs z))) s = Some (ex_reg x))"

definition trace_ok :: "'f payz \<Rightarrow> bool" where
  "trace_ok z \<longleftrightarrow> length (payecs_systraces z) + unat (payecs_systraces_remaining z) = MAX_SYSTRACES \<and>
     (\<forall>x\<in>set (payecs_systraces z). \<exists>c. wf_cst c \<and> tr_json x = text_of c)"

definition defaults_ok :: "'f payz \<Rightarrow> bool" where
  "defaults_ok z \<longleftrightarrow> (\<forall>s\<in>set (default_systems z). plain_text s \<and> ecs_system_exists (top_ecs z) s)"

definition payz_inv :: "'f payz \<Rightarrow> bool" where
  "payz_inv z \<longleftrightarrow> ecs_inv (top_ecs z) \<and> registry_ok z \<and> trace_ok z \<and> defaults_ok z"

text \<open>An operation on the table alone keeps the invariant.\<close>

lemma payz_inv_table:
  assumes "payz_inv z" "ecs_inv ecs" "ecsys_of ecs = ecsys_of (top_ecs z)"
  shows "payz_inv (z\<lparr>top_ecs := ecs\<rparr>)"
  using assms by (auto simp: payz_inv_def registry_ok_def trace_ok_def defaults_ok_def ecs_system_exists_def)

lemma payz_inv_ecs [simp]: "payz_inv z \<Longrightarrow> ecs_inv (top_ecs z)"
  by (simp add: payz_inv_def)

abbreviation table_of :: "'f payz \<Rightarrow> ctable" where
  "table_of z \<equiv> ec_table (ec_of (top_ecs z))"

subsection \<open>Replies\<close>

definition replied :: "command \<Rightarrow> 'r plugin \<Rightarrow> 'r plugin \<Rightarrow> (string \<times> cst) list \<Rightarrow> bool" where
  "replied cmd p p' ms \<longleftrightarrow> (\<exists>rid. cmd_id cmd = Some rid \<and>
     p' = p\<lparr>js_arr := js_arr p @ [reply rid (''result'', mk_obj ms)]\<rparr>)"

text \<open>
  What the commands promise: the command completes, with one reply, an error that leaves the state alone, or
  a result with members that satisfy \<open>R\<close> in a new state.
\<close>

definition answers ::
  "command \<Rightarrow> 'r plugin \<Rightarrow> 'f payz \<Rightarrow> ('f payz \<Rightarrow> (string \<times> cst) list \<Rightarrow> bool) \<Rightarrow> ('f, 'r) handled \<Rightarrow> bool" where
  "answers cmd p z R h \<longleftrightarrow> (\<exists>z' p'. h = Some (COMPLETE, z', p') \<and>
     (failed cmd p (COMPLETE, p') \<and> z' = z \<or> (\<exists>ms. replied cmd p p' ms \<and> R z' ms)))"

lemma answers_failed: "failed cmd p (COMPLETE, p') \<Longrightarrow> answers cmd p z R (Some (COMPLETE, z, p'))"
  by (auto simp: answers_def)

lemma failed_complete: "failed cmd p (r, p') \<Longrightarrow> r = COMPLETE"
  by (simp add: failed_def)

lemma answers_fail: "cmd_id cmd = Some rid \<Longrightarrow> answers cmd p z R (answer z (command_fail p cmd code msg))"
  using failed_command_fail [of cmd rid p code msg] answers_failed failed_complete
  by (fastforce simp: answer_def)

text \<open>The parameters are read first; a handler goes on with their values.\<close>

lemma answers_param:
  assumes "\<not> usage_only cmd" "cmd_id cmd = Some rid" "denotes buf ts c" "all_good cmd buf Q ds" "req_first ds"
    and "\<And>vals. vals_given ds Q vals \<Longrightarrow> answers cmd p z R (k vals)"
  shows "answers cmd p z R (do {
     r \<leftarrow> param p cmd buf ts ds False;
     case r of Inl p' \<Rightarrow> Some (command_param_failed, z, p') | Inr vals \<Rightarrow> k vals })"
  using param_total [OF assms(1-5), of p]
  by (cases rule: outcomeE) (auto simp: command_param_failed_def answers_failed assms(6))

definition result_stream :: "u64 \<Rightarrow> (string \<times> cst) list \<Rightarrow> json_stream" where
  "result_stream rid ms = add_members ms (start_obj
     (add_members [VERSION, (''id'', CPrim (dec_of_nat (unat rid)))] (start_obj new_json_stream None)) (Some ''result''))"

lemma jsonrpc_stream_success_eq: "cmd_id cmd = Some rid \<Longrightarrow> jsonrpc_stream_success cmd = Some (result_stream rid [])"
  by (simp add: jsonrpc_stream_success_def jsonrpc_stream_start_eq start_obj_eq result_stream_def add_members_def)

lemma add_value_result: "add_value (Some k) c (result_stream rid ms) = result_stream rid (ms @ [(k, c)])"
  by (simp add: result_stream_def add_value_members)

lemma add_members_result: "add_members ms' (result_stream rid ms) = result_stream rid (ms @ ms')"
  by (simp add: result_stream_def add_members_append)

lemma answer_finished:
  "cmd_id cmd = Some rid \<Longrightarrow> R z' ms \<Longrightarrow> answers cmd p z R (answer z' (command_finished p cmd (result_stream rid ms)))"
  by (auto simp: answer_def answers_def replied_def result_stream_def command_finished_reply)

lemma answer_success:
  assumes "cmd_id cmd = Some rid" "R z' []"
  shows "answers cmd p z R (do { obj \<leftarrow> json_out_obj None None; answer z' (command_success p cmd obj) })"
  using command_success_empty [OF assms(1), of p] assms
  by (auto simp: answer_def answers_def replied_def json_out_obj_empty)

lemma answers_mono:
  "answers cmd p z R h \<Longrightarrow> (\<And>z' ms. R z' ms \<Longrightarrow> R' z' ms) \<Longrightarrow> answers cmd p z R' h"
  unfolding answers_def by blast

lemma handler_total:
  assumes "\<not> usage_only cmd" "cmd_id cmd = Some rid" "denotes buf ts c" "all_good cmd buf Q ds" "req_first ds"
    and "\<And>p'. param p cmd buf ts ds False = Some (Inl p') \<Longrightarrow> h = Some (command_param_failed, z, p')"
    and "\<And>vals. param p cmd buf ts ds False = Some (Inr vals) \<Longrightarrow> vals_given ds Q vals \<Longrightarrow> answers cmd p z R h"
  shows "answers cmd p z R h"
  using param_total [OF assms(1-5), of p]
  by (cases rule: outcomeE) (use assms(6,7) in \<open>auto simp: command_param_failed_def answers_failed\<close>)

lemma write_array_result:
  "json_array_start (result_stream rid ms) (Some k) = Some js \<Longrightarrow>
   json_array_end (fold (add_value None) cs js) = Some (result_stream rid (ms @ [(k, mk_arr cs)]))"
  using write_array [of cs "result_stream rid ms" "Some k"]
  by (simp add: json_array_start_eq add_value_result)

end
