(* ===== verification/Payecs_Data.thy ===== *)
theory Payecs_Data
  imports Payz_State
begin

text \<open>
  \<open>plugins/payz/payecs_data.c\<close>: the commands that list, allocate, read and write entities.
\<close>

subsection \<open>Write specifications\<close>

record payecs_writespec =
  ws_entity :: u32
  ws_exact :: bool
  ws_components :: "tokptr strmap"
  ws_num_components :: nat

text \<open>The specification while it is read: the entity is not initialised before it is found.\<close>

record spec_state =
  ss_entity :: "u32 option"
  ss_exact :: bool
  ss_components :: "tokptr strmap"
  ss_num :: nat

definition writespec_body :: "bool \<Rightarrow> string \<Rightarrow> tokptr \<Rightarrow> spec_state \<Rightarrow> (payecs_writespec option + spec_state) run" where
  "writespec_body erange buffer key st = do {
     t \<leftarrow> deref key;
     let v = tl key;
     is_entity \<leftarrow> json_tok_streq buffer t ''entity'';
     if is_entity then do {
       vt \<leftarrow> deref v;
       n \<leftarrow> json_to_u32 erange buffer vt;
       Some (case n of None \<Rightarrow> Inl None | Some e \<Rightarrow> Inr (st\<lparr>ss_entity := Some e\<rparr>)) }
     else do {
       is_exact \<leftarrow> json_tok_streq buffer t ''exact'';
       if is_exact then do {
         vt \<leftarrow> deref v;
         b \<leftarrow> json_to_bool buffer vt;
         Some (case b of None \<Rightarrow> Inl None | Some x \<Rightarrow> Inr (st\<lparr>ss_exact := x\<rparr>)) }
       else do {
         label \<leftarrow> slice buffer (tok_start t) (tok_end t);
         if json_escape_needed label then Some (Inl None)
         else do {
           name \<leftarrow> json_strdup buffer t;
           Some (Inr (st\<lparr>ss_num := ss_num st + 1,
                         ss_components := snd (strmap_add (ss_components st) name v)\<rparr>)) } } } }"

definition json_to_payecs_writespec :: "bool \<Rightarrow> string \<Rightarrow> tokptr \<Rightarrow> payecs_writespec option run" where
  "json_to_payecs_writespec erange buffer tok = do {
     t \<leftarrow> deref tok;
     if tok_type t \<noteq> JSMN_OBJECT then Some None
     else after_loop
       (json_for_each_obj tok (writespec_body erange buffer)
          \<lparr>ss_entity = None, ss_exact = False, ss_components = strmap_init, ss_num = 0\<rparr>)
       (\<lambda>st. Some (case ss_entity st of
          None \<Rightarrow> None
        | Some e \<Rightarrow> Some \<lparr>ws_entity = e, ws_exact = ss_exact st, ws_components = ss_components st,
                          ws_num_components = ss_num st\<rparr>)) }"

definition param_array_of_payecs_writespec :: "bool \<Rightarrow> ('r, payecs_writespec list) reader" where
  "param_array_of_payecs_writespec erange p cmd name buffer tok = do {
     t \<leftarrow> deref tok;
     specs \<leftarrow>
       (if tok_type t = JSMN_OBJECT then do {
          s \<leftarrow> json_to_payecs_writespec erange buffer tok;
          Some (map_option (\<lambda>x. [x]) s) }
        else if tok_type t \<noteq> JSMN_ARRAY then Some None
        else after_loop
          (json_for_each_arr tok
             (\<lambda>entry acc. do {
                s \<leftarrow> json_to_payecs_writespec erange buffer entry;
                Some (case s of None \<Rightarrow> Inl None | Some x \<Rightarrow> Inr (acc @ [x])) }) [])
          (\<lambda>acc. Some (Some acc)));
     case specs of
       Some xs \<Rightarrow> Some (Inr xs)
     | None \<Rightarrow> fail_reading (command_fail_badparam p cmd name buffer tok
                 ''should be an array of entity-component specifications.'') }"

subsection \<open>Listing\<close>

datatype pval = PNum u32 | PStr string | PStrs "string list" | PSpecs "payecs_writespec list"

fun the_num :: "pval option \<Rightarrow> u32 run" where
  "the_num (Some (PNum n)) = Some n"
| "the_num _ = None"

fun the_str :: "pval option \<Rightarrow> string run" where
  "the_str (Some (PStr s)) = Some s"
| "the_str _ = None"

fun opt_strs :: "pval option \<Rightarrow> string list" where
  "opt_strs (Some (PStrs ss)) = ss"
| "opt_strs _ = []"

fun opt_specs :: "pval option \<Rightarrow> payecs_writespec list" where
  "opt_specs (Some (PSpecs ss)) = ss"
| "opt_specs _ = []"

definition json_splice_entity_components :: "json_stream \<Rightarrow> 'f ecs \<Rightarrow> u32 \<Rightarrow> string list \<Rightarrow> json_stream run" where
  "json_splice_entity_components out ecs entity components =
     add_required ecs_get_component ecs entity components (json_add_u32 out (Some ''entity'') entity)"

text \<open>The tests of the inner loops; the one for the disallowed components starts at index 9, as in the source.\<close>

definition lacks_required :: "string list \<Rightarrow> string list \<Rightarrow> bool" where
  "lacks_required required components = list_ex (\<lambda>r. \<not> list_ex (\<lambda>c. r = c) components) required"

definition has_disallowed :: "string list \<Rightarrow> string list \<Rightarrow> bool" where
  "has_disallowed disallowed components = list_ex (\<lambda>d. list_ex (\<lambda>c. d = c) components) (drop 9 disallowed)"

definition listed :: "string list \<Rightarrow> string list \<Rightarrow> string list \<Rightarrow> bool" where
  "listed required disallowed components \<longleftrightarrow>
     length components \<noteq> 0 \<and> \<not> lacks_required required components \<and> \<not> has_disallowed disallowed components"

lemma unat_Suc_less: "(entity :: u32) < m \<Longrightarrow> unat (entity + 1) = Suc (unat entity)"
  using unsigned_less [of m, where ?'a = nat] by (simp add: word_less_nat_alt unat_word_ariths)

function list_loop ::
  "'f ecs \<Rightarrow> string list \<Rightarrow> string list \<Rightarrow> u32 \<Rightarrow> u32 \<Rightarrow> json_stream \<Rightarrow> json_stream run" where
  "list_loop ecs required disallowed entity max_entity out =
     (if \<not> entity < max_entity then Some out
      else do {
        components \<leftarrow> ecs_get_components ecs entity;
        out' \<leftarrow>
          (if \<not> listed required disallowed (list_of components) then Some out
           else do {
             js \<leftarrow> json_object_start out None;
             js \<leftarrow> json_splice_entity_components js ecs entity (list_of components);
             json_object_end js });
        list_loop ecs required disallowed (entity + 1) max_entity out' })"
  by pat_completeness auto
termination
  by (relation "measure (\<lambda>(ecs, r, d, entity, m, out). unat m - unat entity)")
    (auto simp: unat_Suc_less word_less_nat_alt)

declare list_loop.simps [simp del]

definition payecs_listentities :: "('f, 'r) handler" where
  "payecs_listentities p cmd z buf params = do {
     r \<leftarrow> param p cmd buf params
       [p_opt ''required'' (as_value PStrs param_array_of_strings),
        p_opt ''disallowed'' (as_value PStrs param_array_of_strings)] False;
     case r of
       Inl p' \<Rightarrow> Some (command_param_failed, z, p')
     | Inr vals \<Rightarrow> do {
         (min_entity, max_entity) \<leftarrow> ecs_get_entity_bounds (top_ecs z);
         out \<leftarrow> jsonrpc_stream_success cmd;
         out \<leftarrow> json_array_start out (Some ''entities'');
         out \<leftarrow> list_loop (top_ecs z) (opt_strs (vals ! 0)) (opt_strs (vals ! 1)) min_entity max_entity out;
         out \<leftarrow> json_array_end out;
         answer z (command_finished p cmd out) } }"

definition payecs_newentity :: "('f, 'r) handler" where
  "payecs_newentity p cmd z buf params = do {
     r \<leftarrow> param p cmd buf params ([] :: ('r, pval) param list) False;
     case r of
       Inl p' \<Rightarrow> Some (command_param_failed, z, p')
     | Inr vals \<Rightarrow> do {
         let (entity, ecs) = ecs_newentity (top_ecs z);
         out \<leftarrow> jsonrpc_stream_success cmd;
         let out = json_add_u32 out (Some ''entity'') entity;
         answer (z\<lparr>top_ecs := ecs\<rparr>) (command_finished p cmd out) } }"

definition payecs_getcomponents :: "bool \<Rightarrow> ('f, 'r) handler" where
  "payecs_getcomponents erange p cmd z buf params = do {
     r \<leftarrow> param p cmd buf params
       [p_req ''entity'' (as_value PNum (param_number erange)),
        p_req ''components'' (as_value PStrs param_array_of_strings)] False;
     case r of
       Inl p' \<Rightarrow> Some (command_param_failed, z, p')
     | Inr vals \<Rightarrow> do {
         entity \<leftarrow> the_num (vals ! 0);
         out \<leftarrow> jsonrpc_stream_success cmd;
         out \<leftarrow> json_splice_entity_components out (top_ecs z) entity (opt_strs (vals ! 1));
         answer z (command_finished p cmd out) } }"

subsection \<open>Compare and swap\<close>

definition payecs_setcomponents_validate ::
  "string \<Rightarrow> 'f ecs \<Rightarrow> u32 \<Rightarrow> string \<Rightarrow> tokptr \<Rightarrow> bool run \<Rightarrow> bool \<times> bool run" where
  "payecs_setcomponents_validate buffer ecs entity component v success = (
     let (_, ecsbuf, ecstok) = ecs_get_component ecs entity component in
     case json_equal buffer v ecsbuf ecstok of
       None \<Rightarrow> (False, None)
     | Some eq \<Rightarrow> if \<not> eq then (False, Some False) else (True, success))"

definition payecs_setcomponents_write ::
  "string \<Rightarrow> u32 \<Rightarrow> string \<Rightarrow> tokptr \<Rightarrow> 'f ecs run \<Rightarrow> bool \<times> 'f ecs run" where
  "payecs_setcomponents_write buffer entity component v st =
     (case st of
        None \<Rightarrow> (False, None)
      | Some ecs \<Rightarrow>
          (case ecs_set_component ecs entity component (Some buffer) (Some v) of
             None \<Rightarrow> (False, None)
           | Some ecs' \<Rightarrow> (True, Some ecs')))"

fun validate_expected :: "string \<Rightarrow> 'f ecs \<Rightarrow> payecs_writespec list \<Rightarrow> bool run" where
  "validate_expected buf ecs [] = Some True"
| "validate_expected buf ecs (x # xs) = do {
     success \<leftarrow> strmap_iterate (ws_components x) (payecs_setcomponents_validate buf ecs (ws_entity x)) (Some True);
     if \<not> success then Some False
     else if ws_exact x then do {
       components \<leftarrow> ecs_get_components ecs (ws_entity x);
       if length (list_of components) \<noteq> ws_num_components x then Some False
       else validate_expected buf ecs xs }
     else validate_expected buf ecs xs }"

text \<open>
  The loop that empties an entity before an exact write: it runs once per component, but detaches the component at
  the index of the write, not of the loop; past the end of the array that read is a fault.
\<close>

fun delete_components :: "nat \<Rightarrow> string list \<Rightarrow> nat \<Rightarrow> 'f ecs \<Rightarrow> u32 \<Rightarrow> 'f ecs run" where
  "delete_components 0 components i ecs entity = Some ecs"
| "delete_components (Suc j) components i ecs entity = do {
     c_assert (i < length components);
     ecs' \<leftarrow> ecs_set_component ecs entity (components ! i) None None;
     delete_components j components i ecs' entity }"

fun perform_writes :: "string \<Rightarrow> 'f ecs \<Rightarrow> payecs_writespec list \<Rightarrow> nat \<Rightarrow> 'f ecs run" where
  "perform_writes buf ecs [] i = Some ecs"
| "perform_writes buf ecs (w # ws) i = do {
     ecs1 \<leftarrow>
       (if ws_exact w then do {
          components \<leftarrow> ecs_get_components ecs (ws_entity w);
          delete_components (length (list_of components)) (list_of components) i ecs (ws_entity w) }
        else Some ecs);
     ecs2 \<leftarrow> strmap_iterate (ws_components w) (payecs_setcomponents_write buf (ws_entity w)) (Some ecs1);
     perform_writes buf ecs2 ws (Suc i) }"

definition PAYECS_SETCOMPONENTS_UNEXPECTED_COMPONENTS :: u32 where
  "PAYECS_SETCOMPONENTS_UNEXPECTED_COMPONENTS = 2244"

definition payecs_setcomponents :: "bool \<Rightarrow> ('f, 'r) handler" where
  "payecs_setcomponents erange p cmd z buf params = do {
     r \<leftarrow> param p cmd buf params
       [p_req ''writes'' (as_value PSpecs (param_array_of_payecs_writespec erange)),
        p_opt ''expected'' (as_value PSpecs (param_array_of_payecs_writespec erange))] False;
     case r of
       Inl p' \<Rightarrow> Some (command_param_failed, z, p')
     | Inr vals \<Rightarrow> do {
         ok \<leftarrow> validate_expected buf (top_ecs z) (opt_specs (vals ! 1));
         if \<not> ok then
           answer z (command_fail p cmd PAYECS_SETCOMPONENTS_UNEXPECTED_COMPONENTS ''Validation of expected failed.'')
         else do {
           ecs \<leftarrow> perform_writes buf (top_ecs z) (opt_specs (vals ! 0)) 0;
           obj \<leftarrow> json_out_obj None None;
           answer (z\<lparr>top_ecs := ecs\<rparr>) (command_success p cmd obj) } } }"

subsection \<open>Parameters of these commands\<close>

definition num_val :: "pval \<Rightarrow> bool" where
  "num_val v \<longleftrightarrow> (\<exists>n. v = PNum n)"

definition str_val :: "pval \<Rightarrow> bool" where
  "str_val v \<longleftrightarrow> (\<exists>s. v = PStr s \<and> c_string s)"

definition strs_val :: "pval \<Rightarrow> bool" where
  "strs_val v \<longleftrightarrow> (\<exists>ss. v = PStrs ss \<and> list_all (\<lambda>s. utf8_check s \<and> c_string s) ss)"

lemma good_num: "cmd_id cmd = Some rid \<Longrightarrow> good_reader cmd buf num_val (as_value PNum (param_number erange))"
  by (rule good_as_value, rule good_reader_mono [OF good_param_number]) (auto simp: num_val_def)

lemma good_str: "good_reader cmd buf str_val (as_value PStr param_string)"
  by (rule good_as_value, rule good_reader_mono [OF good_param_string]) (auto simp: str_val_def)

lemma good_strs: "cmd_id cmd = Some rid \<Longrightarrow> good_reader cmd buf strs_val (as_value PStrs param_array_of_strings)"
  by (rule good_as_value, rule good_reader_mono [OF good_param_array_of_strings]) (auto simp: strs_val_def)

lemma reads_num: "reads (p_req n (as_value PNum (param_number erange))) buf (CPrim (dec_of_nat (unat e))) (PNum e)"
  unfolding reads_def
proof (intro allI impI)
  fix p cmd ts assume i: "inner buf ts (CPrim (dec_of_nat (unat e)))"
  then obtain t us where "ts = t # us" using denotes_deref [OF inner_denotes] by blast
  then show "pcbx (p_req n (as_value PNum (param_number erange))) p cmd (pname (p_req n (as_value PNum (param_number erange)))) buf ts = Some (Inr (PNum e))"
    using i json_to_u32_dec(2) [of buf t us e erange] by (simp add: as_value_def param_number_def)
qed

lemma reads_strs:
  assumes "strings_of_cst c = Some ss"
  shows "reads (p_req n (as_value PStrs param_array_of_strings)) buf c (PStrs ss)"
    "reads (p_opt n (as_value PStrs param_array_of_strings)) buf c (PStrs ss)"
  using json_to_array_of_strings_denotes [OF inner_denotes] assms
  by (auto simp: reads_def as_value_def param_array_of_strings_def)

subsection \<open>What is listed of an entity\<close>

definition names_of :: "ctable \<Rightarrow> u32 \<Rightarrow> string list" where
  "names_of t e = sorted_list_of_set {cn. t e cn \<noteq> None}"

lemma ecs_get_components_names:
  assumes "ecs_inv ecs"
  shows "\<exists>r. ecs_get_components ecs e = Some r \<and> list_of r = names_of (ec_table (ec_of ecs)) e \<and>
    set (list_of r) = {cn. ec_table (ec_of ecs) e cn \<noteq> None} \<and> sorted_wrt (<) (list_of r)"
proof -
  have "ec_inv (ec_of ecs)" using assms by (simp add: ecs_inv_def)
  from ec_get_components_spec [OF this, of e] obtain r where r: "ecs_get_components ecs e = Some r"
    "set (list_of r) = {cn. ec_table (ec_of ecs) e cn \<noteq> None}" "sorted_wrt (<) (list_of r)"
    by (auto simp: ecs_get_components_def split: option.splits)
  then have "list_of r = names_of (ec_table (ec_of ecs)) e"
    by (metis names_of_def strict_sorted_iff sorted_list_of_set.idem_if_sorted_distinct)
  then show ?thesis using r by blast
qed

definition value_shown :: "ctable \<Rightarrow> u32 \<Rightarrow> string \<Rightarrow> cst \<Rightarrow> bool" where
  "value_shown t e cn v \<longleftrightarrow> wf_cst v \<and> (case t e cn of None \<Rightarrow> v = CPrim ''null'' | Some x \<Rightarrow> x = attached v)"

definition entity_members :: "ctable \<Rightarrow> u32 \<Rightarrow> string list \<Rightarrow> (string \<times> cst) list \<Rightarrow> bool" where
  "entity_members t e cns ms \<longleftrightarrow> (\<exists>vals. list_all2 (value_shown t e) cns vals \<and>
     ms = (''entity'', CPrim (dec_of_nat (unat e))) # zip cns vals)"

lemma splice_spec:
  assumes "ecs_inv ecs"
  shows "\<exists>ms. entity_members (ec_table (ec_of ecs)) e cns ms \<and>
    (\<forall>js. json_splice_entity_components js ecs e cns = Some (add_members ms js))"
proof -
  obtain vals where vals: "list_all2 (\<lambda>cn v. case ec_table (ec_of ecs) e cn of None \<Rightarrow> v = CPrim ''null'' | Some x \<Rightarrow> x = attached v) cns vals"
    "list_all wf_cst vals"
    and add: "\<forall>js. add_required ecs_get_component ecs e cns js = Some (add_members (zip cns vals) js)"
    using ecst.add_required_spec [OF assms] by blast
  have "list_all2 (value_shown (ec_table (ec_of ecs)) e) cns vals"
    using vals by (auto simp: list_all2_conv_all_nth list_all_length value_shown_def)
  moreover have "json_splice_entity_components js ecs e cns =
      Some (add_members ((''entity'', CPrim (dec_of_nat (unat e))) # zip cns vals) js)" for js
    using add by (simp add: json_splice_entity_components_def json_add_u32_eq add_members_def)
  ultimately show ?thesis unfolding entity_members_def by blast
qed


subsection \<open>New entities and reading of components\<close>

lemma payz_inv_newentity:
  assumes "payz_inv z" "ecs_newentity (top_ecs z) = (e, ecs)"
  shows "payz_inv (z\<lparr>top_ecs := ecs\<rparr>)" "ec_table (ec_of ecs) = table_of z"
proof -
  have ecs: "ecs = (top_ecs z)\<lparr>ec_of := snd (ec_newentity (ec_of (top_ecs z)))\<rparr>"
    using assms(2) by (auto simp: ecs_newentity_def split_beta)
  have inv: "ec_inv (snd (ec_newentity (ec_of (top_ecs z))))"
    and tab: "ec_table (snd (ec_newentity (ec_of (top_ecs z)))) = table_of z"
    using ec_newentities_spec [of 1 "ec_of (top_ecs z)"] payz_inv_ecs [OF assms(1)]
    by (auto simp: split_beta ecs_inv_def)
  show "ec_table (ec_of ecs) = table_of z" using tab by (simp add: ecs)
  show "payz_inv (z\<lparr>top_ecs := ecs\<rparr>)"
    unfolding ecs by (rule payz_inv_table [OF assms(1)]) (simp_all add: ecs_inv_ec [OF payz_inv_ecs [OF assms(1)] inv])
qed

lemma newentity_result:
  assumes "payz_inv z" "cmd_id cmd = Some rid" "param p cmd buf ts ([] :: ('r, pval) param list) False = Some (Inr vals)"
  shows "\<exists>z'. payecs_newentity p cmd z buf ts = answer z' (command_finished p cmd (result_stream rid
      [(''entity'', CPrim (dec_of_nat (unat (next_entity (ec_of (top_ecs z))))))])) \<and> payz_inv z' \<and> table_of z' = table_of z \<and>
    next_entity (ec_of (top_ecs z')) = next_entity (ec_of (top_ecs z)) + 1"
proof -
  obtain e ecs where new: "ecs_newentity (top_ecs z) = (e, ecs)" by (cases "ecs_newentity (top_ecs z)")
  then have "e = next_entity (ec_of (top_ecs z))" "next_entity (ec_of ecs) = next_entity (ec_of (top_ecs z)) + 1"
    by (auto simp: ecs_newentity_def ec_newentity_def)
  then show ?thesis
    using payz_inv_newentity [OF assms(1) new]
    by (intro exI [of _ "z\<lparr>top_ecs := ecs\<rparr>"])
      (simp add: payecs_newentity_def assms(3) new jsonrpc_stream_success_eq [OF assms(2)] json_add_u32_eq add_value_result)
qed

lemma newentity_answers:
  assumes "payz_inv z" "\<not> usage_only cmd" "cmd_id cmd = Some rid" "denotes buf ts c"
  shows "answers cmd p z (\<lambda>z' ms. payz_inv z' \<and> table_of z' = table_of z \<and>
      ms = [(''entity'', CPrim (dec_of_nat (unat (next_entity (ec_of (top_ecs z))))))] \<and>
      next_entity (ec_of (top_ecs z')) = next_entity (ec_of (top_ecs z)) + 1) (payecs_newentity p cmd z buf ts)"
  unfolding payecs_newentity_def
proof (rule answers_param [OF assms(2-4) all_good_Nil], simp)
  fix vals :: "pval pvals"
  obtain e ecs where new: "ecs_newentity (top_ecs z) = (e, ecs)" by (cases "ecs_newentity (top_ecs z)")
  then have "e = next_entity (ec_of (top_ecs z))" "next_entity (ec_of ecs) = next_entity (ec_of (top_ecs z)) + 1"
    by (auto simp: ecs_newentity_def ec_newentity_def)
  then show "answers cmd p z (\<lambda>z' ms. payz_inv z' \<and> table_of z' = table_of z \<and>
      ms = [(''entity'', CPrim (dec_of_nat (unat (next_entity (ec_of (top_ecs z))))))] \<and>
      next_entity (ec_of (top_ecs z')) = next_entity (ec_of (top_ecs z)) + 1) (do {
         let (entity, ecs) = ecs_newentity (top_ecs z);
         out \<leftarrow> jsonrpc_stream_success cmd;
         let out = json_add_u32 out (Some ''entity'') entity;
         answer (z\<lparr>top_ecs := ecs\<rparr>) (command_finished p cmd out) })"
    using payz_inv_newentity [OF assms(1) new]
    by (simp add: new jsonrpc_stream_success_eq [OF assms(3)] json_add_u32_eq add_value_result answer_finished [OF assms(3)])
qed

abbreviation getcomponents_decls :: "bool \<Rightarrow> ('r, pval) param list" where
  "getcomponents_decls erange \<equiv> [p_req ''entity'' (as_value PNum (param_number erange)),
     p_req ''components'' (as_value PStrs param_array_of_strings)]"

lemma getcomponents_result:
  assumes "payz_inv z" "cmd_id cmd = Some rid"
    and "param p cmd buf ts (getcomponents_decls erange) False = Some (Inr [Some (PNum e), Some (PStrs cns)])"
  shows "\<exists>ms. entity_members (table_of z) e cns ms \<and>
    payecs_getcomponents erange p cmd z buf ts = answer z (command_finished p cmd (result_stream rid ms))"
proof -
  obtain ms where ms: "entity_members (table_of z) e cns ms"
    and add: "\<forall>js. json_splice_entity_components js (top_ecs z) e cns = Some (add_members ms js)"
    using splice_spec [OF payz_inv_ecs [OF assms(1)]] by blast
  show ?thesis
    unfolding payecs_getcomponents_def
    by (intro exI [of _ ms]) (simp add: assms(3) jsonrpc_stream_success_eq [OF assms(2)] add add_members_result ms)
qed

lemma getcomponents_vals:
  assumes "payz_inv z" "cmd_id cmd = Some rid"
    and "param p cmd buf ts (getcomponents_decls erange) False = Some (Inr [Some (PNum e), Some (PStrs cns)])"
  shows "answers cmd p z (\<lambda>z' ms. z' = z \<and> entity_members (table_of z) e cns ms) (payecs_getcomponents erange p cmd z buf ts)"
  using getcomponents_result [OF assms] by (auto simp: answer_finished [OF assms(2)])

lemma getcomponents_answers:
  assumes "payz_inv z" "\<not> usage_only cmd" "cmd_id cmd = Some rid" "denotes buf ts c"
  shows "answers cmd p z (\<lambda>z' ms. z' = z \<and> (\<exists>e cns. entity_members (table_of z) e cns ms))
    (payecs_getcomponents erange p cmd z buf ts)"
proof (rule handler_total [OF assms(2-4), of "(!) [num_val, strs_val]" "getcomponents_decls erange"])
  fix vals
  assume "vals_given (getcomponents_decls erange) ((!) [num_val, strs_val]) vals"
    and param: "param p cmd buf ts (getcomponents_decls erange) False = Some (Inr vals)"
  then obtain e cns where "vals = [Some (PNum e), Some (PStrs cns)]"
    by (auto simp: vals_given_eval num_val_def strs_val_def split: option.splits)
  with param show "answers cmd p z (\<lambda>z' ms. z' = z \<and> (\<exists>e cns. entity_members (table_of z) e cns ms))
      (payecs_getcomponents erange p cmd z buf ts)"
    by (intro answers_mono [OF getcomponents_vals [OF assms(1,3)]]) auto
qed (simp_all add: all_good_eval good_num [OF assms(3)] good_strs [OF assms(3)] payecs_getcomponents_def)

subsection \<open>Listing\<close>

lemma listed_iff: "listed required disallowed cns \<longleftrightarrow>
    cns \<noteq> [] \<and> set required \<subseteq> set cns \<and> set (drop 9 disallowed) \<inter> set cns = {}"
  by (auto simp: listed_def lacks_required_def has_disallowed_def list_ex_iff)

definition entity_range :: "u32 \<Rightarrow> u32 \<Rightarrow> u32 list" where
  "entity_range lo hi = map of_nat [unat lo..<unat hi]"

lemma entity_range_Nil: "\<not> lo < hi \<Longrightarrow> entity_range lo hi = []"
  by (simp add: entity_range_def word_less_nat_alt)

lemma entity_range_Cons: "lo < hi \<Longrightarrow> entity_range lo hi = lo # entity_range (lo + 1) hi"
  by (simp add: entity_range_def unat_Suc_less upt_conv_Cons word_less_nat_alt)

lemma sorted_entity_range: "sorted_wrt (<) (entity_range lo hi)"
proof -
  have "unat hi \<le> 2 ^ 32" using unat_u32_less [of hi] by simp
  then show ?thesis
    by (auto simp: entity_range_def sorted_wrt_map word_less_nat_alt unat_of_nat_u32 intro!: sorted_wrt_mono_rel [OF _ sorted_wrt_upt])
qed

lemma set_entity_range: "set (entity_range lo hi) = {e. lo \<le> e \<and> e < hi}"
proof -
  have "e \<in> set (entity_range lo hi) \<longleftrightarrow> lo \<le> e \<and> e < hi" for e
  proof
    assume "e \<in> set (entity_range lo hi)"
    then obtain i where "e = of_nat i" "unat lo \<le> i" "i < unat hi" by (auto simp: entity_range_def)
    moreover have "i < 2 ^ 32" using \<open>i < unat hi\<close> unat_u32_less [of hi] by simp
    ultimately show "lo \<le> e \<and> e < hi" by (simp add: word_less_nat_alt word_le_nat_alt unat_of_nat_u32)
  next
    assume "lo \<le> e \<and> e < hi"
    then show "e \<in> set (entity_range lo hi)"
      by (auto simp: entity_range_def word_less_nat_alt word_le_nat_alt intro!: image_eqI [of _ _ "unat e"])
  qed
  then show ?thesis by blast
qed

definition entity_shown :: "ctable \<Rightarrow> u32 \<Rightarrow> cst \<Rightarrow> bool" where
  "entity_shown t e c \<longleftrightarrow> (\<exists>ms. c = mk_obj ms \<and> entity_members t e (names_of t e) ms)"

lemma list_loop_spec:
  fixes ecs :: "'f ecs"
  assumes "ecs_inv ecs"
  defines "t \<equiv> ec_table (ec_of ecs)"
  shows "\<exists>cs. list_all2 (entity_shown t) (filter (\<lambda>e. listed req dis (names_of t e)) (entity_range lo hi)) cs \<and>
    (\<forall>js. list_loop ecs req dis lo hi js = Some (fold (add_value None) cs js))"
proof (induction "unat hi - unat lo" arbitrary: lo)
  case 0
  then have "\<not> lo < hi" by (simp add: word_less_nat_alt)
  then show ?case by (simp add: entity_range_Nil list_loop.simps)
next
  case (Suc n)
  then have less: "lo < hi" by (simp add: word_less_nat_alt)
  then obtain cs where cs: "list_all2 (entity_shown t) (filter (\<lambda>e. listed req dis (names_of t e)) (entity_range (lo + 1) hi)) cs"
    and loop: "\<forall>js. list_loop ecs req dis (lo + 1) hi js = Some (fold (add_value None) cs js)"
    using Suc by (metis unat_Suc_less diff_Suc_Suc Suc_diff_Suc diff_Suc_1 zero_less_Suc zero_less_diff)
  obtain r where r: "ecs_get_components ecs lo = Some r" "list_of r = names_of t lo"
    using ecs_get_components_names [OF assms(1), of lo] t_def by blast
  obtain ms where ms: "entity_members t lo (names_of t lo) ms"
    and add: "\<forall>js. json_splice_entity_components js ecs lo (names_of t lo) = Some (add_members ms js)"
    using splice_spec [OF assms(1)] t_def by blast
  show ?case
  proof (cases "listed req dis (names_of t lo)")
    case True
    have "list_loop ecs req dis lo hi js = Some (fold (add_value None) (mk_obj ms # cs) js)" for js
      using less True r add loop by (subst list_loop.simps) (simp add: start_obj_eq end_members)
    moreover have "entity_shown t lo (mk_obj ms)" using ms by (auto simp: entity_shown_def)
    ultimately show ?thesis using cs less True
      by (intro exI [of _ "mk_obj ms # cs"]) (simp add: entity_range_Cons)
  next
    case False
    have "list_loop ecs req dis lo hi js = Some (fold (add_value None) cs js)" for js
      using less False r loop by (subst list_loop.simps) simp
    then show ?thesis using cs less False by (auto simp: entity_range_Cons)
  qed
qed

abbreviation listentities_decls :: "('r, pval) param list" where
  "listentities_decls \<equiv> [p_opt ''required'' (as_value PStrs param_array_of_strings),
     p_opt ''disallowed'' (as_value PStrs param_array_of_strings)]"

lemma finite_names: "ec_inv ec \<Longrightarrow> finite {cn. ec_table ec e cn \<noteq> None}"
  using ec_get_components_spec [of ec e] by (auto split: option.splits) (metis List.finite_set)

lemma in_names_of: "ec_inv ec \<Longrightarrow> names_of (ec_table ec) e \<noteq> [] \<longleftrightarrow> e \<in> occupied ec"
  using finite_names by (simp add: names_of_def occupied_def)

text \<open>The bounds cover the occupied entities, unless the last identifier is one of them: the upper bound is then 0.\<close>

lemma entity_bounds_cover:
  assumes "ec_inv ec"
  shows "\<exists>lo hi. ec_get_entity_bounds ec = Some (lo, hi) \<and>
    (if - 1 \<in> occupied ec then hi = 0 else \<forall>e\<in>occupied ec. lo \<le> e \<and> e < hi)"
proof (cases "occupied ec = {}")
  case True
  then show ?thesis using ec_get_entity_bounds_empty [OF assms] by simp
next
  case False
  then obtain lo hi where b: "ec_get_entity_bounds ec = Some (lo, hi + 1)" "hi \<in> occupied ec"
    "\<forall>e\<in>occupied ec. lo \<le> e \<and> e \<le> hi"
    using ec_get_entity_bounds_spec [OF assms False] by blast
  show ?thesis
  proof (cases "- 1 \<in> occupied ec")
    case True
    then have "hi = - 1" using b(3) by (metis word_order.extremum_unique)
    then show ?thesis using b(1) True by simp
  next
    case last: False
    then have "hi \<noteq> - 1" using b(2) by blast
    then have "1 + hi \<noteq> 0" by (metis add.commute add_eq_0_iff2)
    then have "hi < hi + 1" using unatSuc [of hi] by (simp add: word_less_nat_alt add.commute)
    then show ?thesis using b(1,3) last by fastforce
  qed
qed

definition lists_entities :: "ctable \<Rightarrow> string list \<Rightarrow> string list \<Rightarrow> (string \<times> cst) list \<Rightarrow> bool" where
  "lists_entities t req dis ms \<longleftrightarrow> (\<exists>es cs. ms = [(''entities'', mk_arr cs)] \<and> sorted_wrt (<) es \<and>
     set es = (if names_of t (- 1) \<noteq> [] then {} else {e. listed req dis (names_of t e)}) \<and> list_all2 (entity_shown t) es cs)"

lemma listentities_result:
  assumes "payz_inv z" "cmd_id cmd = Some rid"
    and "param p cmd buf ts listentities_decls False = Some (Inr [r, d])"
  shows "\<exists>ms. lists_entities (table_of z) (opt_strs r) (opt_strs d) ms \<and>
    payecs_listentities p cmd z buf ts = answer z (command_finished p cmd (result_stream rid ms))"
proof -
  have ecs: "ecs_inv (top_ecs z)" and ec: "ec_inv (ec_of (top_ecs z))" using assms(1) by (simp_all add: payz_inv_def ecs_inv_def)
  obtain lo hi where b: "ecs_get_entity_bounds (top_ecs z) = Some (lo, hi)"
    "if - 1 \<in> occupied (ec_of (top_ecs z)) then hi = 0 else \<forall>e\<in>occupied (ec_of (top_ecs z)). lo \<le> e \<and> e < hi"
    using entity_bounds_cover [OF ec] by (auto simp: ecs_get_entity_bounds_def)
  let ?es = "filter (\<lambda>e. listed (opt_strs r) (opt_strs d) (names_of (table_of z) e)) (entity_range lo hi)"
  obtain cs where cs: "list_all2 (entity_shown (table_of z)) ?es cs"
    and loop: "\<forall>js. list_loop (top_ecs z) (opt_strs r) (opt_strs d) lo hi js = Some (fold (add_value None) cs js)"
    using list_loop_spec [OF ecs] by blast
  have "set ?es = (if names_of (table_of z) (- 1) \<noteq> [] then {} else {e. listed (opt_strs r) (opt_strs d) (names_of (table_of z) e)})"
    using b(2) in_names_of [OF ec] by (auto simp: set_entity_range listed_iff split: if_splits)
  then have "lists_entities (table_of z) (opt_strs r) (opt_strs d) [(''entities'', mk_arr cs)]"
    using cs sorted_entity_range [of lo hi] sorted_wrt_filter unfolding lists_entities_def by blast
  moreover obtain js where js: "json_array_start (result_stream rid []) (Some ''entities'') = Some js"
    by (simp add: json_array_start_eq)
  ultimately show ?thesis
    using write_array_result [OF js, of cs]
    by (auto simp: payecs_listentities_def assms(3) b(1) jsonrpc_stream_success_eq [OF assms(2)] js loop)
qed

lemma listentities_vals:
  assumes "payz_inv z" "cmd_id cmd = Some rid"
    and "param p cmd buf ts listentities_decls False = Some (Inr [r, d])"
  shows "answers cmd p z (\<lambda>z' ms. z' = z \<and> lists_entities (table_of z) (opt_strs r) (opt_strs d) ms)
    (payecs_listentities p cmd z buf ts)"
  using listentities_result [OF assms] by (auto simp: answer_finished [OF assms(2)])

lemma listentities_answers:
  assumes "payz_inv z" "\<not> usage_only cmd" "cmd_id cmd = Some rid" "denotes buf ts c"
  shows "answers cmd p z (\<lambda>z' ms. z' = z \<and> (\<exists>req dis. lists_entities (table_of z) req dis ms)) (payecs_listentities p cmd z buf ts)"
proof (rule handler_total [OF assms(2-4), of "(!) [strs_val, strs_val]" listentities_decls])
  fix vals
  assume "vals_given listentities_decls ((!) [strs_val, strs_val]) vals"
    and param: "param p cmd buf ts listentities_decls False = Some (Inr vals)"
  then obtain r d where "vals = [r, d]" by (auto simp: vals_given_eval)
  with param show "answers cmd p z (\<lambda>z' ms. z' = z \<and> (\<exists>req dis. lists_entities (table_of z) req dis ms)) (payecs_listentities p cmd z buf ts)"
    by (intro answers_mono [OF listentities_vals [OF assms(1,3)]]) auto
qed (simp_all add: all_good_eval good_strs [OF assms(3)] payecs_listentities_def)

end
