(* ===== verification/Payecs_Cas.thy ===== *)
theory Payecs_Cas
  imports Payecs_Data
begin

text \<open>
  The compare-and-swap command \<open>payecs_setcomponents\<close>: a write specification stands for a map from component names
  to JSON values; validation compares it with the table; the writes are a function on the abstract table.
\<close>

subsection \<open>Reading of write specifications\<close>

text \<open>The components of a specification stand for a map from names to JSON values.\<close>

definition comps_rel :: "string \<Rightarrow> tokptr strmap \<Rightarrow> (string \<rightharpoonup> cst) \<Rightarrow> bool" where
  "comps_rel buf m a \<longleftrightarrow> strmap_inv m \<and> (\<forall>k. case strmap_get m k of
     None \<Rightarrow> a k = None | Some v \<Rightarrow> (\<exists>c. a k = Some c \<and> inner buf v c))"

lemma comps_rel_init: "comps_rel buf strmap_init Map.empty"
  by (simp add: comps_rel_def sm.invar_empty sm.lookup_empty)

lemma comps_rel_add:
  assumes "comps_rel buf m a" "c_string k" "inner buf v c"
  shows "comps_rel buf (snd (strmap_add m k v)) (case a k of None \<Rightarrow> a(k \<mapsto> c) | Some _ \<Rightarrow> a)"
proof (cases "strmap_get m k")
  case None
  have inv: "strmap_inv m" using assms(1) by (simp add: comps_rel_def)
  have "a k = None" using assms(1) None by (auto simp: comps_rel_def dest!: spec [of _ k])
  moreover have "strmap_inv (snd (strmap_add m k v))" "strmap_get (snd (strmap_add m k v)) = (strmap_get m)(k \<mapsto> v)"
    using sm.add_fresh [OF inv assms(2) None, of v] sm.lookup_add [OF inv assms(2) None, of v] by simp_all
  ultimately show ?thesis using assms by (auto simp: comps_rel_def cong: option.case_cong)
next
  case (Some w)
  have inv: "strmap_inv m" using assms(1) by (simp add: comps_rel_def)
  have "a k \<noteq> None" using assms(1) Some by (auto simp: comps_rel_def dest!: spec [of _ k])
  moreover have "strmap_add m k v = (False, m)" using sm.add_present [OF inv, of k v] Some by simp
  ultimately show ?thesis using assms(1) by auto
qed

definition st_ok :: "string \<Rightarrow> spec_state \<Rightarrow> bool" where
  "st_ok buf st \<longleftrightarrow> (\<exists>a. comps_rel buf (ss_components st) a)"

lemma member_streq:
  assumes "denotes_member buf (t # us) m"
  shows "json_tok_streq buf t s = Some (fst m = s)"
  using assms by (auto simp: denotes_member_def json_tok_streq_def json_tok_strneq_def dest: length_slice)

lemma writespec_body_ok:
  assumes "denotes_member buf key m" "st_ok buf st"
  shows "outcome (\<lambda>r. r = None) (st_ok buf) (writespec_body erange buf key st)"
proof -
  obtain t us where key: "key = t # us" "slice buf (tok_start t) (tok_end t) = Some (fst m)" "inner buf us (snd m)"
    using assms(1) by (auto simp: denotes_member_def)
  obtain v vs where us: "us = v # vs" using denotes_deref [OF inner_denotes [OF key(3)]] by blast
  note streq = member_streq [OF assms(1) [unfolded key(1)]]
  obtain a where a: "comps_rel buf (ss_components st) a" using assms(2) by (auto simp: st_ok_def)
  have dup: "json_strdup buf t = Some (tal_strndup (fst m))" by (simp add: json_strdup_def key(2))
  have add: "st_ok buf (st\<lparr>ss_num := n, ss_components := snd (strmap_add (ss_components st) (tal_strndup (fst m)) us)\<rparr>)" for n
    using comps_rel_add [OF a c_string_tal_strndup key(3)] by (auto simp: st_ok_def)
  obtain n where n: "json_to_u32 erange buf v = Some n" using json_to_u32_total key(3) us by blast
  obtain b where b: "json_to_bool buf v = Some b" using json_to_bool_total [of buf v vs] inner_denotes [OF key(3)] us by blast
  have upd: "st_ok buf (st\<lparr>ss_entity := e\<rparr>)" "st_ok buf (st\<lparr>ss_exact := x\<rparr>)" for e x
    using assms(2) by (simp_all add: st_ok_def)
  consider "fst m = ''entity''" | "fst m = ''exact''" | "fst m \<noteq> ''entity''" "fst m \<noteq> ''exact''" by blast
  then show ?thesis
  proof cases
    case 1
    then show ?thesis by (cases n) (simp_all add: writespec_body_def key streq us n upd)
  next
    case 2
    then show ?thesis by (cases b) (simp_all add: writespec_body_def key streq us b upd)
  next
    case 3
    then show ?thesis using add [of "ss_num st + 1"] key by (simp add: writespec_body_def streq dup)
  qed
qed

definition spec_ok :: "string \<Rightarrow> payecs_writespec \<Rightarrow> bool" where
  "spec_ok buf s \<longleftrightarrow> (\<exists>a. comps_rel buf (ws_components s) a)"

lemma writespec_total:
  assumes "denotes buf ts c"
  shows "\<exists>s. json_to_payecs_writespec erange buf ts = Some s \<and> (\<forall>x. s = Some x \<longrightarrow> spec_ok buf x)"
proof -
  obtain t us where ts: "ts = t # us" using denotes_deref [OF assms] by blast
  show ?thesis
  proof (cases "type_of_cst c = JSMN_OBJECT")
    case False
    then show ?thesis using denotes_type [OF assms [unfolded ts]] by (simp add: json_to_payecs_writespec_def ts)
  next
    case True
    then obtain ms w where c: "c = CObj ms w" by (cases c) auto
    obtain ptrs where ptrs: "list_all2 (denotes_member buf) ptrs (ms_list ms)"
      and loop: "\<forall>(f :: tokptr \<Rightarrow> spec_state \<Rightarrow> (payecs_writespec option + spec_state) run) s. json_for_each_obj ts f s = early f ptrs s"
      using json_for_each_obj_denotes [OF assms [unfolded c]] by blast
    let ?st = "\<lparr>ss_entity = None, ss_exact = False, ss_components = strmap_init, ss_num = 0\<rparr>"
    have "outcome (\<lambda>r. r = None) (st_ok buf) (early (writespec_body erange buf) ptrs ?st)"
    proof (rule outcome_early [OF ptrs])
      show "st_ok buf ?st" using comps_rel_init by (auto simp: st_ok_def)
    qed (rule writespec_body_ok)
    then show ?thesis using denotes_type [OF assms [unfolded ts]] True
      by (cases rule: outcomeE)
        (auto simp: json_to_payecs_writespec_def ts loop [unfolded ts] after_loop_def st_ok_def spec_ok_def split: option.splits)
  qed
qed

definition specs_val :: "string \<Rightarrow> pval \<Rightarrow> bool" where
  "specs_val buf v \<longleftrightarrow> (\<exists>ss. v = PSpecs ss \<and> list_all (spec_ok buf) ss)"

lemma good_specs:
  assumes "cmd_id cmd = Some rid"
  shows "good_reader cmd buf (specs_val buf) (as_value PSpecs (param_array_of_payecs_writespec erange))"
proof (rule good_as_value, rule good_readerI)
  fix p :: "'r plugin" and name ts c assume i: "inner buf ts c"
  note d = inner_denotes [OF i]
  obtain t us where ts: "ts = t # us" using denotes_deref [OF d] by blast
  have ty: "tok_type t = type_of_cst c" using denotes_type d ts by blast
  note bad = outcome_badparam [OF assms d]
  show "outcome (failed cmd p) (\<lambda>a. specs_val buf (PSpecs a)) (param_array_of_payecs_writespec erange p cmd name buf ts)"
  proof (cases c)
    case (CObj ms w)
    then show ?thesis using writespec_total [OF d, of erange] bad ty
      by (auto simp: param_array_of_payecs_writespec_def ts specs_val_def split: option.splits)
  next
    case (CArr es w)
    let ?f = "(\<lambda>entry acc. do {
                s \<leftarrow> json_to_payecs_writespec erange buf entry;
                Some (case s of None \<Rightarrow> Inl None | Some x \<Rightarrow> Inr (acc @ [x])) })
       :: tokptr \<Rightarrow> payecs_writespec list \<Rightarrow> (payecs_writespec list option + payecs_writespec list) run"
    obtain ptrs where ptrs: "list_all2 (inner buf) ptrs (es_list es)"
      and loop: "\<forall>(f :: tokptr \<Rightarrow> payecs_writespec list \<Rightarrow> (payecs_writespec list option + payecs_writespec list) run) s.
        json_for_each_arr ts f s = early f ptrs s"
      using json_for_each_arr_denotes [OF d [unfolded CArr]] by blast
    have "outcome (\<lambda>r. r = None) (list_all (spec_ok buf)) (early ?f ptrs [])"
    proof (rule outcome_early [OF ptrs])
      fix ptr x acc assume "inner buf ptr x" "list_all (spec_ok buf) acc"
      then show "outcome (\<lambda>r. r = None) (list_all (spec_ok buf)) (?f ptr acc)"
        using writespec_total [of buf ptr x erange] inner_denotes by (force split: option.splits)
    qed simp
    then show ?thesis using bad ty
      by (cases rule: outcomeE)
        (auto simp: param_array_of_payecs_writespec_def ts CArr loop [unfolded ts] after_loop_def specs_val_def)
  qed (use bad ty in \<open>simp_all add: param_array_of_payecs_writespec_def ts\<close>)
qed

subsection \<open>Validation\<close>

definition agrees :: "ctable \<Rightarrow> u32 \<Rightarrow> string \<Rightarrow> cst \<Rightarrow> bool" where
  "agrees t e k c \<longleftrightarrow> (\<exists>v. value_shown t e k v \<and> cst_equal c v)"

lemma validate_step:
  assumes "ecs_inv ecs" "inner buf v c"
  shows "payecs_setcomponents_validate buf ecs e k v s =
    (if agrees (ec_table (ec_of ecs)) e k c then (True, s) else (False, Some False))"
proof -
  let ?t = "ec_table (ec_of ecs)"
  obtain c2 b2 ts2 where get: "ecs_get_component ecs e k = (?t e k \<noteq> None, b2, ts2)" "denotes b2 ts2 c2"
    "case ?t e k of None \<Rightarrow> c2 = CPrim ''null'' | Some x \<Rightarrow> x = attached c2 \<and> \<not> null_cst c2"
    using ecst.get_denotes [OF assms(1)] by blast
  have shown: "value_shown ?t e k c2" using get(2,3) by (auto simp: value_shown_def denotes_def split: option.splits)
  have uniq: "cst_equal c v' = cst_equal c c2" if "value_shown ?t e k v'" for v'
  proof (cases "?t e k")
    case None
    then show ?thesis using that get(3) by (simp add: value_shown_def)
  next
    case (Some x)
    then have "attached v' = attached c2" "wf_cst v'" "wf_cst c2" using that shown by (auto simp: value_shown_def)
    then have "denotes (text_of c2) (toks_of 0 c2) v'" "denotes (text_of c2) (toks_of 0 c2) c2"
      using denotes_attached' [of v'] by (simp_all add: attached_def)
    then have "json_equal buf v (text_of c2) (toks_of 0 c2) = Some (cst_equal c v')"
      "json_equal buf v (text_of c2) (toks_of 0 c2) = Some (cst_equal c c2)"
      using json_equal_denotes [OF inner_denotes [OF assms(2)]] by blast+
    then show ?thesis by simp
  qed
  have "agrees ?t e k c \<longleftrightarrow> cst_equal c c2" using shown uniq unfolding agrees_def by blast
  then show ?thesis
    using json_equal_denotes [OF inner_denotes [OF assms(2)] get(2)] by (simp add: payecs_setcomponents_validate_def get(1))
qed

lemma run_validate:
  assumes "ecs_inv ecs" "\<forall>(k, v)\<in>set es. \<exists>c. a k = Some c \<and> inner buf v c"
  shows "snd (run_entries es (payecs_setcomponents_validate buf ecs e) (Some True)) =
    Some (\<forall>(k, v)\<in>set es. \<forall>c. a k = Some c \<longrightarrow> agrees (ec_table (ec_of ecs)) e k c)"
  using assms(2)
proof (induction es)
  case (Cons x es)
  obtain k v where x: "x = (k, v)" by (cases x)
  with Cons.prems obtain c where c: "a k = Some c" "inner buf v c" by auto
  show ?case using Cons validate_step [OF assms(1) c(2), of e k] by (auto simp: x c(1))
qed simp

lemma comps_rel_entries:
  assumes "comps_rel buf m a"
  shows "\<forall>(k, v)\<in>set (strmap_entries m). \<exists>c. a k = Some c \<and> inner buf v c"
    and "a k = Some c \<Longrightarrow> k \<in> fst ` set (strmap_entries m)"
    and "distinct (map fst (strmap_entries m))" "\<forall>(k, v)\<in>set (strmap_entries m). c_string k"
proof -
  have inv: "strmap_inv m" using assms by (simp add: comps_rel_def)
  show "\<forall>(k, v)\<in>set (strmap_entries m). \<exists>c. a k = Some c \<and> inner buf v c"
  proof clarify
    fix k v assume "(k, v) \<in> set (strmap_entries m)"
    then have "strmap_get m k = Some v" using sm.lookup_Some_iff [OF inv] by blast
    then show "\<exists>c. a k = Some c \<and> inner buf v c" using assms by (auto simp: comps_rel_def dest!: spec [of _ k])
  qed
  show "a k = Some c \<Longrightarrow> k \<in> fst ` set (strmap_entries m)"
    using assms sm.lookup_Some_iff [OF inv] by (cases "strmap_get m k") (force simp: comps_rel_def dest!: spec [of _ k])+
  show "distinct (map fst (strmap_entries m))"
    using strmap_entries_sorted [OF inv] strict_sorted_iff by blast
  show "\<forall>(k, v)\<in>set (strmap_entries m). c_string k" using strmap_entries_key_ok [OF inv] by auto
qed

definition expects :: "ctable \<Rightarrow> payecs_writespec \<times> (string \<rightharpoonup> cst) \<Rightarrow> bool" where
  "expects t x \<longleftrightarrow> (\<forall>k c. snd x k = Some c \<longrightarrow> agrees t (ws_entity (fst x)) k c) \<and>
     (ws_exact (fst x) \<longrightarrow> length (names_of t (ws_entity (fst x))) = ws_num_components (fst x))"

definition specs_rel :: "string \<Rightarrow> (payecs_writespec \<times> (string \<rightharpoonup> cst)) list \<Rightarrow> bool" where
  "specs_rel buf xs \<longleftrightarrow> list_all (\<lambda>x. comps_rel buf (ws_components (fst x)) (snd x)) xs"

lemma specs_rel_exists: "list_all (spec_ok buf) ss \<Longrightarrow> \<exists>xs. map fst xs = ss \<and> specs_rel buf xs"
proof (induction ss)
  case (Cons s ss)
  then obtain xs a where "map fst xs = ss" "specs_rel buf xs" "comps_rel buf (ws_components s) a" by (auto simp: spec_ok_def)
  then show ?case by (intro exI [of _ "(s, a) # xs"]) (simp add: specs_rel_def)
qed (simp add: specs_rel_def)

lemma validate_expected_spec:
  assumes "ecs_inv ecs" "specs_rel buf xs"
  shows "validate_expected buf ecs (map fst xs) = Some (list_all (expects (ec_table (ec_of ecs))) xs)"
  using assms(2)
proof (induction xs)
  case (Cons x xs)
  let ?t = "ec_table (ec_of ecs)" and ?e = "ws_entity (fst x)"
  have rel: "comps_rel buf (ws_components (fst x)) (snd x)" using Cons.prems by (simp add: specs_rel_def)
  have "(\<forall>(k, v)\<in>set (strmap_entries (ws_components (fst x))). \<forall>c. snd x k = Some c \<longrightarrow> agrees ?t ?e k c) \<longleftrightarrow>
      (\<forall>k c. snd x k = Some c \<longrightarrow> agrees ?t ?e k c)"
    using comps_rel_entries(2) [OF rel] by force
  then have iter: "strmap_iterate (ws_components (fst x)) (payecs_setcomponents_validate buf ecs ?e) (Some True) =
      Some (\<forall>k c. snd x k = Some c \<longrightarrow> agrees ?t ?e k c)"
    using run_validate [OF assms(1) comps_rel_entries(1) [OF rel], of ?e] by (simp add: strmap_iterate_entries)
  obtain r where "ecs_get_components ecs ?e = Some r" "list_of r = names_of ?t ?e"
    using ecs_get_components_names [OF assms(1)] by blast
  then show ?case using Cons iter by (simp add: expects_def specs_rel_def)
qed (simp)

subsection \<open>Writing\<close>

definition tab_over :: "ctable \<Rightarrow> u32 \<Rightarrow> (string \<rightharpoonup> cst) \<Rightarrow> ctable" where
  "tab_over t e a = (\<lambda>e' k. if e' = e then (case a k of None \<Rightarrow> t e k | Some c \<Rightarrow> value_of c) else t e' k)"

lemma run_writes:
  assumes "ecs_inv ecs" "distinct (map fst es)" "\<forall>(k, v)\<in>set es. c_string k \<and> (\<exists>c. a k = Some c \<and> inner buf v c)"
  shows "\<exists>ecs'. snd (run_entries es (payecs_setcomponents_write buf e) (Some ecs)) = Some ecs' \<and> ecs_inv ecs' \<and>
    ecsys_of ecs' = ecsys_of ecs \<and> ec_table (ec_of ecs') = tab_over (ec_table (ec_of ecs)) e (a |` (fst ` set es))"
  using assms
proof (induction es arbitrary: ecs)
  case Nil
  then show ?case by (simp add: tab_over_def fun_eq_iff)
next
  case (Cons x es)
  obtain k v where x: "x = (k, v)" by (cases x)
  with Cons.prems obtain c where c: "c_string k" "a k = Some c" "inner buf v c" by auto
  obtain ecs1 where ecs1: "ecs_set_component ecs e k (Some buf) (Some v) = Some ecs1" "ecs_inv ecs1"
    "ec_table (ec_of ecs1) = tab_upd (ec_table (ec_of ecs)) e k (value_of c)"
    using ecst.set_denotes [OF Cons.prems(1) c(1) inner_denotes [OF c(3)]] by blast
  have "ecsys_of ecs1 = ecsys_of ecs" using ecs1(1) by (auto simp: ecs_set_component_def split: bind_splits)
  moreover have "tab_over (ec_table (ec_of ecs1)) e (a |` (fst ` set es)) =
      tab_over (ec_table (ec_of ecs)) e (a |` (fst ` set (x # es)))"
    using Cons.prems(2) c(2) by (auto simp: tab_over_def ecs1(3) tab_upd_def x restrict_map_def fun_eq_iff)
  moreover obtain ecs' where "snd (run_entries es (payecs_setcomponents_write buf e) (Some ecs1)) = Some ecs'" "ecs_inv ecs'"
    "ecsys_of ecs' = ecsys_of ecs1" "ec_table (ec_of ecs') = tab_over (ec_table (ec_of ecs1)) e (a |` (fst ` set es))"
    using Cons.IH [OF ecs1(2)] Cons.prems by auto
  moreover have "payecs_setcomponents_write buf e k v (Some ecs) = (True, Some ecs1)"
    by (simp add: payecs_setcomponents_write_def ecs1(1))
  ultimately show ?case by (simp add: x)
qed

lemma delete_components_spec:
  assumes "ecs_inv ecs" "i < length cns"
  shows "\<exists>ecs'. delete_components (Suc n) cns i ecs e = Some ecs' \<and> ecs_inv ecs' \<and> ecsys_of ecs' = ecsys_of ecs \<and>
    ec_table (ec_of ecs') = tab_upd (ec_table (ec_of ecs)) e (cns ! i) None"
  using assms(1)
proof (induction n arbitrary: ecs)
  case (0 ecs)
  obtain ecs' where "ecs_set_component ecs e (cns ! i) None None = Some ecs'" "ecs_inv ecs'"
    "ec_table (ec_of ecs') = tab_upd (ec_table (ec_of ecs)) e (cns ! i) None"
    using ecst.set_null [OF 0] by blast
  then show ?case using assms(2) by (auto simp: ecs_set_component_def split: bind_splits)
next
  case (Suc n ecs)
  obtain ecs1 where ecs1: "ecs_set_component ecs e (cns ! i) None None = Some ecs1" "ecs_inv ecs1"
    "ec_table (ec_of ecs1) = tab_upd (ec_table (ec_of ecs)) e (cns ! i) None"
    using ecst.set_null [OF Suc.prems] by blast
  have "ecsys_of ecs1 = ecsys_of ecs" using ecs1(1) by (auto simp: ecs_set_component_def split: bind_splits)
  then show ?case using Suc.IH [OF ecs1(2)] assms(2) ecs1(1,3) by (auto simp del: delete_components.simps(2) simp: delete_components.simps(2) [of "Suc n"])
qed

fun apply_writes :: "nat \<Rightarrow> (payecs_writespec \<times> (string \<rightharpoonup> cst)) list \<Rightarrow> ctable \<Rightarrow> ctable option" where
  "apply_writes i [] t = Some t"
| "apply_writes i ((w, a) # ws) t = (
     let e = ws_entity w; ns = names_of t e in
     if ws_exact w \<and> ns \<noteq> [] then
       (if length ns \<le> i then None
        else apply_writes (Suc i) ws (tab_over (tab_upd t e (ns ! i) None) e a))
     else apply_writes (Suc i) ws (tab_over t e a))"

lemma write_components:
  assumes "ecs_inv ecs" "comps_rel buf m a"
  shows "\<exists>ecs'. strmap_iterate m (payecs_setcomponents_write buf e) (Some ecs) = Some ecs' \<and> ecs_inv ecs' \<and>
    ecsys_of ecs' = ecsys_of ecs \<and> ec_table (ec_of ecs') = tab_over (ec_table (ec_of ecs)) e a"
proof -
  have "a |` (fst ` set (strmap_entries m)) = a"
    using comps_rel_entries(2) [OF assms(2)] by (auto simp: restrict_map_def fun_eq_iff) (metis not_None_eq)
  moreover have "\<forall>(k, v)\<in>set (strmap_entries m). c_string k \<and> (\<exists>c. a k = Some c \<and> inner buf v c)"
    using comps_rel_entries(1,4) [OF assms(2)] by fastforce
  ultimately show ?thesis
    using run_writes [OF assms(1) comps_rel_entries(3) [OF assms(2)], of a buf e] by (simp add: strmap_iterate_entries)
qed

lemma perform_writes_spec:
  assumes "ecs_inv ecs" "specs_rel buf ws"
  shows "case apply_writes i ws (ec_table (ec_of ecs)) of
      None \<Rightarrow> perform_writes buf ecs (map fst ws) i = None
    | Some t' \<Rightarrow> \<exists>ecs'. perform_writes buf ecs (map fst ws) i = Some ecs' \<and> ecs_inv ecs' \<and>
        ecsys_of ecs' = ecsys_of ecs \<and> ec_table (ec_of ecs') = t'"
  using assms
proof (induction ws arbitrary: ecs i)
  case (Cons x ws)
  obtain w a where x: "x = (w, a)" by (cases x)
  let ?t = "ec_table (ec_of ecs)" and ?e = "ws_entity w"
  have rel: "comps_rel buf (ws_components w) a" and rest: "specs_rel buf ws" using Cons.prems(2) by (simp_all add: specs_rel_def x)
  obtain r where r: "ecs_get_components ecs ?e = Some r" "list_of r = names_of ?t ?e"
    using ecs_get_components_names [OF Cons.prems(1)] by blast
  show ?case
  proof (cases "ws_exact w \<and> names_of ?t ?e \<noteq> [] \<and> length (names_of ?t ?e) \<le> i")
    case True
    then have "delete_components (length (names_of ?t ?e)) (names_of ?t ?e) i ecs ?e = None"
      by (cases "length (names_of ?t ?e)") auto
    then show ?thesis using True r by (simp add: x Let_def)
  next
    case False
    define t1 where "t1 = (if ws_exact w \<and> names_of ?t ?e \<noteq> [] then tab_upd ?t ?e (names_of ?t ?e ! i) None else ?t)"
    have "\<exists>ecs1. (if ws_exact w then delete_components (length (names_of ?t ?e)) (names_of ?t ?e) i ecs ?e else Some ecs) = Some ecs1 \<and>
        ecs_inv ecs1 \<and> ecsys_of ecs1 = ecsys_of ecs \<and> ec_table (ec_of ecs1) = t1"
      using delete_components_spec [OF Cons.prems(1), of i "names_of ?t ?e" "length (names_of ?t ?e) - 1" ?e] False Cons.prems(1)
      by (cases "names_of ?t ?e") (auto simp: t1_def)
    then obtain ecs1 where ecs1: "(if ws_exact w then delete_components (length (names_of ?t ?e)) (names_of ?t ?e) i ecs ?e else Some ecs) = Some ecs1"
      "ecs_inv ecs1" "ecsys_of ecs1 = ecsys_of ecs" "ec_table (ec_of ecs1) = t1" by blast
    obtain ecs2 where ecs2: "strmap_iterate (ws_components w) (payecs_setcomponents_write buf ?e) (Some ecs1) = Some ecs2"
      "ecs_inv ecs2" "ecsys_of ecs2 = ecsys_of ecs1" "ec_table (ec_of ecs2) = tab_over t1 ?e a"
      using write_components [OF ecs1(2) rel, of ?e] ecs1(4) by auto
    have "perform_writes buf ecs (map fst (x # ws)) i = perform_writes buf ecs2 (map fst ws) (Suc i)"
      using ecs1(1) ecs2(1) r by (simp add: x split: if_splits)
    moreover have "apply_writes i (x # ws) ?t = apply_writes (Suc i) ws (ec_table (ec_of ecs2))"
      using False by (auto simp: x Let_def ecs2(4) t1_def)
    ultimately show ?thesis
      using Cons.IH [OF ecs2(2) rest, of "Suc i"] ecs1(3) ecs2(3) by (simp cong: option.case_cong)
  qed
qed simp

subsection \<open>Specifications as JSON objects\<close>

definition spec_cst :: "u32 \<Rightarrow> bool \<Rightarrow> (string \<times> cst) list \<Rightarrow> cst" where
  "spec_cst e x ms = mk_obj ((''entity'', CPrim (dec_of_nat (unat e))) # (if x then [(''exact'', CPrim ''true'')] else []) @ ms)"

definition spec_members :: "(string \<times> cst) list \<Rightarrow> bool" where
  "spec_members ms \<longleftrightarrow> distinct (map fst ms) \<and>
     (\<forall>(k, c)\<in>set ms. k \<notin> {''entity'', ''exact''} \<and> c_string k \<and> \<not> json_escape_needed k)"

lemma early_spec_members:
  assumes "list_all2 (denotes_member buf) ptrs ms" "spec_members ms" "fst ` set ms \<inter> dom a = {}"
    and "comps_rel buf (ss_components st) a"
  shows "\<exists>comps. early (writespec_body erange buf) ptrs st =
      Some (Inr (st\<lparr>ss_num := ss_num st + length ms, ss_components := comps\<rparr>)) \<and> comps_rel buf comps (a ++ map_of ms)"
  using assms
proof (induction ptrs ms arbitrary: st a rule: list_all2_induct)
  case Nil
  then show ?case by (auto intro!: exI [of _ "ss_components st"])
next
  case (Cons ptr ptrs m ms)
  obtain k c where m: "m = (k, c)" by (cases m)
  obtain t us where ptr: "ptr = t # us" "slice buf (tok_start t) (tok_end t) = Some k" "inner buf us c"
    using Cons.hyps(1) m by (auto simp: denotes_member_def)
  note streq = member_streq [OF Cons.hyps(1) [unfolded ptr(1)]]
  have k: "k \<noteq> ''entity''" "k \<noteq> ''exact''" "c_string k" "\<not> json_escape_needed k" "a k = None" "k \<notin> fst ` set ms" "spec_members ms"
    using Cons.prems m by (auto simp: spec_members_def)
  let ?st = "st\<lparr>ss_num := ss_num st + 1, ss_components := snd (strmap_add (ss_components st) k us)\<rparr>"
  have body: "writespec_body erange buf ptr st = Some (Inr ?st)"
    using k ptr(2) by (simp add: writespec_body_def ptr(1) streq m json_strdup_def)
  have "comps_rel buf (ss_components ?st) (a(k \<mapsto> c))"
    using comps_rel_add [OF Cons.prems(3) k(3) ptr(3)] k(5) by simp
  moreover have "fst ` set ms \<inter> dom (a(k \<mapsto> c)) = {}" using Cons.prems(2) k(6) by auto
  ultimately obtain comps where "early (writespec_body erange buf) ptrs ?st =
      Some (Inr (?st\<lparr>ss_num := ss_num ?st + length ms, ss_components := comps\<rparr>))" "comps_rel buf comps (a(k \<mapsto> c) ++ map_of ms)"
    using Cons.IH [of "a(k \<mapsto> c)" ?st] k(7) by blast
  moreover have "a(k \<mapsto> c) ++ map_of ms = a ++ map_of (m # ms)"
  proof -
    have "map_of ms k = None" using k(6) by (simp add: map_of_eq_None_iff)
    then show ?thesis by (auto simp: m map_add_def fun_eq_iff split: option.splits)
  qed
  ultimately show ?case by (intro exI [of _ comps] conjI) (simp add: body, simp only:)
qed

lemma reads_spec:
  assumes "inner buf ts (spec_cst e x ms)" "spec_members ms"
  shows "\<exists>s. json_to_payecs_writespec erange buf ts = Some (Some s) \<and> ws_entity s = e \<and> ws_exact s = x \<and>
    ws_num_components s = length ms \<and> comps_rel buf (ws_components s) (map_of ms)"
proof -
  note d = inner_denotes [OF assms(1)]
  let ?pre = "(''entity'', CPrim (dec_of_nat (unat e))) # (if x then [(''exact'', CPrim ''true'')] else [])"
  obtain t us where ts: "ts = t # us" using denotes_deref [OF d] by blast
  have ty: "tok_type t = JSMN_OBJECT" using denotes_type [OF d [unfolded ts]] by (simp add: spec_cst_def mk_obj_def)
  obtain ptrs where ptrs: "list_all2 (denotes_member buf) ptrs (?pre @ ms)"
    and loop: "\<forall>(f :: tokptr \<Rightarrow> spec_state \<Rightarrow> (payecs_writespec option + spec_state) run) s. json_for_each_obj ts f s = early f ptrs s"
    using json_for_each_obj_denotes [OF d [unfolded spec_cst_def mk_obj_def]] by auto
  obtain q qs where q: "ptrs = q # qs" "denotes_member buf q (''entity'', CPrim (dec_of_nat (unat e)))"
    "list_all2 (denotes_member buf) qs ((if x then [(''exact'', CPrim ''true'')] else []) @ ms)"
    using ptrs by (auto simp: list_all2_Cons2)
  obtain v vs k where v: "q = k # v # vs" "inner buf (v # vs) (CPrim (dec_of_nat (unat e)))"
    using q(2) denotes_deref [OF inner_denotes] by (fastforce simp: denotes_member_def)
  let ?st = "\<lparr>ss_entity = None, ss_exact = False, ss_components = strmap_init, ss_num = 0\<rparr>"
  have 1: "writespec_body erange buf q ?st = Some (Inr (?st\<lparr>ss_entity := Some e\<rparr>))"
    using member_streq [OF q(2) [unfolded v(1)]] json_to_u32_dec(1) [OF v(2)] by (simp add: writespec_body_def v(1))
  obtain rs where rs: "list_all2 (denotes_member buf) rs ms"
    "early (writespec_body erange buf) qs (?st\<lparr>ss_entity := Some e\<rparr>) = early (writespec_body erange buf) rs (?st\<lparr>ss_entity := Some e, ss_exact := x\<rparr>)"
  proof (cases x)
    case False
    then show thesis using that [of qs] q(3) by simp
  next
    case True
    then obtain r rs where r: "qs = r # rs" "denotes_member buf r (''exact'', CPrim ''true'')" "list_all2 (denotes_member buf) rs ms"
      using q(3) by (auto simp: list_all2_Cons2)
    obtain v vs k where v: "r = k # v # vs" "inner buf (v # vs) (CPrim ''true'')"
      using r(2) denotes_deref [OF inner_denotes] by (fastforce simp: denotes_member_def)
    have "slice buf (tok_start v) (tok_end v) = Some ''true''" "tok_type v = JSMN_PRIMITIVE"
      using denotes_prim [OF inner_denotes [OF v(2)]] denotes_type [OF inner_denotes [OF v(2)]] by simp_all
    moreover from this have "tok_end v - tok_start v = 4" using length_slice by fastforce
    ultimately have "json_to_bool buf v = Some (Some True)" by (simp add: json_to_bool_def memeqstr_def)
    then have "writespec_body erange buf r st = Some (Inr (st\<lparr>ss_exact := True\<rparr>))" for st
      using member_streq [OF r(2) [unfolded v(1)]] by (simp add: writespec_body_def v(1))
    then show thesis using that [of rs] r True by simp
  qed
  obtain comps where "early (writespec_body erange buf) rs (?st\<lparr>ss_entity := Some e, ss_exact := x\<rparr>) =
      Some (Inr (?st\<lparr>ss_entity := Some e, ss_exact := x, ss_num := length ms, ss_components := comps\<rparr>))" "comps_rel buf comps (map_of ms)"
    using early_spec_members [OF rs(1) assms(2), of Map.empty "?st\<lparr>ss_entity := Some e, ss_exact := x\<rparr>" erange] comps_rel_init by auto
  then show ?thesis
    using ty by (simp add: json_to_payecs_writespec_def ts loop [unfolded ts] q(1) 1 rs(2) [simplified] after_loop_def)
qed

subsection \<open>The command\<close>

abbreviation setcomponents_decls :: "bool \<Rightarrow> ('r, pval) param list" where
  "setcomponents_decls erange \<equiv> [p_req ''writes'' (as_value PSpecs (param_array_of_payecs_writespec erange)),
     p_opt ''expected'' (as_value PSpecs (param_array_of_payecs_writespec erange))]"

lemma setcomponents_vals:
  assumes "payz_inv z" "cmd_id cmd = Some rid"
    and "param p cmd buf ts (setcomponents_decls erange) False = Some (Inr [Some (PSpecs (map fst ws)), ev])"
    and "opt_specs ev = map fst xs" "specs_rel buf ws" "specs_rel buf xs"
  defines "h \<equiv> payecs_setcomponents erange p cmd z buf ts"
  shows "if \<not> list_all (expects (table_of z)) xs
    then h = Some (COMPLETE, z, p\<lparr>js_arr := js_arr p @
      [error_reply rid PAYECS_SETCOMPONENTS_UNEXPECTED_COMPONENTS ''Validation of expected failed.'']\<rparr>)
    else case apply_writes 0 ws (table_of z) of
      None \<Rightarrow> h = None
    | Some t' \<Rightarrow> \<exists>z'. h = Some (COMPLETE, z', p\<lparr>js_arr := js_arr p @ [reply rid (''result'', mk_obj [])]\<rparr>) \<and>
        payz_inv z' \<and> table_of z' = t'"
proof -
  note inv = payz_inv_ecs [OF assms(1)]
  have val: "validate_expected buf (top_ecs z) (opt_specs ev) = Some (list_all (expects (table_of z)) xs)"
    using validate_expected_spec [OF inv assms(6)] assms(4) by simp
  show ?thesis
  proof (cases "list_all (expects (table_of z)) xs")
    case False
    then show ?thesis
      using assms(3) val by (simp add: h_def payecs_setcomponents_def answer_def command_fail_reply [OF assms(2)])
  next
    case True
    show ?thesis
    proof (cases "apply_writes 0 ws (table_of z)")
      case None
      then have "perform_writes buf (top_ecs z) (map fst ws) 0 = None" using perform_writes_spec [OF inv assms(5), of 0] by simp
      then show ?thesis using True None assms(3) val by (simp add: h_def payecs_setcomponents_def)
    next
      case (Some t')
      then obtain ecs' where ecs': "perform_writes buf (top_ecs z) (map fst ws) 0 = Some ecs'" "ecs_inv ecs'"
        "ecsys_of ecs' = ecsys_of (top_ecs z)" "ec_table (ec_of ecs') = t'"
        using perform_writes_spec [OF inv assms(5), of 0] by auto
      have "h = answer (z\<lparr>top_ecs := ecs'\<rparr>) (do { obj \<leftarrow> json_out_obj None None; command_success p cmd obj })"
        using True assms(3) val ecs'(1) by (simp add: h_def payecs_setcomponents_def json_out_obj_empty)
      then have "h = Some (COMPLETE, z\<lparr>top_ecs := ecs'\<rparr>, p\<lparr>js_arr := js_arr p @ [reply rid (''result'', mk_obj [])]\<rparr>)"
        using command_success_empty [OF assms(2), of p] by (simp add: answer_def)
      then show ?thesis using True Some payz_inv_table [OF assms(1) ecs'(2,3)] ecs'(4) by simp
    qed
  qed
qed

definition reads_one :: "string \<Rightarrow> u32 \<Rightarrow> bool \<Rightarrow> (string \<times> cst) list \<Rightarrow> pval \<Rightarrow> bool" where
  "reads_one buf e x ms v \<longleftrightarrow> (\<exists>s. v = PSpecs [s] \<and> ws_entity s = e \<and> ws_exact s = x \<and>
     ws_num_components s = length ms \<and> comps_rel buf (ws_components s) (map_of ms))"

lemma reads_as_spec:
  assumes "spec_members ms" "pcbx d = as_value PSpecs (param_array_of_payecs_writespec erange)"
  shows "reads_as d buf (spec_cst e x ms) (reads_one buf e x ms)"
  unfolding reads_as_def
proof (intro allI impI)
  fix p cmd ts assume i: "inner buf ts (spec_cst e x ms)"
  then obtain t us where ts: "ts = t # us" using denotes_deref [OF inner_denotes] by blast
  have "tok_type t = JSMN_OBJECT" using denotes_type [OF inner_denotes [OF i [unfolded ts]]] by (simp add: spec_cst_def mk_obj_def)
  then show "\<exists>v. pcbx d p cmd (pname d) buf ts = Some (Inr v) \<and> reads_one buf e x ms v"
    using reads_spec [OF i assms(1), of erange]
    by (auto simp: assms(2) as_value_def param_array_of_payecs_writespec_def ts reads_one_def)
qed

text \<open>One write under one expectation, as the caller writes them.\<close>

definition expectation :: "ctable \<Rightarrow> u32 \<Rightarrow> bool \<Rightarrow> (string \<times> cst) list \<Rightarrow> bool" where
  "expectation t e x ms \<longleftrightarrow> (\<forall>k c. map_of ms k = Some c \<longrightarrow> agrees t e k c) \<and> (x \<longrightarrow> length (names_of t e) = length ms)"

lemma setcomponents_one:
  fixes p :: "'b plugin" and erange :: bool and z :: "'f payz"
  assumes "payz_inv z" "\<not> usage_only cmd" "cmd_id cmd = Some rid" "spec_members ms" "spec_members ms'"
    and "denotes buf ts (mk_obj [(''writes'', spec_cst e x ms), (''expected'', spec_cst e' x' ms')])"
  defines "h \<equiv> payecs_setcomponents erange p cmd z buf ts"
    and "t1 \<equiv> (if x \<and> names_of (table_of z) e \<noteq> [] then tab_upd (table_of z) e (hd (names_of (table_of z) e)) None else table_of z)"
  shows "if \<not> expectation (table_of z) e' x' ms'
    then h = Some (COMPLETE, z, p\<lparr>js_arr := js_arr p @
      [error_reply rid PAYECS_SETCOMPONENTS_UNEXPECTED_COMPONENTS ''Validation of expected failed.'']\<rparr>)
    else \<exists>z'. h = Some (COMPLETE, z', p\<lparr>js_arr := js_arr p @ [reply rid (''result'', mk_obj [])]\<rparr>) \<and>
      payz_inv z' \<and> table_of z' = tab_over t1 e (map_of ms)"
proof -
  let ?Q = "\<lambda>k. if k = ''writes'' then reads_one buf e x ms else reads_one buf e' x' ms'"
  let ?mem = "[(''writes'', spec_cst e x ms), (''expected'', spec_cst e' x' ms')]"
  have "\<exists>vals. param p cmd buf ts (setcomponents_decls erange) False = Some (Inr vals) \<and>
      vals_rel (setcomponents_decls erange :: ('b, pval) param list) ?Q (fst ` set (ms_list (mk_ms True ?mem))) vals"
    by (rule param_by_name_as [OF assms(2) assms(6) [unfolded mk_obj_def]])
      (simp_all add: reads_as_spec [OF assms(4)] reads_as_spec [OF assms(5)])
  then obtain w xp where vals: "param p cmd buf ts (setcomponents_decls erange) False = Some (Inr [Some (PSpecs [w]), Some (PSpecs [xp])])"
    and w: "ws_entity w = e" "ws_exact w = x" "comps_rel buf (ws_components w) (map_of ms)"
    and xp: "ws_entity xp = e'" "ws_exact xp = x'" "ws_num_components xp = length ms'" "comps_rel buf (ws_components xp) (map_of ms')"
    by (auto simp: vals_rel_def list_all2_Cons1 reads_one_def)
  have "list_all (expects (table_of z)) [(xp, map_of ms')] \<longleftrightarrow> expectation (table_of z) e' x' ms'"
    by (simp add: expects_def expectation_def xp)
  moreover have "apply_writes 0 [(w, map_of ms)] (table_of z) = Some (tab_over t1 e (map_of ms))"
    by (simp add: Let_def w t1_def hd_conv_nth)
  ultimately show ?thesis
    using setcomponents_vals [OF assms(1,3), of p buf ts erange "[(w, map_of ms)]" "Some (PSpecs [xp])" "[(xp, map_of ms')]"]
      vals w(3) xp(4) by (simp add: specs_rel_def h_def cong: if_cong)
qed

text \<open>
  What \<open>PAYECS.md\<close> says of an exact expectation: no component is attached that is not given a value other than \<open>null\<close>. The code compares
  numbers instead, and counts the members that are \<open>null\<close>.
\<close>

definition documented_expectation :: "ctable \<Rightarrow> u32 \<Rightarrow> bool \<Rightarrow> (string \<times> cst) list \<Rightarrow> bool" where
  "documented_expectation t e x ms \<longleftrightarrow> (\<forall>k c. map_of ms k = Some c \<longrightarrow> agrees t e k c) \<and>
     (x \<longrightarrow> (\<forall>cn. t e cn \<noteq> None \<longrightarrow> (\<exists>c. map_of ms cn = Some c \<and> \<not> null_cst c)))"

lemma agrees_attached: "agrees t e k c \<Longrightarrow> \<not> null_cst c \<Longrightarrow> t e k \<noteq> None"
  by (cases c; cases "t e k") (auto simp: agrees_def value_shown_def null_cst_def)

lemma expectation_documented:
  assumes "finite {cn. t e cn \<noteq> None}" "distinct (map fst ms)" "x \<longrightarrow> (\<forall>(k, c)\<in>set ms. \<not> null_cst c)"
  shows "expectation t e x ms \<longleftrightarrow> documented_expectation t e x ms"
proof (cases "x \<and> (\<forall>k c. map_of ms k = Some c \<longrightarrow> agrees t e k c)")
  case True
  let ?N = "{cn. t e cn \<noteq> None}" and ?K = "fst ` set ms"
  have some: "\<And>k c. map_of ms k = Some c \<Longrightarrow> \<not> null_cst c" using True assms(3) by (auto dest: map_of_SomeD)
  have K: "cn \<in> ?K \<longleftrightarrow> (\<exists>c. map_of ms cn = Some c)" for cn using map_of_eq_None_iff [of ms cn] by (cases "map_of ms cn") auto
  have sub: "?K \<subseteq> ?N"
  proof
    fix cn assume "cn \<in> ?K"
    then obtain c where "map_of ms cn = Some c" using K by blast
    then show "cn \<in> ?N" using True some agrees_attached by blast
  qed
  have "length (names_of t e) = card ?N" "length ms = card ?K"
    using assms(1,2) distinct_card [of "map fst ms"] by (simp_all add: names_of_def)
  then have "length (names_of t e) = length ms \<longleftrightarrow> ?N \<subseteq> ?K" using card_subset_eq [OF assms(1) sub] sub by (metis subset_antisym subset_refl)
  also have "\<dots> \<longleftrightarrow> (\<forall>cn. t e cn \<noteq> None \<longrightarrow> (\<exists>c. map_of ms cn = Some c \<and> \<not> null_cst c))"
    unfolding subset_iff K mem_Collect_eq using some by blast
  finally show ?thesis using True by (simp add: expectation_def documented_expectation_def)
qed (auto simp: expectation_def documented_expectation_def)

text \<open>With a member that is \<open>null\<close> the two differ in both directions.\<close>

lemma exact_null_counted:
  assumes "t e k = None"
  shows "\<forall>cn. t e cn = None \<Longrightarrow> documented_expectation t e True [(k, CPrim ''null'')] \<and> \<not> expectation t e True [(k, CPrim ''null'')]"
    "{cn. t e cn \<noteq> None} = {cn} \<Longrightarrow> expectation t e True [(k, CPrim ''null'')] \<and> \<not> documented_expectation t e True [(k, CPrim ''null'')]"
proof -
  have "wf_cst (CPrim ''null'')" by (simp add: prim_ok_def primitive_bad_def primitive_stop_def)
  then have "agrees t e k (CPrim ''null'')" using assms by (simp add: agrees_def value_shown_def)
  then show "\<forall>cn. t e cn = None \<Longrightarrow> documented_expectation t e True [(k, CPrim ''null'')] \<and> \<not> expectation t e True [(k, CPrim ''null'')]"
    by (simp add: documented_expectation_def expectation_def names_of_def)
  show "{cn. t e cn \<noteq> None} = {cn} \<Longrightarrow> expectation t e True [(k, CPrim ''null'')] \<and> \<not> documented_expectation t e True [(k, CPrim ''null'')]"
  proof
    assume N: "{cn. t e cn \<noteq> None} = {cn}"
    then show "expectation t e True [(k, CPrim ''null'')]" using \<open>agrees t e k _\<close> by (simp add: expectation_def names_of_def)
    have "t e cn \<noteq> None" using N by blast
    moreover have "\<not> (\<exists>c. map_of [(k, CPrim ''null'')] cn = Some c \<and> \<not> null_cst c)" by (simp add: null_cst_def)
    ultimately show "\<not> documented_expectation t e True [(k, CPrim ''null'')]" unfolding documented_expectation_def by blast
  qed
qed

end
