(* ===== verification/Payecs_Code.thy ===== *)
theory Payecs_Code
  imports Payecs_Data
begin

text \<open>
  \<open>plugins/payz/payecs_code.c\<close>: the commands that register external systems, advance an entity, read and set the
  default systems, and list the trace of invocations; and the handler of the notification that runs a system.
\<close>

subsection \<open>Registry of external systems\<close>

definition same_system :: "payecs_external_system \<Rightarrow> string \<Rightarrow> string list \<Rightarrow> string list \<Rightarrow> bool" where
  "same_system exsys system required disallowed \<longleftrightarrow>
     system = ex_system exsys \<and> length required = length (ex_required exsys) \<and>
     length disallowed = length (ex_disallowed exsys) \<and>
     list_all2 (\<lambda>a b. a = b) required (ex_required exsys) \<and> list_all2 (\<lambda>a b. a = b) disallowed (ex_disallowed exsys)"

fun register_each ::
  "('f ecs_register_desc list \<Rightarrow> string \<Rightarrow> 'f ecs_register_desc list run) \<Rightarrow> string list \<Rightarrow>
   'f ecs_register_desc list \<Rightarrow> 'f ecs_register_desc list run" where
  "register_each add [] reg = Some reg"
| "register_each add (c # cs) reg = do { reg' \<leftarrow> add reg c; register_each add cs reg' }"

definition payecs_register ::
  "'f payz \<Rightarrow> string \<Rightarrow> string list \<Rightarrow> string list \<Rightarrow> (bool \<times> 'f payz) run" where
  "payecs_register z system required disallowed =
     (case strmap_get (payecs_registry z) system of
        Some exsys \<Rightarrow> Some (same_system exsys system required disallowed, z)
      | None \<Rightarrow>
          if ecs_system_exists (top_ecs z) system then Some (False, z)
          else do {
            let exsys = \<lparr>ex_system = system, ex_required = required, ex_disallowed = disallowed\<rparr>;
            let registry = snd (strmap_add (payecs_registry z) system exsys);
            reg \<leftarrow> ecs_register_name ecs_register_begin (ex_system exsys);
            reg \<leftarrow> register_each ecs_register_require (ex_required exsys) reg;
            reg \<leftarrow> register_each ecs_register_disallow (ex_disallowed exsys) reg;
            reg \<leftarrow> ecs_register_done reg;
            ecs \<leftarrow> ecs_register (top_ecs z) reg;
            Some (True, z\<lparr>payecs_registry := registry, top_ecs := ecs\<rparr>) })"

definition payecs_newsystem :: "('f, 'r) handler" where
  "payecs_newsystem p cmd z buf params = do {
     r \<leftarrow> param p cmd buf params
       [p_req ''system'' (as_value PStr param_string),
        p_req ''required'' (as_value PStrs param_array_of_strings),
        p_opt ''disallowed'' (as_value PStrs param_array_of_strings)] False;
     case r of
       Inl p' \<Rightarrow> Some (command_param_failed, z, p')
     | Inr vals \<Rightarrow> do {
         system \<leftarrow> the_str (vals ! 0);
         (ok, z') \<leftarrow> payecs_register z system (opt_strs (vals ! 1)) (opt_strs (vals ! 2));
         if \<not> ok then
           answer z' (command_fail p cmd JSONRPC2_INVALID_PARAMS (''Conflict with existing `system`: '' @ system))
         else do {
           obj \<leftarrow> json_out_obj None None;
           answer z' (command_success p cmd obj) } } }"

subsection \<open>Advancement\<close>

definition payecs_advance_ok :: "command \<Rightarrow> 'f payz \<Rightarrow> 'r plugin \<Rightarrow> ('f, 'r) handled" where
  "payecs_advance_ok cmd z p = do {
     obj \<leftarrow> json_out_obj None None;
     answer z (command_success p cmd obj) }"

definition payecs_advance_ng :: "command \<Rightarrow> u32 \<Rightarrow> 'f payz \<Rightarrow> 'r plugin \<Rightarrow> u32 \<Rightarrow> ('f, 'r) handled" where
  "payecs_advance_ng cmd entity z p errcode = (
     let (_, compbuf, comptok) = ecs_get_component (top_ecs z) entity ''lightningd:systems'' in do {
     r \<leftarrow> json_scan compbuf comptok ''{error:{message:%}}'' [(''json_strdup'', scan_strdup)];
     case r of
       Inl scan_err \<Rightarrow> None
     | Inr vals \<Rightarrow> answer z (command_fail p cmd errcode (hd vals)) })"

definition payecs_advance :: "bool \<Rightarrow> ('f, 'r) handler" where
  "payecs_advance erange p cmd z buf params = do {
     r \<leftarrow> param p cmd buf params [p_req ''entity'' (as_value PNum (param_number erange))] False;
     case r of
       Inl p' \<Rightarrow> Some (command_param_failed, z, p')
     | Inr vals \<Rightarrow> do {
         entity \<leftarrow> the_num (vals ! 0);
         (res, ecs, p') \<leftarrow> ecs_advance p (top_ecs z) entity;
         let z' = z\<lparr>top_ecs := ecs\<rparr>;
         case res of
           Inr _ \<Rightarrow> payecs_advance_ok cmd z' p'
         | Inl errcode \<Rightarrow> payecs_advance_ng cmd entity z' p' errcode } }"

subsection \<open>Default systems\<close>

fun add_strings :: "string list \<Rightarrow> json_stream \<Rightarrow> json_stream" where
  "add_strings [] js = js"
| "add_strings (s # ss) js = add_strings ss (json_add_string js None s)"

definition json_splice_default_systems :: "'f payz \<Rightarrow> json_stream \<Rightarrow> json_stream" where
  "json_splice_default_systems z js = add_strings (default_systems z) js"

definition payecs_getdefaultsystems :: "('f, 'r) handler" where
  "payecs_getdefaultsystems p cmd z buf params = do {
     r \<leftarrow> param p cmd buf params ([] :: ('r, pval) param list) False;
     case r of
       Inl p' \<Rightarrow> Some (command_param_failed, z, p')
     | Inr vals \<Rightarrow> do {
         out \<leftarrow> jsonrpc_stream_success cmd;
         out \<leftarrow> json_array_start out (Some ''systems'');
         let out = json_splice_default_systems z out;
         out \<leftarrow> json_array_end out;
         answer z (command_finished p cmd out) } }"

definition first_unregistered :: "'f payz \<Rightarrow> string list \<Rightarrow> string option" where
  "first_unregistered z systems = List.find (\<lambda>s. \<not> ecs_system_exists (top_ecs z) s) systems"

definition payecs_setdefaultsystems :: "bool \<Rightarrow> ('f, 'r) handler" where
  "payecs_setdefaultsystems erange p cmd z buf params = do {
     r \<leftarrow> param p cmd buf params
       [p_req ''entity'' (as_value PNum (param_number erange)),
        p_opt ''prepend'' (as_value PStrs param_array_of_strings),
        p_opt ''append'' (as_value PStrs param_array_of_strings)] False;
     case r of
       Inl p' \<Rightarrow> Some (command_param_failed, z, p')
     | Inr vals \<Rightarrow> do {
         entity \<leftarrow> the_num (vals ! 0);
         let prepend = opt_strs (vals ! 1);
         let append = opt_strs (vals ! 2);
         case first_unregistered z prepend of
           Some s \<Rightarrow> answer z (command_fail p cmd JSONRPC2_INVALID_PARAMS (''Unregistered system: '' @ s))
         | None \<Rightarrow>
             (case first_unregistered z append of
                Some s \<Rightarrow> answer z (command_fail p cmd JSONRPC2_INVALID_PARAMS (''Unregistered system: '' @ s))
              | None \<Rightarrow> do {
                  js \<leftarrow> json_array_start new_json_stream None;
                  let js = add_strings prepend js;
                  let js = json_splice_default_systems z js;
                  let js = add_strings append js;
                  js \<leftarrow> json_array_end js;
                  let newcompbuf = json_out_contents js;
                  newcomptok \<leftarrow> (case newcompbuf of None \<Rightarrow> None | Some text \<Rightarrow> json_parse_simple text);
                  z' \<leftarrow> payz_setsystems_tok z entity ''systems'' newcompbuf newcomptok;
                  obj \<leftarrow> json_out_obj None None;
                  answer z' (command_success p cmd obj) }) } }"

subsection \<open>Trace of invocations\<close>

text \<open>
  \<open>format_time\<close>: \<open>gmtime\<close> gives the proleptic Gregorian date of a count of days since 1970-01-01; \<open>strftime\<close> fills the
  twenty bytes of the array only for a year of four digits.
\<close>

record timeabs =
  tv_sec :: int
  tv_nsec :: nat

definition civil_of_days :: "int \<Rightarrow> int \<times> int \<times> int" where
  "civil_of_days days = (
     let z = days + 719468;
         era = z div 146097;
         doe = z mod 146097;
         yoe = (doe - doe div 1460 + doe div 36524 - doe div 146096) div 365;
         doy = doe - (365 * yoe + yoe div 4 - yoe div 100);
         mp = (5 * doy + 2) div 153;
         d = doy - (153 * mp + 2) div 5 + 1;
         m = (if mp < 10 then mp + 3 else mp - 9)
     in (yoe + era * 400 + (if m \<le> 2 then 1 else 0), m, d))"

definition padded :: "nat \<Rightarrow> int \<Rightarrow> string" where
  "padded w i = (let s = dec_of_nat (nat i) in replicate (w - length s) (CHR ''0'') @ s)"

definition format_time :: "timeabs \<Rightarrow> string run" where
  "format_time t = (
     let (y, m, d) = civil_of_days (tv_sec t div 86400); s = tv_sec t mod 86400 in do {
     c_assert (1000 \<le> y \<and> y \<le> 9999);
     Some (padded 4 y @ ''-'' @ padded 2 m @ ''-'' @ padded 2 d @ ''T'' @
           padded 2 (s div 3600) @ '':'' @ padded 2 (s div 60 mod 60) @ '':'' @ padded 2 (s mod 60) @
           ''.'' @ padded 3 (int (tv_nsec t div 1000000)) @ ''Z'') })"

definition payecs_systrace_add ::
  "bool \<Rightarrow> timeabs \<Rightarrow> 'r plugin \<Rightarrow> 'f payz \<Rightarrow> string \<Rightarrow> tokptr \<Rightarrow> ('f payz \<times> 'r plugin) run" where
  "payecs_systrace_add erange now p z buf params = do {
     r \<leftarrow> json_scan buf params ''{entity:{entity:%}}'' [(''json_to_u32'', scan_u32 erange)];
     case r of
       Inl err \<Rightarrow> do {
         ptext \<leftarrow> full_str buf params;
         p' \<leftarrow> plugin_log p LOG_UNUSUAL
           (''Invalid '' @ quoted ECSYS_SYSTEM_NOTIFICATION @ '' parameters: '' @ err @ '': '' @ ptext);
         Some (z, p') }
     | Inr vals \<Rightarrow> do {
         let z1 = (if payecs_systraces_remaining z = 0
                   then z\<lparr>payecs_systraces := tl (payecs_systraces z),
                          payecs_systraces_remaining := payecs_systraces_remaining z + 1\<rparr>
                   else z);
         system \<leftarrow> json_get_member buf params ''system'';
         entity_obj \<leftarrow> json_get_member buf params ''entity'';
         case (system, entity_obj) of
           (Some s, Some eo) \<Rightarrow> do {
             stext \<leftarrow> full_str buf s;
             etext \<leftarrow> full_str buf eo;
             time \<leftarrow> format_time now;
             let entry = \<lparr>tr_entity = hd vals,
               tr_json = CHR ''{'' # QUOTE # ''time'' @ QUOTE # '': '' @ QUOTE # time @ QUOTE #
                 '', '' @ QUOTE # ''system'' @ QUOTE # '': '' @ stext @
                 '', '' @ QUOTE # ''entity'' @ QUOTE # '': '' @ etext @ ''}''\<rparr>;
             Some (z1\<lparr>payecs_systraces := payecs_systraces z1 @ [entry],
                      payecs_systraces_remaining := payecs_systraces_remaining z1 - 1\<rparr>, p) }
         | _ \<Rightarrow> do {
             ptext \<leftarrow> full_str buf params;
             p' \<leftarrow> plugin_log p LOG_UNUSUAL
               (quoted ECSYS_SYSTEM_NOTIFICATION @ '' parameter missing '' @ quoted ''system'' @ '' or '' @ quoted ''entity'' @
                '': '' @ ptext);
             Some (z1, p') } } }"

fun add_traces :: "u32 \<Rightarrow> payecs_systrace_entry list \<Rightarrow> json_stream \<Rightarrow> json_stream" where
  "add_traces entity [] js = js"
| "add_traces entity (x # xs) js =
     (if tr_entity x \<noteq> entity then add_traces entity xs js
      else add_traces entity xs (json_add_literal js None (tr_json x)))"

definition payecs_systrace :: "bool \<Rightarrow> ('f, 'r) handler" where
  "payecs_systrace erange p cmd z buf params = do {
     r \<leftarrow> param p cmd buf params [p_req ''entity'' (as_value PNum (param_number erange))] False;
     case r of
       Inl p' \<Rightarrow> Some (command_param_failed, z, p')
     | Inr vals \<Rightarrow> do {
         entity \<leftarrow> the_num (vals ! 0);
         out \<leftarrow> jsonrpc_stream_success cmd;
         let out = json_add_u32 out (Some ''entity'') entity;
         out \<leftarrow> json_array_start out (Some ''trace'');
         let out = add_traces entity (payecs_systraces z) out;
         out \<leftarrow> json_array_end out;
         answer z (command_finished p cmd out) } }"

subsection \<open>The notification that runs a system\<close>

definition payecs_system_notification ::
  "('f, 'r) system_code \<Rightarrow> bool \<Rightarrow> timeabs \<Rightarrow> 'r plugin \<Rightarrow> 'f payz \<Rightarrow> string \<Rightarrow> tokptr \<Rightarrow> ('f, 'r) handled" where
  "payecs_system_notification call erange now p z buf params = do {
     payload \<leftarrow> json_get_member buf params ''payload'';
     case payload of
       None \<Rightarrow> do {
         text \<leftarrow> full_str buf params;
         p' \<leftarrow> plugin_log p LOG_UNUSUAL (ECSYS_SYSTEM_NOTIFICATION @ '' parameters has no payload: '' @ text);
         let (r, p'') = notification_handled p';
         Some (r, z, p'') }
     | Some pl \<Rightarrow> do {
         text \<leftarrow> full_str buf pl;
         p1 \<leftarrow> plugin_log p LOG_DBG (ECSYS_SYSTEM_NOTIFICATION @ '' payload: '' @ text);
         (z1, p2) \<leftarrow> payecs_systrace_add erange now p1 z buf pl;
         (r, ecs, p3) \<leftarrow> ecs_system_notify call erange (top_ecs z1) p2 buf pl;
         Some (r, z1\<lparr>top_ecs := ecs\<rparr>, p3) } }"


subsection \<open>Registration of external systems\<close>

lemma same_system_iff: "same_system x s req dis \<longleftrightarrow> x = \<lparr>ex_system = s, ex_required = req, ex_disallowed = dis\<rparr>"
  by (cases x) (auto simp: same_system_def list_all2_eq [symmetric])

lemma extend_over: "ecs_register_extend (arr @ [OVER_AND_OUT]) d = Some (arr @ [d, OVER_AND_OUT])"
  by (simp add: ecs_register_extend_def)

lemma register_each_require:
  "register_each ecs_register_require cs (arr @ [OVER_AND_OUT]) = Some (arr @ map REQUIRE cs @ [OVER_AND_OUT])"
proof (induction cs arbitrary: arr)
  case (Cons c cs)
  show ?case using Cons [of "arr @ [REQUIRE c]"] by (simp add: ecs_register_require_def extend_over)
qed simp

lemma register_each_disallow:
  "register_each ecs_register_disallow cs (arr @ [OVER_AND_OUT]) = Some (arr @ map DISALLOW cs @ [OVER_AND_OUT])"
proof (induction cs arbitrary: arr)
  case (Cons c cs)
  show ?case using Cons [of "arr @ [DISALLOW c]"] by (simp add: ecs_register_disallow_def extend_over)
qed simp

definition ex_block :: "payecs_external_system \<Rightarrow> 'f block" where
  "ex_block x = \<lparr>b_name = ex_system x, b_func = None, b_required = ex_required x, b_disallowed = ex_disallowed x\<rparr>"

lemma registration_descs:
  "(do { reg \<leftarrow> ecs_register_name ecs_register_begin (ex_system x);
         reg \<leftarrow> register_each ecs_register_require (ex_required x) reg;
         reg \<leftarrow> register_each ecs_register_disallow (ex_disallowed x) reg;
         reg \<leftarrow> ecs_register_done reg;
         k reg }) = k (desc_of (ex_block x) @ [OVER_AND_OUT])"
  by (simp add: ecs_register_name_def ecs_register_begin_def ecs_register_done_def desc_of_def ex_block_def
      extend_over [of "[]", simplified] register_each_require [of _ "[NAME (ex_system x)]", simplified]
      register_each_disallow [of _ "NAME (ex_system x) # map REQUIRE (ex_required x)", simplified]
      extend_over [of "NAME (ex_system x) # map REQUIRE (ex_required x) @ map DISALLOW (ex_disallowed x)", simplified])

lemma registry_none:
  assumes "payz_inv z" "\<not> ecs_system_exists (top_ecs z) s"
  shows "strmap_get (payecs_registry z) s = None"
proof (rule ccontr)
  assume "strmap_get (payecs_registry z) s \<noteq> None"
  then obtain x where "strmap_get (payecs_registry z) s = Some x" by blast
  then show False using assms by (auto simp: payz_inv_def registry_ok_def ecs_system_exists_def ecsys_system_exists_def)
qed

lemma payecs_register_known:
  "strmap_get (payecs_registry z) s = Some x \<Longrightarrow> payecs_register z s req dis =
     Some (x = \<lparr>ex_system = s, ex_required = req, ex_disallowed = dis\<rparr>, z)"
  by (simp add: payecs_register_def same_system_iff)

lemma payecs_register_builtin:
  "strmap_get (payecs_registry z) s = None \<Longrightarrow> ecs_system_exists (top_ecs z) s \<Longrightarrow> payecs_register z s req dis = Some (False, z)"
  by (simp add: payecs_register_def)

lemma payecs_register_eq:
  fixes req dis :: "string list"
  assumes "\<not> ecs_system_exists (top_ecs z) s" "payz_inv z"
  defines "x \<equiv> \<lparr>ex_system = s, ex_required = req, ex_disallowed = dis\<rparr>"
  shows "payecs_register z s req dis = do {
    ecs \<leftarrow> ecs_register (top_ecs z) (desc_of (ex_block x) @ [OVER_AND_OUT]);
    Some (True, z\<lparr>payecs_registry := snd (strmap_add (payecs_registry z) s x), top_ecs := ecs\<rparr>) }"
proof -
  have "strmap_get (payecs_registry z) s = None" by (rule registry_none [OF assms(2,1)])
  then show ?thesis using assms(1) by (simp add: payecs_register_def registration_descs x_def) (simp add: Let_def)
qed

lemma payecs_register_fresh:
  fixes req dis :: "string list"
  assumes "\<not> ecs_system_exists (top_ecs z) s" "payz_inv z" "c_string s"
  defines "x \<equiv> \<lparr>ex_system = s, ex_required = req, ex_disallowed = dis\<rparr>"
  shows "if req = [] \<and> dis \<noteq> [] then payecs_register z s req dis = None
    else \<exists>z'. payecs_register z s req dis = Some (True, z') \<and> payz_inv z' \<and> ec_of (top_ecs z') = ec_of (top_ecs z) \<and>
      default_systems z' = default_systems z \<and> payecs_systraces z' = payecs_systraces z \<and>
      strmap_get (payecs_registry z') = (strmap_get (payecs_registry z))(s \<mapsto> x) \<and>
      strmap_get (system_funcs (top_ecs z')) = strmap_get (system_funcs (top_ecs z)) \<and>
      strmap_get (system_map (ecsys_of (top_ecs z'))) = (strmap_get (system_map (ecsys_of (top_ecs z))))(s \<mapsto> ex_reg x)"
proof (cases "req = [] \<and> dis \<noteq> []")
  case True
  then have "ecs_register (top_ecs z) (desc_of (ex_block x) @ [OVER_AND_OUT]) = None"
    using loop_block_faults [of "ex_block x"] by (simp add: ecs_register_def ex_block_def x_def)
  then show ?thesis using True payecs_register_eq [OF assms(1,2)] by (simp add: x_def)
next
  case False
  have ok: "list_all block_ok [ex_block x]" using False assms(3) by (auto simp: block_ok_def ex_block_def x_def)
  obtain ecs' where ecs': "ecs_register (top_ecs z) (desc_of (ex_block x) @ [OVER_AND_OUT]) = Some ecs'"
    and reg: "registered (ex_block x) (top_ecs z) ecs'"
    using ecs_register_blocks [OF payz_inv_ecs [OF assms(2)] ok] assms(1) by (auto simp: ex_block_def x_def)
  have reg': "ec_of ecs' = ec_of (top_ecs z)" "ecs_inv ecs'"
    "strmap_get (system_funcs ecs') = strmap_get (system_funcs (top_ecs z))"
    "strmap_get (system_map (ecsys_of ecs')) = (strmap_get (system_map (ecsys_of (top_ecs z))))(s \<mapsto> ex_reg x)"
    using reg by (simp_all add: registered_def ex_block_def x_def block_reg_def ex_reg_def)
  have inv: "strmap_inv (payecs_registry z)" and none: "strmap_get (payecs_registry z) s = None"
    using assms(2) registry_none [OF assms(2,1)] by (auto simp: payz_inv_def registry_ok_def)
  let ?m = "snd (strmap_add (payecs_registry z) s x)"
  have m: "strmap_inv ?m" "strmap_get ?m = (strmap_get (payecs_registry z))(s \<mapsto> x)"
    using sm.add_fresh [OF inv assms(3) none, of x] sm.lookup_add [OF inv assms(3) none, of x] by simp_all
  let ?z = "z\<lparr>payecs_registry := ?m, top_ecs := ecs'\<rparr>"
  have exists: "ecs_system_exists (top_ecs z) n \<Longrightarrow> ecs_system_exists ecs' n" for n
    by (simp add: ecs_system_exists_def ecsys_system_exists_def reg'(4))
  have "payz_inv ?z"
    using assms(2) m reg' exists
    by (auto simp: payz_inv_def registry_ok_def trace_ok_def defaults_ok_def x_def)
  then show ?thesis using False payecs_register_eq [OF assms(1,2), of req dis] ecs' reg' m by (auto simp: x_def)
qed

abbreviation newsystem_decls :: "('r, pval) param list" where
  "newsystem_decls \<equiv> [p_req ''system'' (as_value PStr param_string),
     p_req ''required'' (as_value PStrs param_array_of_strings),
     p_opt ''disallowed'' (as_value PStrs param_array_of_strings)]"

lemma newsystem_vals:
  assumes "payz_inv z" "cmd_id cmd = Some rid" "c_string s"
    and "param p cmd buf ts newsystem_decls False = Some (Inr [Some (PStr s), Some (PStrs req), d])"
  defines "dis \<equiv> opt_strs d"
  defines "x \<equiv> \<lparr>ex_system = s, ex_required = req, ex_disallowed = dis\<rparr>"
  defines "ok z' \<equiv> Some (COMPLETE, z', p\<lparr>js_arr := js_arr p @ [reply rid (''result'', mk_obj [])]\<rparr>)"
    and "conflict \<equiv> Some (COMPLETE, z, p\<lparr>js_arr := js_arr p @
      [error_reply rid JSONRPC2_INVALID_PARAMS (''Conflict with existing `system`: '' @ s)]\<rparr>)"
  shows "if strmap_get (payecs_registry z) s = Some x then payecs_newsystem p cmd z buf ts = ok z
    else if ecs_system_exists (top_ecs z) s then payecs_newsystem p cmd z buf ts = conflict
    else if req = [] \<and> dis \<noteq> [] then payecs_newsystem p cmd z buf ts = None
    else \<exists>z'. payecs_newsystem p cmd z buf ts = ok z' \<and> payz_inv z' \<and> ec_of (top_ecs z') = ec_of (top_ecs z) \<and>
      default_systems z' = default_systems z \<and> payecs_systraces z' = payecs_systraces z \<and>
      strmap_get (payecs_registry z') = (strmap_get (payecs_registry z))(s \<mapsto> x) \<and>
      strmap_get (system_funcs (top_ecs z')) = strmap_get (system_funcs (top_ecs z)) \<and>
      strmap_get (system_map (ecsys_of (top_ecs z'))) = (strmap_get (system_map (ecsys_of (top_ecs z))))(s \<mapsto> ex_reg x)"
proof -
  have run: "payecs_newsystem p cmd z buf ts = (case payecs_register z s req dis of None \<Rightarrow> None
      | Some (True, z') \<Rightarrow> ok z' | Some (False, z') \<Rightarrow> Some (COMPLETE, z', p\<lparr>js_arr := js_arr p @
      [error_reply rid JSONRPC2_INVALID_PARAMS (''Conflict with existing `system`: '' @ s)]\<rparr>))"
    using command_success_empty [OF assms(2), of p] assms(3)
    by (auto simp: payecs_newsystem_def assms(4) dis_def ok_def answer_def command_fail_reply [OF assms(2)] json_out_obj_empty
        split: option.splits bool.splits)
  show ?thesis
  proof (cases "ecs_system_exists (top_ecs z) s")
    case True
    show ?thesis
    proof (cases "strmap_get (payecs_registry z) s")
      case None
      then show ?thesis using True payecs_register_builtin [OF None True] by (simp add: run conflict_def)
    next
      case (Some y)
      then show ?thesis using True payecs_register_known [OF Some] by (auto simp: run conflict_def x_def)
    qed
  next
    case False
    then have "strmap_get (payecs_registry z) s = None" by (rule registry_none [OF assms(1)])
    then show ?thesis using False payecs_register_fresh [OF False assms(1,3), of req dis]
      by (cases "req = [] \<and> dis \<noteq> []") (auto simp: run x_def intro: exI [of "\<lambda>z'. ok _ = ok z' \<and> _ z'"])
  qed
qed


subsection \<open>Advancement by command\<close>

definition refused ::
  "command \<Rightarrow> 'r plugin \<Rightarrow> 'f payz \<Rightarrow> u32 \<Rightarrow> (string \<times> cst) list \<Rightarrow> u32 \<Rightarrow> string \<Rightarrow> ('f, 'r) handled \<Rightarrow> bool" where
  "refused cmd p z e ms code msg h \<longleftrightarrow> (\<exists>rid z'. cmd_id cmd = Some rid \<and>
     h = Some (COMPLETE, z', p\<lparr>js_arr := js_arr p @ [error_reply rid code (json_escape msg)]\<rparr>) \<and> payz_inv z' \<and>
     table_of z' = tab_upd (table_of z) e syscomp (Some (attached (mk_obj (set_field ''error'' (Some (error_cst code msg)) ms)))))"

definition advanced ::
  "command \<Rightarrow> 'r plugin \<Rightarrow> 'f payz \<Rightarrow> u32 \<Rightarrow> (string \<times> cst) list \<Rightarrow> nat \<Rightarrow> ecsys_registered \<Rightarrow> ('f, 'r) handled \<Rightarrow> bool" where
  "advanced cmd p z e ms i reg h \<longleftrightarrow> (\<exists>rid z' vals. cmd_id cmd = Some rid \<and>
     h = Some (COMPLETE, z', p\<lparr>js_arr := js_arr p @
       [message (notify_cst (reg_system reg) e (zip (requiredComponents reg) vals)), reply rid (''result'', mk_obj [])]\<rparr>) \<and>
     payz_inv z' \<and>
     table_of z' = tab_upd (table_of z) e syscomp (Some (attached (mk_obj (set_field ''current'' (Some (CPrim (dec_of_nat i))) ms)))) \<and>
     list_all wf_cst vals \<and>
     list_all2 (\<lambda>cn v. table_of z' e cn = Some (attached v)) (requiredComponents reg) vals)"

abbreviation entity_decls :: "bool \<Rightarrow> ('r, pval) param list" where
  "entity_decls erange \<equiv> [p_req ''entity'' (as_value PNum (param_number erange))]"

lemma advance_vals_fails:
  assumes "payz_inv z" "cmd_id cmd = Some rid"
    and "param p cmd buf ts (entity_decls erange) False = Some (Inr [Some (PNum e)])"
    and "ect.fields (ec_of (top_ecs z)) e ms"
    and "ect.advance_fails (ec_of (top_ecs z)) e ms code msg p
      (ecsys_advance ec_get_component ec_set_component (ec_of (top_ecs z)) (ecsys_of (top_ecs z)) p e)"
  shows "refused cmd p z e ms code msg (payecs_advance erange p cmd z buf ts)"
proof -
  obtain ec' where msg: "c_string msg" "utf8_check msg" and ec': "ec_inv ec'"
    "ecsys_advance ec_get_component ec_set_component (ec_of (top_ecs z)) (ecsys_of (top_ecs z)) p e = Some (Inl code, ec', p)"
    "ec_table ec' = tab_upd (table_of z) e syscomp (Some (attached (mk_obj (set_field ''error'' (Some (error_cst code msg)) ms))))"
    using assms(5) unfolding ect.advance_fails_def by blast
  let ?z = "z\<lparr>top_ecs := (top_ecs z)\<lparr>ec_of := ec'\<rparr>\<rparr>"
  have inv: "payz_inv ?z" by (rule payz_inv_table [OF assms(1)]) (simp_all add: ecs_inv_ec [OF payz_inv_ecs [OF assms(1)] ec'(1)])
  obtain buffer tok where get: "ec_get_component ec' e syscomp = (True, buffer, tok)"
    "json_scan buffer tok ''{error:{message:%}}'' [(''json_strdup'', scan_strdup)] = Some (Inr [json_escape msg])"
    using ect.scan_error_message [OF ec'(1) msg ect.fields_wf [OF assms(4)], of e code] by (auto simp: ec'(3))
  have "payecs_advance erange p cmd z buf ts = answer ?z (command_fail p cmd code (json_escape msg))"
    using get by (simp add: payecs_advance_def assms(3) ecs_advance_def ec'(2) payecs_advance_ng_def ecs_get_component_def syscomp_def)
  then show ?thesis
    using inv ec'(3) c_string_json_escape [OF msg(1)]
    by (simp add: refused_def answer_def command_fail_reply [OF assms(2)] assms(2))
qed

lemma advance_vals_runs:
  assumes "payz_inv z" "cmd_id cmd = Some rid"
    and "param p cmd buf ts (entity_decls erange) False = Some (Inr [Some (PNum e)])"
    and "ect.advance_runs (ec_of (top_ecs z)) e ms i reg p
      (ecsys_advance ec_get_component ec_set_component (ec_of (top_ecs z)) (ecsys_of (top_ecs z)) p e)"
  shows "advanced cmd p z e ms i reg (payecs_advance erange p cmd z buf ts)"
proof -
  let ?p = "\<lambda>vals. p\<lparr>js_arr := js_arr p @ [message (notify_cst (reg_system reg) e (zip (requiredComponents reg) vals))]\<rparr>"
  obtain ec' vals where ec': "ec_inv ec'"
    "ecsys_advance ec_get_component ec_set_component (ec_of (top_ecs z)) (ecsys_of (top_ecs z)) p e = Some (Inr (), ec', ?p vals)"
    "ec_table ec' = tab_upd (table_of z) e syscomp (Some (attached (mk_obj (set_field ''current'' (Some (CPrim (dec_of_nat i))) ms))))"
    "list_all2 (\<lambda>cn v. ec_table ec' e cn = Some (attached v)) (requiredComponents reg) vals" "list_all wf_cst vals"
    using assms(4) unfolding ect.advance_runs_def by blast
  let ?z = "z\<lparr>top_ecs := (top_ecs z)\<lparr>ec_of := ec'\<rparr>\<rparr>"
  have inv: "payz_inv ?z" by (rule payz_inv_table [OF assms(1)]) (simp_all add: ecs_inv_ec [OF payz_inv_ecs [OF assms(1)] ec'(1)])
  have "payecs_advance erange p cmd z buf ts = answer ?z (do { obj \<leftarrow> json_out_obj None None; command_success (?p vals) cmd obj })"
    by (simp add: payecs_advance_def assms(3) ecs_advance_def ec'(2) payecs_advance_ok_def json_out_obj_empty)
  then have run: "payecs_advance erange p cmd z buf ts = Some (COMPLETE, ?z, p\<lparr>js_arr := js_arr p @
      [message (notify_cst (reg_system reg) e (zip (requiredComponents reg) vals)), reply rid (''result'', mk_obj [])]\<rparr>)"
    using command_success_empty [OF assms(2), of "?p vals"] by (simp add: answer_def)
  show ?thesis
    unfolding advanced_def
    by (rule exI [of _ rid], rule exI [of _ ?z], rule exI [of _ vals]) (use run inv ec'(3-5) assms(2) in simp)
qed

lemma advance_vals:
  assumes "payz_inv z" "cmd_id cmd = Some rid"
    and "param p cmd buf ts (entity_decls erange) False = Some (Inr [Some (PNum e)])"
    and "ect.fields (ec_of (top_ecs z)) e ms"
  defines "h \<equiv> payecs_advance erange p cmd z buf ts"
  shows "case systems_of ms of
      None \<Rightarrow> refused cmd p z e ms PAY_ECS_INVALID_SYSTEMS_COMPONENT msg_systems_absent h
    | Some ss \<Rightarrow> (case first_system (table_of z) e (ecsys_of (top_ecs z)) ss 0 of
        NoMatch \<Rightarrow> refused cmd p z e ms PAY_ECS_NOT_ADVANCEABLE msg_no_match h
      | Unregistered s \<Rightarrow> refused cmd p z e ms PAY_ECS_INVALID_SYSTEMS_COMPONENT (msg_unregistered s) h
      | Matching i reg \<Rightarrow> advanced cmd p z e ms i reg h)"
proof -
  have "ec_inv (ec_of (top_ecs z))" "ecsys_inv (ecsys_of (top_ecs z))"
    using assms(1) by (simp_all add: payz_inv_def ecs_inv_def)
  from ect.advance_spec [OF this(1) assms(4) this(2), of p] show ?thesis
    using advance_vals_fails [OF assms(1-4)] advance_vals_runs [OF assms(1-3)]
    by (auto simp: h_def split: option.splits system_search.splits)
qed


subsection \<open>Default systems\<close>

abbreviation text_ok :: "string \<Rightarrow> bool" where
  "text_ok s \<equiv> utf8_check s \<and> c_string s"

lemma add_strings_fold: "list_all c_string ss \<Longrightarrow> add_strings ss js = fold (add_value None) (map CString ss) js"
  by (induction ss arbitrary: js) (simp_all add: json_add_string_eq)

lemma defaults_text: "payz_inv z \<Longrightarrow> list_all text_ok (default_systems z)"
  by (auto simp: payz_inv_def defaults_ok_def list_all_iff plain_text_utf8 plain_text_c_string)

lemma list_all_text: "list_all text_ok ss \<Longrightarrow> list_all c_string ss"
  by (auto simp: list_all_iff)

lemma getdefaultsystems_result:
  assumes "payz_inv z" "cmd_id cmd = Some rid" "param p cmd buf ts ([] :: ('r, pval) param list) False = Some (Inr vals)"
  shows "payecs_getdefaultsystems p cmd z buf ts = answer z (command_finished p cmd (result_stream rid
    [(''systems'', mk_arr (map CString (default_systems z)))]))"
proof -
  obtain js where js: "json_array_start (result_stream rid []) (Some ''systems'') = Some js" by (simp add: json_array_start_eq)
  have "json_array_end (json_splice_default_systems z js) =
      Some (result_stream rid [(''systems'', mk_arr (map CString (default_systems z)))])"
    using write_array_result [OF js] list_all_text [OF defaults_text [OF assms(1)]]
    by (simp add: json_splice_default_systems_def add_strings_fold)
  then show ?thesis by (simp add: payecs_getdefaultsystems_def assms(3) jsonrpc_stream_success_eq [OF assms(2)] js)
qed

lemma getdefaultsystems_answers:
  fixes p :: "'r plugin"
  assumes "payz_inv z" "\<not> usage_only cmd" "cmd_id cmd = Some rid" "denotes buf ts c"
  shows "answers cmd p z (\<lambda>z' ms. z' = z \<and> ms = [(''systems'', mk_arr (map CString (default_systems z)))])
    (payecs_getdefaultsystems p cmd z buf ts)"
proof (rule handler_total [OF assms(2-4) all_good_Nil])
  fix vals :: "pval pvals" assume "param p cmd buf ts ([] :: ('r, pval) param list) False = Some (Inr vals)"
  from getdefaultsystems_result [OF assms(1,3) this] show "answers cmd p z (\<lambda>z' ms. z' = z \<and> ms = [(''systems'', mk_arr (map CString (default_systems z)))])
    (payecs_getdefaultsystems p cmd z buf ts)" by (simp add: answer_finished [OF assms(3)])
qed (simp_all add: payecs_getdefaultsystems_def)

abbreviation setdefault_decls :: "bool \<Rightarrow> ('r, pval) param list" where
  "setdefault_decls erange \<equiv> [p_req ''entity'' (as_value PNum (param_number erange)),
     p_opt ''prepend'' (as_value PStrs param_array_of_strings),
     p_opt ''append'' (as_value PStrs param_array_of_strings)]"

lemma find_None_list_all: "List.find P xs = None \<longleftrightarrow> list_all (\<lambda>x. \<not> P x) xs"
  by (auto simp: find_None_iff list_all_iff)

lemma payz_setsystems_tok_spec:
  assumes "payz_inv z" "ecst.fields (top_ecs z) e ms" "str_ok f" "denotes buf ts c"
  shows "\<exists>z'. payz_setsystems_tok z e f (Some buf) (Some ts) = Some z' \<and> payz_inv z' \<and>
    table_of z' = tab_upd (table_of z) e syscomp (Some (attached (mk_obj (set_field f (Some c) ms))))"
proof -
  have "case Some c of None \<Rightarrow> Some buf = None | Some c \<Rightarrow> \<exists>b t. Some buf = Some b \<and> Some ts = Some t \<and> denotes b t c"
    using assms(4) by simp
  from ecst.setsystems_spec [OF payz_inv_ecs [OF assms(1)] assms(2,3) this] obtain ecs where
    ecs: "payz_generic_setsystems_tok ecs_get_component ecs_set_component (top_ecs z) e f (Some buf) (Some ts) = Some ecs"
    "ecs_inv ecs" "ec_table (ec_of ecs) = tab_upd (table_of z) e syscomp (Some (attached (mk_obj (set_field f (Some c) ms))))"
    by blast
  have "ecsys_of ecs = ecsys_of (top_ecs z)"
    using ecs(1) by (auto simp: payz_generic_setsystems_tok_def ecs_set_component_def Let_def split_beta bind_eq_Some_conv)
  then show ?thesis using payz_inv_table [OF assms(1) ecs(2)] ecs by (simp add: payz_setsystems_tok_def)
qed

lemma setdefaultsystems_vals:
  assumes "payz_inv z" "cmd_id cmd = Some rid" "ecst.fields (top_ecs z) e ms"
    and "param p cmd buf ts (setdefault_decls erange) False = Some (Inr [Some (PNum e), pr, ap])"
    and "list_all text_ok (opt_strs pr)" "list_all text_ok (opt_strs ap)"
  defines "h \<equiv> payecs_setdefaultsystems erange p cmd z buf ts"
    and "ss \<equiv> opt_strs pr @ default_systems z @ opt_strs ap"
    and "missing \<equiv> filter (\<lambda>s. \<not> ecs_system_exists (top_ecs z) s) (opt_strs pr @ opt_strs ap)"
  shows "if missing \<noteq> []
    then h = Some (COMPLETE, z, p\<lparr>js_arr := js_arr p @
      [error_reply rid JSONRPC2_INVALID_PARAMS (''Unregistered system: '' @ hd missing)]\<rparr>)
    else \<exists>z'. h = Some (COMPLETE, z', p\<lparr>js_arr := js_arr p @ [reply rid (''result'', mk_obj [])]\<rparr>) \<and> payz_inv z' \<and>
      table_of z' = tab_upd (table_of z) e syscomp (Some (attached (mk_obj (set_field ''systems'' (Some (mk_arr (map CString ss))) ms))))"
proof (cases "first_unregistered z (opt_strs pr)")
  case (Some s)
  then obtain us vs where "opt_strs pr = us @ s # vs" "list_all (\<lambda>s. ecs_system_exists (top_ecs z) s) us"
    "\<not> ecs_system_exists (top_ecs z) s"
    by (auto simp: first_unregistered_def find_Some_iff list_all_length) (metis id_take_nth_drop length_take min.absorb2 less_imp_le nth_take)
  then have m: "hd missing = s" "missing \<noteq> []" "c_string s" using assms(5) by (simp_all add: missing_def filter_False list_all_iff)
  then show ?thesis
    using Some by (simp add: h_def payecs_setdefaultsystems_def assms(4) answer_def command_fail_reply [OF assms(2)])
next
  case None
  then have pr: "list_all (\<lambda>s. ecs_system_exists (top_ecs z) s) (opt_strs pr)" by (simp add: first_unregistered_def find_None_list_all)
  show ?thesis
  proof (cases "first_unregistered z (opt_strs ap)")
    case (Some s)
    then obtain us vs where "opt_strs ap = us @ s # vs" "list_all (\<lambda>s. ecs_system_exists (top_ecs z) s) us"
      "\<not> ecs_system_exists (top_ecs z) s"
      by (auto simp: first_unregistered_def find_Some_iff list_all_length) (metis id_take_nth_drop length_take min.absorb2 less_imp_le nth_take)
    then have m: "hd missing = s" "missing \<noteq> []" "c_string s" using assms(6) pr by (simp_all add: missing_def filter_False list_all_iff)
    then show ?thesis
      using Some None by (simp add: h_def payecs_setdefaultsystems_def assms(4) answer_def command_fail_reply [OF assms(2)])
  next
    case None2: None
    then have m: "missing = []" using pr by (auto simp: missing_def first_unregistered_def find_None_list_all list_all_iff filter_empty_conv)
    let ?arr = "mk_arr (map CString ss)"
    have ok: "list_all text_ok ss" using assms(5,6) defaults_text [OF assms(1)] by (simp add: ss_def)
    have wf: "wf_cst ?arr" using ok by (intro wf_mk_arr) (auto simp: list_all_iff)
    obtain js where js: "json_array_start new_json_stream None = Some js" by (simp add: json_array_start_eq)
    have "json_array_end (add_strings (opt_strs ap) (json_splice_default_systems z (add_strings (opt_strs pr) js))) =
        Some (add_value None ?arr new_json_stream)"
      using write_array [of "map CString ss" new_json_stream None] js assms(5,6) defaults_text [OF assms(1)]
      by (simp add: json_array_start_eq json_splice_default_systems_def add_strings_fold list_all_text ss_def)
    moreover have "json_out_contents (add_value None ?arr new_json_stream) = Some (text_of ?arr)"
      by (simp add: add_value_new json_out_contents_def mk_arr_def)
    moreover obtain z' where z': "payz_setsystems_tok z e ''systems'' (Some (text_of ?arr)) (Some (toks_of 0 ?arr @ [terminator])) = Some z'"
      "payz_inv z'" "table_of z' = tab_upd (table_of z) e syscomp (Some (attached (mk_obj (set_field ''systems'' (Some ?arr) ms))))"
      using payz_setsystems_tok_spec [OF assms(1,3) _ denotes_attached [OF wf], of "''systems''"] by (auto simp: layout_eval)
    ultimately have "h = answer z' (do { obj \<leftarrow> json_out_obj None None; command_success p cmd obj })"
      using None None2 json_parse_simple_text [OF wf]
      by (simp add: h_def payecs_setdefaultsystems_def assms(4) js json_out_obj_empty)
    then show ?thesis using m z' command_success_empty [OF assms(2), of p] by (simp add: answer_def)
  qed
qed


subsection \<open>The trace\<close>

lemma plain_text_Cons:
  "plain_text (c # s) \<longleftrightarrow> (32 \<le> (of_char c :: nat) \<and> (of_char c :: nat) < 127 \<and> (of_char c :: nat) \<noteq> 34 \<and> (of_char c :: nat) \<noteq> 92) \<and> plain_text s"
  by (simp add: plain_text_def)

lemma padded_plain: "plain_text (padded w i)"
proof -
  have "plain_text (dec_of_nat n)" for n
    by (auto simp: plain_text_def list_all_iff cisdigit_def dest!: dec_of_nat_digits)
  moreover have "plain_text (replicate k (CHR ''0''))" for k by (induction k) (simp_all add: plain_text_Cons)
  ultimately show ?thesis by (simp add: padded_def Let_def)
qed

lemma format_time_plain: "format_time now = Some tm \<Longrightarrow> plain_text tm"
  by (auto simp: format_time_def Let_def padded_plain plain_text_Cons split_beta bind_eq_Some_conv)

definition trace_cst :: "string \<Rightarrow> cst \<Rightarrow> cst \<Rightarrow> cst" where
  "trace_cst tm cs ce = CObj (MCons [] ''time'' [] '' '' (CStr tm)
     (MCons '', '' ''system'' [] '' '' cs (MCons '', '' ''entity'' [] '' '' ce MNil))) []"

lemma wf_trace_cst: "plain_text tm \<Longrightarrow> wf_cst cs \<Longrightarrow> wf_cst ce \<Longrightarrow> wf_cst (trace_cst tm cs ce)"
  by (simp add: trace_cst_def layout_eval ws_ok_def sep_ok_def str_ok_plain_text)

text \<open>Among the last 100000 invocations, in order.\<close>

definition keep_last :: "'a list \<Rightarrow> 'a list" where
  "keep_last xs = drop (length xs - MAX_SYSTRACES) xs"

definition only_trace :: "'f payz \<Rightarrow> 'f payz \<Rightarrow> bool" where
  "only_trace z z' \<longleftrightarrow> top_ecs z' = top_ecs z \<and> default_systems z' = default_systems z \<and> payecs_registry z' = payecs_registry z"

lemma only_trace_inv: "payz_inv z \<Longrightarrow> only_trace z z' \<Longrightarrow> trace_ok z' \<Longrightarrow> payz_inv z'"
  by (simp add: payz_inv_def only_trace_def registry_ok_def defaults_ok_def)

definition make_room :: "'f payz \<Rightarrow> 'f payz" where
  "make_room z = (if payecs_systraces_remaining z = 0
     then z\<lparr>payecs_systraces := tl (payecs_systraces z), payecs_systraces_remaining := payecs_systraces_remaining z + 1\<rparr>
     else z)"

lemma make_room:
  assumes "trace_ok z"
  shows "trace_ok (make_room z)" "only_trace z (make_room z)" "payecs_systraces_remaining (make_room z) \<noteq> 0"
    "payecs_systraces (make_room z) @ [x] = keep_last (payecs_systraces z @ [x])"
proof -
  have len: "length (payecs_systraces z) + unat (payecs_systraces_remaining z) = MAX_SYSTRACES" using assms by (simp add: trace_ok_def)
  show "trace_ok (make_room z)" using assms
    by (auto simp: trace_ok_def make_room_def MAX_SYSTRACES_def dest: list.set_sel(2) [rotated])
  show "only_trace z (make_room z)" "payecs_systraces_remaining (make_room z) \<noteq> 0" by (simp_all add: make_room_def only_trace_def)
  show "payecs_systraces (make_room z) @ [x] = keep_last (payecs_systraces z @ [x])"
  proof (cases "payecs_systraces_remaining z = 0")
    case True
    then show ?thesis using len by (simp add: make_room_def keep_last_def MAX_SYSTRACES_def drop_Suc)
  next
    case False
    then have "unat (payecs_systraces_remaining z) \<noteq> 0" by (simp add: unat_eq_0)
    then show ?thesis using len False by (simp add: make_room_def keep_last_def)
  qed
qed

lemma trace_ok_add:
  assumes "trace_ok z" "payecs_systraces_remaining z \<noteq> 0" "wf_cst c"
  shows "trace_ok (z\<lparr>payecs_systraces := payecs_systraces z @ [\<lparr>tr_entity = e, tr_json = text_of c\<rparr>],
    payecs_systraces_remaining := payecs_systraces_remaining z - 1\<rparr>)"
  using assms unat_minus_one [OF assms(2)] unat_eq_0 [of "payecs_systraces_remaining z"] by (auto simp: trace_ok_def)

lemma systrace_add_spec:
  assumes "payz_inv z" "denotes buf ts (mk_obj ms)" "format_time now = Some tm"
    and "map_of ms ''system'' = Some cs" "map_of ms ''entity'' = Some ce"
    and "path_get ce [''entity''] = Some (CPrim (dec_of_nat (unat e)))"
  shows "\<exists>z'. payecs_systrace_add erange now p z buf ts = Some (z', p) \<and> payz_inv z' \<and> only_trace z z' \<and>
    payecs_systraces z' = keep_last (payecs_systraces z @ [\<lparr>tr_entity = e, tr_json = text_of (trace_cst tm cs ce)\<rparr>])"
proof -
  let ?x = "\<lparr>tr_entity = e, tr_json = text_of (trace_cst tm cs ce)\<rparr>"
  have lit: "list_all (list_all literal_char) [''entity'', ''entity'']" by (simp add: literal_char_def)
  have path: "path_get (mk_obj ms) [''entity'', ''entity''] = Some (CPrim (dec_of_nat (unat e)))"
    using assms(5,6) by (simp add: mk_obj_def)
  have guide: "path_guide [''entity'', ''entity''] = ''{entity:{entity:%}}''" by simp
  obtain ts1 where ts1: "inner buf ts1 (CPrim (dec_of_nat (unat e)))"
    and scan: "\<forall>v. scan_u32 erange buf ts1 = Some (Some v) \<longrightarrow>
      json_scan buf ts ''{entity:{entity:%}}'' [(''json_to_u32'', scan_u32 erange)] = Some (Inr [v])"
    using json_scan_path [OF lit _ assms(2), of "''json_to_u32''" "scan_u32 erange"] unfolding path guide
    by (auto split: option.splits)
  have num: "scan_u32 erange buf ts1 = Some (Some e)"
    using denotes_deref [OF inner_denotes [OF ts1]] json_to_u32_dec(1) [of buf _ _ e] ts1 by (auto simp: scan_u32_def)
  obtain s where s: "json_get_member buf ts ''system'' = Some (Some s)" "inner buf s cs"
    using json_get_member_mk_obj [OF assms(2), of "''system''"] assms(4) by auto
  obtain eo where eo: "json_get_member buf ts ''entity'' = Some (Some eo)" "inner buf eo ce"
    using json_get_member_mk_obj [OF assms(2), of "''entity''"] assms(5) by auto
  have wf: "wf_cst cs" "wf_cst ce" using s(2) eo(2) by (simp_all add: inner_def)
  have c_str: "c_string (text_of cs)" "c_string (text_of ce)" using c_string_text_of wf by blast+
  let ?r = "make_room z"
  let ?z = "?r\<lparr>payecs_systraces := payecs_systraces ?r @ [?x], payecs_systraces_remaining := payecs_systraces_remaining ?r - 1\<rparr>"
  have tr: "trace_ok z" using assms(1) by (simp add: payz_inv_def)
  have "payecs_systrace_add erange now p z buf ts = Some (?z, p)"
    using s(1) eo(1) denotes_full_str [OF inner_denotes [OF s(2)]] denotes_full_str [OF inner_denotes [OF eo(2)]] c_str
    by (simp add: payecs_systrace_add_def scan [rule_format, OF num] assms(3) make_room_def trace_cst_def)
  moreover have "only_trace z ?z" using make_room(2) [OF tr] by (simp add: only_trace_def)
  moreover have "trace_ok ?z"
    using trace_ok_add [OF make_room(1,3) [OF tr] wf_trace_cst [OF format_time_plain [OF assms(3)] wf]] by simp
  ultimately show ?thesis using only_trace_inv [OF assms(1)] make_room(4) [OF tr, of ?x] by auto
qed


lemma add_traces_fold:
  "\<forall>x\<in>set xs. \<exists>c. wf_cst c \<and> tr_json x = text_of c \<Longrightarrow>
   \<exists>cs. list_all2 (\<lambda>x c. wf_cst c \<and> tr_json x = text_of c) (filter (\<lambda>x. tr_entity x = e) xs) cs \<and>
     (\<forall>js. add_traces e xs js = fold (add_value None) cs js)"
proof (induction xs)
  case (Cons x xs)
  then obtain c cs where c: "wf_cst c" "tr_json x = text_of c"
    and cs: "list_all2 (\<lambda>x c. wf_cst c \<and> tr_json x = text_of c) (filter (\<lambda>x. tr_entity x = e) xs) cs"
      "\<forall>js. add_traces e xs js = fold (add_value None) cs js" by auto
  show ?case
    using c cs by (intro exI [of _ "if tr_entity x = e then c # cs else cs"]) (auto simp: json_add_literal_eq)
qed simp

definition shows_trace :: "'f payz \<Rightarrow> u32 \<Rightarrow> (string \<times> cst) list \<Rightarrow> bool" where
  "shows_trace z e ms \<longleftrightarrow> (\<exists>cs. ms = [(''entity'', CPrim (dec_of_nat (unat e))), (''trace'', mk_arr cs)] \<and>
     map text_of cs = map tr_json (filter (\<lambda>x. tr_entity x = e) (payecs_systraces z)))"

lemma list_all2_text_of:
  "list_all2 (\<lambda>x c. wf_cst c \<and> tr_json x = text_of c) xs cs \<Longrightarrow> map text_of cs = map tr_json xs"
  by (induction rule: list_all2_induct) auto

lemma systrace_result:
  assumes "payz_inv z" "cmd_id cmd = Some rid"
    and "param p cmd buf ts (entity_decls erange) False = Some (Inr [Some (PNum e)])"
  shows "\<exists>ms. shows_trace z e ms \<and> payecs_systrace erange p cmd z buf ts = answer z (command_finished p cmd (result_stream rid ms))"
proof -
  have "\<forall>x\<in>set (payecs_systraces z). \<exists>c. wf_cst c \<and> tr_json x = text_of c"
    using assms(1) by (simp add: payz_inv_def trace_ok_def)
  then obtain cs where cs: "list_all2 (\<lambda>x c. wf_cst c \<and> tr_json x = text_of c) (filter (\<lambda>x. tr_entity x = e) (payecs_systraces z)) cs"
    and add: "\<forall>js. add_traces e (payecs_systraces z) js = fold (add_value None) cs js"
    using add_traces_fold by blast
  let ?e = "(''entity'', CPrim (dec_of_nat (unat e)))"
  obtain js where js: "json_array_start (result_stream rid [?e]) (Some ''trace'') = Some js" by (simp add: json_array_start_eq)
  have "shows_trace z e [?e, (''trace'', mk_arr cs)]" using list_all2_text_of [OF cs] by (auto simp: shows_trace_def)
  then show ?thesis
    using write_array_result [OF js, of cs]
    by (intro exI [of _ "[?e, (''trace'', mk_arr cs)]"])
      (simp add: payecs_systrace_def assms(3) jsonrpc_stream_success_eq [OF assms(2)] json_add_u32_eq add_value_result js add)
qed

lemma systrace_vals:
  assumes "payz_inv z" "cmd_id cmd = Some rid"
    and "param p cmd buf ts (entity_decls erange) False = Some (Inr [Some (PNum e)])"
  shows "answers cmd p z (\<lambda>z' ms. z' = z \<and> shows_trace z e ms) (payecs_systrace erange p cmd z buf ts)"
  using systrace_result [OF assms] by (auto simp: answer_finished [OF assms(2)])

lemma entity_param_total:
  assumes "\<not> usage_only cmd" "cmd_id cmd = Some rid" "denotes buf ts c"
    and "\<And>p'. param p cmd buf ts (entity_decls erange) False = Some (Inl p') \<Longrightarrow> h = Some (command_param_failed, z, p')"
    and "\<And>e. param p cmd buf ts (entity_decls erange) False = Some (Inr [Some (PNum e)]) \<Longrightarrow> answers cmd p z R h"
  shows "answers cmd p z R h"
proof (rule handler_total [OF assms(1-3), of "(!) [num_val]" "entity_decls erange"])
  fix vals assume "vals_given (entity_decls erange) ((!) [num_val]) vals"
    and "param p cmd buf ts (entity_decls erange) False = Some (Inr vals)"
  then show "answers cmd p z R h" using assms(5) by (auto simp: vals_given_eval num_val_def split: option.splits)
qed (use assms(4) in \<open>simp_all add: all_good_eval good_num [OF assms(2)]\<close>)

lemma systrace_answers:
  assumes "payz_inv z" "\<not> usage_only cmd" "cmd_id cmd = Some rid" "denotes buf ts c"
  shows "answers cmd p z (\<lambda>z' ms. z' = z \<and> (\<exists>e. shows_trace z e ms)) (payecs_systrace erange p cmd z buf ts)"
  by (rule entity_param_total [OF assms(2-4), of p erange], simp add: payecs_systrace_def)
    (auto intro: answers_mono [OF systrace_vals [OF assms(1,3)]])

subsection \<open>The notification\<close>

lemma system_notification_spec:
  assumes "payz_inv z" "format_time now = Some tm"
    and "strmap_get (system_funcs (top_ecs z)) s = Some w" "\<not> json_escape_needed s" "c_string s"
    and "length vals = length (wrapper_required w)"
    and "denotes buf params (mk_obj ms)" "map_of ms ''payload'' = Some (invoke_params s e (zip (wrapper_required w) vals))"
  defines "ent \<equiv> mk_obj ((''entity'', CPrim (dec_of_nat (unat e))) # zip (wrapper_required w) vals)"
  shows "\<exists>ts z1 log. inner buf ts ent \<and> payz_inv z1 \<and> only_trace z z1 \<and>
    payecs_systraces z1 = keep_last (payecs_systraces z @ [\<lparr>tr_entity = e, tr_json = text_of (trace_cst tm (CString s) ent)\<rparr>]) \<and>
    payecs_system_notification call erange now p z buf params = do {
      (r, ecs, p') \<leftarrow> call (wrapper_func w) (top_ecs z) (p\<lparr>js_arr := js_arr p @ [log_message LOG_DBG log]\<rparr>) e buf ts;
      Some (r, z1\<lparr>top_ecs := ecs\<rparr>, p') }"
proof -
  let ?pl = "invoke_params s e (zip (wrapper_required w) vals)"
  obtain pl where pl: "json_get_member buf params ''payload'' = Some (Some pl)" "inner buf pl ?pl"
    using json_get_member_mk_obj [OF assms(7), of "''payload''"] assms(8) by auto
  let ?log = "ECSYS_SYSTEM_NOTIFICATION @ '' payload: '' @ tal_strndup (text_of ?pl)"
  let ?p = "p\<lparr>js_arr := js_arr p @ [log_message LOG_DBG ?log]\<rparr>"
  note d = inner_denotes [OF pl(2)]
  obtain z1 where z1: "payecs_systrace_add erange now ?p z buf pl = Some (z1, ?p)" "payz_inv z1" "only_trace z z1"
    "payecs_systraces z1 = keep_last (payecs_systraces z @ [\<lparr>tr_entity = e, tr_json = text_of (trace_cst tm (CString s) ent)\<rparr>])"
    using systrace_add_spec [OF assms(1) d [unfolded invoke_params_def] assms(2), of "CString s" ent e erange ?p]
    by (auto simp: ent_def mk_obj_def)
  obtain ts where ts: "inner buf ts ent"
    "ecs_system_notify call erange (top_ecs z) ?p buf pl = call (wrapper_func w) (top_ecs z) ?p e buf ts"
    using notify_calls [OF assms(3-5) d assms(6)] unfolding ent_def by blast
  have "payecs_system_notification call erange now p z buf params = do {
      (r, ecs, p') \<leftarrow> call (wrapper_func w) (top_ecs z) ?p e buf ts; Some (r, z1\<lparr>top_ecs := ecs\<rparr>, p') }"
    using ts(2) z1(1,3) by (simp add: payecs_system_notification_def pl(1) denotes_full_str [OF d] plugin_log_message only_trace_def)
  then show ?thesis using ts(1) z1 by blast
qed

end
