(* ===== verification/Systems.thy ===== *)
theory Systems
  imports Payecs_Code Hex
begin

text \<open>
  The built-in systems: \<open>systems/nonce.c\<close>, \<open>systems/parse_invoice.c\<close>, \<open>systems/invoice_amount.c\<close> and
  \<open>systems/defaulter.c\<close>, and \<open>top.c\<close>, which registers them. A pointer to the code of a system is a value of
  \<open>builtin\<close>; a pending request of the plugin is a value of \<open>out_req\<close>. The bytes that \<open>randombytes_buf\<close> returns and
  the delay that lightningd reported at start-up are in the environment.
\<close>

datatype builtin =
    GENERATE_NONCE | PARSE_INVOICE | PROMOTE_INVOICE_TYPE
  | INVOICE_AMOUNT_MSAT | FAIL_INVOICE_AMOUNT_AND_AMOUNT
  | DEFAULTER_RISKFACTOR | DEFAULTER_MAXFEEPERCENT | DEFAULTER_RETRY_FOR | DEFAULTER_MAXDELAY | DEFAULTER_EXEMPTFEE

datatype out_req = PARSE_INVOICE_DECODE u32

record environment =
  random_bytes :: "u8 list"
  default_maxdelay :: "string option"

type_synonym code_result = "(command_result \<times> builtin ecs \<times> out_req plugin) run"

subsection \<open>\<open>nonce.c\<close>\<close>

definition system_nonce :: "builtin ecs_register_desc list" where
  "system_nonce =
     [NAME ''lightningd:generate_nonce'', FUNC GENERATE_NONCE, REQUIRE ''lightningd:systems'',
      DISALLOW ''lightningd:nonce'', DONE, OVER_AND_OUT]"

definition generate_nonce :: "u8 list \<Rightarrow> builtin ecs \<Rightarrow> out_req plugin \<Rightarrow> u32 \<Rightarrow> code_result" where
  "generate_nonce nonce ecs p entity = do {
     nonce_hex \<leftarrow> tal_hexstr nonce;
     ecs' \<leftarrow> ecs_set_component_datum ecs entity ''lightningd:nonce'' (Some (QUOTE # nonce_hex @ [QUOTE]));
     ecs_advance_done p ecs' entity }"

subsection \<open>\<open>parse_invoice.c\<close>\<close>

definition system_parse_invoice :: "builtin ecs_register_desc list" where
  "system_parse_invoice =
     [NAME ''lightningd:parse_invoice'', FUNC PARSE_INVOICE, REQUIRE ''lightningd:invoice'',
      DISALLOW ''lightningd:parse_invoice:ran'', DONE,
      NAME ''lightningd:promote_invoice_type'', FUNC PROMOTE_INVOICE_TYPE, REQUIRE ''lightningd:invoice:type'',
      DISALLOW ''lightningd:promote_invoice_type:ran'', DONE, OVER_AND_OUT]"

definition parse_invoice :: "builtin ecs \<Rightarrow> out_req plugin \<Rightarrow> u32 \<Rightarrow> string \<Rightarrow> tokptr \<Rightarrow> code_result" where
  "parse_invoice ecs p entity buffer eo = do {
     invoice \<leftarrow> json_get_member buffer eo ''lightningd:invoice'';
     ecs' \<leftarrow> ecs_set_component_datum ecs entity ''lightningd:parse_invoice:ran'' (Some ''true'');
     (js, p') \<leftarrow> jsonrpc_request_start p ''decode'' (PARSE_INVOICE_DECODE entity);
     case invoice of
       None \<Rightarrow> None
     | Some tok \<Rightarrow> do {
         js \<leftarrow> json_add_tok js (Some ''string'') tok buffer;
         (r, p'') \<leftarrow> send_outreq p' js;
         Some (r, ecs', p'') } }"

definition decode_field :: "u32 \<Rightarrow> string \<Rightarrow> tokptr \<Rightarrow> builtin ecs \<Rightarrow> (unit + builtin ecs) run" where
  "decode_field entity buf key ecs = do {
     k \<leftarrow> deref key;
     label \<leftarrow> slice buf (tok_start k) (tok_end k);
     ecs' \<leftarrow> ecs_set_component ecs entity (''lightningd:invoice:'' @ tal_strndup label) (Some buf) (Some (tl key));
     Some (Inr ecs') }"

definition parse_invoice_decode_ok :: "builtin ecs \<Rightarrow> out_req plugin \<Rightarrow> u32 \<Rightarrow> string \<Rightarrow> tokptr \<Rightarrow> code_result" where
  "parse_invoice_decode_ok ecs p entity buf res = do {
     st \<leftarrow> json_for_each_obj res (decode_field entity buf) ecs;
     case st of Inl _ \<Rightarrow> None | Inr ecs' \<Rightarrow> ecs_advance_done p ecs' entity }"

definition parse_invoice_decode_ng :: "builtin ecs \<Rightarrow> out_req plugin \<Rightarrow> u32 \<Rightarrow> string \<Rightarrow> tokptr \<Rightarrow> code_result" where
  "parse_invoice_decode_ng ecs p entity buf res = do {
     ecs1 \<leftarrow> ecs_set_component ecs entity ''lightningd:error'' (Some buf) (Some res);
     ecs2 \<leftarrow> ecs_set_component ecs1 entity ''lightningd:systems'' None None;
     ecs_done p ecs2 }"

definition promote_invoice_type :: "builtin ecs \<Rightarrow> out_req plugin \<Rightarrow> u32 \<Rightarrow> string \<Rightarrow> tokptr \<Rightarrow> code_result" where
  "promote_invoice_type ecs p entity buffer eo = do {
     type_tok \<leftarrow> json_get_member buffer eo ''lightningd:invoice:type'';
     case type_tok of
       None \<Rightarrow> None
     | Some tok \<Rightarrow> do {
         t \<leftarrow> deref tok;
         ty \<leftarrow> json_strdup buffer t;
         ecs' \<leftarrow> ecs_set_component_datum ecs entity (''lightningd:invoice:type:'' @ ty) (Some ''true'');
         ecs_advance_done p ecs' entity } }"

text \<open>The reply to the request, as \<open>handle_rpc_reply\<close> dispatches it.\<close>

definition reply_callback :: "builtin ecs \<Rightarrow> out_req plugin \<Rightarrow> bool \<Rightarrow> string \<Rightarrow> tokptr \<Rightarrow> code_result" where
  "reply_callback ecs p erange buf toks = do {
     (rep, out, p') \<leftarrow> handle_rpc_reply p erange buf toks;
     case (rep, out) of
       (ReplyResult contents, Some (PARSE_INVOICE_DECODE entity)) \<Rightarrow> parse_invoice_decode_ok ecs p' entity buf contents
     | (ReplyError contents, Some (PARSE_INVOICE_DECODE entity)) \<Rightarrow> parse_invoice_decode_ng ecs p' entity buf contents
     | _ \<Rightarrow> Some (COMPLETE, ecs, p') }"

subsection \<open>\<open>invoice_amount.c\<close>\<close>

definition system_invoice_amount :: "builtin ecs_register_desc list" where
  "system_invoice_amount =
     [NAME ''lightningd:invoice_amount_msat'', FUNC INVOICE_AMOUNT_MSAT, REQUIRE ''lightningd:invoice:amount_msat'',
      DISALLOW ''lightningd:amount'', DONE,
      NAME ''lightningd:fail_invoice_amount_and_amount'', FUNC FAIL_INVOICE_AMOUNT_AND_AMOUNT,
      REQUIRE ''lightningd:invoice:amount_msat'', REQUIRE ''lightningd:amount'', DONE, OVER_AND_OUT]"

definition invoice_amount_msat :: "builtin ecs \<Rightarrow> out_req plugin \<Rightarrow> u32 \<Rightarrow> string \<Rightarrow> tokptr \<Rightarrow> code_result" where
  "invoice_amount_msat ecs p entity buffer components = do {
     amount_msat \<leftarrow> json_get_member buffer components ''lightningd:invoice:amount_msat'';
     ecs1 \<leftarrow> ecs_set_component_datum ecs entity ''lightningd:invoice:amount_msat'' None;
     ecs2 \<leftarrow> ecs_set_component ecs1 entity ''lightningd:amount'' (Some buffer) amount_msat;
     ecs_advance_done p ecs2 entity }"

definition fail_invoice_amount_and_amount :: "builtin ecs \<Rightarrow> out_req plugin \<Rightarrow> u32 \<Rightarrow> code_result" where
  "fail_invoice_amount_and_amount ecs p entity = do {
     js \<leftarrow> json_object_start new_json_stream None;
     let js = json_add_errcode js (Some ''code'') JSONRPC2_INVALID_PARAMS;
     let js = json_add_string js (Some ''message'') ''msatoshi parameter unnecessary'';
     js \<leftarrow> json_object_end js;
     ecs1 \<leftarrow> ecs_set_component_datuml ecs entity ''lightningd:error'' (json_out_contents js);
     ecs2 \<leftarrow> ecs_set_component_datum ecs1 entity ''lightningd:systems'' None;
     ecs_done p ecs2 }"

subsection \<open>\<open>defaulter.c\<close>\<close>

definition default_riskfactor :: string where "default_riskfactor = ''10''"
definition default_maxfeepercent :: string where "default_maxfeepercent = ''0.5''"
definition default_retry_for :: string where "default_retry_for = ''60''"
definition default_exemptfee :: string where "default_exemptfee = QUOTE # ''5000msat'' @ [QUOTE]"

definition system_defaulter :: "builtin ecs_register_desc list" where
  "system_defaulter =
     [NAME ''lightningd:default_riskfactor'', FUNC DEFAULTER_RISKFACTOR, REQUIRE ''lightningd:main-payment'',
      DISALLOW ''lightningd:riskfactor'', DONE,
      NAME ''lightningd:default_maxfeepercent'', FUNC DEFAULTER_MAXFEEPERCENT, REQUIRE ''lightningd:main-payment'',
      DISALLOW ''lightningd:maxfeepercent'', DONE,
      NAME ''lightningd:default_retry_for'', FUNC DEFAULTER_RETRY_FOR, REQUIRE ''lightningd:main-payment'',
      DISALLOW ''lightningd:retry_for'', DONE,
      NAME ''lightningd:default_maxdelay'', FUNC DEFAULTER_MAXDELAY, REQUIRE ''lightningd:main-payment'',
      DISALLOW ''lightningd:maxdelay'', DONE,
      NAME ''lightningd:default_exemptfee'', FUNC DEFAULTER_EXEMPTFEE, REQUIRE ''lightningd:main-payment'',
      DISALLOW ''lightningd:exemptfee'', DONE, OVER_AND_OUT]"

text \<open>The result of \<open>listconfigs\<close> at start-up; \<open>rpc_scan\<close> ends the process when it cannot be read.\<close>

definition system_defaulter_init :: "string \<Rightarrow> tokptr \<Rightarrow> string run" where
  "system_defaulter_init buf contents = do {
     r \<leftarrow> json_scan buf contents ''{max-locktime-blocks:%}'' [(''json_strdup'', scan_strdup)];
     case r of Inl err \<Rightarrow> None | Inr vals \<Rightarrow> Some (hd vals) }"

definition set_default :: "string \<Rightarrow> string \<Rightarrow> builtin ecs \<Rightarrow> out_req plugin \<Rightarrow> u32 \<Rightarrow> code_result" where
  "set_default component v ecs p entity = do {
     ecs' \<leftarrow> ecs_set_component_datum ecs entity component (Some v);
     ecs_advance_done p ecs' entity }"

definition defaulter_riskfactor :: "builtin ecs \<Rightarrow> out_req plugin \<Rightarrow> u32 \<Rightarrow> code_result" where
  "defaulter_riskfactor = set_default ''lightningd:riskfactor'' default_riskfactor"

definition defaulter_maxfeepercent :: "builtin ecs \<Rightarrow> out_req plugin \<Rightarrow> u32 \<Rightarrow> code_result" where
  "defaulter_maxfeepercent = set_default ''lightningd:maxfeepercent'' default_maxfeepercent"

definition defaulter_retry_for :: "builtin ecs \<Rightarrow> out_req plugin \<Rightarrow> u32 \<Rightarrow> code_result" where
  "defaulter_retry_for = set_default ''lightningd:retry_for'' default_retry_for"

definition defaulter_exemptfee :: "builtin ecs \<Rightarrow> out_req plugin \<Rightarrow> u32 \<Rightarrow> code_result" where
  "defaulter_exemptfee = set_default ''lightningd:exemptfee'' default_exemptfee"

definition defaulter_maxdelay :: "string option \<Rightarrow> builtin ecs \<Rightarrow> out_req plugin \<Rightarrow> u32 \<Rightarrow> code_result" where
  "defaulter_maxdelay maxdelay ecs p entity =
     (case maxdelay of None \<Rightarrow> None | Some v \<Rightarrow> set_default ''lightningd:maxdelay'' v ecs p entity)"

subsection \<open>The code behind a function pointer\<close>

fun run_builtin :: "environment \<Rightarrow> (builtin, out_req) system_code" where
  "run_builtin env GENERATE_NONCE ecs p entity buffer eo = generate_nonce (random_bytes env) ecs p entity"
| "run_builtin env PARSE_INVOICE ecs p entity buffer eo = parse_invoice ecs p entity buffer eo"
| "run_builtin env PROMOTE_INVOICE_TYPE ecs p entity buffer eo = promote_invoice_type ecs p entity buffer eo"
| "run_builtin env INVOICE_AMOUNT_MSAT ecs p entity buffer eo = invoice_amount_msat ecs p entity buffer eo"
| "run_builtin env FAIL_INVOICE_AMOUNT_AND_AMOUNT ecs p entity buffer eo = fail_invoice_amount_and_amount ecs p entity"
| "run_builtin env DEFAULTER_RISKFACTOR ecs p entity buffer eo = defaulter_riskfactor ecs p entity"
| "run_builtin env DEFAULTER_MAXFEEPERCENT ecs p entity buffer eo = defaulter_maxfeepercent ecs p entity"
| "run_builtin env DEFAULTER_RETRY_FOR ecs p entity buffer eo = defaulter_retry_for ecs p entity"
| "run_builtin env DEFAULTER_MAXDELAY ecs p entity buffer eo = defaulter_maxdelay (default_maxdelay env) ecs p entity"
| "run_builtin env DEFAULTER_EXEMPTFEE ecs p entity buffer eo = defaulter_exemptfee ecs p entity"

subsection \<open>\<open>top.c\<close>\<close>

fun extract_names :: "'f ecs_register_desc list \<Rightarrow> string list run" where
  "extract_names [] = None"
| "extract_names (OVER_AND_OUT # ds) = Some []"
| "extract_names (NAME n # ds) = do { ns \<leftarrow> extract_names ds; Some (n # ns) }"
| "extract_names (_ # ds) = extract_names ds"

definition setup_payz_top :: "builtin payz run" where
  "setup_payz_top = do {
     let ecs = ecs_new;
     to_register \<leftarrow> ecs_register_concat ecs_register_begin system_nonce;
     to_register \<leftarrow> ecs_register_concat to_register system_parse_invoice;
     to_register \<leftarrow> ecs_register_concat to_register system_invoice_amount;
     to_register \<leftarrow> ecs_register_concat to_register system_defaulter;
     systems \<leftarrow> extract_names to_register;
     ecs \<leftarrow> ecs_register ecs to_register;
     Some \<lparr>top_ecs = ecs, default_systems = systems, payecs_registry = strmap_init,
           payecs_systraces = [], payecs_systraces_remaining = 100000\<rparr> }"


subsection \<open>Start-up\<close>

definition sys_block :: "string \<Rightarrow> builtin \<Rightarrow> string list \<Rightarrow> string list \<Rightarrow> builtin block" where
  "sys_block n f req dis = \<lparr>b_name = n, b_func = Some f, b_required = req, b_disallowed = dis\<rparr>"

definition builtin_blocks :: "builtin block list" where
  "builtin_blocks =
     [sys_block ''lightningd:generate_nonce'' GENERATE_NONCE [''lightningd:systems''] [''lightningd:nonce''],
      sys_block ''lightningd:parse_invoice'' PARSE_INVOICE [''lightningd:invoice''] [''lightningd:parse_invoice:ran''],
      sys_block ''lightningd:promote_invoice_type'' PROMOTE_INVOICE_TYPE [''lightningd:invoice:type''] [''lightningd:promote_invoice_type:ran''],
      sys_block ''lightningd:invoice_amount_msat'' INVOICE_AMOUNT_MSAT [''lightningd:invoice:amount_msat''] [''lightningd:amount''],
      sys_block ''lightningd:fail_invoice_amount_and_amount'' FAIL_INVOICE_AMOUNT_AND_AMOUNT
        [''lightningd:invoice:amount_msat'', ''lightningd:amount''] [],
      sys_block ''lightningd:default_riskfactor'' DEFAULTER_RISKFACTOR [''lightningd:main-payment''] [''lightningd:riskfactor''],
      sys_block ''lightningd:default_maxfeepercent'' DEFAULTER_MAXFEEPERCENT [''lightningd:main-payment''] [''lightningd:maxfeepercent''],
      sys_block ''lightningd:default_retry_for'' DEFAULTER_RETRY_FOR [''lightningd:main-payment''] [''lightningd:retry_for''],
      sys_block ''lightningd:default_maxdelay'' DEFAULTER_MAXDELAY [''lightningd:main-payment''] [''lightningd:maxdelay''],
      sys_block ''lightningd:default_exemptfee'' DEFAULTER_EXEMPTFEE [''lightningd:main-payment''] [''lightningd:exemptfee'']]"

lemma append_descs_over: "OVER_AND_OUT \<notin> set ds \<Longrightarrow> append_descs arr (ds @ [OVER_AND_OUT]) = Some (arr @ ds @ [OVER_AND_OUT])"
  by (induction ds arbitrary: arr) auto

lemma concat_over:
  assumes "OVER_AND_OUT \<notin> set ds"
  shows "ecs_register_concat (arr @ [OVER_AND_OUT]) (ds @ [OVER_AND_OUT]) = Some (arr @ ds @ [OVER_AND_OUT])"
proof (cases ds)
  case (Cons d es)
  then show ?thesis using assms append_descs_over [of es "arr @ [d]"] by (auto simp: ecs_register_concat_def)
qed (simp add: ecs_register_concat_def)

lemma no_over_desc: "OVER_AND_OUT \<notin> set (desc_of b)"
  by (auto simp: desc_of_def split: option.splits)

lemma no_over_descs: "OVER_AND_OUT \<notin> set (concat (map desc_of bs))"
  using no_over_desc by auto

lemma extract_names_desc: "extract_names (desc_of b @ ds) = map_option (Cons (b_name b)) (extract_names ds)"
proof -
  have 1: "extract_names (map REQUIRE cs @ ds) = extract_names ds" for cs and ds :: "'a ecs_register_desc list"
    by (induction cs) auto
  have 2: "extract_names (map DISALLOW cs @ ds) = extract_names ds" for cs and ds :: "'a ecs_register_desc list"
    by (induction cs) auto
  show ?thesis by (cases "extract_names ds"; cases "b_func b") (simp_all add: desc_of_def 1 2)
qed

lemma extract_names_descs: "extract_names (concat (map desc_of bs) @ [OVER_AND_OUT]) = Some (map b_name bs)"
  by (induction bs) (simp_all add: extract_names_desc)

lemma system_descs:
  "system_nonce = concat (map desc_of (take 1 builtin_blocks)) @ [OVER_AND_OUT]"
  "system_parse_invoice = concat (map desc_of (take 2 (drop 1 builtin_blocks))) @ [OVER_AND_OUT]"
  "system_invoice_amount = concat (map desc_of (take 2 (drop 3 builtin_blocks))) @ [OVER_AND_OUT]"
  "system_defaulter = concat (map desc_of (drop 5 builtin_blocks)) @ [OVER_AND_OUT]"
  by (simp_all add: system_nonce_def system_parse_invoice_def system_invoice_amount_def system_defaulter_def
      builtin_blocks_def sys_block_def desc_of_def)

lemma builtin_blocks_ok: "list_all block_ok builtin_blocks" "distinct (map b_name builtin_blocks)"
  "list_all plain_text (map b_name builtin_blocks)"
  by (simp_all add: builtin_blocks_def sys_block_def block_ok_def plain_text_def)

lemma registered_all_spec:
  "registered_all bs ecs ecs' \<Longrightarrow> ecs_inv ecs \<Longrightarrow> distinct (map b_name bs) \<Longrightarrow>
   ecs_inv ecs' \<and> ec_of ecs' = ec_of ecs \<and>
   (\<forall>b\<in>set bs. strmap_get (system_map (ecsys_of ecs')) (b_name b) = Some (block_reg b) \<and>
      (\<forall>f. b_func b = Some f \<longrightarrow> strmap_get (system_funcs ecs') (b_name b) = Some (block_wrapper b f))) \<and>
   (\<forall>s. s \<notin> b_name ` set bs \<longrightarrow> strmap_get (system_map (ecsys_of ecs')) s = strmap_get (system_map (ecsys_of ecs)) s \<and>
      strmap_get (system_funcs ecs') s = strmap_get (system_funcs ecs) s)"
proof (induction bs arbitrary: ecs)
  case (Cons b bs)
  then obtain ecs1 where 1: "registered b ecs ecs1" "registered_all bs ecs1 ecs'" by auto
  then have inv: "ecs_inv ecs1" and nb: "b_name b \<notin> b_name ` set bs" using Cons.prems(3) by (auto simp: registered_def)
  note IH = Cons.IH [OF 1(2) inv]
  show ?case using IH 1(1) nb Cons.prems(3) by (auto simp: registered_def split: option.splits)
qed simp

lemma setup_payz_top_spec:
  "\<exists>ecs. setup_payz_top = Some \<lparr>top_ecs = ecs, default_systems = map b_name builtin_blocks, payecs_registry = strmap_init,
      payecs_systraces = [], payecs_systraces_remaining = 100000\<rparr> \<and> registered_all builtin_blocks ecs_new ecs"
proof -
  let ?d = "\<lambda>bs. concat (map desc_of bs) :: builtin ecs_register_desc list"
  have all: "?d (take 1 builtin_blocks) @ ?d (take 2 (drop 1 builtin_blocks)) @ ?d (take 2 (drop 3 builtin_blocks)) @
      ?d (drop 5 builtin_blocks) = ?d builtin_blocks"
    by (simp add: builtin_blocks_def)
  obtain ecs where ecs: "ecs_register ecs_new (?d builtin_blocks @ [OVER_AND_OUT]) = Some ecs" "registered_all builtin_blocks ecs_new ecs"
    using ecs_register_blocks [OF ecs_inv_new builtin_blocks_ok(1,2)]
    by (auto simp: ecs_system_exists_def ecsys_system_exists_def ecs_new_def ecsys_new_def sm.lookup_empty)
  have c1: "ecs_register_concat ecs_register_begin system_nonce = Some (?d (take 1 builtin_blocks) @ [OVER_AND_OUT])"
    using concat_over [OF no_over_descs, of "[]"] by (simp add: ecs_register_begin_def system_descs)
  have c2: "ecs_register_concat (?d bs @ [OVER_AND_OUT]) (?d cs @ [OVER_AND_OUT]) = Some (?d (bs @ cs) @ [OVER_AND_OUT])" for bs cs
    using concat_over [OF no_over_descs, of "?d bs" cs] by simp
  have "setup_payz_top = do {
     systems \<leftarrow> extract_names (?d builtin_blocks @ [OVER_AND_OUT]);
     ecs \<leftarrow> ecs_register ecs_new (?d builtin_blocks @ [OVER_AND_OUT]);
     Some \<lparr>top_ecs = ecs, default_systems = systems, payecs_registry = strmap_init,
           payecs_systraces = [], payecs_systraces_remaining = 100000\<rparr> }"
    unfolding setup_payz_top_def Let_def c1 Option.bind.bind_lunit system_descs(2-4) c2
    using all by (simp only: map_append concat_append append_assoc)
  then show ?thesis using ecs by (intro exI [of _ ecs]) (simp add: extract_names_descs)
qed

text \<open>Any state in which the built-in systems are registered as at start-up.\<close>

definition builtins_registered :: "builtin ecs \<Rightarrow> bool" where
  "builtins_registered ecs \<longleftrightarrow> (\<forall>b\<in>set builtin_blocks.
     strmap_get (system_map (ecsys_of ecs)) (b_name b) = Some (block_reg b) \<and>
     (\<forall>f. b_func b = Some f \<longrightarrow> strmap_get (system_funcs ecs) (b_name b) = Some (block_wrapper b f)))"

lemma setup_inv:
  assumes "setup_payz_top = Some z"
  shows "payz_inv z" "builtins_registered (top_ecs z)" "default_systems z = map b_name builtin_blocks"
    "\<forall>e cn. table_of z e cn = None" "next_entity (ec_of (top_ecs z)) = 1"
proof -
  obtain ecs where z: "z = \<lparr>top_ecs = ecs, default_systems = map b_name builtin_blocks, payecs_registry = strmap_init,
      payecs_systraces = [], payecs_systraces_remaining = 100000\<rparr>" and reg: "registered_all builtin_blocks ecs_new ecs"
    using setup_payz_top_spec assms by (metis option.inject)
  note spec = registered_all_spec [OF reg ecs_inv_new builtin_blocks_ok(2)]
  show "builtins_registered (top_ecs z)" using spec by (auto simp: builtins_registered_def z)
  show "default_systems z = map b_name builtin_blocks" by (simp add: z)
  have ec: "ec_of ecs = ec_new" using spec by (simp add: ecs_new_def)
  then show "\<forall>e cn. table_of z e cn = None" "next_entity (ec_of (top_ecs z)) = 1" by (simp add: z ec_table_new, simp add: z ec ec_new_def)
  have "\<forall>s\<in>set (map b_name builtin_blocks). plain_text s \<and> ecs_system_exists ecs s"
    using spec builtin_blocks_ok(3) by (auto simp: list_all_iff ecs_system_exists_def ecsys_system_exists_def)
  then show "payz_inv z"
    using spec by (simp add: payz_inv_def z registry_ok_def trace_ok_def defaults_ok_def sm.invar_empty sm.lookup_empty MAX_SYSTRACES_def)
qed


subsection \<open>Effect of the built-in systems\<close>

definition same_code :: "'f ecs \<Rightarrow> 'f ecs \<Rightarrow> bool" where
  "same_code ecs ecs' \<longleftrightarrow> ecsys_of ecs' = ecsys_of ecs \<and> system_funcs ecs' = system_funcs ecs"

lemma same_code_set: "ecs_set_component ecs e cn b t = Some ecs' \<Longrightarrow> same_code ecs ecs'"
  by (auto simp: ecs_set_component_def same_code_def bind_eq_Some_conv)

lemma set_datum:
  assumes "ecs_inv ecs" "c_string cn" "wf_cst c"
  shows "\<exists>ecs'. ecs_set_component_datum ecs e cn (Some (text_of c)) = Some ecs' \<and> ecs_inv ecs' \<and> same_code ecs ecs' \<and>
    ec_table (ec_of ecs') = tab_upd (ec_table (ec_of ecs)) e cn (value_of c)"
proof -
  have eq: "ecs_set_component_datum ecs e cn (Some (text_of c)) =
      ecs_set_component ecs e cn (Some (text_of c)) (Some (toks_of 0 c @ [terminator]))"
    using json_parse_simple_text [OF assms(3)]
    by (simp add: ecs_set_component_datum_def ec_set_component_datum_def ec_set_component_datuml_def ecs_set_component_def)
  show ?thesis
    using ecst.set_denotes [OF assms(1,2) denotes_attached [OF assms(3)], of e "[terminator]"] same_code_set eq by metis
qed

lemma unset_datum:
  assumes "ecs_inv ecs"
  shows "\<exists>ecs'. ecs_set_component_datum ecs e cn None = Some ecs' \<and> ecs_inv ecs' \<and> same_code ecs ecs' \<and>
    ec_table (ec_of ecs') = tab_upd (ec_table (ec_of ecs)) e cn None"
proof -
  have "ecs_set_component_datum ecs e cn None = ecs_set_component ecs e cn None None"
    by (simp add: ecs_set_component_datum_def ec_set_component_datum_def ec_set_component_datuml_def ecs_set_component_def)
  then show ?thesis using ecst.set_null [OF assms, of e cn] same_code_set by metis
qed

fun sets :: "environment \<Rightarrow> builtin \<Rightarrow> (string \<times> cst) option" where
  "sets env GENERATE_NONCE = map_option (\<lambda>s. (''lightningd:nonce'', CStr s)) (tal_hexstr (random_bytes env))"
| "sets env DEFAULTER_RISKFACTOR = Some (''lightningd:riskfactor'', CPrim ''10'')"
| "sets env DEFAULTER_MAXFEEPERCENT = Some (''lightningd:maxfeepercent'', CPrim ''0.5'')"
| "sets env DEFAULTER_RETRY_FOR = Some (''lightningd:retry_for'', CPrim ''60'')"
| "sets env DEFAULTER_MAXDELAY = map_option (\<lambda>s. (''lightningd:maxdelay'', CPrim s)) (default_maxdelay env)"
| "sets env DEFAULTER_EXEMPTFEE = Some (''lightningd:exemptfee'', CStr ''5000msat'')"
| "sets env _ = None"

definition env_ok :: "environment \<Rightarrow> bool" where
  "env_ok env \<longleftrightarrow> (\<exists>v. default_maxdelay env = Some v \<and> prim_ok v \<and> hd v \<noteq> CHR ''n'')"

lemma run_sets:
  "sets env f = Some (cn, c) \<Longrightarrow> run_builtin env f ecs p e buf ts = do {
     ecs' \<leftarrow> ecs_set_component_datum ecs e cn (Some (text_of c)); ecs_advance_done p ecs' e }"
  by (cases f) (auto simp: generate_nonce_def set_default_def defaulter_riskfactor_def defaulter_maxfeepercent_def defaulter_retry_for_def
      defaulter_maxdelay_def defaulter_exemptfee_def default_riskfactor_def default_maxfeepercent_def default_retry_for_def
      default_exemptfee_def)

lemma hexstr_plain: "tal_hexstr bs = Some s \<Longrightarrow> plain_text s"
  using tal_hexstr_props [of bs] by (auto simp: plain_hex_def plain_text_def list_all_iff)

lemma sets_wf:
  assumes "sets env f = Some (cn, c)" "env_ok env"
  shows "wf_cst c" "\<not> null_cst c" "c_string cn" "cn \<noteq> syscomp"
  using assms hexstr_plain [of "random_bytes env"]
  by (cases f; force simp: env_ok_def null_cst_def layout_eval prim_ok_def primitive_bad_def primitive_stop_def str_ok_plain_text syscomp_def)+


subsection \<open>Rounds of the default systems\<close>

text \<open>
  An entity on the default systems is advanced by rounds: the plugin queues an invocation of the first system that
  matches, lightningd delivers it to the plugin as a notification, the system changes the entity and
  advances it again. \<open>next_block\<close> is the selection, over the set of attached components.
\<close>

definition has :: "ctable \<Rightarrow> u32 \<Rightarrow> string set" where
  "has t e = {cn. t e cn \<noteq> None}"

definition fits :: "string set \<Rightarrow> 'f block \<Rightarrow> bool" where
  "fits C b \<longleftrightarrow> b_required b \<noteq> [] \<and> set (b_required b) \<subseteq> C \<and> set (b_disallowed b) \<inter> C = {}"

definition next_block :: "string set \<Rightarrow> builtin block option" where
  "next_block C = List.find (fits C) builtin_blocks"

lemma matches_fits: "matches t e (block_reg b) \<longleftrightarrow> fits (has t e) b"
  by (auto simp: matches_def fits_def has_def block_reg_def)

lemma first_system_blocks:
  "\<forall>b\<in>set bs. strmap_get (system_map ecsys) (b_name b) = Some (block_reg b) \<Longrightarrow>
   case List.find (fits (has t e)) bs of
     None \<Rightarrow> first_system t e ecsys (map b_name bs) i = NoMatch
   | Some b \<Rightarrow> \<exists>j. first_system t e ecsys (map b_name bs) i = Matching j (block_reg b)"
  by (induction bs arbitrary: i) (auto simp: matches_fits cong: option.case_cong)

lemma next_block_in: "next_block C = Some b \<Longrightarrow> b \<in> set builtin_blocks \<and> fits C b"
  by (auto simp: next_block_def find_Some_iff)

definition invocation :: "ctable \<Rightarrow> u32 \<Rightarrow> builtin block \<Rightarrow> string \<Rightarrow> bool" where
  "invocation t e b m \<longleftrightarrow> (\<exists>vals. m = message (notify_cst (b_name b) e (zip (b_required b) vals)) \<and>
     list_all wf_cst vals \<and> list_all2 (\<lambda>cn v. t e cn = Some (attached v)) (b_required b) vals)"

definition is_log :: "string \<Rightarrow> bool" where
  "is_log m \<longleftrightarrow> (\<exists>text. m = log_message LOG_UNUSUAL text)"

definition default_fields :: "ctable \<Rightarrow> u32 \<Rightarrow> (string \<times> cst) list \<Rightarrow> bool" where
  "default_fields t e ms \<longleftrightarrow> (\<exists>c. wf_cst c \<and> \<not> null_cst c \<and> t e syscomp = Some (attached c) \<and> ms = members c) \<and>
     systems_of ms = Some (map b_name builtin_blocks)"

lemma default_fields_ec: "default_fields (ec_table ec) e ms \<Longrightarrow> ect.fields ec e ms"
  by (auto simp: default_fields_def ect.fields_def)

lemma default_fields_upd:
  assumes "default_fields t e ms" "str_ok x" "wf_cst c" "x \<noteq> ''systems''"
  shows "default_fields (tab_upd t e syscomp (Some (attached (mk_obj (set_field x (Some c) ms))))) e (set_field x (Some c) ms)"
proof -
  have "list_all wf_member ms" using assms(1) wf_members by (auto simp: default_fields_def)
  then have "wf_cst (mk_obj (set_field x (Some c) ms))" using assms(2,3) by (intro wf_mk_obj wf_set_field) auto
  moreover have "systems_of (set_field x (Some c) ms) = systems_of ms" using assms(4) by (simp add: systems_of_def map_of_set_field)
  ultimately show ?thesis using assms(1) unfolding default_fields_def
    by (metis members_mk_obj null_cst_mk_obj tab_upd_same)
qed

definition round_result :: "ctable \<Rightarrow> ctable \<Rightarrow> u32 \<Rightarrow> string \<Rightarrow> bool" where
  "round_result t t' e m \<longleftrightarrow> (\<exists>ms. default_fields t' e ms) \<and> (\<forall>e' cn. e' \<noteq> e \<or> cn \<noteq> syscomp \<longrightarrow> t' e' cn = t e' cn) \<and>
     (case next_block (has t e) of None \<Rightarrow> is_log m | Some b \<Rightarrow> invocation t' e b m)"

lemma advance_done_round:
  fixes ecs :: "builtin ecs"
  assumes "ecs_inv ecs" "builtins_registered ecs" "default_fields (ec_table (ec_of ecs)) e ms"
  shows "\<exists>ecs' m. ecs_advance_done p ecs e = Some (COMPLETE, ecs', p\<lparr>js_arr := js_arr p @ [m]\<rparr>) \<and> ecs_inv ecs' \<and>
    same_code ecs ecs' \<and> round_result (ec_table (ec_of ecs)) (ec_table (ec_of ecs')) e m"
proof -
  let ?t = "ec_table (ec_of ecs)" and ?ecsys = "ecsys_of ecs" and ?ss = "map b_name builtin_blocks"
  let ?res = "ecsys_advance ec_get_component ec_set_component (ec_of ecs) ?ecsys p e"
  have inv: "ec_inv (ec_of ecs)" "ecsys_inv ?ecsys" using assms(1) by (simp_all add: ecs_inv_def)
  note fields = default_fields_ec [OF assms(3)]
  have sys: "systems_of ms = Some ?ss" using assms(3) by (simp add: default_fields_def)
  have first: "case next_block (has ?t e) of None \<Rightarrow> first_system ?t e ?ecsys ?ss 0 = NoMatch
     | Some b \<Rightarrow> \<exists>j. first_system ?t e ?ecsys ?ss 0 = Matching j (block_reg b)"
    using first_system_blocks [of builtin_blocks ?ecsys ?t e 0] assms(2) by (simp add: builtins_registered_def next_block_def)
  note spec = ect.advance_spec [OF inv(1) fields inv(2), of p, unfolded sys]
  show ?thesis
  proof (cases "next_block (has ?t e)")
    case None
    then have "ect.advance_fails (ec_of ecs) e ms PAY_ECS_NOT_ADVANCEABLE msg_no_match p ?res" using spec first by simp
    then obtain ec' where ec': "?res = Some (Inl PAY_ECS_NOT_ADVANCEABLE, ec', p)" "ec_inv ec'" "c_string msg_no_match" "utf8_check msg_no_match"
      "ec_table ec' = tab_upd ?t e syscomp (Some (attached (mk_obj (set_field ''error'' (Some (error_cst PAY_ECS_NOT_ADVANCEABLE msg_no_match)) ms))))"
      by (auto simp: ect.advance_fails_def)
    have "ec_table ec' e syscomp = Some (attached (mk_obj (set_field ''error'' (Some (error_cst PAY_ECS_NOT_ADVANCEABLE msg_no_match)) ms)))"
      by (simp add: ec'(5))
    from ect.err_wrap_spec [OF ec'(2,3,4) ect.fields_wf [OF fields] this, of p PAY_ECS_NOT_ADVANCEABLE]
    obtain lg where "ecs_advance_done p ecs e = Some (COMPLETE, ecs\<lparr>ec_of := ec'\<rparr>, p\<lparr>js_arr := js_arr p @ [log_message LOG_UNUSUAL lg]\<rparr>)"
      using ec'(1) by (simp add: ecs_advance_done_def ecsys_advance_done_def ecs_done_def notification_handled_def)
    moreover have "round_result ?t (ec_table ec') e (log_message LOG_UNUSUAL lg)"
      using default_fields_upd [OF assms(3) _ wf_error_cst [OF ec'(3,4), of PAY_ECS_NOT_ADVANCEABLE], of "''error''"] None
      by (auto simp: round_result_def ec'(5) is_log_def layout_eval tab_upd_def)
    ultimately show ?thesis using ecs_inv_ec [OF assms(1) ec'(2)] by (auto simp: same_code_def)
  next
    case (Some b)
    then obtain i where "ect.advance_runs (ec_of ecs) e ms i (block_reg b) p ?res" using spec first by auto
    then obtain ec' vals where ec': "?res = Some (Inr (), ec', p\<lparr>js_arr := js_arr p @ [message (notify_cst (b_name b) e (zip (b_required b) vals))]\<rparr>)"
      "ec_inv ec'" "ec_table ec' = tab_upd ?t e syscomp (Some (attached (mk_obj (set_field ''current'' (Some (CPrim (dec_of_nat i))) ms))))"
      "list_all wf_cst vals" "list_all2 (\<lambda>cn v. ec_table ec' e cn = Some (attached v)) (b_required b) vals"
      by (auto simp: ect.advance_runs_def block_reg_def)
    have "ecs_advance_done p ecs e = Some (COMPLETE, ecs\<lparr>ec_of := ec'\<rparr>, p\<lparr>js_arr := js_arr p @ [message (notify_cst (b_name b) e (zip (b_required b) vals))]\<rparr>)"
      using ec'(1) by (simp add: ecs_advance_done_def ecsys_advance_done_def ecs_done_def notification_handled_def)
    moreover have "round_result ?t (ec_table ec') e (message (notify_cst (b_name b) e (zip (b_required b) vals)))"
      using default_fields_upd [OF assms(3) _ wf_dec, of "''current''" i] Some ec'(4,5)
      by (auto simp: round_result_def ec'(3) invocation_def layout_eval tab_upd_def)
    ultimately show ?thesis using ecs_inv_ec [OF assms(1) ec'(2)] by (auto simp: same_code_def)
  qed
qed

end
