(* ===== verification/Rounds.thy ===== *)
theory Rounds
  imports Systems
begin

text \<open>
  The built-in systems at work: an entity on the default systems goes through rounds, in which lightningd delivers
  the queued invocation to the plugin, the system changes the entity and advances it. The theory shows what each
  kind of round does, that a payment without an invoice gets all its defaults, that the amount of an invoice is
  taken over, and that the promotion of the invoice type never ends.
\<close>


text \<open>
  One delivery: lightningd hands the last queued invocation back as the payload of a notification, and
  the plugin handles it. Replies to commands may have been queued after the invocation.
\<close>

type_synonym world = "builtin payz \<times> out_req plugin"

definition is_reply :: "string \<Rightarrow> bool" where
  "is_reply m \<longleftrightarrow> (\<exists>rid x. m = reply rid x)"

inductive delivered :: "environment \<Rightarrow> bool \<Rightarrow> timeabs \<Rightarrow> world \<Rightarrow> world \<Rightarrow> bool" for env erange now where
  delivered: "js_arr p = pre @ message (notify_cst s e vals) # post \<Longrightarrow> list_all is_reply post \<Longrightarrow>
     denotes buf params (mk_obj [(''payload'', invoke_params s e vals)]) \<Longrightarrow>
     payecs_system_notification (run_builtin env) erange now p z buf params = Some (COMPLETE, z', p') \<Longrightarrow>
     delivered env erange now (z, p) (z', p')"

definition on_default :: "builtin payz \<Rightarrow> u32 \<Rightarrow> bool" where
  "on_default z e \<longleftrightarrow> payz_inv z \<and> builtins_registered (top_ecs z) \<and> (\<exists>ms. default_fields (table_of z) e ms)"

definition queued :: "out_req plugin \<Rightarrow> (string \<Rightarrow> bool) \<Rightarrow> bool" where
  "queued p M \<longleftrightarrow> (\<exists>pre m post. js_arr p = pre @ m # post \<and> M m \<and> list_all is_reply post)"

lemma queued_last: "M m \<Longrightarrow> queued (p\<lparr>js_arr := q @ [m]\<rparr>) M" "M m \<Longrightarrow> queued (p\<lparr>js_arr := q @ [m, reply rid x]\<rparr>) M"
  unfolding queued_def
  by (rule exI [of _ q], rule exI [of _ m], rule exI [of _ "[]"], simp)
    (rule exI [of _ q], rule exI [of _ m], rule exI [of _ "[reply rid x]"], simp, unfold is_reply_def, blast)

lemma builtins_registered_same: "builtins_registered ecs \<Longrightarrow> same_code ecs ecs' \<Longrightarrow> builtins_registered ecs'"
  by (simp add: builtins_registered_def same_code_def)

lemma block_name_plain: "b \<in> set builtin_blocks \<Longrightarrow> plain_text (b_name b)"
  using builtin_blocks_ok(3) by (auto simp: list_all_iff)

lemma wf_required_names: "b \<in> set builtin_blocks \<Longrightarrow> list_all str_ok (b_required b)"
  by (auto simp: builtin_blocks_def sys_block_def str_ok_plain_text plain_text_def)

lemma wf_invocation:
  assumes "b \<in> set builtin_blocks" "list_all wf_cst vals" "length vals = length (b_required b)"
  shows "wf_cst (mk_obj [(''payload'', invoke_params (b_name b) e (zip (b_required b) vals))])"
proof -
  have "list_all wf_member (zip (b_required b) vals)"
    using assms wf_required_names [OF assms(1)] by (auto simp: list_all_length wf_member_def)
  moreover have "wf_cst (CString (b_name b))"
    using block_name_plain [OF assms(1)] by (simp add: plain_text_c_string plain_text_utf8)
  ultimately show ?thesis
    unfolding invoke_params_def
    by (intro wf_mk_obj) (simp add: wf_member_def str_ok_plain_text plain_text_def)
qed

text \<open>The delivery of a pending invocation runs the code of the system.\<close>

lemma deliver_invocation:
  assumes "on_default z e" "queued p (invocation (table_of z) e b)" "b \<in> set builtin_blocks" "b_func b = Some f"
    and "format_time now = Some tm"
  shows "\<exists>buf ts z1 p1 vals. payz_inv z1 \<and> only_trace z z1 \<and>
    list_all2 (\<lambda>cn v. table_of z e cn = Some (attached v)) (b_required b) vals \<and>
    inner buf ts (mk_obj ((''entity'', CPrim (dec_of_nat (unat e))) # zip (b_required b) vals)) \<and>
    (\<forall>ecs p'. run_builtin env f (top_ecs z) p1 e buf ts = Some (COMPLETE, ecs, p') \<longrightarrow>
       delivered env erange now (z, p) (z1\<lparr>top_ecs := ecs\<rparr>, p'))"
proof -
  have inv: "payz_inv z" and reg: "builtins_registered (top_ecs z)" using assms(1) by (auto simp: on_default_def)
  obtain pre vals post where q: "js_arr p = pre @ message (notify_cst (b_name b) e (zip (b_required b) vals)) # post" "list_all wf_cst vals"
    "list_all2 (\<lambda>cn v. table_of z e cn = Some (attached v)) (b_required b) vals" "list_all is_reply post"
    using assms(2) by (auto simp: queued_def invocation_def)
  have len: "length vals = length (b_required b)" using list_all2_lengthD [OF q(3)] by simp
  let ?c = "mk_obj [(''payload'', invoke_params (b_name b) e (zip (b_required b) vals))]"
  have den: "denotes (text_of ?c) (toks_of 0 ?c) ?c" using wf_invocation [OF assms(3) q(2) len] by simp
  have w: "strmap_get (system_funcs (top_ecs z)) (b_name b) = Some (block_wrapper b f)"
    using reg assms(3,4) by (auto simp: builtins_registered_def)
  have name: "\<not> json_escape_needed (b_name b)" "c_string (b_name b)"
    using block_name_plain [OF assms(3)] by (simp_all add: not_escape_needed plain_text_c_string)
  have req: "wrapper_required (block_wrapper b f) = b_required b" "wrapper_func (block_wrapper b f) = f"
    by (simp_all add: block_wrapper_def)
  obtain ts z1 log where n: "inner (text_of ?c) ts (mk_obj ((''entity'', CPrim (dec_of_nat (unat e))) # zip (b_required b) vals))"
    "payz_inv z1" "only_trace z z1"
    "payecs_system_notification (run_builtin env) erange now p z (text_of ?c) (toks_of 0 ?c) = do {
      (r, ecs, p') \<leftarrow> run_builtin env f (top_ecs z) (p\<lparr>js_arr := js_arr p @ [log_message LOG_DBG log]\<rparr>) e (text_of ?c) ts;
      Some (r, z1\<lparr>top_ecs := ecs\<rparr>, p') }"
    using system_notification_spec [OF inv assms(5) w name, of vals "text_of ?c" "toks_of 0 ?c"
        "[(''payload'', invoke_params (b_name b) e (zip (b_required b) vals))]" e "run_builtin env" erange p] len den
    unfolding req by auto
  have "delivered env erange now (z, p) (z1\<lparr>top_ecs := ecs\<rparr>, p')"
    if "run_builtin env f (top_ecs z) (p\<lparr>js_arr := js_arr p @ [log_message LOG_DBG log]\<rparr>) e (text_of ?c) ts = Some (COMPLETE, ecs, p')" for ecs p'
    using n(4) that by (intro delivered.intros [OF q(1,4) den]) simp
  then show ?thesis using n(1-3) q(3) by blast
qed

lemma on_default_round:
  assumes "on_default z e" "only_trace z z1" "payz_inv z1" "ecs_inv ecs'" "same_code (top_ecs z) ecs'"
    and "round_result t (ec_table (ec_of ecs')) e m"
  shows "on_default (z1\<lparr>top_ecs := ecs'\<rparr>) e"
proof -
  have "top_ecs z1 = top_ecs z" using assms(2) by (simp add: only_trace_def)
  then have "payz_inv (z1\<lparr>top_ecs := ecs'\<rparr>)" using payz_inv_table [OF assms(3,4)] assms(5) by (simp add: same_code_def)
  then show ?thesis
    using assms(1,5,6) builtins_registered_same by (auto simp: on_default_def round_result_def)
qed

definition table_after :: "ctable \<Rightarrow> ctable \<Rightarrow> u32 \<Rightarrow> bool" where
  "table_after t t' e \<longleftrightarrow> (\<forall>e' cn. e' \<noteq> e \<or> cn \<noteq> syscomp \<longrightarrow> t' e' cn = t e' cn) \<and> t' e syscomp \<noteq> None"

lemma round_table_after: "round_result t t' e m \<Longrightarrow> table_after t t' e"
  by (auto simp: round_result_def table_after_def default_fields_def)

lemma default_fields_other: "cn \<noteq> syscomp \<Longrightarrow> default_fields t e ms \<Longrightarrow> default_fields (tab_upd t e cn v) e ms"
  by (auto simp: default_fields_def)

definition members_of_call :: "u32 \<Rightarrow> builtin block \<Rightarrow> cst list \<Rightarrow> cst" where
  "members_of_call e b vals = mk_obj ((''entity'', CPrim (dec_of_nat (unat e))) # zip (b_required b) vals)"

text \<open>What is in the queue after a round: the next invocation, or a log message that says there is none.\<close>

definition pending :: "builtin payz \<Rightarrow> u32 \<Rightarrow> out_req plugin \<Rightarrow> bool" where
  "pending z e p \<longleftrightarrow> (case next_block (has (table_of z) e) of
     None \<Rightarrow> queued p is_log | Some b \<Rightarrow> queued p (invocation (table_of z) e b))"

lemma has_after: "table_after t t' e \<Longrightarrow> t e syscomp \<noteq> None \<Longrightarrow> has t' e = has t e"
  unfolding table_after_def has_def by (metis (mono_tags, lifting))

text \<open>
  A round of a system that changes the table to \<open>t1\<close>, keeping the list of systems of the entity, and then advances the
  entity.
\<close>

lemma round_changes:
  assumes "on_default z e" "queued p (invocation (table_of z) e b)" "b \<in> set builtin_blocks" "b_func b = Some f"
    and "format_time now = Some tm" "default_fields t1 e ms"
    and code: "\<And>buf ts p1 vals. inner buf ts (members_of_call e b vals) \<Longrightarrow>
      list_all2 (\<lambda>cn v. table_of z e cn = Some (attached v)) (b_required b) vals \<Longrightarrow>
      \<exists>ecs1. ecs_inv ecs1 \<and> same_code (top_ecs z) ecs1 \<and> ec_table (ec_of ecs1) = t1 \<and>
        run_builtin env f (top_ecs z) p1 e buf ts = ecs_advance_done p1 ecs1 e"
  shows "\<exists>z' p'. delivered env erange now (z, p) (z', p') \<and> on_default z' e \<and> table_after t1 (table_of z') e \<and> pending z' e p'"
proof -
  obtain buf ts z1 p1 vals where d: "payz_inv z1" "only_trace z z1"
    "list_all2 (\<lambda>cn v. table_of z e cn = Some (attached v)) (b_required b) vals" "inner buf ts (members_of_call e b vals)"
    "\<And>ecs p'. run_builtin env f (top_ecs z) p1 e buf ts = Some (COMPLETE, ecs, p') \<Longrightarrow>
       delivered env erange now (z, p) (z1\<lparr>top_ecs := ecs\<rparr>, p')"
    using deliver_invocation [OF assms(1-5), of env erange] unfolding members_of_call_def by blast
  obtain ecs1 where ecs1: "ecs_inv ecs1" "same_code (top_ecs z) ecs1" "ec_table (ec_of ecs1) = t1"
    "run_builtin env f (top_ecs z) p1 e buf ts = ecs_advance_done p1 ecs1 e"
    using code [OF d(4,3)] by blast
  have "builtins_registered ecs1" using assms(1) builtins_registered_same [OF _ ecs1(2)] by (simp add: on_default_def)
  then obtain ecs' m where ecs': "ecs_advance_done p1 ecs1 e = Some (COMPLETE, ecs', p1\<lparr>js_arr := js_arr p1 @ [m]\<rparr>)"
    "ecs_inv ecs'" "same_code ecs1 ecs'" "round_result t1 (ec_table (ec_of ecs')) e m"
    using advance_done_round [OF ecs1(1), of e ms p1] ecs1(3) assms(6) by auto
  let ?z = "z1\<lparr>top_ecs := ecs'\<rparr>" and ?p = "p1\<lparr>js_arr := js_arr p1 @ [m]\<rparr>"
  have del: "delivered env erange now (z, p) (?z, ?p)" using d(5) ecs1(4) ecs'(1) by simp
  have "same_code (top_ecs z) ecs'" using ecs1(2) ecs'(3) by (simp add: same_code_def)
  then have "on_default ?z e" using on_default_round [OF assms(1) d(2,1) ecs'(2)] ecs'(4) by blast
  moreover have after: "table_after t1 (table_of ?z) e" using round_table_after [OF ecs'(4)] by simp
  moreover have "has (table_of ?z) e = has t1 e" using has_after [OF after] assms(6) by (auto simp: default_fields_def)
  then have "pending ?z e ?p" using ecs'(4) by (auto simp: pending_def round_result_def queued_last split: option.splits)
  ultimately show ?thesis using del by blast
qed

text \<open>A round of a system that sets one component and goes on.\<close>

lemma round_sets:
  assumes "on_default z e" "queued p (invocation (table_of z) e b)" "b \<in> set builtin_blocks" "b_func b = Some f"
    and "sets env f = Some (cn, c)" "env_ok env" "format_time now = Some tm"
  shows "\<exists>z' p'. delivered env erange now (z, p) (z', p') \<and> on_default z' e \<and>
    table_after (tab_upd (table_of z) e cn (Some (attached c))) (table_of z') e \<and> pending z' e p'"
proof -
  note wf = sets_wf [OF assms(5,6)]
  have inv: "ecs_inv (top_ecs z)" using assms(1) by (simp add: on_default_def)
  obtain ms where "default_fields (table_of z) e ms" using assms(1) by (auto simp: on_default_def)
  note ms = default_fields_other [OF wf(4) this]
  show ?thesis
    using set_datum [OF inv wf(3,1), of e] wf(2)
    by (intro round_changes [OF assms(1-4,7) ms]) (auto simp: value_of_def run_sets [OF assms(5)])
qed

lemma attached_null: "wf_cst c \<Longrightarrow> wf_cst c' \<Longrightarrow> attached c = attached c' \<Longrightarrow> null_cst c = null_cst c'"
  using json_tok_is_null_denotes denotes_attached' denotes_deref unfolding attached_def
  by (metis option.inject prod.inject)

lemma attached_CStr:
  assumes "attached c = attached (CStr s)"
  shows "c = CStr s"
  using assms by (cases c) (auto simp: attached_def)


subsection \<open>A payment without an invoice gets its defaults\<close>

definition six :: "string list" where
  "six = [''lightningd:nonce'', ''lightningd:riskfactor'', ''lightningd:maxfeepercent'', ''lightningd:retry_for'',
     ''lightningd:maxdelay'', ''lightningd:exemptfee'']"

definition default_value :: "environment \<Rightarrow> string \<Rightarrow> cst option" where
  "default_value env cn = map_of (List.map_filter (sets env) [GENERATE_NONCE, DEFAULTER_RISKFACTOR, DEFAULTER_MAXFEEPERCENT,
     DEFAULTER_RETRY_FOR, DEFAULTER_MAXDELAY, DEFAULTER_EXEMPTFEE]) cn"

definition plain_payment :: "string set \<Rightarrow> bool" where
  "plain_payment C \<longleftrightarrow> syscomp \<in> C \<and> ''lightningd:main-payment'' \<in> C \<and>
     C \<inter> {''lightningd:invoice'', ''lightningd:invoice:type'', ''lightningd:invoice:amount_msat''} = {}"

lemma env_ok_cases:
  assumes "env_ok env"
  obtains v h where "default_maxdelay env = Some v" "tal_hexstr (random_bytes env) = Some h"
  using assms tal_hexstr_props [of "random_bytes env"] by (auto simp: env_ok_def)

lemma default_value_dom:
  assumes "env_ok env"
  shows "default_value env cn \<noteq> None \<longleftrightarrow> cn \<in> set six"
  using assms by (cases rule: env_ok_cases) (auto simp: default_value_def six_def map_filter_simps)

lemma default_value_sets:
  assumes "env_ok env" "sets env f = Some (cn, c)"
  shows "cn \<in> set six" "default_value env cn = Some c"
proof -
  obtain v h where "default_maxdelay env = Some v" "tal_hexstr (random_bytes env) = Some h" using env_ok_cases [OF assms(1)] by blast
  then show "cn \<in> set six" "default_value env cn = Some c"
    using assms(2) by (cases f; force simp: six_def default_value_def map_filter_simps)+
qed

lemma default_block:
  assumes "b \<in> set builtin_blocks" "fits C b" "plain_payment C" "env_ok env"
  shows "\<exists>f cn c. b_func b = Some f \<and> sets env f = Some (cn, c) \<and> cn \<notin> C"
proof -
  obtain v h where "default_maxdelay env = Some v" "tal_hexstr (random_bytes env) = Some h" using env_ok_cases [OF assms(4)] by blast
  then show ?thesis using assms(1-3) by (auto simp: builtin_blocks_def sys_block_def fits_def plain_payment_def)
qed

lemma no_block:
  assumes "next_block C = None" "plain_payment C"
  shows "set six \<subseteq> C"
proof -
  have no: "\<And>b. b \<in> set builtin_blocks \<Longrightarrow> \<not> fits C b" using assms(1) by (simp add: next_block_def find_None_iff)
  have "\<not> fits C (builtin_blocks ! 0)" "\<not> fits C (builtin_blocks ! 5)" "\<not> fits C (builtin_blocks ! 6)"
    "\<not> fits C (builtin_blocks ! 7)" "\<not> fits C (builtin_blocks ! 8)" "\<not> fits C (builtin_blocks ! 9)"
    by (rule no, simp add: builtin_blocks_def)+
  then show ?thesis using assms(2)
    by (simp add: builtin_blocks_def sys_block_def fits_def plain_payment_def six_def syscomp_def)
qed

definition with_defaults :: "environment \<Rightarrow> u32 \<Rightarrow> ctable \<Rightarrow> ctable \<Rightarrow> bool" where
  "with_defaults env e t t' \<longleftrightarrow> (\<forall>e' cn. e' \<noteq> e \<longrightarrow> t' e' cn = t e' cn) \<and>
     (\<forall>cn. cn \<noteq> syscomp \<longrightarrow> t' e cn = (case t e cn of Some x \<Rightarrow> Some x | None \<Rightarrow> map_option attached (default_value env cn)))"

lemma no_block_defaults:
  assumes "next_block (has t e) = None" "plain_payment (has t e)" "env_ok env"
  shows "with_defaults env e t t"
proof -
  have "set six \<subseteq> has t e" using no_block assms(1,2) by blast
  then have "default_value env cn \<noteq> None \<Longrightarrow> t e cn \<noteq> None" for cn
    using default_value_dom [OF assms(3)] by (auto simp: has_def)
  then show ?thesis by (fastforce simp: with_defaults_def split: option.splits)
qed

lemma with_defaults_syscomp:
  assumes "with_defaults env e t t'" "\<forall>e' cn. e' \<noteq> e \<or> cn \<noteq> syscomp \<longrightarrow> t e' cn = t0 e' cn"
    "\<forall>e' cn. e' \<noteq> e \<or> cn \<noteq> syscomp \<longrightarrow> t'' e' cn = t' e' cn"
  shows "with_defaults env e t0 t''"
  using assms by (auto simp: with_defaults_def)

lemma missing_shrinks:
  "cn \<in> set xs \<Longrightarrow> cn \<notin> C \<Longrightarrow> length (filter (\<lambda>x. x \<notin> insert cn C) xs) < length (filter (\<lambda>x. x \<notin> C) xs)"
proof (induction xs)
  case (Cons x xs)
  have "length (filter (\<lambda>x. x \<notin> insert cn C) xs) \<le> length (filter (\<lambda>x. x \<notin> C) xs)" by (induction xs) auto
  then show ?case using Cons by (cases "x = cn") (auto intro: le_imp_less_Suc)
qed simp

lemma defaults_reached:
  assumes "on_default z e" "plain_payment (has (table_of z) e)" "env_ok env" "format_time now = Some tm"
    and "pending z e p"
  shows "\<exists>z' p'. (delivered env erange now)\<^sup>*\<^sup>* (z, p) (z', p') \<and> on_default z' e \<and> queued p' is_log \<and>
    with_defaults env e (table_of z) (table_of z') \<and> next_block (has (table_of z') e) = None"
  using assms(1,2,5)
proof (induction "length (filter (\<lambda>cn. cn \<notin> has (table_of z) e) six)" arbitrary: z p rule: less_induct)
  case less
  let ?C = "has (table_of z) e"
  show ?case
  proof (cases "next_block ?C")
    case None
    then have "with_defaults env e (table_of z) (table_of z)" using no_block_defaults [OF _ less.prems(2) assms(3)] by blast
    then show ?thesis using less.prems(1,3) None by (auto simp: pending_def)
  next
    case (Some b)
    then have b: "b \<in> set builtin_blocks" "fits ?C b" "queued p (invocation (table_of z) e b)"
      using next_block_in less.prems(3) by (auto simp: pending_def)
    then obtain f cn c where f: "b_func b = Some f" "sets env f = Some (cn, c)" "cn \<in> set six" "cn \<notin> ?C" "default_value env cn = Some c"
      using default_block [OF b(1,2) less.prems(2) assms(3)] default_value_sets [OF assms(3)] by blast
    let ?t1 = "tab_upd (table_of z) e cn (Some (attached c))"
    obtain z1 p1 where z1: "delivered env erange now (z, p) (z1, p1)" "on_default z1 e" "table_after ?t1 (table_of z1) e"
      "pending z1 e p1"
      using round_sets [OF less.prems(1) b(3,1) f(1,2) assms(3,4)] by blast
    have none: "table_of z e cn = None" using f(4) unfolding has_def by blast
    have cn: "cn \<noteq> syscomp" using sets_wf(4) [OF f(2) assms(3)] .
    have t1: "has ?t1 e = insert cn ?C" by (auto simp: has_def tab_upd_def)
    have "?t1 e syscomp \<noteq> None" using less.prems(2) cn by (auto simp: plain_payment_def has_def)
    then have C1: "has (table_of z1) e = insert cn ?C" using has_after [OF z1(3)] t1 by simp
    have "plain_payment (insert cn ?C)" using less.prems(2) f(3) by (auto simp: plain_payment_def six_def)
    then obtain z' p' where z': "(delivered env erange now)\<^sup>*\<^sup>* (z1, p1) (z', p')" "on_default z' e" "queued p' is_log"
      "with_defaults env e (table_of z1) (table_of z')" "next_block (has (table_of z') e) = None"
      using less.hyps [of z1 p1] missing_shrinks [OF f(3,4)] z1(2,4) C1 by auto
    have "with_defaults env e (table_of z) (table_of z')"
      using z'(4) z1(3) f(5) cn none unfolding with_defaults_def table_after_def
      by (auto simp: tab_upd_def split: option.splits)
    then show ?thesis using z'(2,3,5) converse_rtranclp_into_rtranclp [OF z1(1) z'(1)] by blast
  qed
qed


subsection \<open>Rounds that read a component\<close>

text \<open>What a system reads from the entity object is the value that is attached.\<close>

lemma call_member:
  assumes "payz_inv z" "inner buf ts (members_of_call e b vals)"
    and "list_all2 (\<lambda>cn v. table_of z e cn = Some (attached v)) (b_required b) vals"
    and "b_required b = [cn]" "cn \<noteq> ''entity''"
  shows "\<exists>ts' v. json_get_member buf ts cn = Some (Some ts') \<and> inner buf ts' v \<and> wf_cst v \<and> \<not> null_cst v \<and>
    table_of z e cn = Some (attached v)"
proof -
  obtain v where v: "vals = [v]" "table_of z e cn = Some (attached v)" using assms(3,4) by (auto simp: list_all2_Cons1)
  have "map_of ((''entity'', CPrim (dec_of_nat (unat e))) # zip (b_required b) vals) cn = Some v"
    using assms(4,5) v(1) by simp
  then obtain ts' where ts': "json_get_member buf ts cn = Some (Some ts')" "inner buf ts' v"
    using json_get_member_mk_obj [OF inner_denotes [OF assms(2) [unfolded members_of_call_def]], of cn] by auto
  have "wf_cst v" using ts'(2) by (simp add: inner_def)
  moreover obtain c where "wf_cst c" "\<not> null_cst c" "attached v = attached c"
    using ecst.table_cst [of "top_ecs z" e cn] assms(1) v(2) by auto
  ultimately show ?thesis using ts' v(2) attached_null by blast
qed

definition promote_block :: "builtin block" where
  "promote_block = sys_block ''lightningd:promote_invoice_type'' PROMOTE_INVOICE_TYPE
     [''lightningd:invoice:type''] [''lightningd:promote_invoice_type:ran'']"

definition amount_block :: "builtin block" where
  "amount_block = sys_block ''lightningd:invoice_amount_msat'' INVOICE_AMOUNT_MSAT
     [''lightningd:invoice:amount_msat''] [''lightningd:amount'']"

lemma blocks_in: "promote_block \<in> set builtin_blocks" "amount_block \<in> set builtin_blocks"
  by (simp_all add: promote_block_def amount_block_def builtin_blocks_def)

text \<open>\<open>lightningd:promote_invoice_type\<close> attaches the flag component and nothing else.\<close>

lemma round_promote:
  assumes "on_default z e" "queued p (invocation (table_of z) e promote_block)" "format_time now = Some tm"
    and "table_of z e ''lightningd:invoice:type'' = Some (attached (CStr ty))"
  shows "\<exists>z' p'. delivered env erange now (z, p) (z', p') \<and> on_default z' e \<and>
    table_after (tab_upd (table_of z) e (''lightningd:invoice:type:'' @ ty) (Some (attached (CPrim ''true'')))) (table_of z') e \<and>
    pending z' e p'"
proof -
  have inv: "payz_inv z" "ecs_inv (top_ecs z)" using assms(1) by (simp_all add: on_default_def)
  obtain ms where "default_fields (table_of z) e ms" using assms(1) by (auto simp: on_default_def)
  note ms = default_fields_other [OF _ this, of "''lightningd:invoice:type:'' @ ty"]
  show ?thesis
  proof (rule round_changes [OF assms(1,2) blocks_in(1) _ assms(3) ms, where f = PROMOTE_INVOICE_TYPE])
    fix buf ts p1 vals
    assume "inner buf ts (members_of_call e promote_block vals)"
      "list_all2 (\<lambda>cn v. table_of z e cn = Some (attached v)) (b_required promote_block) vals"
    then obtain ts' v where v: "json_get_member buf ts ''lightningd:invoice:type'' = Some (Some ts')" "inner buf ts' v"
      "table_of z e ''lightningd:invoice:type'' = Some (attached v)"
      using call_member [OF inv(1), of buf ts e promote_block vals "''lightningd:invoice:type''"]
      by (auto simp: promote_block_def sys_block_def)
    then have ty: "v = CStr ty" using assms(4) attached_CStr by auto
    then have "c_string ty" using v(2) str_ok_c_string by (simp add: inner_def)
    moreover from this obtain t us where "ts' = t # us" "json_strdup buf t = Some ty"
      using denotes_string_text [OF inner_denotes [OF v(2) [unfolded ty]]] by blast
    ultimately show "\<exists>ecs1. ecs_inv ecs1 \<and> same_code (top_ecs z) ecs1 \<and>
        ec_table (ec_of ecs1) = tab_upd (table_of z) e (''lightningd:invoice:type:'' @ ty) (Some (attached (CPrim ''true''))) \<and>
        run_builtin env PROMOTE_INVOICE_TYPE (top_ecs z) p1 e buf ts = ecs_advance_done p1 ecs1 e"
      using set_datum [OF inv(2), of "''lightningd:invoice:type:'' @ ty" "CPrim ''true''" e] v(1)
      by (auto simp: promote_invoice_type_def value_of_def null_cst_def layout_eval prim_ok_def primitive_bad_def primitive_stop_def)
  qed (simp_all add: promote_block_def sys_block_def syscomp_def)
qed

text \<open>The marker that would stop it is never attached, so the same system is pending again.\<close>

definition promoting :: "builtin payz \<Rightarrow> u32 \<Rightarrow> out_req plugin \<Rightarrow> bool" where
  "promoting z e p \<longleftrightarrow> on_default z e \<and> next_block (has (table_of z) e) = Some promote_block \<and>
     (\<exists>ty. table_of z e ''lightningd:invoice:type'' = Some (attached (CStr ty))) \<and> pending z e p"

lemma next_block_promote:
  "next_block C = Some promote_block \<longleftrightarrow> ''lightningd:invoice:type'' \<in> C \<and> ''lightningd:promote_invoice_type:ran'' \<notin> C \<and>
     (''lightningd:systems'' \<in> C \<longrightarrow> ''lightningd:nonce'' \<in> C) \<and>
     (''lightningd:invoice'' \<in> C \<longrightarrow> ''lightningd:parse_invoice:ran'' \<in> C)"
  by (auto simp: next_block_def builtin_blocks_def sys_block_def promote_block_def fits_def)

lemma promote_again:
  assumes "promoting z e p" "format_time now = Some tm"
  shows "\<exists>z' p'. delivered env erange now (z, p) (z', p') \<and> promoting z' e p'"
proof -
  obtain ty where ty: "table_of z e ''lightningd:invoice:type'' = Some (attached (CStr ty))" using assms(1) by (auto simp: promoting_def)
  let ?cn = "''lightningd:invoice:type:'' @ ty"
  let ?t1 = "tab_upd (table_of z) e ?cn (Some (attached (CPrim ''true'')))"
  have z: "on_default z e" "next_block (has (table_of z) e) = Some promote_block" "queued p (invocation (table_of z) e promote_block)"
    using assms(1) by (auto simp: promoting_def pending_def)
  obtain z' p' where z': "delivered env erange now (z, p) (z', p')" "on_default z' e" "table_after ?t1 (table_of z') e" "pending z' e p'"
    using round_promote [OF z(1,3) assms(2) ty] by blast
  have "?t1 e syscomp \<noteq> None" using z(1) by (auto simp: on_default_def default_fields_def tab_upd_def syscomp_def)
  then have "has (table_of z') e = insert ?cn (has (table_of z) e)" using has_after [OF z'(3)] by (auto simp: has_def tab_upd_def)
  then have "next_block (has (table_of z') e) = Some promote_block" using z(2) by (auto simp: next_block_promote)
  moreover have "table_of z' e ''lightningd:invoice:type'' = Some (attached (CStr ty))"
    using z'(3) ty by (auto simp: table_after_def tab_upd_def syscomp_def)
  ultimately show ?thesis using z' by (auto simp: promoting_def)
qed

lemma promote_forever:
  assumes "promoting z e p" "format_time now = Some tm"
  shows "\<exists>z' p'. (delivered env erange now ^^ n) (z, p) (z', p') \<and> promoting z' e p'"
proof (induction n)
  case 0
  then show ?case using assms(1) by auto
next
  case (Suc n)
  then obtain z1 p1 where "(delivered env erange now ^^ n) (z, p) (z1, p1)" "promoting z1 e p1" by blast
  then show ?case using promote_again [OF _ assms(2)] by (metis relpowp_Suc_I)
qed

text \<open>\<open>lightningd:invoice_amount_msat\<close> moves the amount of the invoice to \<open>lightningd:amount\<close>.\<close>

lemma round_amount:
  assumes "on_default z e" "queued p (invocation (table_of z) e amount_block)" "format_time now = Some tm"
  shows "\<exists>z' p'. delivered env erange now (z, p) (z', p') \<and> on_default z' e \<and>
    table_after (tab_upd (tab_upd (table_of z) e ''lightningd:invoice:amount_msat'' None) e ''lightningd:amount''
      (table_of z e ''lightningd:invoice:amount_msat'')) (table_of z') e \<and>
    pending z' e p'"
proof -
  have inv: "payz_inv z" "ecs_inv (top_ecs z)" using assms(1) by (simp_all add: on_default_def)
  obtain ms where "default_fields (table_of z) e ms" using assms(1) by (auto simp: on_default_def)
  then have ms: "default_fields (tab_upd (tab_upd (table_of z) e ''lightningd:invoice:amount_msat'' None) e ''lightningd:amount''
      (table_of z e ''lightningd:invoice:amount_msat'')) e ms"
    by (intro default_fields_other) (simp_all add: syscomp_def)
  show ?thesis
  proof (rule round_changes [OF assms(1,2) blocks_in(2) _ assms(3) ms, where f = INVOICE_AMOUNT_MSAT])
    fix buf ts p1 vals
    assume "inner buf ts (members_of_call e amount_block vals)"
      "list_all2 (\<lambda>cn v. table_of z e cn = Some (attached v)) (b_required amount_block) vals"
    then obtain ts' v where v: "json_get_member buf ts ''lightningd:invoice:amount_msat'' = Some (Some ts')" "inner buf ts' v"
      "\<not> null_cst v" "table_of z e ''lightningd:invoice:amount_msat'' = Some (attached v)"
      using call_member [OF inv(1), of buf ts e amount_block vals "''lightningd:invoice:amount_msat''"]
      by (auto simp: amount_block_def sys_block_def)
    obtain ecs1 where ecs1: "ecs_set_component_datum (top_ecs z) e ''lightningd:invoice:amount_msat'' None = Some ecs1" "ecs_inv ecs1"
      "same_code (top_ecs z) ecs1" "ec_table (ec_of ecs1) = tab_upd (table_of z) e ''lightningd:invoice:amount_msat'' None"
      using unset_datum [OF inv(2)] by blast
    obtain ecs2 where ecs2: "ecs_set_component ecs1 e ''lightningd:amount'' (Some buf) (Some ts') = Some ecs2" "ecs_inv ecs2"
      "ec_table (ec_of ecs2) = tab_upd (ec_table (ec_of ecs1)) e ''lightningd:amount'' (value_of v)"
      using ecst.set_denotes [OF ecs1(2) _ inner_denotes [OF v(2)], of "''lightningd:amount''" e] by auto
    have "same_code (top_ecs z) ecs2" using ecs1(3) same_code_set [OF ecs2(1)] by (simp add: same_code_def)
    then show "\<exists>ecs1. ecs_inv ecs1 \<and> same_code (top_ecs z) ecs1 \<and>
        ec_table (ec_of ecs1) = tab_upd (tab_upd (table_of z) e ''lightningd:invoice:amount_msat'' None) e ''lightningd:amount''
          (table_of z e ''lightningd:invoice:amount_msat'') \<and>
        run_builtin env INVOICE_AMOUNT_MSAT (top_ecs z) p1 e buf ts = ecs_advance_done p1 ecs1 e"
      using v ecs1 ecs2 by (intro exI [of _ ecs2]) (simp add: invoice_amount_msat_def value_of_def)
  qed (simp_all add: amount_block_def sys_block_def)
qed


subsection \<open>The reply to \<open>decode\<close>\<close>

definition answered :: "'r plugin \<Rightarrow> nat \<Rightarrow> 'r plugin" where
  "answered p n = p\<lparr>out_reqs := snd (intmap_del (out_reqs p) (of_nat n))\<rparr>"

lemma rpc_reply_spec:
  assumes "denotes buf toks (mk_obj ms)" "map_of ms ''id'' = Some (CPrim (dec_of_nat n))" "n < ULLONG_MAX"
    and "intmap_get (out_reqs p) (of_nat n) = Some out"
  shows "case map_of ms ''error'' of
      Some ce \<Rightarrow> \<exists>c. inner buf c ce \<and> handle_rpc_reply p erange buf toks = Some (ReplyError c, Some out, answered p n)
    | None \<Rightarrow> (case map_of ms ''result'' of
        None \<Rightarrow> handle_rpc_reply p erange buf toks = None
      | Some cr \<Rightarrow> \<exists>c. inner buf c cr \<and> handle_rpc_reply p erange buf toks = Some (ReplyResult c, Some out, answered p n))"
proof -
  note get = json_get_member_mk_obj [OF assms(1)]
  obtain it where it: "json_get_member buf toks ''id'' = Some (Some it)" "inner buf it (CPrim (dec_of_nat n))"
    using get [of "''id''"] assms(2) by auto
  then obtain t ts where t: "it = t # ts" using denotes_deref inner_denotes by blast
  have "json_to_u64 erange buf t = Some (Some (of_nat n))" using json_to_u64_dec it(2) assms(3) unfolding t by blast
  then show ?thesis
    using get [of "''error''"] get [of "''result''"] it(1) assms(4)
    by (auto simp: handle_rpc_reply_def t answered_def Let_def split: option.splits)
qed

text \<open>The table after the fields of a decoded invoice are attached.\<close>

definition invoice_fields :: "u32 \<Rightarrow> (string \<times> cst) list \<Rightarrow> ctable \<Rightarrow> ctable" where
  "invoice_fields e = fold (\<lambda>(k, v) t. tab_upd t e (''lightningd:invoice:'' @ k) (value_of v))"

lemma invoice_fields_simps [simp]:
  "invoice_fields e [] t = t"
  "invoice_fields e ((k, v) # ms) t = invoice_fields e ms (tab_upd t e (''lightningd:invoice:'' @ k) (value_of v))"
  by (simp_all add: invoice_fields_def)

lemma invoice_fields_other:
  "e' \<noteq> e \<or> (\<forall>k. cn \<noteq> ''lightningd:invoice:'' @ k) \<Longrightarrow> invoice_fields e ms t e' cn = t e' cn"
  by (induction ms arbitrary: t) auto

lemma invoice_fields_get:
  "distinct (map fst ms) \<Longrightarrow> invoice_fields e ms t e (''lightningd:invoice:'' @ k) =
     (case map_of ms k of None \<Rightarrow> t e (''lightningd:invoice:'' @ k) | Some v \<Rightarrow> value_of v)"
proof (induction ms arbitrary: t)
  case (Cons m ms)
  obtain j v where m: "m = (j, v)" by force
  have "map_of ms j = None" using Cons.prems m by (simp add: map_of_eq_None_iff)
  then show ?case using Cons m by (cases "k = j") (auto cong: option.case_cong)
qed simp

lemma decode_fields:
  assumes "list_all2 (denotes_member buf) ptrs ms" "list_all wf_member ms" "ecs_inv ecs"
  shows "\<exists>ecs'. early (decode_field e buf) ptrs ecs = Some (Inr ecs') \<and> ecs_inv ecs' \<and> same_code ecs ecs' \<and>
    ec_table (ec_of ecs') = invoice_fields e ms (ec_table (ec_of ecs))"
  using assms
proof (induction ptrs ms arbitrary: ecs rule: list_all2_induct)
  case Nil
  then show ?case by (simp add: same_code_def)
next
  case (Cons q qs m ms)
  obtain k v where m: "m = (k, v)" by force
  obtain t ts where q: "q = t # ts" "slice buf (tok_start t) (tok_end t) = Some k" "inner buf ts v"
    using Cons.hyps(1) by (auto simp: denotes_member_def m)
  have k: "c_string k" using Cons.prems(1) str_ok_c_string by (simp add: m wf_member_def)
  obtain ecs1 where ecs1: "ecs_set_component ecs e (''lightningd:invoice:'' @ k) (Some buf) (Some ts) = Some ecs1" "ecs_inv ecs1"
    "ec_table (ec_of ecs1) = tab_upd (ec_table (ec_of ecs)) e (''lightningd:invoice:'' @ k) (value_of v)"
    using ecst.set_denotes [OF Cons.prems(2) _ inner_denotes [OF q(3)], of "''lightningd:invoice:'' @ k" e] k by auto
  obtain ecs' where "early (decode_field e buf) qs ecs1 = Some (Inr ecs')" "ecs_inv ecs'" "same_code ecs1 ecs'"
    "ec_table (ec_of ecs') = invoice_fields e ms (ec_table (ec_of ecs1))"
    using Cons.IH [OF _ ecs1(2)] Cons.prems(1) by auto
  moreover have "decode_field e buf q ecs = Some (Inr ecs1)" using ecs1(1) q k by (simp add: decode_field_def)
  ultimately show ?case using ecs1(3) same_code_set [OF ecs1(1)] by (auto simp: m same_code_def)
qed

lemma decode_ok_spec:
  assumes "denotes buf res (mk_obj ms)" "ecs_inv ecs"
  shows "\<exists>ecs'. ecs_inv ecs' \<and> same_code ecs ecs' \<and> ec_table (ec_of ecs') = invoice_fields e ms (ec_table (ec_of ecs)) \<and>
    parse_invoice_decode_ok ecs p e buf res = ecs_advance_done p ecs' e"
proof -
  obtain ptrs where ptrs: "list_all2 (denotes_member buf) ptrs ms"
    and loop: "\<And>(f :: tokptr \<Rightarrow> builtin ecs \<Rightarrow> (unit + builtin ecs) run) s. json_for_each_obj res f s = early f ptrs s"
    using json_for_each_obj_denotes [OF assms(1) [unfolded mk_obj_def]] by auto
  have "list_all wf_member ms" using wf_members [of "mk_obj ms"] assms(1) by (auto simp: denotes_def)
  then show ?thesis using decode_fields [OF ptrs _ assms(2), of e] by (auto simp: parse_invoice_decode_ok_def loop)
qed

lemma decode_ng_spec:
  assumes "denotes buf res c" "ecs_inv ecs"
  shows "\<exists>ecs'. ecs_inv ecs' \<and> same_code ecs ecs' \<and>
    ec_table (ec_of ecs') = tab_upd (tab_upd (ec_table (ec_of ecs)) e ''lightningd:error'' (value_of c)) e syscomp None \<and>
    parse_invoice_decode_ng ecs p e buf res = Some (COMPLETE, ecs', p)"
proof -
  obtain ecs1 where ecs1: "ecs_set_component ecs e ''lightningd:error'' (Some buf) (Some res) = Some ecs1" "ecs_inv ecs1"
    "ec_table (ec_of ecs1) = tab_upd (ec_table (ec_of ecs)) e ''lightningd:error'' (value_of c)"
    using ecst.set_denotes [OF assms(2) _ assms(1), of "''lightningd:error''" e] by auto
  obtain ecs2 where ecs2: "ecs_set_component ecs1 e syscomp None None = Some ecs2" "ecs_inv ecs2"
    "ec_table (ec_of ecs2) = tab_upd (ec_table (ec_of ecs1)) e syscomp None"
    using ecst.set_null [OF ecs1(2)] by blast
  show ?thesis
    using ecs1 ecs2 same_code_set [OF ecs1(1)] same_code_set [OF ecs2(1)]
    by (intro exI [of _ ecs2])
      (auto simp: parse_invoice_decode_ng_def syscomp_def ecs_done_def notification_handled_def same_code_def)
qed


subsection \<open>The request for \<open>decode\<close>\<close>

definition request :: "u64 \<Rightarrow> string \<Rightarrow> (string \<times> cst) list \<Rightarrow> string" where
  "request rid meth ps = message [VERSION, (''id'', CPrim (dec_of_nat (unat rid))), (''method'', CString meth), (''params'', mk_obj ps)]"

lemma send_outreq_request:
  assumes "c_string meth"
  shows "\<exists>js p1. jsonrpc_request_start p meth cb = Some (js, p1) \<and>
    p1 = p\<lparr>next_outreq_id := next_outreq_id p + 1, out_reqs := snd (intmap_add (out_reqs p) (next_outreq_id p) cb)\<rparr> \<and>
    (\<forall>ps. send_outreq p1 (add_members ps js) =
      Some (PENDING, p1\<lparr>rpc_js_arr := rpc_js_arr p1 @ [request (next_outreq_id p) meth ps]\<rparr>))"
  using assms
  by (simp add: jsonrpc_request_start_def send_outreq_def start_obj_eq json_add_version json_add_u64_eq json_add_string_eq
      add_members_single add_members_append end_members json_object_compat_end_def finish_message ld_rpc_send_def request_def Let_def)

lemma parse_invoice_spec:
  assumes "ecs_inv ecs" "denotes buf eo (mk_obj ms)" "map_of ms ''lightningd:invoice'' = Some c"
    and "intmap_inv (out_reqs p)" "intmap_get (out_reqs p) (next_outreq_id p) = None"
  shows "\<exists>ecs' p'. parse_invoice ecs p e buf eo = Some (PENDING, ecs', p') \<and> ecs_inv ecs' \<and> same_code ecs ecs' \<and>
    ec_table (ec_of ecs') = tab_upd (ec_table (ec_of ecs)) e ''lightningd:parse_invoice:ran'' (Some (attached (CPrim ''true''))) \<and>
    rpc_js_arr p' = rpc_js_arr p @ [request (next_outreq_id p) ''decode'' [(''string'', c)]] \<and> js_arr p' = js_arr p \<and>
    intmap_inv (out_reqs p') \<and>
    intmap_get (out_reqs p') = (intmap_get (out_reqs p))(next_outreq_id p \<mapsto> PARSE_INVOICE_DECODE e)"
proof -
  obtain tok where tok: "json_get_member buf eo ''lightningd:invoice'' = Some (Some tok)" "inner buf tok c"
    using json_get_member_mk_obj [OF assms(2), of "''lightningd:invoice''"] assms(3) by auto
  obtain ecs' where ecs': "ecs_set_component_datum ecs e ''lightningd:parse_invoice:ran'' (Some ''true'') = Some ecs'" "ecs_inv ecs'"
    "same_code ecs ecs'"
    "ec_table (ec_of ecs') = tab_upd (ec_table (ec_of ecs)) e ''lightningd:parse_invoice:ran'' (Some (attached (CPrim ''true'')))"
    using set_datum [OF assms(1), of "''lightningd:parse_invoice:ran''" "CPrim ''true''" e]
    by (auto simp: value_of_def null_cst_def prim_ok_def primitive_bad_def primitive_stop_def)
  obtain js p1 where js: "jsonrpc_request_start p ''decode'' (PARSE_INVOICE_DECODE e) = Some (js, p1)"
    "p1 = p\<lparr>next_outreq_id := next_outreq_id p + 1, out_reqs := snd (intmap_add (out_reqs p) (next_outreq_id p) (PARSE_INVOICE_DECODE e))\<rparr>"
    "\<And>ps. send_outreq p1 (add_members ps js) =
      Some (PENDING, p1\<lparr>rpc_js_arr := rpc_js_arr p1 @ [request (next_outreq_id p) ''decode'' ps]\<rparr>)"
    using send_outreq_request [of "''decode''" p "PARSE_INVOICE_DECODE e"] by auto
  have "parse_invoice ecs p e buf eo = Some (PENDING, ecs', p1\<lparr>rpc_js_arr := rpc_js_arr p1 @ [request (next_outreq_id p) ''decode'' [(''string'', c)]]\<rparr>)"
    using json_add_tok_eq [OF inner_denotes [OF tok(2)], of js "Some ''string''"]
    by (simp add: parse_invoice_def tok(1) ecs'(1) js(1) add_members_single js(3))
  then show ?thesis
    using ecs' im.lookup_add [OF assms(4) _ assms(5)] im.add_fresh [OF assms(4) _ assms(5)] by (simp add: js(2))
qed

lemma fail_amount_spec:
  assumes "ecs_inv ecs"
  shows "\<exists>ecs'. fail_invoice_amount_and_amount ecs p e = Some (COMPLETE, ecs', p) \<and> ecs_inv ecs' \<and> same_code ecs ecs' \<and>
    ec_table (ec_of ecs') = tab_upd (tab_upd (ec_table (ec_of ecs)) e ''lightningd:error''
      (Some (attached (error_cst JSONRPC2_INVALID_PARAMS ''msatoshi parameter unnecessary'')))) e syscomp None"
proof -
  let ?c = "error_cst JSONRPC2_INVALID_PARAMS ''msatoshi parameter unnecessary''"
  have "plain_text ''msatoshi parameter unnecessary''" by (simp add: plain_text_def)
  then have wf: "wf_cst ?c" "\<not> null_cst ?c"
    by (auto intro!: wf_error_cst plain_text_utf8 plain_text_c_string) (simp add: error_cst_def)
  obtain ecs1 where ecs1: "ecs_set_component_datum ecs e ''lightningd:error'' (Some (text_of ?c)) = Some ecs1" "ecs_inv ecs1"
    "same_code ecs ecs1" "ec_table (ec_of ecs1) = tab_upd (ec_table (ec_of ecs)) e ''lightningd:error'' (Some (attached ?c))"
    using set_datum [OF assms _ wf(1), of "''lightningd:error''" e] wf(2) by (auto simp: value_of_def)
  obtain ecs2 where ecs2: "ecs_set_component_datum ecs1 e syscomp None = Some ecs2" "ecs_inv ecs2" "same_code ecs1 ecs2"
    "ec_table (ec_of ecs2) = tab_upd (ec_table (ec_of ecs1)) e syscomp None"
    using unset_datum [OF ecs1(2)] by blast
  have datuml: "ecs_set_component_datuml ecs e cn v = ecs_set_component_datum ecs e cn v" for cn v
    by (simp add: ecs_set_component_datuml_def ecs_set_component_datum_def ec_set_component_datum_def)
  have "text_of ?c \<noteq> []" by (simp add: error_cst_def mk_obj_def)
  moreover have "json_object_end (json_add_string (json_add_errcode (start_obj new_json_stream None) (Some ''code'') JSONRPC2_INVALID_PARAMS)
      (Some ''message'') ''msatoshi parameter unnecessary'') = Some (add_value None ?c new_json_stream)"
    by (simp add: json_add_errcode_eq json_add_string_eq add_members_single add_members_append end_members error_cst_def)
  ultimately have "fail_invoice_amount_and_amount ecs p e = Some (COMPLETE, ecs2, p)"
    using ecs1(1) ecs2(1)
    by (simp add: fail_invoice_amount_and_amount_def start_obj_eq Let_def datuml add_value_new json_out_contents_def
        syscomp_def ecs_done_def notification_handled_def)
  then show ?thesis using ecs1 ecs2 by (simp add: same_code_def)
qed

end
