(* ===== verification/Dispatch.thy ===== *)
theory Dispatch
  imports Payecs_Cas Rounds
begin

text \<open>
  The table of commands of \<open>payecs_data.c\<close> and \<open>payecs_code.c\<close>, the part of \<open>ld_command_handle\<close> of \<open>libplugin.c\<close> that hands a message of
  lightningd to its handler, and the runs of the plugin from start-up: messages, notifications and replies, in any order.
\<close>

subsection \<open>Commands and notifications\<close>

datatype plugin_handler =
    LISTENTITIES | NEWENTITY | GETCOMPONENTS | SETCOMPONENTS
  | NEWSYSTEM | ADVANCE | GETDEFAULTSYSTEMS | SETDEFAULTSYSTEMS | SYSTRACE

record plugin_command =
  pc_name :: string
  pc_category :: string
  pc_description :: string
  pc_long_description :: "string option"
  pc_handle :: plugin_handler
  pc_deprecated :: bool

definition plugin_cmd :: "string \<Rightarrow> string \<Rightarrow> string \<Rightarrow> plugin_handler \<Rightarrow> plugin_command" where
  "plugin_cmd n d l h = \<lparr>pc_name = n, pc_category = ''payment'', pc_description = d, pc_long_description = Some l,
     pc_handle = h, pc_deprecated = False\<rparr>"

definition payecs_data_commands :: "plugin_command list" where
  "payecs_data_commands =
     [plugin_cmd ''payecs_listentities''
        (''List all entities with attached components, or those '' @ ''with {required} components and without {disallowed} '' @ ''components'')
        ''List entities.'' LISTENTITIES,
      plugin_cmd ''payecs_newentity'' ''Allocate an entity ID number.'' ''Allocate entity.'' NEWENTITY,
      plugin_cmd ''payecs_getcomponents'' ''Look up {entity} for one or more {components}.'' ''Look up components of an entity.''
        GETCOMPONENTS,
      plugin_cmd ''payecs_setcomponents''
        (''Perform specified {writes}, after atomically ensuring that '' @ ''the optional {expected} still holds.'')
        ''Set components of an entity.'' SETCOMPONENTS]"

definition payecs_code_commands :: "plugin_command list" where
  "payecs_code_commands =
     [plugin_cmd ''payecs_newsystem''
        (''Register a new {system}, which will invoke {command} if '' @ ''it is used in an entity with all {required} components and '' @
         ''with none of the {disallowed} components.'')
        ''Register new system.'' NEWSYSTEM,
      plugin_cmd ''payecs_advance'' ''Advance the processing of systems of the given {entity}.'' ''Advance entity processing.'' ADVANCE,
      plugin_cmd ''payecs_getdefaultsystems'' ''Return the list of built-in systems for normal payment flow.''
        ''Return the list of built-in systems for normal payment flow.'' GETDEFAULTSYSTEMS,
      plugin_cmd ''payecs_setdefaultsystems''
        (''Set the given {entity} to use the built-in systmes for '' @ ''normal payment flow, optionally adding {prepend}ed and '' @
         ''{append}ed systems.'')
        (''Set entity to use normal payment flow, possibly with '' @ ''additional systems.'') SETDEFAULTSYSTEMS,
      plugin_cmd ''payecs_systrace'' (''Return a trace of systems that were triggered for a '' @ ''specified {entity}.'')
        ''Trace the systems that ran on the given entity.'' SYSTRACE]"

text \<open>\<open>payz_top->commands\<close>, and the loop that looks for a command by its name.\<close>

definition payz_commands :: "plugin_command list" where
  "payz_commands = payecs_data_commands @ payecs_code_commands"

definition find_command :: "string \<Rightarrow> plugin_handler option" where
  "find_command name = map_option pc_handle (List.find (\<lambda>c. pc_name c = name) payz_commands)"

definition payecs_code_notifications :: "string list" where
  "payecs_code_notifications = [ECSYS_SYSTEM_NOTIFICATION]"

fun run_handler :: "bool \<Rightarrow> plugin_handler \<Rightarrow> (builtin, out_req) handler" where
  "run_handler erange LISTENTITIES = payecs_listentities"
| "run_handler erange NEWENTITY = payecs_newentity"
| "run_handler erange GETCOMPONENTS = payecs_getcomponents erange"
| "run_handler erange SETCOMPONENTS = payecs_setcomponents erange"
| "run_handler erange NEWSYSTEM = payecs_newsystem"
| "run_handler erange ADVANCE = payecs_advance erange"
| "run_handler erange GETDEFAULTSYSTEMS = payecs_getdefaultsystems"
| "run_handler erange SETDEFAULTSYSTEMS = payecs_setdefaultsystems erange"
| "run_handler erange SYSTRACE = payecs_systrace erange"

text \<open>
  \<open>ld_command_handle\<close> in a plugin that has been initialised, in two parts: the command is read out of the message, and it is
  handed to the notification or the command with its name. \<open>plugin_err\<close> ends the process. There are no hooks.
\<close>

definition ld_command_read :: "bool \<Rightarrow> string \<Rightarrow> tokptr \<Rightarrow> (command \<times> tokptr) run" where
  "ld_command_read erange buffer toks = do {
     idtok \<leftarrow> json_get_member buffer toks ''id'';
     methtok \<leftarrow> json_get_member buffer toks ''method'';
     paramstok \<leftarrow> json_get_member buffer toks ''params'';
     case (methtok, paramstok) of
       (Some m, Some params) \<Rightarrow> do {
         mt \<leftarrow> deref m;
         name \<leftarrow> json_strdup buffer mt;
         rid \<leftarrow> (case idtok of
            None \<Rightarrow> Some None
          | Some i \<Rightarrow> do {
              it \<leftarrow> deref i;
              n \<leftarrow> json_to_u64 erange buffer it;
              case n of None \<Rightarrow> None | Some v \<Rightarrow> Some (Some v) });
         Some (\<lparr>cmd_id = rid, methodname = name, usage_only = False\<rparr>, params) }
     | _ \<Rightarrow> None }"

definition ld_command_dispatch ::
  "environment \<Rightarrow> bool \<Rightarrow> timeabs \<Rightarrow> out_req plugin \<Rightarrow> builtin payz \<Rightarrow> command \<Rightarrow> string \<Rightarrow> tokptr \<Rightarrow> (builtin, out_req) handled" where
  "ld_command_dispatch env erange now p z cmd buffer params =
     (if cmd_id cmd = None then
        (if methodname cmd \<in> set payecs_code_notifications
         then payecs_system_notification (run_builtin env) erange now p z buffer params else None)
      else case find_command (methodname cmd) of
          None \<Rightarrow> None
        | Some h \<Rightarrow> run_handler erange h p cmd z buffer params)"

definition ld_command_running ::
  "environment \<Rightarrow> bool \<Rightarrow> timeabs \<Rightarrow> out_req plugin \<Rightarrow> builtin payz \<Rightarrow> string \<Rightarrow> tokptr \<Rightarrow> (builtin, out_req) handled" where
  "ld_command_running env erange now p z buffer toks = do {
     (cmd, params) \<leftarrow> ld_command_read erange buffer toks;
     ld_command_dispatch env erange now p z cmd buffer params }"

subsection \<open>Every handler keeps the invariant\<close>

text \<open>
  \<open>keeps z h\<close>: whatever the run \<open>h\<close> of a handler in state \<open>z\<close> does, when it returns the invariant holds again and the
  systems that were registered are registered as before.
\<close>

definition code_kept :: "'f ecs \<Rightarrow> 'f ecs \<Rightarrow> bool" where
  "code_kept ecs ecs' \<longleftrightarrow> strmap_get (system_funcs ecs') = strmap_get (system_funcs ecs) \<and>
     (\<forall>s reg. strmap_get (system_map (ecsys_of ecs)) s = Some reg \<longrightarrow> strmap_get (system_map (ecsys_of ecs')) s = Some reg)"

definition keeps :: "'f payz \<Rightarrow> ('f, 'r) handled \<Rightarrow> bool" where
  "keeps z h \<longleftrightarrow> (\<forall>r z' p'. h = Some (r, z', p') \<longrightarrow>
     payz_inv z' \<and> code_kept (top_ecs z) (top_ecs z') \<and> default_systems z' = default_systems z)"

lemma code_kept_refl [simp]: "code_kept ecs ecs"
  by (simp add: code_kept_def)

lemma code_kept_trans: "code_kept a b \<Longrightarrow> code_kept b c \<Longrightarrow> code_kept a c"
  by (simp add: code_kept_def)

lemma same_code_kept: "same_code ecs ecs' \<Longrightarrow> code_kept ecs ecs'"
  by (simp add: same_code_def code_kept_def)

lemma keeps_None [simp]: "keeps z None"
  by (simp add: keeps_def)

lemma keeps_same [simp]: "payz_inv z \<Longrightarrow> keeps z (answer z h)" "payz_inv z \<Longrightarrow> keeps z (Some (r, z, p))"
  by (auto simp: keeps_def answer_def bind_eq_Some_conv)

lemma keeps_answers:
  "answers cmd p z R h \<Longrightarrow> payz_inv z \<Longrightarrow> (\<And>z' ms. R z' ms \<Longrightarrow>
     payz_inv z' \<and> code_kept (top_ecs z) (top_ecs z') \<and> default_systems z' = default_systems z) \<Longrightarrow> keeps z h"
  by (auto simp: answers_def keeps_def)

lemma builtins_kept: "builtins_registered ecs \<Longrightarrow> code_kept ecs ecs' \<Longrightarrow> builtins_registered ecs'"
  by (auto simp: builtins_registered_def code_kept_def)


lemma keeps_total:
  assumes "payz_inv z" "\<not> usage_only cmd" "cmd_id cmd = Some rid" "denotes buf ts c" "all_good cmd buf Q ds" "req_first ds"
    and "\<And>p'. param p cmd buf ts ds False = Some (Inl p') \<Longrightarrow> h = Some (command_param_failed, z, p')"
    and "\<And>vals. param p cmd buf ts ds False = Some (Inr vals) \<Longrightarrow> vals_given ds Q vals \<Longrightarrow> keeps z h"
  shows "keeps z h"
  using param_total [OF assms(2-6), of p] by (cases rule: outcomeE) (use assms(1,7,8) in auto)

lemma keeps_bind: "(\<And>x. m = Some x \<Longrightarrow> keeps z (k x)) \<Longrightarrow> keeps z (m \<bind> k)"
  by (cases m) auto

lemma keeps_readonly:
  assumes "payz_inv z"
  shows "keeps z (payecs_listentities p cmd z buf ts)" "keeps z (payecs_getcomponents erange p cmd z buf ts)"
    "keeps z (payecs_getdefaultsystems p cmd z buf ts)" "keeps z (payecs_systrace erange p cmd z buf ts)"
  unfolding payecs_listentities_def payecs_getcomponents_def payecs_getdefaultsystems_def payecs_systrace_def
  by (auto intro!: keeps_bind simp: assms Let_def split: sum.split)

text \<open>The part of \<open>keeps\<close> on the registered systems, for handlers that change the table only.\<close>

definition codes :: "'f payz \<Rightarrow> ('f, 'r) handled \<Rightarrow> bool" where
  "codes z h \<longleftrightarrow> (\<forall>r z' p'. h = Some (r, z', p') \<longrightarrow>
     same_code (top_ecs z) (top_ecs z') \<and> default_systems z' = default_systems z)"

lemma codes_bind: "(\<And>x. m = Some x \<Longrightarrow> codes z (k x)) \<Longrightarrow> codes z (m \<bind> k)"
  by (cases m) (auto simp: codes_def)

lemma same_code_refl [simp]: "same_code ecs ecs"
  by (simp add: same_code_def)

lemma codes_answer [simp, intro]:
  "same_code (top_ecs z) (top_ecs z') \<Longrightarrow> default_systems z' = default_systems z \<Longrightarrow> codes z (answer z' h)" "codes z (Some (r, z, p))" "codes z None"
  by (auto simp: codes_def answer_def bind_eq_Some_conv)

lemma keepsI: "codes z h \<Longrightarrow> (\<And>r z' p'. h = Some (r, z', p') \<Longrightarrow> payz_inv z') \<Longrightarrow> keeps z h"
  by (auto simp: keeps_def codes_def same_code_kept)

lemma codes_newentity: "codes z (payecs_newentity p cmd z buf ts)"
  unfolding payecs_newentity_def
  by (auto intro!: codes_bind simp: Let_def ecs_newentity_def same_code_def split: sum.split prod.split)

lemma delete_components_code: "delete_components n cns i ecs e = Some ecs' \<Longrightarrow> same_code ecs ecs'"
proof (induction n arbitrary: ecs)
  case (Suc n)
  then show ?case using same_code_set by (fastforce simp: bind_eq_Some_conv same_code_def)
qed simp

lemma run_writes_code: "snd (run_entries es (payecs_setcomponents_write buf e) (Some ecs)) = Some ecs' \<Longrightarrow> same_code ecs ecs'"
proof (induction es arbitrary: ecs)
  case (Cons x es)
  obtain k v where x: "x = (k, v)" by force
  show ?case
  proof (cases "ecs_set_component ecs e k (Some buf) (Some v)")
    case (Some ecs1)
    then have "same_code ecs1 ecs'" using Cons by (simp add: x payecs_setcomponents_write_def)
    then show ?thesis using same_code_set [OF Some] by (simp add: same_code_def)
  qed (use Cons.prems in \<open>simp add: x payecs_setcomponents_write_def\<close>)
qed simp

lemma perform_writes_code: "perform_writes buf ecs ws i = Some ecs' \<Longrightarrow> same_code ecs ecs'"
proof (induction ws arbitrary: ecs i)
  case (Cons w ws)
  then obtain ecs1 ecs2 where "same_code ecs ecs1"
    "strmap_iterate (ws_components w) (payecs_setcomponents_write buf (ws_entity w)) (Some ecs1) = Some ecs2"
    "perform_writes buf ecs2 ws (Suc i) = Some ecs'"
    by (auto simp: bind_eq_Some_conv split: if_splits) (meson delete_components_code same_code_refl)+
  then show ?case using Cons.IH run_writes_code by (fastforce simp: same_code_def strmap_iterate_entries)
qed simp

lemma codes_setcomponents: "codes z (payecs_setcomponents erange p cmd z buf ts)"
  unfolding payecs_setcomponents_def
  by (auto intro!: codes_bind codes_answer(1) split: sum.split) (erule perform_writes_code)

lemma codes_advance: "codes z (payecs_advance erange p cmd z buf ts)"
  unfolding payecs_advance_def ecs_advance_def payecs_advance_ok_def payecs_advance_ng_def
  by (auto intro!: codes_bind simp: Let_def same_code_def bind_eq_Some_conv split: sum.split prod.split)

lemma setsystems_code:
  "payz_setsystems_tok z e f buf ts = Some z' \<Longrightarrow> same_code (top_ecs z) (top_ecs z') \<and> default_systems z' = default_systems z"
  by (auto simp: payz_setsystems_tok_def payz_generic_setsystems_tok_def bind_eq_Some_conv Let_def split_beta dest: same_code_set)

lemma codes_setdefaultsystems: "codes z (payecs_setdefaultsystems erange p cmd z buf ts)"
  unfolding payecs_setdefaultsystems_def
  by (auto intro!: codes_bind codes_answer(1) simp: Let_def split: sum.split option.split) (use setsystems_code in blast)+

lemma keeps_newentity:
  assumes "payz_inv z" "\<not> usage_only cmd" "cmd_id cmd = Some rid" "denotes buf ts c"
  shows "keeps z (payecs_newentity p cmd z buf ts)"
  by (rule keepsI [OF codes_newentity]) (use newentity_answers [OF assms, of p] assms(1) in \<open>auto simp: answers_def\<close>)

lemma opt_vals_ok:
  "(\<forall>x. v = Some x \<longrightarrow> specs_val buf x) \<Longrightarrow> list_all (spec_ok buf) (opt_specs v)"
  "(\<forall>x. w = Some x \<longrightarrow> strs_val x) \<Longrightarrow> list_all text_ok (opt_strs w)"
  by (cases v; auto simp: specs_val_def) (cases w; auto simp: strs_val_def)

lemma keeps_setcomponents:
  fixes p :: "'r plugin"
  assumes "payz_inv z" "\<not> usage_only cmd" "cmd_id cmd = Some rid" "denotes buf ts c"
  shows "keeps z (payecs_setcomponents erange p cmd z buf ts)"
proof (rule keeps_total [OF assms, of "(!) [specs_val buf, specs_val buf]" "setcomponents_decls erange" p])
  fix vals assume vals: "param p cmd buf ts (setcomponents_decls erange) False = Some (Inr vals)"
    and given: "vals_given (setcomponents_decls erange :: ('r, pval) param list) ((!) [specs_val buf, specs_val buf]) vals"
  then obtain ss ev where v: "vals = [Some (PSpecs ss), ev]" "list_all (spec_ok buf) ss" "list_all (spec_ok buf) (opt_specs ev)"
    by (auto simp: vals_given_eval opt_vals_ok split: option.splits) (auto simp: specs_val_def opt_vals_ok)
  obtain ws xs where ws: "map fst ws = ss" "specs_rel buf ws" "map fst xs = opt_specs ev" "specs_rel buf xs"
    using specs_rel_exists v(2,3) by metis
  show "keeps z (payecs_setcomponents erange p cmd z buf ts)"
    using setcomponents_vals [OF assms(1,3), of p buf ts erange ws ev xs] vals v(1) ws assms(1)
    by (intro keepsI [OF codes_setcomponents]) (auto split: if_splits option.splits)
qed (simp_all add: all_good_eval good_specs [OF assms(3)] payecs_setcomponents_def)

lemma keeps_advance:
  fixes p :: "'r plugin"
  assumes "payz_inv z" "\<not> usage_only cmd" "cmd_id cmd = Some rid" "denotes buf ts c"
  shows "keeps z (payecs_advance erange p cmd z buf ts)"
proof (rule keeps_total [OF assms, of "(!) [num_val]" "entity_decls erange" p])
  fix vals assume vals: "param p cmd buf ts (entity_decls erange) False = Some (Inr vals)"
    and given: "vals_given (entity_decls erange :: ('r, pval) param list) ((!) [num_val]) vals"
  then obtain e where e: "vals = [Some (PNum e)]" by (auto simp: vals_given_eval num_val_def split: option.splits)
  have "ec_inv (ec_of (top_ecs z))" using assms(1) by (simp add: payz_inv_def ecs_inv_def)
  then obtain ms where ms: "ect.fields (ec_of (top_ecs z)) e ms" using ect.fields_exists by blast
  show "keeps z (payecs_advance erange p cmd z buf ts)"
    using advance_vals [OF assms(1,3) vals [unfolded e] ms]
    by (intro keepsI [OF codes_advance]) (auto simp: refused_def advanced_def split: option.splits system_search.splits)
qed (simp_all add: all_good_eval good_num [OF assms(3)] payecs_advance_def)

lemma keeps_setdefaultsystems:
  fixes p :: "'r plugin"
  assumes "payz_inv z" "\<not> usage_only cmd" "cmd_id cmd = Some rid" "denotes buf ts c"
  shows "keeps z (payecs_setdefaultsystems erange p cmd z buf ts)"
proof (rule keeps_total [OF assms, of "(!) [num_val, strs_val, strs_val]" "setdefault_decls erange" p])
  fix vals assume vals: "param p cmd buf ts (setdefault_decls erange) False = Some (Inr vals)"
    and given: "vals_given (setdefault_decls erange :: ('r, pval) param list) ((!) [num_val, strs_val, strs_val]) vals"
  then obtain e pr ap where v: "vals = [Some (PNum e), pr, ap]" "list_all text_ok (opt_strs pr)" "list_all text_ok (opt_strs ap)"
    by (auto simp: vals_given_eval num_val_def opt_vals_ok split: option.splits)
  obtain ms where ms: "ecst.fields (top_ecs z) e ms" using ecst.fields_exists payz_inv_ecs [OF assms(1)] by blast
  show "keeps z (payecs_setdefaultsystems erange p cmd z buf ts)"
    using setdefaultsystems_vals [OF assms(1,3) ms vals [unfolded v(1)] v(2,3)] assms(1)
    by (intro keepsI [OF codes_setdefaultsystems]) (auto split: if_splits)
qed (simp_all add: all_good_eval good_num [OF assms(3)] good_strs [OF assms(3)] payecs_setdefaultsystems_def)

lemma register_keeps:
  assumes "payz_inv z" "c_string s" "payecs_register z s req dis = Some (ok, z')"
  shows "payz_inv z' \<and> code_kept (top_ecs z) (top_ecs z') \<and> default_systems z' = default_systems z"
proof (cases "ecs_system_exists (top_ecs z) s")
  case True
  then show ?thesis using assms by (auto simp: payecs_register_def split: option.splits)
next
  case False
  then have "strmap_get (system_map (ecsys_of (top_ecs z))) s = None" by (simp add: ecs_system_exists_def ecsys_system_exists_def)
  moreover have "default_systems z' = default_systems z"
    using assms(3) payecs_register_eq [OF False assms(1)] by (auto simp: bind_eq_Some_conv)
  ultimately show ?thesis using payecs_register_fresh [OF False assms(1,2), of req dis] assms(3)
    by (auto simp: code_kept_def split: if_splits)
qed

lemma keeps_newsystem:
  fixes p :: "'r plugin"
  assumes "payz_inv z" "\<not> usage_only cmd" "cmd_id cmd = Some rid" "denotes buf ts c"
  shows "keeps z (payecs_newsystem p cmd z buf ts)"
proof (rule keeps_total [OF assms, of "(!) [str_val, strs_val, strs_val]" newsystem_decls p])
  fix vals assume vals: "param p cmd buf ts newsystem_decls False = Some (Inr vals)"
    and given: "vals_given (newsystem_decls :: ('r, pval) param list) ((!) [str_val, strs_val, strs_val]) vals"
  then obtain s rs d where v: "vals = [Some (PStr s), rs, d]" "c_string s"
    by (auto simp: vals_given_eval str_val_def split: option.splits)
  show "keeps z (payecs_newsystem p cmd z buf ts)"
    using register_keeps [OF assms(1) v(2)]
    by (auto simp: payecs_newsystem_def vals v(1) keeps_def answer_def bind_eq_Some_conv split: if_splits)
qed (simp_all add: all_good_eval good_str good_strs [OF assms(3)] payecs_newsystem_def)

lemma run_handler_keeps:
  assumes "payz_inv z" "\<not> usage_only cmd" "cmd_id cmd = Some rid" "denotes buf ts c"
  shows "keeps z (run_handler erange h p cmd z buf ts)"
  by (cases h) (simp_all add: assms keeps_readonly keeps_newentity [OF assms] keeps_setcomponents [OF assms] keeps_advance [OF assms]
      keeps_setdefaultsystems [OF assms] keeps_newsystem [OF assms])

end
