(* ===== verification/Plugin_Run.thy ===== *)
theory Plugin_Run
  imports Dispatch
begin

text \<open>
  Runs of the plugin. A step is a message from lightningd (a command or a notification, with any well-formed
  parameters) or a reply to a request of the plugin. Every state that is reached from start-up satisfies the
  invariant of the plugin, and the built-in systems stay registered.
\<close>

subsection \<open>Notifications keep the invariant\<close>

lemma get_member_inner:
  assumes "denotes buf ts c" "json_get_member buf ts k = Some (Some ts')"
  shows "\<exists>c'. inner buf ts' c'"
proof (cases "type_of_cst c = JSMN_OBJECT")
  case True
  then obtain ms w where "c = CObj ms w" by (cases c) auto
  then show ?thesis using json_get_member_denotes [of buf ts ms w k] assms by (auto split: option.splits)
qed (use json_get_member_not_object [OF assms(1)] assms(2) in simp)

text \<open>The code of a system keeps the framework consistent and leaves the registered systems alone.\<close>

definition code_keeps :: "'f ecs \<Rightarrow> (command_result \<times> 'f ecs \<times> 'r plugin) run \<Rightarrow> bool" where
  "code_keeps ecs h \<longleftrightarrow> (\<forall>r ecs' p'. h = Some (r, ecs', p') \<longrightarrow> ecs_inv ecs' \<and> same_code ecs ecs')"

lemma code_keeps_bind: "(\<And>x. m = Some x \<Longrightarrow> code_keeps ecs (k x)) \<Longrightarrow> code_keeps ecs (m \<bind> k)"
  by (cases m) (auto simp: code_keeps_def)

lemma code_keeps_simps [simp]: "code_keeps ecs None" "ecs_inv ecs \<Longrightarrow> code_keeps ecs (Some (r, ecs, p))"
  "ecs_inv ecs \<Longrightarrow> code_keeps ecs (log_handled p ecs msg buf ts)"
  by (auto simp: code_keeps_def log_handled_def bind_eq_Some_conv Let_def notification_handled_def)

lemma code_keeps_trans: "same_code ecs ecs1 \<Longrightarrow> code_keeps ecs1 h \<Longrightarrow> code_keeps ecs h"
  by (auto simp: code_keeps_def same_code_def)

lemma advance_done_keeps: "ecs_inv ecs \<Longrightarrow> code_keeps ecs (ecs_advance_done p ecs e)"
  using ecs_advance_done_runs [of ecs p e]
  by (auto simp: code_keeps_def) (auto simp: ecs_advance_done_def ecs_done_def same_code_def bind_eq_Some_conv Let_def split_beta)

lemma datum_keeps:
  assumes "ecs_inv ecs" "c_string cn" "wf_cst c" "\<And>ecs'. ecs_inv ecs' \<Longrightarrow> code_keeps ecs' (k ecs')"
  shows "code_keeps ecs (ecs_set_component_datum ecs e cn (Some (text_of c)) \<bind> k)"
  using set_datum [OF assms(1-3), of e] assms(4) code_keeps_trans by fastforce

lemma wf_true: "wf_cst (CPrim ''true'')"
  by (simp add: prim_ok_def primitive_bad_def primitive_stop_def)

lemmas true_keeps = datum_keeps [OF _ _ wf_true, unfolded text_of.simps]

lemma set_component_keeps:
  assumes "ecs_inv ecs" "c_string cn" "denotes buf ts c" "\<And>ecs'. ecs_inv ecs' \<Longrightarrow> code_keeps ecs' (k ecs')"
  shows "code_keeps ecs (ecs_set_component ecs e cn (Some buf) (Some ts) \<bind> k)"
  using ecst.set_denotes [OF assms(1-3), of e] assms(4) code_keeps_trans same_code_set by fastforce

lemma promote_keeps:
  assumes "ecs_inv ecs"
  shows "code_keeps ecs (promote_invoice_type ecs p e buf ts)"
  unfolding promote_invoice_type_def
proof (intro code_keeps_bind)
  fix tt
  show "code_keeps ecs (case tt of None \<Rightarrow> None | Some tok \<Rightarrow> do {
      t \<leftarrow> deref tok; ty \<leftarrow> json_strdup buf t;
      ecs' \<leftarrow> ecs_set_component_datum ecs e (''lightningd:invoice:type:'' @ ty) (Some ''true'');
      ecs_advance_done p ecs' e })"
  proof (cases tt)
    case (Some tok)
    show ?thesis unfolding Some option.case
      by (intro code_keeps_bind true_keeps [OF assms] advance_done_keeps) (auto simp: json_strdup_def bind_eq_Some_conv)
  qed simp
qed

lemma parse_invoice_keeps:
  assumes "ecs_inv ecs"
  shows "code_keeps ecs (parse_invoice ecs p e buf ts)"
  unfolding parse_invoice_def
  by (rule code_keeps_bind, rule true_keeps [OF assms]) (auto intro!: code_keeps_bind split: option.split)

lemma amount_keeps:
  assumes "ecs_inv ecs" "denotes buf ts c"
  shows "code_keeps ecs (invoice_amount_msat ecs p e buf ts)"
  unfolding invoice_amount_msat_def
proof (rule code_keeps_bind, rule code_keeps_bind)
  fix am ecs1
  assume am: "json_get_member buf ts ''lightningd:invoice:amount_msat'' = Some am"
    and ecs1: "ecs_set_component_datum ecs e ''lightningd:invoice:amount_msat'' None = Some ecs1"
  then have inv: "ecs_inv ecs1" "same_code ecs ecs1" using unset_datum [OF assms(1), of e "''lightningd:invoice:amount_msat''"] by auto
  show "code_keeps ecs (do { ecs2 \<leftarrow> ecs_set_component ecs1 e ''lightningd:amount'' (Some buf) am; ecs_advance_done p ecs2 e })"
  proof (cases am)
    case None
    then show ?thesis by (simp add: ecs_set_component_def ec_set_component_def)
  next
    case (Some ts')
    then obtain c' where i: "inner buf ts' c'" using get_member_inner [OF assms(2)] am by blast
    show ?thesis unfolding Some
      by (rule code_keeps_trans [OF inv(2)], rule set_component_keeps [OF inv(1) _ inner_denotes [OF i]]) (simp_all add: advance_done_keeps)
  qed
qed

lemma run_builtin_keeps:
  assumes "env_ok env" "ecs_inv ecs" "denotes buf ts c"
  shows "code_keeps ecs (run_builtin env f ecs p e buf ts)"
proof (cases "sets env f")
  case (Some x)
  then obtain cn d where x: "sets env f = Some (cn, d)" by (cases x) auto
  note wf = sets_wf [OF x assms(1)]
  show ?thesis unfolding run_sets [OF x] by (rule datum_keeps [OF assms(2) wf(3,1)]) (rule advance_done_keeps)
next
  case None
  obtain v h where "default_maxdelay env = Some v" "tal_hexstr (random_bytes env) = Some h" using env_ok_cases [OF assms(1)] by blast
  then have "f = PARSE_INVOICE \<or> f = PROMOTE_INVOICE_TYPE \<or> f = INVOICE_AMOUNT_MSAT \<or> f = FAIL_INVOICE_AMOUNT_AND_AMOUNT"
    using None by (cases f) auto
  moreover have "code_keeps ecs (fail_invoice_amount_and_amount ecs p e)"
    using fail_amount_spec [OF assms(2), of p e] by (auto simp: code_keeps_def)
  ultimately show ?thesis
    using parse_invoice_keeps [OF assms(2)] promote_keeps [OF assms(2)] amount_keeps [OF assms(2,3)] by auto
qed

lemma code_keeps_sum:
  "(\<And>a. r = Inl a \<Longrightarrow> code_keeps ecs (f a)) \<Longrightarrow> (\<And>b. r = Inr b \<Longrightarrow> code_keeps ecs (g b)) \<Longrightarrow>
   code_keeps ecs (case r of Inl a \<Rightarrow> f a | Inr b \<Rightarrow> g b)"
  by (cases r) simp_all

lemma code_keeps_option:
  "(r = None \<Longrightarrow> code_keeps ecs f) \<Longrightarrow> (\<And>b. r = Some b \<Longrightarrow> code_keeps ecs (g b)) \<Longrightarrow>
   code_keeps ecs (case r of None \<Rightarrow> f | Some b \<Rightarrow> g b)"
  by (cases r) simp_all

lemma notify_keeps:
  assumes "ecs_inv ecs" "denotes buf ts c"
    and call: "\<And>f e ts' c'. denotes buf ts' c' \<Longrightarrow> code_keeps ecs (call f ecs p e buf ts')"
  shows "code_keeps ecs (ecs_system_notify call erange ecs p buf ts)"
proof -
  have ent: "code_keeps ecs (call f ecs p e buf ts')" if "json_get_member buf ts k = Some (Some ts')" for f e ts' k
    using get_member_inner [OF assms(2) that] call inner_denotes by blast
  show ?thesis
    unfolding ecs_system_notify_def
    by (intro code_keeps_bind code_keeps_sum code_keeps_option) (simp_all add: assms(1) notification_handled_def ent)
qed

lemma systrace_add_keeps:
  assumes "payz_inv z" "denotes buf ts c" "payecs_systrace_add erange now p z buf ts = Some (z', p')"
  shows "payz_inv z' \<and> only_trace z z'"
proof -
  have tr: "trace_ok z" using assms(1) by (simp add: payz_inv_def)
  note room = make_room [OF tr]
  have inv: "payz_inv (make_room z)" using only_trace_inv [OF assms(1) room(2,1)] .
  obtain r where r: "json_scan buf ts ''{entity:{entity:%}}'' [(''json_to_u32'', scan_u32 erange)] = Some r"
    using assms(3) by (auto simp: payecs_systrace_add_def bind_eq_Some_conv)
  show ?thesis
  proof (cases r)
    case (Inl err)
    then show ?thesis using assms(1,3) r by (auto simp: payecs_systrace_add_def bind_eq_Some_conv only_trace_def)
  next
    case (Inr vals)
    obtain ms me where get: "json_get_member buf ts ''system'' = Some ms" "json_get_member buf ts ''entity'' = Some me"
      using assms(3) r Inr by (auto simp: payecs_systrace_add_def bind_eq_Some_conv Let_def)
    show ?thesis
    proof (cases "ms = None \<or> me = None")
      case True
      then have "z' = make_room z" using assms(3) r Inr get
        by (cases ms; cases me) (auto simp: payecs_systrace_add_def bind_eq_Some_conv Let_def make_room_def)
      then show ?thesis using inv room(2) by simp
    next
      case False
      then obtain s eo where "ms = Some s" "me = Some eo" by auto
      then obtain cs ce where m: "ms = Some s" "me = Some eo" "inner buf s cs" "inner buf eo ce"
        using get_member_inner [OF assms(2)] get by metis
      have wf: "wf_cst cs" "wf_cst ce" using m(3,4) by (simp_all add: inner_def)
      have c_str: "c_string (text_of cs)" "c_string (text_of ce)" using c_string_text_of wf by blast+
      note full = denotes_full_str [OF inner_denotes [OF m(3)]] denotes_full_str [OF inner_denotes [OF m(4)]]
      obtain tm where tm: "format_time now = Some tm" using assms(3) r Inr get m full
        by (auto simp: payecs_systrace_add_def bind_eq_Some_conv Let_def)
      let ?x = "\<lparr>tr_entity = hd vals, tr_json = text_of (trace_cst tm cs ce)\<rparr>"
      have "z' = (make_room z)\<lparr>payecs_systraces := payecs_systraces (make_room z) @ [?x],
          payecs_systraces_remaining := payecs_systraces_remaining (make_room z) - 1\<rparr>"
        using assms(3) r Inr get m full tm c_str by (auto simp: payecs_systrace_add_def make_room_def trace_cst_def Let_def split: if_splits)
      moreover have "wf_cst (trace_cst tm cs ce)" by (rule wf_trace_cst [OF format_time_plain [OF tm] wf])
      ultimately show ?thesis
        using trace_ok_add [OF room(1,3), of "trace_cst tm cs ce" "hd vals"] only_trace_inv [OF assms(1)] room(2)
        by (auto simp: only_trace_def)
    qed
  qed
qed

lemma notification_keeps:
  assumes "payz_inv z" "denotes buf ts c" "env_ok env"
  shows "keeps z (payecs_system_notification (run_builtin env) erange now p z buf ts)"
  unfolding payecs_system_notification_def
proof (rule keeps_bind)
  fix pl assume pl: "json_get_member buf ts ''payload'' = Some pl"
  have keep: "keeps z (do {
      (z1, p2) \<leftarrow> payecs_systrace_add erange now p1 z buf tok;
      (r, ecs, p3) \<leftarrow> ecs_system_notify (run_builtin env) erange (top_ecs z1) p2 buf tok;
      Some (r, z1\<lparr>top_ecs := ecs\<rparr>, p3) })" if "denotes buf tok c'" for tok c' p1
  proof (rule keeps_bind, clarify)
    fix z1 p2 assume "payecs_systrace_add erange now p1 z buf tok = Some (z1, p2)"
    from systrace_add_keeps [OF assms(1) that this] have z1: "payz_inv z1" "top_ecs z1 = top_ecs z" "default_systems z1 = default_systems z" by (simp_all add: only_trace_def)
    have "code_keeps (top_ecs z1) (ecs_system_notify (run_builtin env) erange (top_ecs z1) p2 buf tok)"
      by (rule notify_keeps [OF payz_inv_ecs [OF z1(1)] that]) (rule run_builtin_keeps [OF assms(3) payz_inv_ecs [OF z1(1)]])
    then show "keeps z (do {
        (r, ecs, p3) \<leftarrow> ecs_system_notify (run_builtin env) erange (top_ecs z1) p2 buf tok; Some (r, z1\<lparr>top_ecs := ecs\<rparr>, p3) })"
      using payz_inv_table [OF z1(1)] z1(2,3)
      by (auto simp: keeps_def code_keeps_def bind_eq_Some_conv same_code_kept) (auto simp: same_code_def)
  qed
  show "keeps z (case pl of
       None \<Rightarrow> do {
         text \<leftarrow> full_str buf ts;
         p' \<leftarrow> plugin_log p LOG_UNUSUAL (ECSYS_SYSTEM_NOTIFICATION @ '' parameters has no payload: '' @ text);
         let (r, p'') = notification_handled p';
         Some (r, z, p'') }
     | Some pl \<Rightarrow> do {
         text \<leftarrow> full_str buf pl;
         p1 \<leftarrow> plugin_log p LOG_DBG (ECSYS_SYSTEM_NOTIFICATION @ '' payload: '' @ text);
         (z1, p2) \<leftarrow> payecs_systrace_add erange now p1 z buf pl;
         (r, ecs, p3) \<leftarrow> ecs_system_notify (run_builtin env) erange (top_ecs z1) p2 buf pl;
         Some (r, z1\<lparr>top_ecs := ecs\<rparr>, p3) })"
  proof (cases pl)
    case None
    then show ?thesis by (auto intro!: keeps_bind simp: Let_def notification_handled_def assms(1))
  next
    case (Some tok)
    then obtain c' where "denotes buf tok c'" using get_member_inner [OF assms(2)] pl inner_denotes by blast
    then show ?thesis unfolding Some option.case by (intro keeps_bind keep)
  qed
qed


subsection \<open>Replies keep the invariant\<close>

lemma decode_ok_keeps:
  assumes "ecs_inv ecs" "denotes buf res (CObj ms w)"
  shows "code_keeps ecs (parse_invoice_decode_ok ecs p e buf res)"
proof -
  obtain ptrs where ptrs: "list_all2 (denotes_member buf) ptrs (ms_list ms)"
    and loop: "\<And>(f :: tokptr \<Rightarrow> builtin ecs \<Rightarrow> (unit + builtin ecs) run) s. json_for_each_obj res f s = early f ptrs s"
    using json_for_each_obj_denotes [OF assms(2)] by blast
  have "list_all wf_member (ms_list ms)" using wf_members [of "CObj ms w"] assms(2) by (auto simp: denotes_def)
  then obtain ecs' where "early (decode_field e buf) ptrs ecs = Some (Inr ecs')" "ecs_inv ecs'" "same_code ecs ecs'"
    using decode_fields [OF ptrs _ assms(1), of e] by blast
  then show ?thesis by (auto simp: parse_invoice_decode_ok_def loop intro: code_keeps_trans advance_done_keeps)
qed

lemma decode_ng_keeps:
  assumes "ecs_inv ecs" "denotes buf res c"
  shows "code_keeps ecs (parse_invoice_decode_ng ecs p e buf res)"
  using decode_ng_spec [OF assms(2,1), of e p] by (auto simp: code_keeps_def)

text \<open>What lightningd answers to \<open>decode\<close>: an object with an error, or with a result that is an object.\<close>

definition decode_reply :: "cst \<Rightarrow> bool" where
  "decode_reply c \<longleftrightarrow> (\<forall>r. map_of (members c) ''result'' = Some r \<longrightarrow> type_of_cst r = JSMN_OBJECT)"

lemma get_member_members:
  assumes "denotes buf ts c" "json_get_member buf ts k = Some (Some ts')"
  shows "\<exists>c'. map_of (members c) k = Some c' \<and> inner buf ts' c'"
proof (cases "type_of_cst c = JSMN_OBJECT")
  case True
  then obtain ms w where "c = CObj ms w" by (cases c) auto
  then show ?thesis using json_get_member_denotes [of buf ts ms w k] assms by (auto split: option.splits)
qed (use json_get_member_not_object [OF assms(1)] assms(2) in simp)

lemma bind_SomeE: "m \<bind> k = Some y \<Longrightarrow> (\<And>x. m = Some x \<Longrightarrow> k x = Some y \<Longrightarrow> P) \<Longrightarrow> P"
  by (cases m) auto

lemma handle_reply_contents:
  assumes "denotes buf toks c" "handle_rpc_reply p erange buf toks = Some (rep, out, p')"
  shows "case rep of
      ReplyIgnored \<Rightarrow> True
    | ReplyError ts \<Rightarrow> \<exists>c'. denotes buf ts c'
    | ReplyResult ts \<Rightarrow> \<exists>c'. denotes buf ts c' \<and> map_of (members c) ''result'' = Some c'"
proof -
  have "rep = ReplyError ts \<Longrightarrow> json_get_member buf toks ''error'' = Some (Some ts)"
    "rep = ReplyResult ts \<Longrightarrow> json_get_member buf toks ''result'' = Some (Some ts)" for ts
    using assms(2) by (auto simp: handle_rpc_reply_def Let_def elim!: bind_SomeE split: option.splits)
  then show ?thesis using get_member_members [OF assms(1)] inner_denotes by (cases rep) fastforce+
qed

lemma reply_keeps:
  assumes "ecs_inv ecs" "denotes buf toks c" "decode_reply c"
  shows "code_keeps ecs (reply_callback ecs p erange buf toks)"
  unfolding reply_callback_def
  apply (rule code_keeps_bind, clarify)
  subgoal premises h for rep out p'
  proof (cases rep)
    case (ReplyResult ts)
    then obtain c' where c': "denotes buf ts c'" "map_of (members c) ''result'' = Some c'"
      using handle_reply_contents [OF assms(2) h] by auto
    then obtain ms w where "c' = CObj ms w" using assms(3) by (cases c') (auto simp: decode_reply_def)
    then show ?thesis using decode_ok_keeps [OF assms(1)] c'(1)
      by (auto simp: ReplyResult assms(1) split: option.split out_req.split)
  next
    case (ReplyError ts)
    then show ?thesis using decode_ng_keeps [OF assms(1)] handle_reply_contents [OF assms(2) h]
      by (auto simp: assms(1) split: option.split out_req.split)
  qed (auto simp: assms(1) split: option.split)
  done

subsection \<open>Runs\<close>

text \<open>
  Each message is handled with random bytes of its own: \<open>randombytes_buf\<close> returns fresh ones at every call. Of the replies those of
  \<open>decode\<close> are taken, whose result, if there is one, is an object.
\<close>

inductive step :: "environment \<Rightarrow> world \<Rightarrow> world \<Rightarrow> bool" for env where
  message: "denotes buf toks c \<Longrightarrow> ld_command_running (env\<lparr>random_bytes := rb\<rparr>) erange now p z buf toks = Some (r, z', p') \<Longrightarrow> step env (z, p) (z', p')"
| reply: "denotes buf toks c \<Longrightarrow> decode_reply c \<Longrightarrow> reply_callback (top_ecs z) p erange buf toks = Some (r, ecs, p') \<Longrightarrow>
    step env (z, p) (z\<lparr>top_ecs := ecs\<rparr>, p')"

inductive reachable :: "environment \<Rightarrow> world \<Rightarrow> bool" for env where
  start: "setup_payz_top = Some z \<Longrightarrow> reachable env (z, p)"
| step: "reachable env w \<Longrightarrow> step env w w' \<Longrightarrow> reachable env w'"

lemma ld_command_read_params:
  assumes "ld_command_read erange buf toks = Some (cmd, params)"
  shows "\<not> usage_only cmd \<and> json_get_member buf toks ''params'' = Some (Some params)"
proof -
  obtain i m ps where "json_get_member buf toks ''id'' = Some i" "json_get_member buf toks ''method'' = Some m"
    "json_get_member buf toks ''params'' = Some ps"
    using assms by (auto simp: ld_command_read_def bind_eq_Some_conv)
  then show ?thesis using assms by (cases m; cases ps) (auto simp: ld_command_read_def bind_eq_Some_conv)
qed

lemma handle_keeps:
  assumes "payz_inv z" "denotes buf toks c" "env_ok env"
  shows "keeps z (ld_command_running env erange now p z buf toks)"
  unfolding ld_command_running_def
proof (rule keeps_bind, clarify)
  fix cmd params assume rd: "ld_command_read erange buf toks = Some (cmd, params)"
  have cmd: "\<not> usage_only cmd" and "json_get_member buf toks ''params'' = Some (Some params)"
    using ld_command_read_params [OF rd] by simp_all
  then obtain c' where c': "denotes buf params c'" using get_member_inner [OF assms(2)] inner_denotes by blast
  show "keeps z (ld_command_dispatch env erange now p z cmd buf params)"
  proof (cases "cmd_id cmd")
    case None
    then show ?thesis using notification_keeps [OF assms(1) c' assms(3)] by (simp add: ld_command_dispatch_def)
  next
    case (Some rid)
    then show ?thesis using run_handler_keeps [OF assms(1) cmd Some c'] by (auto simp: ld_command_dispatch_def split: option.split)
  qed
qed

lemma env_ok_random [simp]: "env_ok (env\<lparr>random_bytes := rb\<rparr>) = env_ok env"
  by (simp add: env_ok_def)

lemma step_keeps:
  assumes "step env (z, p) (z', p')" "env_ok env" "payz_inv z"
  shows "payz_inv z' \<and> code_kept (top_ecs z) (top_ecs z') \<and> default_systems z' = default_systems z"
  using assms(1)
proof (cases rule: step.cases)
  case (message buf toks c rb erange now r)
  then show ?thesis using handle_keeps [OF assms(3) message(1), of "env\<lparr>random_bytes := rb\<rparr>" erange now p] assms(2) by (simp add: keeps_def)
next
  case (reply buf toks c erange r ecs)
  then have "ecs_inv ecs" "same_code (top_ecs z) ecs"
    using reply_keeps [OF payz_inv_ecs [OF assms(3)] reply(2,3), of p erange] by (auto simp: code_keeps_def)
  then show ?thesis using payz_inv_table [OF assms(3)] reply(1) by (auto simp: same_code_kept) (simp add: same_code_def)
qed

lemma reachable_inv:
  assumes "reachable env (z, p)" "env_ok env"
  shows "payz_inv z \<and> builtins_registered (top_ecs z) \<and> default_systems z = map b_name builtin_blocks"
  using assms(1)
proof (induction "(z, p)" arbitrary: z p rule: reachable.induct)
  case (start z p)
  then show ?case using setup_inv by blast
next
  case (step w z' p')
  then show ?case using step_keeps [of env "fst w" "snd w" z' p'] assms(2) builtins_kept by (cases w) auto
qed

end
