(* ===== verification/Requests.thy ===== *)
theory Requests
  imports Plugin_Run
begin

text \<open>
  Requests as lightningd sends them, with their parameters in an object: what \<open>param\<close> reads out of them, and the
  commands on requests instead of on values that were read.
\<close>

subsection \<open>Replies\<close>

text \<open>A command that succeeds with an empty object, and one that is refused with an error.\<close>

definition accepted :: "u64 \<Rightarrow> 'r plugin \<Rightarrow> 'f payz \<Rightarrow> ('f, 'r) handled" where
  "accepted rid p z = Some (COMPLETE, z, p\<lparr>js_arr := js_arr p @ [reply rid (''result'', mk_obj [])]\<rparr>)"

definition rejected :: "u64 \<Rightarrow> 'r plugin \<Rightarrow> 'f payz \<Rightarrow> u32 \<Rightarrow> string \<Rightarrow> ('f, 'r) handled" where
  "rejected rid p z code msg = Some (COMPLETE, z, p\<lparr>js_arr := js_arr p @ [error_reply rid code msg]\<rparr>)"

text \<open>A command that succeeds with the members of its result.\<close>

definition resulted :: "u64 \<Rightarrow> 'r plugin \<Rightarrow> 'f payz \<Rightarrow> (string \<times> cst) list \<Rightarrow> ('f, 'r) handled" where
  "resulted rid p z ms = Some (COMPLETE, z, p\<lparr>js_arr := js_arr p @ [reply rid (''result'', mk_obj ms)]\<rparr>)"

lemma finished_resulted:
  "cmd_id cmd = Some rid \<Longrightarrow> answer z (command_finished p cmd (result_stream rid ms)) = resulted rid p z ms"
  by (simp add: resulted_def answer_def result_stream_def command_finished_reply)

subsection \<open>Parameters by name\<close>

text \<open>A member that the request may leave out, and the strings it gives.\<close>

fun given :: "string \<Rightarrow> cst option \<Rightarrow> (string \<times> cst) list" where
  "given k None = []"
| "given k (Some c) = [(k, c)]"

fun strings_given :: "cst option \<Rightarrow> string list option" where
  "strings_given None = Some []"
| "strings_given (Some c) = strings_of_cst c"

definition strs_given :: "cst option \<Rightarrow> string list \<Rightarrow> pval option" where
  "strs_given x ss = map_option (\<lambda>_. PStrs ss) x"

lemma opt_strs_given: "strings_given x = Some ss \<Longrightarrow> opt_strs (strs_given x ss) = ss"
  by (cases x) (simp_all add: strs_given_def)

lemma reads_str: "c_string s \<Longrightarrow> reads (p_req n (as_value PStr param_string)) buf (CStr s) (PStr s)"
  using denotes_deref [OF inner_denotes] denotes_string [OF inner_denotes]
  by (fastforce simp: reads_def as_value_def param_string_def)

lemma entity_request:
  assumes "\<not> usage_only cmd" "denotes buf ts (mk_obj [(''entity'', CPrim (dec_of_nat (unat e)))])"
  shows "param p cmd buf ts (entity_decls erange) False = Some (Inr [Some (PNum e)])"
  using param_by_name [OF assms(1) assms(2) [unfolded mk_obj_def], of "entity_decls erange" "\<lambda>k c. PNum e" p False]
  by (simp add: reads_num)

lemma empty_request:
  assumes "\<not> usage_only cmd" "denotes buf ts (mk_obj [])"
  shows "param p cmd buf ts ([] :: ('r, pval) param list) False = Some (Inr [])"
  using param_by_name [OF assms(1) assms(2) [unfolded mk_obj_def], of "[] :: ('r, pval) param list" "\<lambda>k c. undefined" p False] by simp

lemma getcomponents_request:
  assumes "\<not> usage_only cmd" "denotes buf ts (mk_obj [(''entity'', CPrim (dec_of_nat (unat e))), (''components'', cc)])"
    and "strings_of_cst cc = Some cns"
  shows "param p cmd buf ts (getcomponents_decls erange) False = Some (Inr [Some (PNum e), Some (PStrs cns)])"
  using param_by_name [OF assms(1) assms(2) [unfolded mk_obj_def], of "getcomponents_decls erange"
      "\<lambda>k c. if k = ''entity'' then PNum e else PStrs cns" p False]
  by (simp add: reads_num reads_strs [OF assms(3)])

lemma newsystem_request:
  assumes "\<not> usage_only cmd" "denotes buf ts (mk_obj ([(''system'', CStr s), (''required'', cr)] @ given ''disallowed'' cd))" "c_string s"
    and "strings_of_cst cr = Some req" "strings_given cd = Some dis"
  shows "param p cmd buf ts newsystem_decls False = Some (Inr [Some (PStr s), Some (PStrs req), strs_given cd dis])"
  using param_by_name [OF assms(1) assms(2) [unfolded mk_obj_def], of newsystem_decls
      "\<lambda>k c. if k = ''system'' then PStr s else if k = ''required'' then PStrs req else PStrs dis" p False] assms(5)
  by (cases cd) (simp_all add: reads_str [OF assms(3)] reads_strs [OF assms(4)] reads_strs strs_given_def)

lemma listentities_request:
  assumes "\<not> usage_only cmd" "denotes buf ts (mk_obj (given ''required'' cr @ given ''disallowed'' cd))"
    and "strings_given cr = Some req" "strings_given cd = Some dis"
  shows "param p cmd buf ts listentities_decls False = Some (Inr [strs_given cr req, strs_given cd dis])"
  using param_by_name [OF assms(1) assms(2) [unfolded mk_obj_def], of listentities_decls
      "\<lambda>k c. if k = ''required'' then PStrs req else PStrs dis" p False] assms(3,4)
  by (cases cr; cases cd) (simp_all add: reads_strs strs_given_def)

lemma setdefault_request:
  assumes "\<not> usage_only cmd"
    and "denotes buf ts (mk_obj [(''entity'', CPrim (dec_of_nat (unat e))), (''prepend'', cp), (''append'', ca)])"
    and "strings_of_cst cp = Some pre" "strings_of_cst ca = Some app"
  shows "param p cmd buf ts (setdefault_decls erange) False = Some (Inr [Some (PNum e), Some (PStrs pre), Some (PStrs app)])"
  using param_by_name [OF assms(1) assms(2) [unfolded mk_obj_def], of "setdefault_decls erange"
      "\<lambda>k c. if k = ''entity'' then PNum e else if k = ''prepend'' then PStrs pre else PStrs app" p False]
  by (simp add: reads_num reads_strs [OF assms(3)] reads_strs [OF assms(4)])


subsection \<open>A payment on the default systems\<close>

lemma block_names_text: "list_all (\<lambda>s. c_string s \<and> list_all unescapable s) (map b_name builtin_blocks)"
  by (simp add: builtin_blocks_def sys_block_def unescapable_def escape_control_def)

lemma fields_members: "ecst.fields (top_ecs z) e ms \<longleftrightarrow> ect.fields (ec_of (top_ecs z)) e ms"
  by (simp add: ecst.fields_def ect.fields_def)

text \<open>The state after \<open>payecs_setdefaultsystems\<close>, and after \<open>payecs_advance\<close> in such a state.\<close>

lemma setdefault_on_default:
  assumes "payz_inv z" "builtins_registered (top_ecs z)" "wf_member (''systems'', mk_arr (map CString (map b_name builtin_blocks)))"
    and "list_all wf_member ms"
    and "table_of z e syscomp = Some (attached (mk_obj (set_field ''systems'' (Some (mk_arr (map CString (map b_name builtin_blocks)))) ms)))"
  shows "on_default z e"
proof -
  let ?arr = "mk_arr (map CString (map b_name builtin_blocks))"
  let ?ms = "set_field ''systems'' (Some ?arr) ms"
  have "wf_cst (mk_obj ?ms)" using assms(3,4) by (intro wf_mk_obj wf_set_field) (auto simp: wf_member_def)
  moreover have "systems_of ?ms = Some (map b_name builtin_blocks)"
    using strings_of_mk_arr [OF block_names_text] by (simp add: systems_of_def map_of_set_field)
  ultimately have "default_fields (table_of z) e ?ms"
    using assms(5) by (auto simp: default_fields_def intro: exI [of _ "mk_obj ?ms"])
  then show ?thesis using assms(1,2) by (auto simp: on_default_def)
qed

lemma advance_on_default:
  assumes "on_default z e" "\<not> usage_only cmd" "cmd_id cmd = Some rid"
    and "denotes buf ts (mk_obj [(''entity'', CPrim (dec_of_nat (unat e)))])"
  shows "\<exists>z' p'. payecs_advance erange p cmd z buf ts = Some (COMPLETE, z', p') \<and>
    table_after (table_of z) (table_of z') e \<and>
    (next_block (has (table_of z) e) \<noteq> None \<longrightarrow> on_default z' e \<and> pending z' e p')"
proof -
  let ?t = "table_of z" and ?ecsys = "ecsys_of (top_ecs z)" and ?h = "payecs_advance erange p cmd z buf ts"
  obtain ms where inv: "payz_inv z" "builtins_registered (top_ecs z)" "default_fields ?t e ms" using assms(1) by (auto simp: on_default_def)
  have sys: "systems_of ms = Some (map b_name builtin_blocks)" using inv(3) by (simp add: default_fields_def)
  have first: "case next_block (has ?t e) of None \<Rightarrow> first_system ?t e ?ecsys (map b_name builtin_blocks) 0 = NoMatch
     | Some b \<Rightarrow> \<exists>j. first_system ?t e ?ecsys (map b_name builtin_blocks) 0 = Matching j (block_reg b)"
    using first_system_blocks [of builtin_blocks ?ecsys ?t e 0] inv(2) by (simp add: builtins_registered_def next_block_def)
  note adv = advance_vals [OF inv(1) assms(3) entity_request [OF assms(2,4), of p erange] default_fields_ec [OF inv(3)]]
  show ?thesis
  proof (cases "next_block (has ?t e)")
    case None
    then have "refused cmd p z e ms PAY_ECS_NOT_ADVANCEABLE msg_no_match ?h" using adv first sys by simp
    then show ?thesis using None by (auto simp: refused_def tab_upd_def table_after_def)
  next
    case (Some b)
    then obtain j where "advanced cmd p z e ms j (block_reg b) ?h" using adv first sys by auto
    then obtain z' vals where h: "?h = Some (COMPLETE, z', p\<lparr>js_arr := js_arr p @
        [message (notify_cst (b_name b) e (zip (b_required b) vals)), reply rid (''result'', mk_obj [])]\<rparr>)" "payz_inv z'"
      and tab: "table_of z' = tab_upd ?t e syscomp (Some (attached (mk_obj (set_field ''current'' (Some (CPrim (dec_of_nat j))) ms))))"
      and vals: "list_all wf_cst vals" "list_all2 (\<lambda>cn v. table_of z' e cn = Some (attached v)) (b_required b) vals"
      using assms(3) by (auto simp: advanced_def block_reg_def)
    have other: "table_after ?t (table_of z') e" by (simp add: tab table_after_def)
    have fields': "default_fields (table_of z') e (set_field ''current'' (Some (CPrim (dec_of_nat j))) ms)"
      unfolding tab by (rule default_fields_upd [OF inv(3)]) (simp_all add: layout_eval del: wf_cst.simps)
    have "builtins_registered (top_ecs z')"
      using codes_advance [of z erange p cmd buf ts] h(1) builtins_registered_same [OF inv(2)] by (simp add: codes_def)
    then have "on_default z' e" using h(2) fields' by (auto simp: on_default_def)
    moreover have "has (table_of z') e = has ?t e"
      using has_after [OF other] inv(3) by (auto simp: default_fields_def)
    then have "pending z' e (p\<lparr>js_arr := js_arr p @
        [message (notify_cst (b_name b) e (zip (b_required b) vals)), reply rid (''result'', mk_obj [])]\<rparr>)"
      using Some vals by (auto simp: pending_def invocation_def intro!: queued_last(2))
    ultimately show ?thesis using h(1) other by auto
  qed
qed


lemma wf_builtin_names: "wf_member (''systems'', mk_arr (map CString (map b_name builtin_blocks)))"
proof -
  have "\<forall>b\<in>set builtin_blocks. wf_cst (CString (b_name b))"
    using block_name_plain plain_text_c_string plain_text_utf8 by simp
  then have "wf_cst (mk_arr (map CString (map b_name builtin_blocks)))" by (intro wf_mk_arr) (auto simp: list_all_iff)
  then show ?thesis by (simp add: wf_member_def str_ok_plain_text plain_text_def)
qed

lemma set_then_advance:
  assumes "payz_inv z" "builtins_registered (top_ecs z)" "default_systems z = map b_name builtin_blocks"
    and "\<not> usage_only cmd" "cmd_id cmd = Some rid"
    and "denotes buf1 ts1 (mk_obj [(''entity'', CPrim (dec_of_nat (unat e))), (''prepend'', mk_arr (map CString [])), (''append'', mk_arr (map CString []))])"
    and "denotes buf2 ts2 (mk_obj [(''entity'', CPrim (dec_of_nat (unat e)))])"
  obtains z1 p1 z2 p2 where "payecs_setdefaultsystems erange p cmd z buf1 ts1 = accepted rid p z1"
    "accepted rid p z1 = Some (COMPLETE, z1, p1)" "payecs_advance erange p1 cmd z1 buf2 ts2 = Some (COMPLETE, z2, p2)"
    "table_after (table_of z) (table_of z1) e" "table_after (table_of z1) (table_of z2) e"
    "next_block (has (table_of z1) e) \<noteq> None \<Longrightarrow> on_default z2 e \<and> pending z2 e p2"
proof -
  obtain ms where ms: "ecst.fields (top_ecs z) e ms" using ecst.fields_exists [of "top_ecs z" e] assms(1) by auto
  let ?arr = "mk_arr (map CString (map b_name builtin_blocks))"
  let ?t = "tab_upd (table_of z) e syscomp (Some (attached (mk_obj (set_field ''systems'' (Some ?arr) ms))))"
  have none: "strings_of_cst (mk_arr (map CString [])) = Some []" by (rule strings_of_mk_arr) simp
  obtain z1 where z1: "payecs_setdefaultsystems erange p cmd z buf1 ts1 = accepted rid p z1" "payz_inv z1" "table_of z1 = ?t"
    using setdefaultsystems_vals [OF assms(1,5) ms setdefault_request [OF assms(4,6) none none, of p erange]]
    by (auto simp: accepted_def assms(3))
  have "keeps z (accepted rid p z1)" using keeps_setdefaultsystems [OF assms(1,4,5,6), of erange p] z1(1) by simp
  then have "builtins_registered (top_ecs z1)" using builtins_kept [OF assms(2)] by (simp add: keeps_def accepted_def)
  moreover have "list_all wf_member ms" using ms wf_members unfolding ecst.fields_def by (auto split: option.splits)
  ultimately have def: "on_default z1 e"
    using z1(2,3) by (intro setdefault_on_default [where ms = ms]) (auto simp del: map_map intro: wf_builtin_names)
  let ?p1 = "p\<lparr>js_arr := js_arr p @ [reply rid (''result'', mk_obj [])]\<rparr>"
  obtain z2 p2 where z2: "payecs_advance erange ?p1 cmd z1 buf2 ts2 = Some (COMPLETE, z2, p2)"
    "table_after (table_of z1) (table_of z2) e"
    "next_block (has (table_of z1) e) \<noteq> None \<longrightarrow> on_default z2 e \<and> pending z2 e p2"
    using advance_on_default [OF def assms(4,5,7), of erange ?p1] by blast
  show ?thesis
    by (rule that [OF z1(1) _ z2(1)]) (use z1(3) z2 in \<open>auto simp: accepted_def table_after_def\<close>)
qed

text \<open>A request in the envelope of JSON-RPC is read into the command it names and its parameters.\<close>

lemma ld_command_read_request:
  assumes "denotes buf toks (mk_obj ms)" "map_of ms ''id'' = Some (CPrim (dec_of_nat n))" "n < ULLONG_MAX"
    and "map_of ms ''method'' = Some (CStr name)" "map_of ms ''params'' = Some c"
  shows "\<exists>params. inner buf params c \<and> ld_command_read erange buf toks =
    Some (\<lparr>cmd_id = Some (of_nat n), methodname = name, usage_only = False\<rparr>, params)"
proof -
  note get = json_get_member_mk_obj [OF assms(1)]
  obtain it where it: "json_get_member buf toks ''id'' = Some (Some it)" "inner buf it (CPrim (dec_of_nat n))"
    using get [of "''id''"] assms(2) by auto
  then obtain t ts where t: "it = t # ts" using denotes_deref inner_denotes by blast
  have "json_to_u64 erange buf t = Some (Some (of_nat n))" using json_to_u64_dec it(2) assms(3) unfolding t by blast
  moreover obtain mt where mt: "json_get_member buf toks ''method'' = Some (Some mt)" "inner buf mt (CStr name)"
    using get [of "''method''"] assms(4) by auto
  moreover have "c_string name" using mt(2) str_ok_c_string by (simp add: inner_def)
  then obtain u us where "mt = u # us" "json_strdup buf u = Some name"
    using denotes_string_text [OF inner_denotes [OF mt(2)]] by blast
  moreover obtain params where "json_get_member buf toks ''params'' = Some (Some params)" "inner buf params c"
    using get [of "''params''"] assms(5) by auto
  ultimately show ?thesis using it(1) by (auto simp: ld_command_read_def t)
qed

lemma handle_request:
  assumes "denotes buf toks (mk_obj ms)" "map_of ms ''id'' = Some (CPrim (dec_of_nat n))" "n < ULLONG_MAX"
    and "map_of ms ''method'' = Some (CStr name)" "map_of ms ''params'' = Some c"
    and "find_command name = Some h"
  shows "\<exists>params. inner buf params c \<and> ld_command_running env erange now p z buf toks =
    run_handler erange h p \<lparr>cmd_id = Some (of_nat n), methodname = name, usage_only = False\<rparr> z buf params"
  using ld_command_read_request [OF assms(1-5), of erange] assms(6)
  by (auto simp: ld_command_running_def ld_command_dispatch_def)


subsection \<open>The reply to a request for \<open>decode\<close>\<close>

lemma reply_decode_spec:
  assumes "ecs_inv ecs" "denotes buf toks (mk_obj rs)" "map_of rs ''id'' = Some (CPrim (dec_of_nat n))" "n < ULLONG_MAX"
    and "intmap_get (out_reqs p) (of_nat n) = Some (PARSE_INVOICE_DECODE e)"
  shows "case (map_of rs ''error'', map_of rs ''result'') of
     (Some err, _) \<Rightarrow> \<exists>ecs2. reply_callback ecs p erange buf toks = Some (COMPLETE, ecs2, answered p n) \<and> ecs_inv ecs2 \<and>
       ec_table (ec_of ecs2) = tab_upd (tab_upd (ec_table (ec_of ecs)) e ''lightningd:error'' (value_of err)) e syscomp None
   | (None, Some res) \<Rightarrow> (\<forall>fs. res = mk_obj fs \<longrightarrow> (\<exists>ecs2. reply_callback ecs p erange buf toks = ecs_advance_done (answered p n) ecs2 e \<and>
       ecs_inv ecs2 \<and> ec_table (ec_of ecs2) = invoice_fields e fs (ec_table (ec_of ecs))))
   | (None, None) \<Rightarrow> reply_callback ecs p erange buf toks = None"
proof (cases "map_of rs ''error''")
  case (Some err)
  then obtain ts where ts: "inner buf ts err" "handle_rpc_reply p erange buf toks = Some (ReplyError ts, Some (PARSE_INVOICE_DECODE e), answered p n)"
    using rpc_reply_spec [OF assms(2-5), of erange] by auto
  from decode_ng_spec [OF inner_denotes [OF ts(1)] assms(1)] show ?thesis by (auto simp: Some reply_callback_def ts(2))
next
  case None
  show ?thesis
  proof (cases "map_of rs ''result''")
    case (Some res)
    obtain ts where ts: "inner buf ts res" "handle_rpc_reply p erange buf toks = Some (ReplyResult ts, Some (PARSE_INVOICE_DECODE e), answered p n)"
      using rpc_reply_spec [OF assms(2-5), of erange] None Some by auto
    have "\<exists>ecs2. reply_callback ecs p erange buf toks = ecs_advance_done (answered p n) ecs2 e \<and>
       ecs_inv ecs2 \<and> ec_table (ec_of ecs2) = invoice_fields e fs (ec_table (ec_of ecs))" if "res = mk_obj fs" for fs
      using decode_ok_spec [OF inner_denotes [OF ts(1) [unfolded that]] assms(1), of e "answered p n"] by (auto simp: reply_callback_def ts(2))
    then show ?thesis by (simp add: None Some)
  next
    case None': None
    then show ?thesis using rpc_reply_spec [OF assms(2-5), of erange] None by (simp add: reply_callback_def)
  qed
qed

end
