(* ===== verification/Framing.thy ===== *)
theory Framing
  imports Json_Equal
begin

text \<open>
  Reading a stream of JSON texts in pieces, as \<open>ld_read_json\<close> and \<open>rpc_conn_read_response\<close> of \<open>plugins/libplugin.c\<close> do: the bytes that
  arrived are kept in a buffer, \<open>json_parse_input\<close> goes on where it stopped, and a text that is complete is handled
  and moved out of the buffer. The theory shows that the texts are handled one by one and in order
  however the stream is cut into pieces, unless a cut is inside a primitive.
\<close>

subsection \<open>One turn of the parser\<close>

definition jsmn_turn :: "nat \<Rightarrow> nat \<Rightarrow> char \<Rightarrow> string \<Rightarrow> int \<Rightarrow> jsmntok list \<Rightarrow> jsmn_ret + nat \<times> int \<times> jsmntok list" where
  "jsmn_turn num pos c cs super toks =
     (let alloc = (\<lambda>t k s. if num \<le> length toks then Inl JSMN_ERROR_NOMEM else Inr (k, s, bump super (toks @ [t]))) in
      if c = NUL then Inl (if find_open toks (length toks) \<noteq> None then JSMN_ERROR_PART else JCount (length toks))
      else if c = CHR ''{'' \<or> c = CHR ''['' then
        alloc \<lparr>tok_type = (if c = CHR ''{'' then JSMN_OBJECT else JSMN_ARRAY), tok_start = int pos, tok_end = -1, tok_size = 0\<rparr>
          1 (int (length toks))
      else if c = CHR ''}'' \<or> c = CHR '']'' then
        (case find_open toks (length toks) of
           None \<Rightarrow> Inl JSMN_ERROR_INVAL
         | Some i \<Rightarrow>
             if tok_type (toks ! i) \<noteq> (if c = CHR ''}'' then JSMN_OBJECT else JSMN_ARRAY) then Inl JSMN_ERROR_INVAL
             else (let toks' = toks[i := (toks ! i)\<lparr>tok_end := int pos + 1\<rparr>]
                   in Inr (1, super_of (find_open toks' (Suc i)), toks')))
      else if c = QUOTE then
        (case scan_string cs of
           Inl e \<Rightarrow> Inl e
         | Inr n \<Rightarrow> alloc (jsmn_fill_token JSMN_STRING (int pos + 1) (int pos + 1 + int n)) (n + 2) super)
      else if c = TAB \<or> c = CR \<or> c = LF \<or> c = SPACE then Inr (1, super, toks)
      else if c = CHR '':'' then Inr (1, int (length toks) - 1, toks)
      else if c = CHR '','' then
        Inr (1, (if super \<noteq> -1 \<and> tok_type (toks ! nat super) \<noteq> JSMN_ARRAY \<and> tok_type (toks ! nat super) \<noteq> JSMN_OBJECT
           then (case find_open_container toks (length toks) of None \<Rightarrow> super | Some i \<Rightarrow> int i) else super), toks)
      else (case scan_primitive (c # cs) of
           None \<Rightarrow> Inl JSMN_ERROR_INVAL
         | Some n \<Rightarrow> alloc (jsmn_fill_token JSMN_PRIMITIVE (int pos) (int pos + int n)) n super))"

lemma jsmn_loop_turn:
  "jsmn_loop num p (c # cs) s T (length T) = (case jsmn_turn num p c cs s T of
     Inl e \<Rightarrow> (e, \<lparr>jpos = p, toksuper = s\<rparr>, T)
   | Inr (k, s', T') \<Rightarrow> jsmn_loop num (p + k) (drop k (c # cs)) s' T' (length T'))"
  by (simp add: jsmn_loop.simps(2) jsmn_turn_def jsmn_alloc_token_def Let_def split: option.split sum.split)

text \<open>A turn keeps the tokens it has handed out, apart from the size of the superior token and the end of the one it closes.\<close>

definition tok_kept :: "jsmntok \<Rightarrow> jsmntok \<Rightarrow> bool" where
  "tok_kept t t' \<longleftrightarrow> tok_type t' = tok_type t \<and> tok_start t' = tok_start t \<and> (tok_end t \<noteq> -1 \<longrightarrow> tok_end t' = tok_end t) \<and>
     tok_size t \<le> tok_size t'"

definition toks_kept :: "jsmntok list \<Rightarrow> jsmntok list \<Rightarrow> bool" where
  "toks_kept T T' \<longleftrightarrow> length T \<le> length T' \<and> (\<forall>i<length T. tok_kept (T ! i) (T' ! i))"

definition ends_by :: "nat \<Rightarrow> jsmntok list \<Rightarrow> bool" where
  "ends_by p T \<longleftrightarrow> (\<forall>t\<in>set T. tok_end t \<le> int p)"

lemma toks_kept_refl [simp]: "toks_kept T T"
  by (simp add: toks_kept_def tok_kept_def)

lemma toks_kept_trans: "toks_kept T U \<Longrightarrow> toks_kept U V \<Longrightarrow> toks_kept T V"
  unfolding toks_kept_def tok_kept_def by (metis (no_types, lifting) order_less_le_trans order_trans)

lemma ends_by_mono: "ends_by p T \<Longrightarrow> p \<le> q \<Longrightarrow> ends_by q T"
  by (force simp: ends_by_def)

lemma find_open_Some: "find_open T n = Some i \<Longrightarrow> i < n \<and> tok_open (T ! i)"
  by (induction n) (auto split: if_splits)

lemma bump_kept: "toks_kept T (bump s (T @ [t]))"
  by (auto simp: toks_kept_def tok_kept_def bump_def nth_append nth_list_update)

lemma bump_ends: "ends_by p T \<Longrightarrow> tok_end t \<le> int p \<Longrightarrow> ends_by p (bump s (T @ [t]))"
proof -
  assume *: "ends_by p T" "tok_end t \<le> int p"
  have "ends_by p (U[i := (U ! i)\<lparr>tok_size := n\<rparr>])" if "ends_by p U" for U i n
    using that by (cases "i < length U") (auto simp: ends_by_def list_update_beyond dest!: set_update_subset_insert [THEN subsetD])
  moreover have "ends_by p (T @ [t])" using * by (simp add: ends_by_def)
  ultimately show ?thesis by (simp add: bump_def)
qed

lemma close_kept:
  assumes "find_open T (length T) = Some i" "ends_by p T"
  shows "toks_kept T (T[i := (T ! i)\<lparr>tok_end := int p + 1\<rparr>])" "ends_by (p + 1) (T[i := (T ! i)\<lparr>tok_end := int p + 1\<rparr>])"
proof -
  have i: "i < length T" "tok_end (T ! i) = -1" using find_open_Some [OF assms(1)] by (simp_all add: tok_open_def)
  then show "toks_kept T (T[i := (T ! i)\<lparr>tok_end := int p + 1\<rparr>])"
    by (simp add: toks_kept_def tok_kept_def nth_list_update)
  have "set (T[i := (T ! i)\<lparr>tok_end := int p + 1\<rparr>]) \<subseteq> insert ((T ! i)\<lparr>tok_end := int p + 1\<rparr>) (set T)"
    by (rule set_update_subset_insert)
  then show "ends_by (p + 1) (T[i := (T ! i)\<lparr>tok_end := int p + 1\<rparr>])"
    using assms(2) by (force simp: ends_by_def)
qed

definition other_char :: "char \<Rightarrow> bool" where
  "other_char c \<longleftrightarrow> c \<noteq> NUL \<and> c \<noteq> CHR ''{'' \<and> c \<noteq> CHR ''['' \<and> c \<noteq> QUOTE \<and> \<not> primitive_stop c"

lemma turn_cases:
  obtains "c = NUL" | "c = CHR ''{'' \<or> c = CHR ''[''" | "c = CHR ''}'' \<or> c = CHR '']''" | "c = QUOTE"
  | "c \<in> {TAB, CR, LF, SPACE, CHR '':'', CHR '',''}" | "other_char c"
  unfolding insert_iff empty_iff other_char_def primitive_stop_def by argo

lemma turn_other:
  assumes "other_char c"
  shows "jsmn_turn num p c cs s T = (case scan_primitive (c # cs) of
      None \<Rightarrow> Inl JSMN_ERROR_INVAL
    | Some n \<Rightarrow> if num \<le> length T then Inl JSMN_ERROR_NOMEM
        else Inr (n, s, bump s (T @ [jsmn_fill_token JSMN_PRIMITIVE (int p) (int p + int n)])))"
proof -
  have "c \<notin> {NUL, CHR ''{'', CHR ''['', CHR ''}'', CHR '']'', QUOTE, TAB, CR, LF, SPACE, CHR '':'', CHR '',''}"
    using assms by (simp add: other_char_def primitive_stop_def)
  then show ?thesis by (simp add: jsmn_turn_def del: scan_primitive.simps)
qed

lemma turn_quote:
  "jsmn_turn num p QUOTE cs s T = (case scan_string cs of
      Inl e \<Rightarrow> Inl e
    | Inr n \<Rightarrow> if num \<le> length T then Inl JSMN_ERROR_NOMEM
        else Inr (n + 2, s, bump s (T @ [jsmn_fill_token JSMN_STRING (int p + 1) (int p + 1 + int n)])))"
  by (simp add: jsmn_turn_def)

lemma turnE:
  assumes "jsmn_turn num p c cs s T = Inr (k, s', T')"
  obtains (alloc) t where "T' = bump s (T @ [t])" "tok_end t \<le> int (p + k)" "0 < k" "k \<le> length (c # cs)"
  | (close) i where "find_open T (length T) = Some i" "k = 1" "T' = T[i := (T ! i)\<lparr>tok_end := int p + 1\<rparr>]"
  | (move) "k = 1" "T' = T"
proof (cases c rule: turn_cases)
  case 1
  then show ?thesis using assms by (simp add: jsmn_turn_def)
next
  case 2
  then show ?thesis using assms alloc by (auto simp: jsmn_turn_def Let_def split: if_splits)
next
  case 3
  then obtain i where "find_open T (length T) = Some i" "k = 1" "T' = T[i := (T ! i)\<lparr>tok_end := int p + 1\<rparr>]"
    using assms by (elim disjE) (simp_all add: jsmn_turn_def Let_def split: if_splits option.splits)
  then show ?thesis by (rule close)
next
  case 4
  then obtain n where n: "scan_string cs = Inr n" "T' = bump s (T @ [jsmn_fill_token JSMN_STRING (int p + 1) (int p + 1 + int n)])" "k = n + 2"
    using assms by (auto simp: turn_quote split: if_splits sum.splits)
  then show ?thesis using scan_string_le [OF n(1)] by (intro alloc [OF n(2)]) (simp_all add: jsmn_fill_token_def)
next
  case 5
  then have "k = 1" "T' = T" using assms by (elim insertE emptyE; simp add: jsmn_turn_def)+
  then show ?thesis by (rule move)
next
  case 6
  show ?thesis
  proof (cases "scan_primitive (c # cs)")
    case None
    then show ?thesis using assms turn_other [OF 6, of num p cs s T] by (simp del: scan_primitive.simps)
  next
    case (Some n)
    let ?t = "jsmn_fill_token JSMN_PRIMITIVE (int p) (int p + int n)"
    have "jsmn_turn num p c cs s T = (if num \<le> length T then Inl JSMN_ERROR_NOMEM else Inr (n, s, bump s (T @ [?t])))"
      using turn_other [OF 6, of num p cs s T] Some by (simp del: scan_primitive.simps)
    then have "k = n" "T' = bump s (T @ [?t])" using assms by (auto split: if_splits)
    then show ?thesis using 6 scan_primitive_le [OF Some] scan_primitive_pos [OF Some]
      by (intro alloc [of ?t]) (simp_all add: jsmn_fill_token_def other_char_def del: scan_primitive.simps)
  qed
qed

lemma turn_kept:
  assumes "jsmn_turn num p c cs s T = Inr (k, s', T')" "ends_by p T"
  shows "toks_kept T T'" "ends_by (p + k) T'" "0 < k" "k \<le> length (c # cs)"
proof -
  have "toks_kept T T' \<and> ends_by (p + k) T' \<and> 0 < k \<and> k \<le> length (c # cs)"
    using assms(1)
  proof (cases rule: turnE)
    case (alloc t)
    then show ?thesis using bump_kept bump_ends [of "p + k" T t s] ends_by_mono [OF assms(2), of "p + k"] by simp
  next
    case (close i)
    then show ?thesis using close_kept [OF close(1) assms(2)] by simp
  next
    case move
    then show ?thesis using ends_by_mono [OF assms(2), of "p + 1"] by simp
  qed
  then show "toks_kept T T'" "ends_by (p + k) T'" "0 < k" "k \<le> length (c # cs)" by simp_all
qed

subsection \<open>More text\<close>

text \<open>What the scanners say about a text they say about every longer text, unless they came to its end.\<close>

lemma scan_hex_extend:
  "scan_hex n cs = None \<Longrightarrow> scan_hex n (cs @ r) = None"
  "scan_hex n cs = Some n \<Longrightarrow> scan_hex n (cs @ r) = Some n"
  by (induction n cs rule: scan_hex.induct) (auto split: if_splits)

lemma scan_hex_short: "scan_hex n cs = Some k \<Longrightarrow> k = n \<or> drop k cs = [] \<or> (\<exists>ds. drop k cs = NUL # ds)"
  by (induction n cs arbitrary: k rule: scan_hex.induct) (auto split: if_splits)

lemma scan_shift_part [simp]: "scan_shift k x = Inl JSMN_ERROR_PART \<longleftrightarrow> x = Inl JSMN_ERROR_PART"
  by (auto simp: scan_shift_def split: sum.split)

lemma scan_string_extend: "scan_string cs \<noteq> Inl JSMN_ERROR_PART \<Longrightarrow> scan_string (cs @ r) = scan_string cs"
proof (induction cs rule: scan_string.induct)
  case (2 c cs)
  consider "c = NUL" | "c \<noteq> NUL" "c = QUOTE" | "c \<noteq> NUL" "c \<noteq> QUOTE" "\<not> (c = BACKSLASH \<and> cs \<noteq> [])"
    | d ds where "c = BACKSLASH" "cs = d # ds" by (cases cs) auto
  then show ?case
  proof cases
    case 3
    then have "cs = [] \<Longrightarrow> False" using 2(4) by (auto simp: scan_string.simps)
    then show ?thesis using 2 3 by (auto simp: scan_string.simps(2))
  next
    case 4
    show ?thesis
    proof (cases "simple_escape d \<or> d \<noteq> CHR ''u''")
      case True
      then show ?thesis using 2 4 by (auto simp: scan_string.simps(2))
    next
      case False
      have u: "\<not> simple_escape (CHR ''u'')" by (simp add: simple_escape_def)
      show ?thesis
      proof (cases "scan_hex 4 ds")
        case None
        then show ?thesis using 4 False u scan_hex_extend(1) [OF None] by (simp add: scan_string.simps(2))
      next
        case (Some k)
        have part: "scan_string (drop k ds) \<noteq> Inl JSMN_ERROR_PART" using 2(4) 4 False u Some by (simp add: scan_string.simps(2))
        then have "k = 4" using scan_hex_short [OF Some] by (auto simp: scan_string.simps)
        then have "scan_hex 4 (ds @ r) = Some 4" "k \<le> length ds" using scan_hex_extend(2) scan_hex_le Some by auto
        then show ?thesis using 2(2) 4 False u Some part \<open>k = 4\<close> by (simp add: scan_string.simps(2))
      qed
    qed
  qed (simp_all add: scan_string.simps(2))
qed (simp add: scan_string.simps)

lemma scan_primitive_extend:
  "scan_primitive cs = None \<Longrightarrow> scan_primitive (cs @ r) = None"
  "scan_primitive cs = Some n \<Longrightarrow> n < length cs \<or> stops r \<Longrightarrow> scan_primitive (cs @ r) = Some n"
  "scan_primitive cs = Some (length cs) \<Longrightarrow> \<not> stops r \<Longrightarrow> scan_primitive (cs @ r) = Some m \<Longrightarrow> length cs < m"
proof -
  show "scan_primitive cs = None \<Longrightarrow> scan_primitive (cs @ r) = None" by (induction cs) (auto split: if_splits)
  show "scan_primitive cs = Some n \<Longrightarrow> n < length cs \<or> stops r \<Longrightarrow> scan_primitive (cs @ r) = Some n"
    by (induction cs arbitrary: n) (auto simp: scan_primitive_stop split: if_splits)
  show "scan_primitive cs = Some (length cs) \<Longrightarrow> \<not> stops r \<Longrightarrow> scan_primitive (cs @ r) = Some m \<Longrightarrow> length cs < m"
    by (induction cs arbitrary: m) (cases r, auto simp: stops_def split: if_splits)
qed

text \<open>
  The same for a turn: on a longer text it does the same, unless the text ends inside a string (the turn
  is then repeated with more text) or the piece of a primitive was taken for the whole of it.
\<close>

definition cuts_primitive :: "nat \<Rightarrow> jsmntok \<Rightarrow> bool" where
  "cuts_primitive q t \<longleftrightarrow> tok_type t = JSMN_PRIMITIVE \<and> tok_start t < int q \<and> int q < tok_end t"

lemma turn_same: "\<not> other_char c \<Longrightarrow> c \<noteq> QUOTE \<Longrightarrow> jsmn_turn num p c cs s T = jsmn_turn num p c cs' s T"
  by (cases c rule: turn_cases) (auto simp: jsmn_turn_def Let_def split: option.split)

lemma last_bump: "tok_type (last (bump s (T @ [t]))) = tok_type t" "tok_start (last (bump s (T @ [t]))) = tok_start t"
  "tok_end (last (bump s (T @ [t]))) = tok_end t"
  by (cases "nat s = length T"; simp add: bump_def last_conv_nth)+

lemma turn_extend:
  assumes "c \<noteq> NUL" "length T < num"
  shows "case jsmn_turn num p c cs s T of
      Inl e \<Rightarrow> e = JSMN_ERROR_PART \<or> jsmn_turn num p c (cs @ r) s T = Inl e
    | Inr x \<Rightarrow> jsmn_turn num p c (cs @ r) s T = Inr x \<or> jsmn_turn num p c (cs @ r) s T = Inl JSMN_ERROR_INVAL \<or>
        (\<exists>k s' T'. jsmn_turn num p c (cs @ r) s T = Inr (k, s', T') \<and> T' \<noteq> [] \<and> cuts_primitive (p + length (c # cs)) (last T'))"
proof (cases "other_char c")
  case True
  note turn = turn_other [OF True, of num p _ s T]
  have T: "\<not> num \<le> length T" using assms(2) by simp
  show ?thesis
  proof (cases "scan_primitive (c # cs)")
    case None
    then show ?thesis using scan_primitive_extend(1) [OF None, of r] turn by (simp del: scan_primitive.simps)
  next
    case (Some n)
    show ?thesis
    proof (cases "n < length (c # cs) \<or> stops r")
      case True
      then show ?thesis using scan_primitive_extend(2) [OF Some True] Some turn by (simp del: scan_primitive.simps)
    next
      case False
      then have n: "n = length (c # cs)" using scan_primitive_le [OF Some] by simp
      show ?thesis
      proof (cases "scan_primitive ((c # cs) @ r)")
        case None
        then show ?thesis using Some T turn by (simp del: scan_primitive.simps)
      next
        case m: (Some m)
        then have "length (c # cs) < m" using scan_primitive_extend(3) [of "c # cs" r m] Some False n by simp
        then show ?thesis using Some m T turn last_bump
          by (simp add: cuts_primitive_def jsmn_fill_token_def flip: length_greater_0_conv del: scan_primitive.simps)
      qed
    qed
  qed
next
  case False
  show ?thesis
  proof (cases "c = QUOTE")
    case True
    then show ?thesis
      by (cases "scan_string cs = Inl JSMN_ERROR_PART") (simp_all add: turn_quote scan_string_extend split: sum.split)
  next
    case False
    then show ?thesis using turn_same [OF \<open>\<not> other_char c\<close> False, of num p cs s T "cs @ r"] by (auto split: sum.split)
  qed
qed

lemma loop_turn_Inr:
  "jsmn_turn num p c cs s T = Inr (k, s', T') \<Longrightarrow>
   jsmn_loop num p (c # cs) s T (length T) = jsmn_loop num (p + k) (drop k (c # cs)) s' T' (length T')"
  by (simp add: jsmn_loop_turn)

lemma loop_kept:
  assumes "jsmn_loop num p r s T (length T) = (ret, P, T')" "ends_by p T"
  shows "toks_kept T T' \<and> ends_by (jpos P) T' \<and> p \<le> jpos P \<and> jpos P \<le> p + length r"
  using assms
proof (induction r arbitrary: p s T rule: length_induct)
  case (1 r)
  show ?case
  proof (cases r)
    case Nil
    then show ?thesis using 1(2,3) by auto
  next
    case (Cons c cs)
    show ?thesis
    proof (cases "jsmn_turn num p c cs s T")
      case (Inl e)
      then show ?thesis using 1(2,3) by (auto simp: Cons jsmn_loop_turn)
    next
      case (Inr x)
      obtain k s' U where x: "x = (k, s', U)" by (cases x)
      note turn = Inr [unfolded x]
      note kept = turn_kept [OF turn 1(3)]
      have "length (drop k r) < length r" using kept(3,4) Cons by simp
      moreover have "jsmn_loop num (p + k) (drop k r) s' U (length U) = (ret, P, T')" using 1(2) loop_turn_Inr [OF turn] Cons by simp
      ultimately have "toks_kept U T' \<and> ends_by (jpos P) T' \<and> p + k \<le> jpos P \<and> jpos P \<le> p + k + length (drop k r)"
        using 1(1) kept(2) by blast
      then show ?thesis using toks_kept_trans [OF kept(1)] kept(4) Cons by auto
    qed
  qed
qed

lemma turn_length: "jsmn_turn num p c cs s T = Inr (k, s', T') \<Longrightarrow> length T' \<le> Suc (length T)"
  by (erule turnE) simp_all

lemma kept_cut:
  assumes "toks_kept U T" "U \<noteq> []" "cuts_primitive q (last U)"
  shows "\<exists>t\<in>set T. cuts_primitive q t"
proof -
  have "length U - 1 < length U" "last U = U ! (length U - 1)" using assms(2) by (simp_all add: last_conv_nth)
  then have "tok_kept (last U) (T ! (length U - 1))" "length U - 1 < length T" using assms(1) by (auto simp: toks_kept_def)
  then show ?thesis using assms(3) by (auto simp: cuts_primitive_def tok_kept_def intro!: bexI [OF _ nth_mem])
qed

lemma loop_split:
  assumes "jsmn_loop num p r1 s T (length T) = (ret, P, T')" "NUL \<notin> set r1" "length T + length r1 < num" "ends_by p T"
    and "jsmn_loop num p (r1 @ r2) s T (length T) = (ret2, P2, T2)" "ret2 \<noteq> JSMN_ERROR_INVAL"
    and "\<forall>t\<in>set T2. \<not> cuts_primitive (p + length r1) t"
  shows "ret \<noteq> JSMN_ERROR_INVAL \<and> jsmn_loop num p (r1 @ r2) s T (length T) =
    jsmn_loop num (jpos P) (drop (jpos P - p) (r1 @ r2)) (toksuper P) T' (length T')"
  using assms
proof (induction r1 arbitrary: p s T rule: length_induct)
  case (1 r1)
  show ?case
  proof (cases r1)
    case Nil
    then show ?thesis using 1(2) by (auto split: if_splits)
  next
    case (Cons c cs)
    have c: "c \<noteq> NUL" "length T < num" using 1(3,4) by (auto simp: Cons)
    note ext = turn_extend [OF c, of p cs r2 s]
    show ?thesis
    proof (cases "jsmn_turn num p c cs s T")
      case (Inl e)
      then have e: "ret = e" "P = \<lparr>jpos = p, toksuper = s\<rparr>" "T' = T" using 1(2) by (auto simp: Cons jsmn_loop_turn)
      have "e \<noteq> JSMN_ERROR_INVAL" using ext Inl 1(6,7) by (auto simp: Cons jsmn_loop_turn)
      then show ?thesis by (simp add: e)
    next
      case (Inr x)
      obtain k s' U where x: "x = (k, s', U)" by (cases x)
      note turn = Inr [unfolded x]
      note kept = turn_kept [OF turn 1(5)]
      have cut: "False" if t: "jsmn_turn num p c (cs @ r2) s T = Inr (k2, s2, U2)" "U2 \<noteq> []" "cuts_primitive (p + length r1) (last U2)" for k2 s2 U2
      proof -
        have "jsmn_loop num (p + k2) (drop k2 (c # cs @ r2)) s2 U2 (length U2) = (ret2, P2, T2)"
          using loop_turn_Inr [OF t(1)] 1(6) Cons by simp
        from loop_kept [OF this turn_kept(2) [OF t(1) 1(5)]] have "toks_kept U2 T2" by blast
        then show False using kept_cut t(2,3) 1(8) by blast
      qed
      then have same: "jsmn_turn num p c (cs @ r2) s T = Inr (k, s', U)"
        using ext turn 1(6,7) by (auto simp: Cons jsmn_loop_turn)
      have "drop k (r1 @ r2) = drop k r1 @ r2" using kept(4) Cons by (simp only: drop_append) simp
      then have full: "jsmn_loop num p (r1 @ r2) s T (length T) = jsmn_loop num (p + k) (drop k r1 @ r2) s' U (length U)"
        using loop_turn_Inr [OF same] Cons by simp
      have less: "length (drop k r1) < length r1" "length U + length (drop k r1) < num" "NUL \<notin> set (drop k r1)"
        using kept(3,4) Cons turn_length [OF turn] 1(3,4) by (auto dest: in_set_dropD)
      have end_eq: "p + k + length (drop k r1) = p + length r1" using kept(4) Cons by simp
      have loop: "jsmn_loop num (p + k) (drop k r1) s' U (length U) = (ret, P, T')"
        using 1(2) loop_turn_Inr [OF turn] Cons by simp
      have "ret \<noteq> JSMN_ERROR_INVAL \<and> jsmn_loop num (p + k) (drop k r1 @ r2) s' U (length U) =
          jsmn_loop num (jpos P) (drop (jpos P - (p + k)) (drop k r1 @ r2)) (toksuper P) T' (length T')"
        by (rule 1(1) [rule_format, OF less(1) loop less(3,2) kept(2)]) (use 1(6-8) full end_eq in auto)
      moreover have "drop (jpos P - (p + k)) (drop k r1 @ r2) = drop (jpos P - p) (r1 @ r2)"
      proof -
        have "jpos P - p = (jpos P - (p + k)) + k" using loop_kept [OF loop kept(2)] by simp
        then show ?thesis unfolding \<open>drop k (r1 @ r2) = drop k r1 @ r2\<close> [symmetric] drop_drop by simp
      qed
      ultimately show ?thesis using full by simp
    qed
  qed
qed

subsection \<open>Streams of texts\<close>

text \<open>A stream: arrays and objects, each followed by white space.\<close>

fun stream_text :: "(cst \<times> string) list \<Rightarrow> string" where
  "stream_text [] = []"
| "stream_text ((c, w) # ms) = text_of c @ w @ stream_text ms"

fun stream_toks :: "int \<Rightarrow> (cst \<times> string) list \<Rightarrow> jsmntok list" where
  "stream_toks p [] = []"
| "stream_toks p ((c, w) # ms) = toks_of p c @ stream_toks (p + int (length (text_of c)) + int (length w)) ms"

definition stream_ok :: "(cst \<times> string) list \<Rightarrow> bool" where
  "stream_ok = list_all (\<lambda>(c, w). wf_cst c \<and> is_container c \<and> ws_ok w \<and> w \<noteq> [])"

lemma stream_ok_simps [simp]:
  "stream_ok []" "stream_ok ((c, w) # ms) \<longleftrightarrow> wf_cst c \<and> is_container c \<and> ws_ok w \<and> w \<noteq> [] \<and> stream_ok ms"
  by (simp_all add: stream_ok_def)

lemma stops_ws: "ws_ok w \<Longrightarrow> w \<noteq> [] \<Longrightarrow> stops (w @ r)"
  by (cases w) (auto simp: ws_ok_def stops_def primitive_stop_def)

lemma last_open_none: "\<forall>t\<in>set T. \<not> tok_open t \<Longrightarrow> last_open T = None"
  using last_open_closed [of T "[]"] by simp

lemma loop_stream:
  assumes "stream_ok ms" "\<forall>t\<in>set T. \<not> tok_open t" "length T + length (stream_text ms) < num"
  shows "jsmn_loop num p (stream_text ms) (-1) T (length T) =
    (JCount (length (T @ stream_toks (int p) ms)), \<lparr>jpos = p + length (stream_text ms), toksuper = -1\<rparr>, T @ stream_toks (int p) ms)"
  using assms
proof (induction ms arbitrary: p T)
  case Nil
  then show ?case using last_open_none [of T] by simp
next
  case (Cons m ms)
  obtain c w where m: "m = (c, w)" by (cases m)
  let ?T = "T @ toks_of (int p) c" and ?q = "p + length (text_of c) + length w"
  have ok: "wf_cst c" "is_container c" "ws_ok w" "w \<noteq> []" "stream_ok ms" using Cons.prems(1) by (simp_all add: m)
  have len: "length (toks_of (int p) c) \<le> length (text_of c)" by (rule length_toks_le_text(1) [OF ok(1)])
  have closed: "\<forall>t\<in>set ?T. \<not> tok_open t" using Cons.prems(2) toks_of_closed(1) [of "int p" c] by auto
  have "jsmn_loop num p (text_of c @ w @ stream_text ms) (-1) T (length T) =
      jsmn_loop num (p + length (text_of c)) (w @ stream_text ms) (super_of (last_open T)) (bump (-1) T @ toks_of (int p) c)
        (length T + length (toks_of (int p) c))"
    using parsesD [OF jsmn_loop_cst ok(1) _ _ stops_ws [OF ok(3,4), of "stream_text ms"], of "-1" T p num "length T"] ok(2) len Cons.prems(3)
    by (simp add: super_ok_def m)
  also have "\<dots> = jsmn_loop num ?q (stream_text ms) (-1) ?T (length ?T)"
    using last_open_none [OF Cons.prems(2)] by (simp add: super_of_def bump_def loop_ws [OF ok(3)])
  also have "\<dots> = (JCount (length (?T @ stream_toks (int ?q) ms)), \<lparr>jpos = ?q + length (stream_text ms), toksuper = -1\<rparr>,
      ?T @ stream_toks (int ?q) ms)"
    using Cons.prems(3) len by (intro Cons.IH [OF ok(5) closed]) (simp add: m)
  finally show ?case by (simp add: m add.assoc)
qed

text \<open>\<open>fresh b\<close>: the parser run from the start over the text \<open>b\<close>, with enough room.\<close>

abbreviation fresh :: "nat \<Rightarrow> string \<Rightarrow> jsmn_ret \<times> jsmn_parser \<times> jsmntok list" where
  "fresh num b \<equiv> jsmn_loop num 0 b (-1) [] 0"

definition clean_cut :: "nat \<Rightarrow> jsmntok list \<Rightarrow> bool" where
  "clean_cut q T \<longleftrightarrow> (\<forall>t\<in>set T. \<not> cuts_primitive q t)"

definition prefix_of_stream :: "string \<Rightarrow> string \<Rightarrow> (cst \<times> string) list \<Rightarrow> bool" where
  "prefix_of_stream b w ms \<longleftrightarrow> ws_ok w \<and> stream_ok ms \<and> (\<exists>fut. b @ fut = w @ stream_text ms) \<and>
     clean_cut (length b) (stream_toks (int (length w)) ms)"

lemma fresh_stream:
  assumes "ws_ok w" "stream_ok ms" "length (w @ stream_text ms) < num"
  shows "fresh num (w @ stream_text ms) = (JCount (length (stream_toks (int (length w)) ms)),
    \<lparr>jpos = length (w @ stream_text ms), toksuper = -1\<rparr>, stream_toks (int (length w)) ms)"
  using loop_ws [OF assms(1), of num 0 "stream_text ms" "-1" "[]" 0] loop_stream [OF assms(2), of "[]" num "length w"] assms(3) by simp

lemma stream_no_NUL: "stream_ok ms \<Longrightarrow> NUL \<notin> set (stream_text ms)"
proof (induction ms)
  case (Cons m ms)
  then show ?case using c_string_text_of by (cases m) (auto simp: c_string_def ws_ok_def list_all_iff)
qed simp

lemma prefix_no_NUL: "prefix_of_stream b w ms \<Longrightarrow> NUL \<notin> set b"
proof -
  assume "prefix_of_stream b w ms"
  then obtain fut where "b @ fut = w @ stream_text ms" "ws_ok w" "stream_ok ms" by (auto simp: prefix_of_stream_def)
  moreover from this have "NUL \<notin> set (w @ stream_text ms)" using stream_no_NUL by (auto simp: ws_ok_def list_all_iff)
  ultimately show ?thesis by (metis Un_iff set_append)
qed

lemma prefix_parse:
  assumes "prefix_of_stream b w ms" "length (w @ stream_text ms) < num" "fresh num b = (ret, P, T)"
  shows "ret \<noteq> JSMN_ERROR_INVAL \<and> toks_kept T (stream_toks (int (length w)) ms) \<and> ends_by (jpos P) T \<and> jpos P \<le> length b"
proof -
  obtain fut where fut: "b @ fut = w @ stream_text ms" and ok: "ws_ok w" "stream_ok ms"
    and cut: "clean_cut (length b) (stream_toks (int (length w)) ms)"
    using assms(1) by (auto simp: prefix_of_stream_def)
  have len: "length b < num" using assms(2) by (simp flip: fut)
  note full = fresh_stream [OF ok assms(2), folded fut]
  have run: "jsmn_loop num 0 b (-1) [] (length []) = (ret, P, T)" using assms(3) by simp
  have ends: "ends_by 0 []" by (simp add: ends_by_def)
  have split: "ret \<noteq> JSMN_ERROR_INVAL \<and> fresh num (b @ fut) = jsmn_loop num (jpos P) (drop (jpos P) (b @ fut)) (toksuper P) T (length T)"
    using loop_split [OF run prefix_no_NUL [OF assms(1)] _ ends, of fut] full len cut by (auto simp: clean_cut_def)
  note kept = loop_kept [OF run ends]
  have "jsmn_loop num (jpos P) (drop (jpos P) (b @ fut)) (toksuper P) T (length T) =
      (JCount (length (stream_toks (int (length w)) ms)), \<lparr>jpos = length (b @ fut), toksuper = -1\<rparr>, stream_toks (int (length w)) ms)"
    using split full by simp
  from loop_kept [OF this] show ?thesis using split kept by simp
qed

lemma prefix_resume:
  assumes "prefix_of_stream (b0 @ x) w ms" "clean_cut (length b0) (stream_toks (int (length w)) ms)"
    and "length (w @ stream_text ms) < num" "fresh num b0 = (ret, P, T)"
  shows "fresh num (b0 @ x) = jsmn_loop num (jpos P) (drop (jpos P) (b0 @ x)) (toksuper P) T (length T)"
proof -
  obtain ret2 P2 T2 where f: "fresh num (b0 @ x) = (ret2, P2, T2)" by (cases "fresh num (b0 @ x)")
  note full = prefix_parse [OF assms(1,3) f]
  have "length b0 < num" using assms(1,3) by (auto simp: prefix_of_stream_def dest!: arg_cong [where f = length])
  moreover have "\<forall>t\<in>set T2. \<not> cuts_primitive (length b0) t"
  proof (rule ccontr, clarsimp)
    fix t assume "t \<in> set T2" "cuts_primitive (length b0) t"
    then obtain i where i: "i < length T2" "T2 ! i = t" "cuts_primitive (length b0) (T2 ! i)" by (auto simp: in_set_conv_nth)
    then have "tok_kept (T2 ! i) (stream_toks (int (length w)) ms ! i)" "i < length (stream_toks (int (length w)) ms)"
      using full by (auto simp: toks_kept_def)
    then show False using assms(2) i(3) by (auto simp: clean_cut_def cuts_primitive_def tok_kept_def dest!: nth_mem)
  qed
  moreover have "NUL \<notin> set b0" using prefix_no_NUL [OF assms(1)] by simp
  ultimately show ?thesis
    using loop_split [of num 0 b0 "-1" "[]" ret P T x ret2 P2 T2] assms(4) f full by (simp add: ends_by_def)
qed

text \<open>When the first text of the stream has arrived its tokens are in place; before that, the first token is open.\<close>

lemma tok_kept_eq:
  "tok_kept a b \<Longrightarrow> tok_kept b a' \<Longrightarrow> a' = a \<Longrightarrow> tok_end a \<noteq> -1 \<Longrightarrow> b = a"
  by (rule jsmntok.equality) (simp_all add: tok_kept_def)

lemma toks_kept_squeeze:
  assumes "toks_kept A T" "toks_kept T (A @ R)" "\<forall>t\<in>set A. tok_end t \<noteq> -1"
  shows "take (length A) T = A"
proof (rule nth_equalityI)
  show len: "length (take (length A) T) = length A" using assms(1) by (simp add: toks_kept_def)
  fix i assume "i < length (take (length A) T)"
  then have i: "i < length A" "i < length T" by simp_all
  then have "tok_kept (A ! i) (T ! i)" "tok_kept (T ! i) ((A @ R) ! i)" using assms(1,2) by (simp_all add: toks_kept_def)
  moreover have "(A @ R) ! i = A ! i" "tok_end (A ! i) \<noteq> -1" using i assms(3) by (simp_all add: nth_append)
  ultimately have "T ! i = A ! i" by (rule tok_kept_eq)
  then show "take (length A) T ! i = A ! i" using i by simp
qed

definition ends_in :: "int \<Rightarrow> jsmntok list \<Rightarrow> bool" where
  "ends_in q T \<longleftrightarrow> (\<forall>t\<in>set T. tok_end t \<noteq> -1 \<and> tok_end t \<le> q)"

lemma ends_in_simps [simp]:
  "ends_in q []" "ends_in q (t # T) \<longleftrightarrow> tok_end t \<noteq> -1 \<and> tok_end t \<le> q \<and> ends_in q T"
  "ends_in q (T @ U) \<longleftrightarrow> ends_in q T \<and> ends_in q U"
  by (auto simp: ends_in_def)

lemma ends_in_mono: "ends_in q T \<Longrightarrow> q \<le> q' \<Longrightarrow> ends_in q' T"
  by (force simp: ends_in_def)

lemma toks_of_ends:
  shows "0 \<le> p \<Longrightarrow> ends_in (p + int (length (text_of c))) (toks_of p c)"
    and "0 \<le> p \<Longrightarrow> ends_in (p + int (length (text_es es))) (toks_es p es)"
    and "0 \<le> p \<Longrightarrow> ends_in (p + int (length (text_ms ms))) (toks_ms p ms)"
  by (induction p c and p es and p ms rule: toks_of_toks_es_toks_ms.induct) (simp_all, (force elim: ends_in_mono)+)

lemma prefix_complete:
  assumes "prefix_of_stream (w @ text_of c @ x) w ((c, w1) # ms)" "length (w @ stream_text ((c, w1) # ms)) < num"
    and "fresh num (w @ text_of c @ x) = (ret, P, T)"
  shows "\<exists>R. T = toks_of (int (length w)) c @ R"
proof -
  let ?A = "toks_of (int (length w)) c" and ?q = "length w + length (text_of c)"
  have ok: "ws_ok w" "wf_cst c" "is_container c" "ws_ok w1" "w1 \<noteq> []" using assms(1) by (simp_all add: prefix_of_stream_def)
  obtain fut where fut: "x @ fut = w1 @ stream_text ms" using assms(1) by (auto simp: prefix_of_stream_def)
  have x: "stops x"
  proof (cases x)
    case (Cons a y)
    then have "a = hd w1" using fut ok(5) by (cases w1) auto
    then show ?thesis using Cons ok(4,5) by (cases w1) (auto simp: stops_def ws_ok_def primitive_stop_def)
  qed (simp add: stops_def)
  have "length ?A \<le> num" using length_toks_le_text(1) [OF ok(2), of "int (length w)"] assms(2) by simp
  then have "fresh num (w @ text_of c @ x) = jsmn_loop num ?q x (-1) ?A (length ?A)"
    using parsesD [OF jsmn_loop_cst ok(2) _ _ x, of "-1" "[]" "length w" num 0] ok(3)
    by (simp add: loop_ws [OF ok(1)] super_ok_def super_of_def bump_def)
  then have run: "jsmn_loop num ?q x (-1) ?A (length ?A) = (ret, P, T)" using assms(3) by simp
  have "ends_by ?q ?A" using toks_of_ends(1) [of "int (length w)" c] by (auto simp: ends_by_def ends_in_def)
  from loop_kept [OF run this] have "toks_kept ?A T" by blast
  moreover have "toks_kept T (?A @ stream_toks (int (length w) + int (length (text_of c)) + int (length w1)) ms)"
    using prefix_parse [OF assms] by simp
  ultimately have "take (length ?A) T = ?A" using toks_of_ends(1) [of "int (length w)" c]
    by (intro toks_kept_squeeze) (auto simp: ends_in_def)
  then show ?thesis by (metis append_take_drop_id)
qed

lemma prefix_incomplete:
  assumes "prefix_of_stream b w ms" "length (w @ stream_text ms) < num" "fresh num b = (ret, P, T)"
    and "case ms of [] \<Rightarrow> True | (c, w1) # _ \<Rightarrow> length b < length (w @ text_of c)"
  shows "T = [] \<or> tok_end (hd T) = -1"
proof (rule ccontr)
  assume *: "\<not> ?thesis"
  note p = prefix_parse [OF assms(1-3)]
  obtain t T1 where T: "T = t # T1" "tok_end t \<noteq> -1" using * by (cases T) auto
  then obtain c w1 ms1 where ms: "ms = (c, w1) # ms1" using p by (cases ms) (auto simp: toks_kept_def)
  have c: "is_container c" using assms(1) by (simp add: prefix_of_stream_def ms)
  have "tok_end (stream_toks (int (length w)) ms ! 0) = tok_end t"
    using p T by (auto simp: toks_kept_def tok_kept_def)
  moreover have "tok_end (stream_toks (int (length w)) ms ! 0) = int (length w) + int (length (text_of c))"
    using c by (cases c) (simp_all add: ms)
  moreover have "tok_end t \<le> int (length b)" using p T by (auto simp: ends_by_def)
  ultimately show False using assms(4) by (simp add: ms)
qed

subsection \<open>The buffer\<close>

text \<open>
  The fields \<open>buffer\<close> (its first \<open>used\<close> bytes, and its allocated size), \<open>parser\<close> and \<open>toks\<close> of the plugin; those for replies have the prefix
  \<open>rpc_\<close>. \<open>read_one\<close> is the common shape of \<open>ld_read_json_one\<close> and \<open>rpc_read_response_one\<close>: \<open>None\<close> is \<open>plugin_err\<close>.
\<close>

record reader =
  rd_buffer :: string
  rd_size :: nat
  rd_parser :: jsmn_parser
  rd_toks :: tokptr
  rd_cap :: nat

definition new_reader :: reader where
  "new_reader = \<lparr>rd_buffer = [], rd_size = 64, rd_parser = jsmn_init, rd_toks = [], rd_cap = toks_alloc_count\<rparr>"

definition read_one :: "(string \<Rightarrow> tokptr \<Rightarrow> 's \<Rightarrow> 's run) \<Rightarrow> reader \<Rightarrow> 's \<Rightarrow> (bool \<times> reader \<times> 's) run" where
  "read_one handle rd s = do {
     (res, parser, toks, cap) \<leftarrow> json_parse_input (rd_parser rd) (rd_toks rd) (rd_cap rd) (rd_buffer rd);
     if res = PInvalid then None
     else if res = PIncomplete then Some (False, rd\<lparr>rd_parser := parser, rd_toks := toks, rd_cap := cap\<rparr>, s)
     else if cap = 1 then Some (False, rd\<lparr>rd_buffer := [], rd_parser := jsmn_init, rd_toks := [], rd_cap := cap\<rparr>, s)
     else do {
       s' \<leftarrow> handle (rd_buffer rd) toks s;
       t \<leftarrow> deref toks;
       Some (True, rd\<lparr>rd_buffer := drop (nat (tok_end t)) (rd_buffer rd), rd_parser := jsmn_init, rd_toks := [], rd_cap := cap\<rparr>, s') } }"

text \<open>\<open>while (ld_read_json_one(plugin));\<close>\<close>

partial_function (option) read_all :: "(string \<Rightarrow> tokptr \<Rightarrow> 's \<Rightarrow> 's run) \<Rightarrow> reader \<Rightarrow> 's \<Rightarrow> (reader \<times> 's) option" where
  "read_all handle rd s = do {
     (more, rd', s') \<leftarrow> read_one handle rd s;
     if more then read_all handle rd' s' else Some (rd', s') }"

declare read_all.simps [code]

text \<open>The callback of \<open>io_read_partial\<close>: the bytes that were read into the space after the used ones, then all texts that are complete.\<close>

definition read_json :: "(string \<Rightarrow> tokptr \<Rightarrow> 's \<Rightarrow> 's run) \<Rightarrow> reader \<Rightarrow> string \<Rightarrow> 's \<Rightarrow> (reader \<times> 's) run" where
  "read_json handle rd bytes s = (
     let buffer = rd_buffer rd @ bytes;
         size = (if buffer \<noteq> [] \<and> length buffer = rd_size rd then length buffer * 2 else rd_size rd)
     in read_all handle (rd\<lparr>rd_buffer := buffer, rd_size := size\<rparr>) s)"

fun read_pieces :: "(string \<Rightarrow> tokptr \<Rightarrow> 's \<Rightarrow> 's run) \<Rightarrow> reader \<Rightarrow> string list \<Rightarrow> 's \<Rightarrow> (reader \<times> 's) run" where
  "read_pieces handle rd [] s = Some (rd, s)"
| "read_pieces handle rd (x # xs) s = do { (rd', s') \<leftarrow> read_json handle rd x s; read_pieces handle rd' xs s' }"

fun handle_all :: "(string \<Rightarrow> tokptr \<Rightarrow> 's \<Rightarrow> 's run) \<Rightarrow> (string \<times> tokptr) list \<Rightarrow> 's \<Rightarrow> 's run" where
  "handle_all handle [] s = Some s"
| "handle_all handle ((buf, toks) # ms) s = do { s' \<leftarrow> handle buf toks s; handle_all handle ms s' }"

text \<open>The state of the reader is that of a parser that was run over the buffer from its start.\<close>

definition caught_up :: "reader \<Rightarrow> string \<Rightarrow> bool" where
  "caught_up rd b \<longleftrightarrow> 0 < rd_cap rd \<and> (\<exists>ret. fresh (Suc (length b)) b = (ret, rd_parser rd, rd_toks rd))"

lemma fresh_stable:
  assumes "length b < num"
  shows "fresh num b = fresh (Suc (length b)) b" "length (snd (snd (fresh num b))) \<le> length b"
proof -
  have out: "loop_outcome n 0 b (-1) [] (fresh n b)" for n using jsmn_loop_outcome [of n 0 b "-1" "[]"] by simp
  obtain ret P T where f: "fresh (Suc (length b)) b = (ret, P, T)" by (cases "fresh (Suc (length b)) b")
  have "length T \<le> length b" "ret \<noteq> JSMN_ERROR_NOMEM" using out [of "Suc (length b)"] f by (auto simp: loop_outcome_def)
  then show eq: "fresh num b = fresh (Suc (length b)) b" "length (snd (snd (fresh num b))) \<le> length b"
    using loop_outcome_stable [of "Suc (length b)" 0 b "-1" "[]" "(ret, P, T)" num] out [of "Suc (length b)"] f assms by auto
qed

lemma caught_up_num: "caught_up rd b \<Longrightarrow> length b < num \<Longrightarrow> \<exists>ret. fresh num b = (ret, rd_parser rd, rd_toks rd)"
  using fresh_stable(1) [of b num] by (auto simp: caught_up_def)

lemma prefix_length: "prefix_of_stream b w ms \<Longrightarrow> length b \<le> length (w @ stream_text ms)"
  by (auto simp: prefix_of_stream_def dest!: arg_cong [where f = length])

lemma parse_again_prefix:
  assumes "prefix_of_stream (b0 @ x) w ms" "clean_cut (length b0) (stream_toks (int (length w)) ms)" "caught_up rd b0"
  obtains ret P T cap where "json_parse_again (rd_parser rd) (rd_toks rd) (rd_cap rd) (b0 @ x) = Some (ret, P, T, cap)"
    "fresh (Suc (length (w @ stream_text ms))) (b0 @ x) = (ret, P, T)" "fresh (Suc (length (b0 @ x))) (b0 @ x) = (ret, P, T)" "0 < cap"
proof -
  let ?b = "b0 @ x" and ?n = "Suc (length (w @ stream_text ms))"
  let ?N = "Suc (length (rd_toks rd) + length (w @ stream_text ms))"
  have len: "length ?b < ?n" using prefix_length [OF assms(1)] by simp
  obtain ret0 where "fresh ?N b0 = (ret0, rd_parser rd, rd_toks rd)" using caught_up_num [OF assms(3), of ?N] len by auto
  from prefix_resume [OF assms(1,2) _ this]
  have resume: "fresh ?N ?b = jsmn_parse (rd_parser rd) ?b (rd_toks rd) ?N" by (simp add: jsmn_parse_def)
  have "length (rd_toks rd) + length (drop (jpos (rd_parser rd)) ?b) < ?N" using len by simp
  moreover have "0 < rd_cap rd" using assms(3) by (simp add: caught_up_def)
  ultimately obtain cap where cap: "rd_cap rd \<le> cap" "json_parse_again (rd_parser rd) (rd_toks rd) (rd_cap rd) ?b =
      (case fresh ?N ?b of (ret, P, T) \<Rightarrow> Some (ret, P, T, cap))"
    using json_parse_again_returns [of "rd_cap rd" "rd_toks rd" "rd_parser rd" ?b ?N] unfolding resume by blast
  obtain ret P T where f: "fresh ?N ?b = (ret, P, T)" by (cases "fresh ?N ?b")
  have "fresh ?N ?b = fresh (Suc (length ?b)) ?b" "fresh ?n ?b = fresh (Suc (length ?b)) ?b"
    by (rule fresh_stable(1), use len in simp)+
  then have "fresh ?n ?b = (ret, P, T)" "fresh (Suc (length ?b)) ?b = (ret, P, T)" unfolding f by (simp_all only:)
  moreover have "json_parse_again (rd_parser rd) (rd_toks rd) (rd_cap rd) ?b = Some (ret, P, T, cap)" using cap(2) unfolding f by simp
  moreover have "0 < cap" using cap(1) \<open>0 < rd_cap rd\<close> by simp
  ultimately show ?thesis using that by blast
qed

text \<open>Moving the stream moves the cuts.\<close>

lemma stream_toks_shift: "stream_toks (p + d) ms = map (tok_shift d) (stream_toks p ms)"
proof (induction ms arbitrary: p)
  case (Cons m ms)
  obtain c w where m: "m = (c, w)" by (cases m)
  let ?q = "p + int (length (text_of c)) + int (length w)"
  have q: "p + d + int (length (text_of c)) + int (length w) = ?q + d" by simp
  show ?case unfolding m stream_toks.simps q Cons [of ?q] toks_shift(1) by simp
qed simp

lemma clean_cut_shift: "clean_cut (q + d) (map (tok_shift (int d)) T) \<longleftrightarrow> clean_cut q T"
  by (auto simp: clean_cut_def cuts_primitive_def tok_shift_def)

lemma clean_cut_append [simp]: "clean_cut q (T @ U) \<longleftrightarrow> clean_cut q T \<and> clean_cut q U"
  by (auto simp: clean_cut_def)

lemma toks_of_starts: "0 \<le> p \<Longrightarrow> \<forall>t\<in>set (toks_of p c). 0 \<le> tok_start t"
  "0 \<le> p \<Longrightarrow> \<forall>t\<in>set (toks_es p es). 0 \<le> tok_start t" "0 \<le> p \<Longrightarrow> \<forall>t\<in>set (toks_ms p ms). 0 \<le> tok_start t"
  by (induction p c and p es and p ms rule: toks_of_toks_es_toks_ms.induct) auto

lemma clean_cut_0: "0 \<le> p \<Longrightarrow> clean_cut 0 (stream_toks p ms)"
proof (induction p ms rule: stream_toks.induct)
  case (2 p c w ms)
  then show ?case using toks_of_starts(1) [of p c] by (force simp: clean_cut_def cuts_primitive_def)
qed (simp add: clean_cut_def)

definition behind :: "reader \<Rightarrow> string \<Rightarrow> string list \<Rightarrow> string \<Rightarrow> (cst \<times> string) list \<Rightarrow> bool" where
  "behind rd b0 xs w ms \<longleftrightarrow> ws_ok w \<and> stream_ok ms \<and> caught_up rd b0 \<and> (\<exists>x. rd_buffer rd = b0 @ x) \<and>
     rd_buffer rd @ concat xs = w @ stream_text ms \<and> clean_cut (length b0) (stream_toks (int (length w)) ms) \<and>
     (\<forall>i\<le>length xs. clean_cut (length (rd_buffer rd @ concat (take i xs))) (stream_toks (int (length w)) ms))"

lemma behind_prefix:
  assumes "behind rd b0 xs w ms"
  obtains x where "rd_buffer rd = b0 @ x" "prefix_of_stream (b0 @ x) w ms" "clean_cut (length b0) (stream_toks (int (length w)) ms)" "caught_up rd b0"
  using assms unfolding behind_def prefix_of_stream_def by (metis append_Nil2 concat.simps(1) le0 take0)

lemma read_one_incomplete:
  assumes "behind rd b0 xs w ms" "case ms of [] \<Rightarrow> True | (c, w1) # _ \<Rightarrow> length (rd_buffer rd) < length (w @ text_of c)"
  shows "\<exists>rd'. (\<forall>s. read_one handle rd s = Some (False, rd', s)) \<and> rd_buffer rd' = rd_buffer rd \<and> behind rd' (rd_buffer rd') xs w ms"
proof -
  obtain x where x: "rd_buffer rd = b0 @ x" "prefix_of_stream (b0 @ x) w ms" "clean_cut (length b0) (stream_toks (int (length w)) ms)" "caught_up rd b0"
    using behind_prefix [OF assms(1)] by blast
  obtain ret P T cap where p: "json_parse_again (rd_parser rd) (rd_toks rd) (rd_cap rd) (b0 @ x) = Some (ret, P, T, cap)"
    "fresh (Suc (length (w @ stream_text ms))) (b0 @ x) = (ret, P, T)" "fresh (Suc (length (b0 @ x))) (b0 @ x) = (ret, P, T)" "0 < cap"
    by (rule parse_again_prefix [OF x(2-4)])
  have "ret \<noteq> JSMN_ERROR_INVAL" using prefix_parse [OF x(2) _ p(2)] by simp
  moreover have "T = [] \<or> tok_end (hd T) = -1" using prefix_incomplete [OF x(2) _ p(2)] assms(2) unfolding x(1) by simp
  ultimately have "json_parse_input (rd_parser rd) (rd_toks rd) (rd_cap rd) (rd_buffer rd) = Some (PIncomplete, P, T, cap)"
    unfolding x(1) json_parse_input_def p(1) by (cases T) auto
  then have "read_one handle rd s = Some (False, rd\<lparr>rd_parser := P, rd_toks := T, rd_cap := cap\<rparr>, s)" for s
    by (simp add: read_one_def)
  moreover have "caught_up (rd\<lparr>rd_parser := P, rd_toks := T, rd_cap := cap\<rparr>) (b0 @ x)" using p(3,4) by (simp add: caught_up_def)
  ultimately show ?thesis using assms(1) x(1)
    by (intro exI [of _ "rd\<lparr>rd_parser := P, rd_toks := T, rd_cap := cap\<rparr>"]) (auto simp: behind_def dest: spec [of _ 0])
qed

lemma read_one_complete:
  assumes "behind rd b0 xs w ((c, w1) # ms)" "length (w @ text_of c) \<le> length (rd_buffer rd)"
  shows "\<exists>rd'. (\<forall>s. read_one handle rd s = do {
        s' \<leftarrow> handle (rd_buffer rd) (toks_of (int (length w)) c @ [terminator]) s;
        Some (True, rd', s') }) \<and>
    denotes (rd_buffer rd) (toks_of (int (length w)) c @ [terminator]) c \<and> behind rd' [] xs w1 ms"
proof -
  let ?d = "length w + length (text_of c)" and ?A = "toks_of (int (length w)) c"
  obtain x where x: "rd_buffer rd = b0 @ x" "prefix_of_stream (b0 @ x) w ((c, w1) # ms)"
    "clean_cut (length b0) (stream_toks (int (length w)) ((c, w1) # ms))" "caught_up rd b0"
    using behind_prefix [OF assms(1)] by blast
  have ok: "wf_cst c" "is_container c" "ws_ok w1" "stream_ok ms" using assms(1) by (simp_all add: behind_def)
  have whole: "rd_buffer rd @ concat xs = w @ text_of c @ w1 @ stream_text ms" using assms(1) by (simp add: behind_def)
  define y where "y = drop (length (w @ text_of c)) (rd_buffer rd)"
  have "take (length (w @ text_of c)) (rd_buffer rd) = take (length (w @ text_of c)) (rd_buffer rd @ concat xs)" using assms(2) by simp
  also have "\<dots> = w @ text_of c" unfolding whole by simp
  finally have y1: "rd_buffer rd = w @ text_of c @ y" unfolding y_def by (metis append_assoc append_take_drop_id)
  moreover have "y @ concat xs = w1 @ stream_text ms" using whole unfolding y1 by simp
  ultimately have y: "rd_buffer rd = w @ text_of c @ y" "y @ concat xs = w1 @ stream_text ms" by simp_all
  obtain ret P T cap where p: "json_parse_again (rd_parser rd) (rd_toks rd) (rd_cap rd) (b0 @ x) = Some (ret, P, T, cap)"
    "fresh (Suc (length (w @ stream_text ((c, w1) # ms)))) (b0 @ x) = (ret, P, T)" "fresh (Suc (length (b0 @ x))) (b0 @ x) = (ret, P, T)" "0 < cap"
    by (rule parse_again_prefix [OF x(2-4)])
  have inval: "ret \<noteq> JSMN_ERROR_INVAL" using prefix_parse [OF x(2) _ p(2)] by simp
  obtain R where R: "T = ?A @ R"
    using prefix_complete [OF x(2) [folded x(1), unfolded y(1)] lessI p(2) [folded x(1), unfolded y(1)]] by blast
  obtain t ts where A: "?A = t # ts" "tok_type t \<noteq> JSMN_UNDEFINED" "tok_end t = int ?d"
    using ok(2) by (cases c) auto
  have "validate_jsmn_datum (rd_buffer rd) ?A = Some ([], True)" using validate_toks_of(1) [OF ok(1), of w y "[]"] y(1) by simp
  then have valid: "validate_jsmn_parse_output (rd_buffer rd) ?A = Some True" unfolding A(1) by (simp del: validate_jsmn_datum.simps)
  have "json_parse_input (rd_parser rd) (rd_toks rd) (rd_cap rd) (rd_buffer rd) = Some (PComplete, P, ?A @ [terminator], length ?A + 1)"
    using inval p(1) valid json_next_toks_of [of "int (length w)" c R] A unfolding x(1) [symmetric] json_parse_input_def
    by (simp add: R A(1))
  then have one: "read_one handle rd s = do {
        s' \<leftarrow> handle (rd_buffer rd) (?A @ [terminator]) s;
        Some (True, rd\<lparr>rd_buffer := y, rd_parser := jsmn_init, rd_toks := [], rd_cap := length ?A + 1\<rparr>, s') }" for s
    using A(3) by (simp add: read_one_def A(1) y(1))
  let ?rd = "rd\<lparr>rd_buffer := y, rd_parser := jsmn_init, rd_toks := [], rd_cap := length ?A + 1\<rparr>"
  have "clean_cut (length (y @ concat (take i xs))) (stream_toks (int (length w1)) ms)" if "i \<le> length xs" for i
  proof -
    have "clean_cut (length (y @ concat (take i xs)) + ?d) (stream_toks (int (length w1) + int ?d) ms)"
      using assms(1) that y(1) by (simp add: behind_def add.commute add.left_commute)
    then show ?thesis unfolding stream_toks_shift clean_cut_shift .
  qed
  moreover have "caught_up ?rd []" by (simp add: caught_up_def jsmn_init_def)
  ultimately have "behind ?rd [] xs w1 ms" using ok y(2) clean_cut_0 by (simp add: behind_def)
  moreover have "denotes (rd_buffer rd) (?A @ [terminator]) c" using denotesI [OF ok(1) y(1)] by simp
  ultimately show ?thesis using one by blast
qed

text \<open>The loop hands over the texts that have arrived, in order, and stops before one that has not.\<close>

lemma read_all_stream:
  assumes "behind rd b0 xs w ms"
  shows "\<exists>bufs rd' w' ms1 ms2. ms = ms1 @ ms2 \<and> list_all2 (\<lambda>(buf, toks) (c, _). denotes buf toks c) bufs ms1 \<and>
    (\<forall>s. read_all handle rd s = do { s' \<leftarrow> handle_all handle bufs s; Some (rd', s') }) \<and>
    behind rd' (rd_buffer rd') xs w' ms2 \<and>
    (case ms2 of [] \<Rightarrow> True | (c, w1) # _ \<Rightarrow> length (rd_buffer rd') < length (w' @ text_of c))"
  using assms
proof (induction ms arbitrary: rd b0 w)
  case Nil
  then obtain rd' where "\<forall>s. read_one handle rd s = Some (False, rd', s)" "behind rd' (rd_buffer rd') xs w []"
    using read_one_incomplete [OF Nil, of handle] by auto
  then show ?case
    by (intro exI [of _ "[]"] exI [of _ rd'] exI [of _ w]) (simp add: read_all.simps)
next
  case (Cons m ms)
  obtain c w1 where m: "m = (c, w1)" by (cases m)
  show ?case
  proof (cases "length (rd_buffer rd) < length (w @ text_of c)")
    case True
    then obtain rd' where "\<forall>s. read_one handle rd s = Some (False, rd', s)" "rd_buffer rd' = rd_buffer rd" "behind rd' (rd_buffer rd') xs w (m # ms)"
      using read_one_incomplete [OF Cons.prems, of handle] by (auto simp: m)
    then show ?thesis using True
      by (intro exI [of _ "[]"] exI [of _ rd'] exI [of _ w] exI [of _ "m # ms"]) (simp add: read_all.simps m)
  next
    case False
    let ?toks = "toks_of (int (length w)) c @ [terminator]"
    obtain rd1 where rd1: "\<And>s. read_one handle rd s = do { s' \<leftarrow> handle (rd_buffer rd) ?toks s; Some (True, rd1, s') }"
      "denotes (rd_buffer rd) ?toks c" "behind rd1 [] xs w1 ms"
      using read_one_complete [OF Cons.prems [unfolded m], of handle] False by auto
    obtain bufs rd' w' ms1 ms2 where IH: "ms = ms1 @ ms2" "list_all2 (\<lambda>(buf, toks) (c, _). denotes buf toks c) bufs ms1"
      "\<And>s. read_all handle rd1 s = do { s' \<leftarrow> handle_all handle bufs s; Some (rd', s') }" "behind rd' (rd_buffer rd') xs w' ms2"
      "case ms2 of [] \<Rightarrow> True | (c, w1) # _ \<Rightarrow> length (rd_buffer rd') < length (w' @ text_of c)"
      using Cons.IH [OF rd1(3)] by blast
    have "read_all handle rd s = do { s' \<leftarrow> handle_all handle ((rd_buffer rd, ?toks) # bufs) s; Some (rd', s') }" for s
      by (cases "handle (rd_buffer rd) ?toks s") (simp_all add: read_all.simps [of handle rd] rd1(1) IH(3))
    then show ?thesis using IH rd1(2)
      by (intro exI [of _ "(rd_buffer rd, ?toks) # bufs"] exI [of _ rd'] exI [of _ w'] exI [of _ "m # ms1"] exI [of _ ms2]) (simp add: m)
  qed
qed

lemma handle_all_append: "handle_all handle (as @ bs) s = do { s' \<leftarrow> handle_all handle as s; handle_all handle bs s' }"
proof (induction handle as s rule: handle_all.induct)
  case (2 handle buf toks ms s)
  then show ?case by (cases "handle buf toks s") simp_all
qed simp

definition waiting :: "reader \<Rightarrow> string \<Rightarrow> (cst \<times> string) list \<Rightarrow> bool" where
  "waiting rd w ms \<longleftrightarrow> (case ms of [] \<Rightarrow> True | (c, w1) # _ \<Rightarrow> length (rd_buffer rd) < length (w @ text_of c))"

lemma behind_more:
  assumes "behind rd (rd_buffer rd) (x # xs) w ms"
  shows "behind (rd\<lparr>rd_buffer := rd_buffer rd @ x, rd_size := n\<rparr>) (rd_buffer rd) xs w ms"
proof -
  have cut: "clean_cut (length (rd_buffer rd @ concat (take i (x # xs)))) (stream_toks (int (length w)) ms)" if "i \<le> Suc (length xs)" for i
    using assms that by (simp add: behind_def)
  have "clean_cut (length ((rd_buffer rd @ x) @ concat (take i xs))) (stream_toks (int (length w)) ms)" if "i \<le> length xs" for i
    using cut [of "Suc i"] that by simp
  then show ?thesis using assms by (simp add: behind_def caught_up_def)
qed

lemma read_pieces_stream:
  assumes "behind rd (rd_buffer rd) xs w ms" "waiting rd w ms"
  shows "\<exists>bufs rd' w' ms1 ms2. ms = ms1 @ ms2 \<and> list_all2 (\<lambda>(buf, toks) (c, _). denotes buf toks c) bufs ms1 \<and>
    (\<forall>s. read_pieces handle rd xs s = do { s' \<leftarrow> handle_all handle bufs s; Some (rd', s') }) \<and>
    behind rd' (rd_buffer rd') [] w' ms2 \<and> waiting rd' w' ms2"
  using assms
proof (induction xs arbitrary: rd w ms)
  case Nil
  then show ?case by (intro exI [of _ "[]"] exI [of _ rd] exI [of _ w] exI [of _ ms]) simp
next
  case (Cons x xs)
  define rd0 where "rd0 = rd\<lparr>rd_buffer := rd_buffer rd @ x,
    rd_size := (if rd_buffer rd @ x \<noteq> [] \<and> length (rd_buffer rd @ x) = rd_size rd then length (rd_buffer rd @ x) * 2 else rd_size rd)\<rparr>"
  have "behind rd0 (rd_buffer rd) xs w ms" unfolding rd0_def by (rule behind_more [OF Cons.prems(1)])
  from read_all_stream [OF this, of handle, folded waiting_def]
  obtain as rd1 w1 ms1 ms' where first: "ms = ms1 @ ms'" "list_all2 (\<lambda>(buf, toks) (c, _). denotes buf toks c) as ms1"
    "\<And>s. read_all handle rd0 s = do { s' \<leftarrow> handle_all handle as s; Some (rd1, s') }" "behind rd1 (rd_buffer rd1) xs w1 ms'"
    "waiting rd1 w1 ms'" by blast
  obtain bs rd' w' ms2 ms3 where rest: "ms' = ms2 @ ms3" "list_all2 (\<lambda>(buf, toks) (c, _). denotes buf toks c) bs ms2"
    "\<And>s. read_pieces handle rd1 xs s = do { s' \<leftarrow> handle_all handle bs s; Some (rd', s') }" "behind rd' (rd_buffer rd') [] w' ms3"
    "waiting rd' w' ms3" using Cons.IH [OF first(4,5)] by blast
  have "read_json handle rd x s = read_all handle rd0 s" for s unfolding read_json_def rd0_def by (simp only: Let_def)
  then have "read_pieces handle rd (x # xs) s = do { s' \<leftarrow> handle_all handle (as @ bs) s; Some (rd', s') }" for s
    by (cases "handle_all handle as s") (simp_all add: first(3) rest(3) handle_all_append)
  then show ?case using first(1,2) rest
    by (intro exI [of _ "as @ bs"] exI [of _ rd'] exI [of _ w'] exI [of _ "ms1 @ ms2"] exI [of _ ms3]) (simp add: list_all2_appendI)
qed

text \<open>A reader between two messages, as it is at the start; a stream that arrives completely is handled completely.\<close>

definition idle :: "reader \<Rightarrow> bool" where
  "idle rd \<longleftrightarrow> rd_buffer rd = [] \<and> rd_parser rd = jsmn_init \<and> rd_toks rd = [] \<and> 0 < rd_cap rd"

lemma idle_new: "idle new_reader"
  by (simp add: idle_def new_reader_def toks_alloc_count_def)

lemma idle_stream_handled:
  assumes "idle rd" "ws_ok w" "stream_ok ms" "concat xs = w @ stream_text ms"
    and "\<forall>i\<le>length xs. clean_cut (length (concat (take i xs))) (stream_toks (int (length w)) ms)"
  shows "\<exists>bufs rd'. list_all2 (\<lambda>(buf, toks) (c, _). denotes buf toks c) bufs ms \<and> ws_ok (rd_buffer rd') \<and>
    (\<forall>s. read_pieces handle rd xs s = do { s' \<leftarrow> handle_all handle bufs s; Some (rd', s') })"
proof -
  have "caught_up rd []" using assms(1) by (simp add: caught_up_def idle_def jsmn_init_def)
  then have start: "behind rd (rd_buffer rd) xs w ms" using assms clean_cut_0 by (simp add: behind_def idle_def)
  have wait: "waiting rd w ms"
  proof (cases ms)
    case (Cons m ms1)
    then have "text_of (fst m) \<noteq> []" using assms(3) by (cases m; cases "fst m") auto
    then show ?thesis using Cons assms(1) by (cases m) (simp add: waiting_def idle_def)
  qed (simp add: waiting_def)
  obtain bufs rd' w' ms1 ms2 where r: "ms = ms1 @ ms2" "list_all2 (\<lambda>(buf, toks) (c, _). denotes buf toks c) bufs ms1"
    "\<And>s. read_pieces handle rd xs s = do { s' \<leftarrow> handle_all handle bufs s; Some (rd', s') }"
    "behind rd' (rd_buffer rd') [] w' ms2" "waiting rd' w' ms2"
    using read_pieces_stream [OF start wait, of handle] by blast
  have buf: "rd_buffer rd' = w' @ stream_text ms2" "ws_ok w'" using r(4) by (simp_all add: behind_def)
  then have "ms2 = []" using r(5) by (cases ms2) (auto simp: waiting_def)
  then show ?thesis using r(1-3) buf by auto
qed

lemmas stream_handled = idle_stream_handled [OF idle_new]

subsection \<open>A read that ends inside a value\<close>

text \<open>
  A number or literal that is the value of a member, cut in two by the end of a read: without \<open>JSMN_STRICT\<close> the first part is taken for the
  value, and the second part, when it arrives, for another value of the same label, which the validation refuses.
\<close>

fun app_ms :: "cmembers \<Rightarrow> cmembers \<Rightarrow> cmembers" where
  "app_ms MNil ms' = ms'"
| "app_ms (MCons sep k w1 w2 c ms) ms' = MCons sep k w1 w2 c (app_ms ms ms')"

lemma text_app_ms [simp]: "text_ms (app_ms ms ms') = text_ms ms @ text_ms ms'"
  by (induction ms) auto

lemma n_app_ms [simp]: "n_ms (app_ms ms ms') = n_ms ms + n_ms ms'"
  by (induction ms) auto

lemma wf_app_ms [simp]: "wf_ms first (app_ms ms ms') \<longleftrightarrow> wf_ms first ms \<and> wf_ms (first \<and> ms = MNil) ms'"
  by (induction ms arbitrary: first) auto

definition before_value :: "cmembers \<Rightarrow> string \<Rightarrow> string \<Rightarrow> string \<Rightarrow> string \<Rightarrow> string" where
  "before_value pre sep k w1 w2 = CHR ''{'' # text_ms pre @ sep @ QUOTE # k @ QUOTE # w1 @ CHR '':'' # w2"

text \<open>The tokens after the first part of the value: the object is open, the label stands last but one.\<close>

definition key_tok :: "int \<Rightarrow> string \<Rightarrow> int \<Rightarrow> jsmntok" where
  "key_tok p k n = \<lparr>tok_type = JSMN_STRING, tok_start = p + 1, tok_end = p + 1 + int (length k), tok_size = n\<rparr>"

definition prim_tok :: "int \<Rightarrow> string \<Rightarrow> jsmntok" where
  "prim_tok p s = \<lparr>tok_type = JSMN_PRIMITIVE, tok_start = p, tok_end = p + int (length s), tok_size = 0\<rparr>"

definition obj_tok :: "int \<Rightarrow> int \<Rightarrow> jsmntok" where
  "obj_tok e n = \<lparr>tok_type = JSMN_OBJECT, tok_start = 0, tok_end = e, tok_size = n\<rparr>"

lemma tok_simps [simp]:
  "tok_type (key_tok p k n) = JSMN_STRING" "tok_type (prim_tok p s) = JSMN_PRIMITIVE" "tok_type (obj_tok e n) = JSMN_OBJECT"
  "tok_size (key_tok p k n) = n" "tok_size (prim_tok p s) = 0" "tok_size (obj_tok e n) = n" "tok_end (obj_tok e n) = e"
  "(key_tok p k n)\<lparr>tok_size := m\<rparr> = key_tok p k m" "(obj_tok e n)\<lparr>tok_size := m\<rparr> = obj_tok e m" "(obj_tok e n)\<lparr>tok_end := e'\<rparr> = obj_tok e' n"
  "0 \<le> p \<Longrightarrow> \<not> tok_open (key_tok p k n)" "0 \<le> p \<Longrightarrow> \<not> tok_open (prim_tok p s)" "tok_open (obj_tok (-1) n)"
  by (auto simp: key_tok_def prim_tok_def obj_tok_def tok_open_def)

lemma cut_first:
  assumes "wf_ms True (app_ms pre (MCons sep k w1 w2 (CPrim a) MNil))"
    and "length (toks_ms 1 pre) + 3 \<le> num"
  shows "jsmn_loop num 0 (before_value pre sep k w1 w2 @ a) (-1) [] 0 =
    (JSMN_ERROR_PART, \<lparr>jpos = length (before_value pre sep k w1 w2 @ a), toksuper = 1 + int (length (toks_ms 1 pre))\<rparr>,
     obj_tok (-1) (int (n_ms pre) + 1) # toks_ms 1 pre @
       [key_tok (1 + int (length (text_ms pre) + length sep)) k 1, prim_tok (int (length (before_value pre sep k w1 w2))) a])"
proof -
  let ?C = "toks_ms 1 pre" and ?p = "1 + length (text_ms pre)" and ?n = "int (n_ms pre)"
  let ?q = "?p + length sep" and ?v = "length (before_value pre sep k w1 w2)"
  let ?r = "QUOTE # k @ QUOTE # w1 @ CHR '':'' # w2 @ a"
  have wf: "wf_ms True pre" "sep_ok sep" "pre = MNil \<or> CHR '','' \<in> set sep" "str_ok k" "ws_ok w1" "ws_ok w2" "prim_ok a"
    using assms(1) by auto
  have "stops (sep @ ?r) \<or> pre = MNil" using wf(2,3) by (auto simp: in_set_conv_decomp intro: stops_sep)
  then obtain s' where s': "super_after [] (obj_tok (-1) 0) [] 0 pre ?C s'"
    "jsmn_loop num 1 (text_ms pre @ sep @ ?r) 0 [obj_tok (-1) 0] 1 = jsmn_loop num ?p (sep @ ?r) s' (obj_tok (-1) ?n # ?C) (1 + length ?C)"
  proof
    assume "pre = MNil"
    then show ?thesis by (intro that [of 0]) (simp_all add: super_after_def)
  next
    assume "stops (sep @ ?r)"
    then show ?thesis
      using jsmn_loop_ms [of num pre, unfolded parses_ms_def, rule_format, of True "obj_tok (-1) 0" "[]" 0 "[]" "1 :: nat" "sep @ ?r" 1] wf(1) assms(2) that
      by auto
  qed
  have C: "\<forall>t\<in>set ?C. \<not> tok_open t" using toks_of_closed(3) [of 1 pre] by simp
  have at: "(if CHR '','' \<in> set sep then comma_super ([] @ obj_tok (-1) ?n # ?C) s' else s') = int (length ([] :: jsmntok list))"
    by (rule member_super [where first = "pre = MNil"]) (use s'(1) wf(3) C in \<open>auto simp: super_after_def nth_Cons' split: if_splits\<close>)
  have "jsmn_loop num 0 (before_value pre sep k w1 w2 @ a) (-1) [] 0 = jsmn_loop num 1 (text_ms pre @ sep @ ?r) 0 [obj_tok (-1) 0] 1"
    using loop_open [of "-1" "[]" num "CHR ''{''" 0 "text_ms pre @ sep @ ?r" 0] assms(2)
    by (simp add: before_value_def super_ok_def bump_def obj_tok_def)
  also have "\<dots> = jsmn_loop num ?q ?r 0 (obj_tok (-1) ?n # ?C) (1 + length ?C)"
    unfolding s'(2) loop_sep [OF wf(2)] at [unfolded append_Nil list.size of_nat_0] by simp
  also have "\<dots> = jsmn_loop num (?q + length k + 2) (w1 @ CHR '':'' # w2 @ a) 0 (obj_tok (-1) (?n + 1) # ?C @ [key_tok (int ?q) k 0]) (2 + length ?C)"
    using loop_string [of k 0 "obj_tok (-1) ?n # ?C" num ?q "w1 @ CHR '':'' # w2 @ a"] wf(4) assms(2) bump_mid [of 0 "[]"]
    by (simp add: str_ok_def super_ok_def key_tok_def)
  also have "\<dots> = jsmn_loop num ?v (a @ []) (1 + int (length ?C)) (obj_tok (-1) (?n + 1) # ?C @ [key_tok (int ?q) k 0]) (2 + length ?C)"
    using wf(5,6) by (simp add: loop_ws loop_colon before_value_def algebra_simps)
  also have "\<dots> = jsmn_loop num (?v + length a) [] (1 + int (length ?C)) (obj_tok (-1) (?n + 1) # ?C @ [key_tok (int ?q) k 1, prim_tok (int ?v) a]) (3 + length ?C)"
    using loop_prim [OF wf(7), of "1 + int (length ?C)" "obj_tok (-1) (?n + 1) # ?C @ [key_tok (int ?q) k 0]" num "[]" ?v] assms(2)
      bump_mid [of "1 + int (length ?C)" "obj_tok (-1) (?n + 1) # ?C" "key_tok (int ?q) k 0" "[]"]
    by (simp add: super_ok_def stops_def prim_tok_def)
  also have "\<dots> = (JSMN_ERROR_PART, \<lparr>jpos = ?v + length a, toksuper = 1 + int (length ?C)\<rparr>,
     obj_tok (-1) (?n + 1) # ?C @ [key_tok (int ?q) k 1, prim_tok (int ?v) a])"
    using last_open_mid [of "obj_tok (-1) (?n + 1)" "?C @ [key_tok (int ?q) k 1, prim_tok (int ?v) a]" "[]"] C
    by (simp add: ball_Un del: find_open.simps)
  finally show ?thesis by simp
qed


text \<open>The tokens after the second part, which is taken for another value of the same label.\<close>

definition cut_toks :: "cmembers \<Rightarrow> string \<Rightarrow> string \<Rightarrow> string \<Rightarrow> string \<Rightarrow> string \<Rightarrow> string \<Rightarrow> cmembers \<Rightarrow> string \<Rightarrow> jsmntok list" where
  "cut_toks pre sep k w1 w2 a b post w =
     (let v = length (before_value pre sep k w1 w2); e = v + length a + length b in
      obj_tok (int (e + length (text_ms post) + length w + 1)) (int (n_ms pre + 1 + n_ms post)) # toks_ms 1 pre @
       key_tok (1 + int (length (text_ms pre) + length sep)) k 2 # prim_tok (int v) a # prim_tok (int (v + length a)) b # toks_ms (int e) post)"

lemma cut_second:
  assumes "wf_ms False post" "sep_ok w" "ws_ok r" "prim_ok b"
    and "length (toks_ms 1 pre) + 4 + length (toks_ms (int (length (before_value pre sep k w1 w2) + length a + length b)) post) \<le> num"
  shows "\<exists>m s'. jsmn_loop num (length (before_value pre sep k w1 w2 @ a)) (b @ text_ms post @ w @ CHR ''}'' # r) (1 + int (length (toks_ms 1 pre)))
      (obj_tok (-1) (int (n_ms pre) + 1) # toks_ms 1 pre @
       [key_tok (1 + int (length (text_ms pre) + length sep)) k 1, prim_tok (int (length (before_value pre sep k w1 w2))) a]) n =
    (JCount m, s', cut_toks pre sep k w1 w2 a b post w)"
proof -
  let ?C = "toks_ms 1 pre" and ?v = "length (before_value pre sep k w1 w2)"
  let ?e = "?v + length a + length b" and ?s = "1 + int (length (toks_ms 1 pre))"
  let ?key = "key_tok (1 + int (length (text_ms pre) + length sep)) k" and ?a = "prim_tok (int ?v) a" and ?b = "prim_tok (int (?v + length a)) b"
  let ?r = "w @ CHR ''}'' # r" and ?te = "toks_ms (int ?e) post"
  let ?T = "?C @ [?key 2, ?a, ?b]"
  have C: "\<forall>t\<in>set ?C. \<not> tok_open t" using toks_of_closed(3) [of 1 pre] by simp
  have st: "stops ?r" using assms(2) stops_close stops_sep by blast
  have T: "\<forall>t\<in>set ?T. \<not> tok_open t" using C by (simp add: ball_Un)
  have key: "(obj_tok (-1) (int (n_ms pre) + 1) # ?T) ! nat ?s = ?key 2" by (simp add: nat_add_distrib nth_append)
  have "jsmn_loop num (?v + length a) (b @ text_ms post @ ?r) ?s (obj_tok (-1) (int (n_ms pre) + 1) # ?C @ [?key 1, ?a]) n =
    jsmn_loop num ?e (text_ms post @ ?r) ?s (obj_tok (-1) (int (n_ms pre) + 1) # ?T) (Suc n)"
    using loop_prim [OF assms(4), of ?s "obj_tok (-1) (int (n_ms pre) + 1) # ?C @ [?key 1, ?a]" num "text_ms post @ ?r" "?v + length a"] assms(5)
      bump_mid [of ?s "obj_tok (-1) (int (n_ms pre) + 1) # ?C" "?key 1" "[?a]"] stops_text_ms [OF assms(1) st]
    by (simp add: super_ok_def prim_tok_def)
  also obtain s1 where "jsmn_loop num ?e (text_ms post @ ?r) ?s (obj_tok (-1) (int (n_ms pre) + 1) # ?T) (Suc n) =
    jsmn_loop num (?e + length (text_ms post)) ?r s1 (obj_tok (-1) (int (n_ms pre) + 1 + int (n_ms post)) # ?T @ ?te) (Suc n + length ?te)"
    using jsmn_loop_ms [of num post, unfolded parses_ms_def, rule_format, of False "obj_tok (-1) (int (n_ms pre) + 1)" ?T ?s "[]" ?e ?r "Suc n"]
      assms(1,5) st T key by auto
  also obtain s2 where "jsmn_loop num (?e + length (text_ms post)) ?r s1 (obj_tok (-1) (int (n_ms pre) + 1 + int (n_ms post)) # ?T @ ?te) (Suc n + length ?te) =
    jsmn_loop num (?e + length (text_ms post) + length w) (CHR ''}'' # r) s2 (obj_tok (-1) (int (n_ms pre) + 1 + int (n_ms post)) # ?T @ ?te) (Suc n + length ?te)"
    using loop_sep [OF assms(2)] by metis
  also have "\<dots> = jsmn_loop num (?e + length (text_ms post) + length w + 1) (r @ []) (super_of None)
      (obj_tok (int (?e + length (text_ms post) + length w) + 1) (int (n_ms pre) + 1 + int (n_ms post)) # ?T @ ?te) (Suc n + length ?te)"
    using loop_close [of "CHR ''}''" "obj_tok (-1) (int (n_ms pre) + 1 + int (n_ms post))" "?T @ ?te" num "?e + length (text_ms post) + length w" r s2 "[]"]
      T toks_of_closed(3) [of "int ?e" post] by (simp add: ball_Un)
  also have "\<dots> = jsmn_loop num (?e + length (text_ms post) + length w + 1 + length r) [] (super_of None)
      (obj_tok (int (?e + length (text_ms post) + length w) + 1) (int (n_ms pre) + 1 + int (n_ms post)) # ?T @ ?te) (Suc n + length ?te)"
    using loop_ws [OF assms(3)] by metis
  finally show ?thesis
    using last_open_none [of "obj_tok (int (?e + length (text_ms post) + length w) + 1) (int (n_ms pre) + 1 + int (n_ms post)) # ?T @ ?te"]
      T toks_of_closed(3) [of "int ?e" post]
    by (simp add: cut_toks_def Let_def ball_Un tok_open_def obj_tok_def)
qed

lemma json_skip_add: "json_skip m ts = Some ts' \<Longrightarrow> json_skip (m + n) ts = json_skip n ts'"
  by (induction m arbitrary: ts) (auto split: option.splits)

lemma validate_loop_add: "validate_loop buf obj m ts = Some (ts', True) \<Longrightarrow> validate_loop buf obj (m + n) ts = validate_loop buf obj n ts'"
  by (induction m arbitrary: ts) (auto split: option.splits prod.splits if_splits simp del: validate_jsmn_datum.simps validate_jsmn_keyvalue.simps)


text \<open>The validation refuses the label with two values.\<close>

lemma cut_invalid:
  assumes "wf_ms True (app_ms pre (MCons sep k w1 w2 (CPrim a) post))"
  shows "json_next (cut_toks pre sep k w1 w2 a b post w) = Some []"
    "validate_jsmn_parse_output (before_value pre sep k w1 w2 @ x) (cut_toks pre sep k w1 w2 a b post w) = Some False"
proof -
  let ?v = "length (before_value pre sep k w1 w2)"
  let ?key = "key_tok (1 + int (length (text_ms pre) + length sep)) k 2" and ?a = "prim_tok (int ?v) a" and ?b = "prim_tok (int (?v + length a)) b"
  let ?te = "toks_ms (int (?v + length a + length b)) post"
  have skip: "json_skip (n_ms pre + Suc (n_ms post)) (toks_ms 1 pre @ ?key # ?a # ?b # ?te) = Some []"
    unfolding json_skip_add [OF json_skip_toks_ms] using json_skip_toks_ms [of post "int (?v + length a + length b)" "[]"]
    by (simp add: tok_count_def numeral_2_eq_2)
  have n: "nat (int (n_ms pre + 1 + n_ms post)) = n_ms pre + Suc (n_ms post)" by simp
  show "json_next (cut_toks pre sep k w1 w2 a b post w) = Some []"
    unfolding cut_toks_def Let_def json_next.simps tok_count_def tok_simps n using skip by simp
  let ?buf = "before_value pre sep k w1 w2 @ x"
  have "validate_loop ?buf True (n_ms pre) (toks_ms 1 pre @ ?key # ?a # ?b # ?te) = Some (?key # ?a # ?b # ?te, True)"
    using validate_toks_of(3) [of True pre "''{''" "sep @ QUOTE # k @ QUOTE # w1 @ CHR '':'' # w2 @ x"] assms by (simp add: before_value_def)
  from validate_loop_add [OF this, of "Suc (n_ms post)"]
  have "validate_loop ?buf True (n_ms pre + Suc (n_ms post)) (toks_ms 1 pre @ ?key # ?a # ?b # ?te) = Some (?key # ?a # ?b # ?te, False)" by simp
  then show "validate_jsmn_parse_output ?buf (cut_toks pre sep k w1 w2 a b post w) = Some False"
    unfolding cut_toks_def Let_def validate_jsmn_parse_output.simps validate_jsmn_datum.simps tok_simps n by simp
qed

lemma cut_stops:
  assumes "idle rd" "wf_cst (CObj (app_ms pre (MCons sep k w1 w2 (CPrim (a @ b)) post)) w)" "prim_ok a" "prim_ok b" "ws_ok r"
  shows "read_pieces handle rd [before_value pre sep k w1 w2 @ a, b @ text_ms post @ w @ CHR ''}'' # r] s = None"
proof -
  let ?x = "before_value pre sep k w1 w2 @ a" and ?y = "b @ text_ms post @ w @ CHR ''}'' # r"
  let ?T = "obj_tok (-1) (int (n_ms pre) + 1) # toks_ms 1 pre @
       [key_tok (1 + int (length (text_ms pre) + length sep)) k 1, prim_tok (int (length (before_value pre sep k w1 w2))) a]"
  have wf: "wf_ms True (app_ms pre (MCons sep k w1 w2 (CPrim a) MNil))" "wf_ms True (app_ms pre (MCons sep k w1 w2 (CPrim a) post))"
    "wf_ms False post" "sep_ok w" "wf_ms True pre" using assms(2,3) by auto
  define num where "num = length ?T + length (?x @ ?y) + 4 + length (toks_ms (int (length (before_value pre sep k w1 w2) + length a + length b)) post)"
  have num: "length (toks_ms 1 pre) + 3 \<le> num"
    "length (toks_ms 1 pre) + 4 + length (toks_ms (int (length (before_value pre sep k w1 w2) + length a + length b)) post) \<le> num"
    "length ?T + length (?x @ ?y) < num" by (auto simp: num_def)
  obtain cap where cap: "rd_cap rd \<le> cap" "json_parse_input jsmn_init [] (rd_cap rd) ?x =
      Some (PIncomplete, \<lparr>jpos = length ?x, toksuper = 1 + int (length (toks_ms 1 pre))\<rparr>, ?T, cap)"
    using json_parse_again_returns [of "rd_cap rd" "[]" jsmn_init ?x num] cut_first [OF wf(1) num(1)] assms(1) num(3)
    by (auto simp: json_parse_input_def jsmn_parse_def jsmn_init_def idle_def)
  obtain m s' where second: "jsmn_parse \<lparr>jpos = length ?x, toksuper = 1 + int (length (toks_ms 1 pre))\<rparr> (?x @ ?y) ?T num =
      (JCount m, s', cut_toks pre sep k w1 w2 a b post w)"
    using cut_second [OF wf(3,4) assms(5,4) num(2), of "length ?T"] by (auto simp: jsmn_parse_def)
  obtain cap' where "json_parse_again \<lparr>jpos = length ?x, toksuper = 1 + int (length (toks_ms 1 pre))\<rparr> ?T cap (?x @ ?y) =
      Some (JCount m, s', cut_toks pre sep k w1 w2 a b post w, cap')"
    using json_parse_again_returns [of cap ?T "\<lparr>jpos = length ?x, toksuper = 1 + int (length (toks_ms 1 pre))\<rparr>" "?x @ ?y" num] second assms(1) cap(1) num(3)
    by (auto simp: idle_def)
  then obtain z where "json_parse_input \<lparr>jpos = length ?x, toksuper = 1 + int (length (toks_ms 1 pre))\<rparr> ?T cap (?x @ ?y) = Some (PInvalid, z)"
    using cut_invalid [OF wf(2), where b = b and w = w] 
    by (cases "cut_toks pre sep k w1 w2 a b post w") (auto simp: json_parse_input_def cut_toks_def Let_def)
  then show ?thesis
    using cap(2) assms(1) by (cases z) (simp add: read_json_def read_all.simps read_one_def idle_def Let_def)
qed

end
