(* ===== verification/Handshake.thy ===== *)
theory Handshake
  imports Requests Framing
begin

text \<open>
  The life of the plugin process, from \<open>plugins/libplugin.c\<close> and \<open>plugins/payz/main.c\<close>: \<open>new_plugin\<close> and \<open>setup_command_usage\<close>, the messages \<open>getmanifest\<close> and
  \<open>init\<close> that lightningd sends first, the synchronous request to lightningd during \<open>init\<close>, and \<open>ld_command_handle\<close> as a
  whole, fed by the bytes that arrive on standard input.
\<close>

subsection \<open>State\<close>

text \<open>
  The fields of \<open>struct plugin\<close> that the start-up uses, \<open>deprecated_apis\<close>, \<open>payz_top->disablempp\<close> and the static variable \<open>default_maxdelay\<close>; \<open>rpc_sent\<close> holds the bytes written on the RPC socket. A set of
  feature bits is an array with one entry for each place.
\<close>

type_synonym feature_set = "u8 list option list"

record server =
  sv_payz :: "builtin payz"
  sv_plugin :: "out_req plugin"
  sv_manifested :: bool
  sv_initialized :: bool
  deprecated_apis :: bool
  disablempp :: bool
  our_features :: "feature_set option"
  rpc_location :: "string option"
  sv_maxdelay :: "string option"
  rpc_connected :: bool
  rpc_sent :: string

record plugin_option =
  po_name :: string
  po_type :: string
  po_description :: string
  po_deprecated :: bool

text \<open>What the operating system answers: whether \<open>chdir\<close> and \<open>connect\<close> succeed, and the bytes lightningd sends on the RPC socket.\<close>

record os =
  os_chdir :: "string \<Rightarrow> bool"
  os_connect :: "string \<Rightarrow> bool"
  os_strerror :: string
  os_rpc_input :: string

text \<open>The option of \<open>payz_main\<close>. It is the only one; \<open>disablempp\<close> is the variable that its \<open>arg\<close> points to.\<close>

definition payz_options :: "string \<Rightarrow> string \<Rightarrow> plugin_option list" where
  "payz_options pay_command keysend_command =
     [\<lparr>po_name = (if pay_command = ''pay'' \<and> keysend_command = ''keysend'' then ''disable-mpp'' else pay_command @ ''-disable-mpp''),
       po_type = ''flag'', po_description = ''Disable multi-part payments.'', po_deprecated = False\<rparr>]"

definition payecs_code_topics :: "string list" where
  "payecs_code_topics = [ECSYS_SYSTEM_NOTIFICATION]"

subsection \<open>Start\<close>

definition new_plugin :: "out_req plugin" where
  "new_plugin = \<lparr>js_arr = [], rpc_js_arr = [], next_outreq_id = 0, out_reqs = intmap_init, usagemap = strmap_init\<rparr>"

text \<open>\<open>setup_command_usage\<close>: each handler is called without parameters to record its usage.\<close>

fun usage_loop :: "plugin_command list \<Rightarrow> builtin payz \<Rightarrow> out_req plugin \<Rightarrow> (builtin payz \<times> out_req plugin) run" where
  "usage_loop [] z p = Some (z, p)"
| "usage_loop (c # cs) z p = do {
     (res, z', p') \<leftarrow> run_handler False (pc_handle c) p \<lparr>cmd_id = None, methodname = pc_name c, usage_only = True\<rparr> z [] [];
     c_assert (res = COMPLETE);
     c_assert (strmap_get (usagemap p') (pc_name c) \<noteq> None);
     usage_loop cs z' p' }"

definition setup_command_usage :: "builtin payz \<Rightarrow> out_req plugin \<Rightarrow> (builtin payz \<times> out_req plugin) run" where
  "setup_command_usage z p = usage_loop payz_commands z p"

definition plugin_start :: "server run" where
  "plugin_start = do {
     z \<leftarrow> setup_payz_top;
     (z, p) \<leftarrow> setup_command_usage z new_plugin;
     Some \<lparr>sv_payz = z, sv_plugin = p, sv_manifested = False, sv_initialized = False, deprecated_apis = False, disablempp = False,
       our_features = None, rpc_location = None, sv_maxdelay = None, rpc_connected = False, rpc_sent = []\<rparr> }"

subsection \<open>\<open>getmanifest\<close>\<close>

fun add_options :: "plugin_option list \<Rightarrow> json_stream \<Rightarrow> json_stream run" where
  "add_options [] js = Some js"
| "add_options (o1 # os) js = do {
     js \<leftarrow> json_object_start js None;
     let js = json_add_string js (Some ''name'') (po_name o1);
     let js = json_add_string js (Some ''type'') (po_type o1);
     let js = json_add_string js (Some ''description'') (po_description o1);
     let js = json_add_bool js (Some ''deprecated'') (po_deprecated o1);
     js \<leftarrow> json_object_end js;
     add_options os js }"

fun add_rpcmethods :: "string strmap \<Rightarrow> plugin_command list \<Rightarrow> json_stream \<Rightarrow> json_stream run" where
  "add_rpcmethods usages [] js = Some js"
| "add_rpcmethods usages (c # cs) js = do {
     js \<leftarrow> json_object_start js None;
     let js = json_add_string js (Some ''name'') (pc_name c);
     usage \<leftarrow> strmap_get usages (pc_name c);
     let js = json_add_string js (Some ''usage'') usage;
     let js = json_add_string js (Some ''description'') (pc_description c);
     let js = (case pc_long_description c of None \<Rightarrow> js | Some d \<Rightarrow> json_add_string js (Some ''long_description'') d);
     let js = json_add_bool js (Some ''deprecated'') (pc_deprecated c);
     js \<leftarrow> json_object_end js;
     add_rpcmethods usages cs js }"

definition add_strings :: "string list \<Rightarrow> json_stream \<Rightarrow> json_stream" where
  "add_strings ss js = fold (\<lambda>s js. json_add_string js None s) ss js"

definition feature_place_names :: "string option list" where
  "feature_place_names = [Some ''init'', None, Some ''node'', Some ''channel'', Some ''invoice'']"

fun add_featurebits :: "(u8 list option \<times> string option) list \<Rightarrow> json_stream \<Rightarrow> json_stream run" where
  "add_featurebits [] js = Some js"
| "add_featurebits ((f, None) # fs) js = add_featurebits fs js"
| "add_featurebits ((f, Some name) # fs) js = do {
     js \<leftarrow> json_add_hex js (Some name) (case f of None \<Rightarrow> [] | Some bs \<Rightarrow> bs);
     add_featurebits fs js }"

fun add_topics :: "string list \<Rightarrow> json_stream \<Rightarrow> json_stream run" where
  "add_topics [] js = Some js"
| "add_topics (s # ss) js = do {
     js \<leftarrow> json_object_start js None;
     let js = json_add_string js (Some ''method'') s;
     js \<leftarrow> json_object_end js;
     add_topics ss js }"

text \<open>
  \<open>handle_getmanifest\<close>, compiled without \<open>DEVELOPER\<close>. The plugin has no hooks (\<open>payz_top->hooks\<close> is \<open>NULL\<close>), and it is
  \<open>PLUGIN_STATIC\<close>.
\<close>

definition read_deprecated :: "string \<Rightarrow> tokptr \<Rightarrow> bool run" where
  "read_deprecated buf params = do {
     dep \<leftarrow> json_get_member buf params ''allow-deprecated-apis'';
     case dep of
       None \<Rightarrow> Some True
     | Some d \<Rightarrow> do { t \<leftarrow> deref d; json_to_bool buf t \<bind> id } }"

definition write_manifest :: "plugin_option list \<Rightarrow> string strmap \<Rightarrow> feature_set option \<Rightarrow> json_stream \<Rightarrow> json_stream run" where
  "write_manifest opts usages features js = do {
     js \<leftarrow> json_array_start js (Some ''options'');
     js \<leftarrow> add_options opts js;
     js \<leftarrow> json_array_end js;
     js \<leftarrow> json_array_start js (Some ''rpcmethods'');
     js \<leftarrow> add_rpcmethods usages payz_commands js;
     js \<leftarrow> json_array_end js;
     js \<leftarrow> json_array_start js (Some ''subscriptions'');
     js \<leftarrow> json_array_end (add_strings payecs_code_notifications js);
     js \<leftarrow> json_array_start js (Some ''hooks'');
     js \<leftarrow> json_array_end js;
     js \<leftarrow> (case features of
         None \<Rightarrow> Some js
       | Some bits \<Rightarrow> do {
           js \<leftarrow> json_object_start js (Some ''featurebits'');
           js \<leftarrow> add_featurebits (zip bits feature_place_names) js;
           json_object_end js });
     let js = json_add_bool js (Some ''dynamic'') False;
     js \<leftarrow> json_array_start js (Some ''notifications'');
     js \<leftarrow> add_topics payecs_code_topics js;
     json_array_end js }"

definition handle_getmanifest :: "plugin_option list \<Rightarrow> command \<Rightarrow> server \<Rightarrow> string \<Rightarrow> tokptr \<Rightarrow> server run" where
  "handle_getmanifest opts cmd sv buf params = do {
     js \<leftarrow> jsonrpc_stream_success cmd;
     dep \<leftarrow> read_deprecated buf params;
     js \<leftarrow> write_manifest opts (usagemap (sv_plugin sv)) (our_features sv) js;
     (res, p) \<leftarrow> command_finished (sv_plugin sv) cmd js;
     Some (sv\<lparr>sv_plugin := p, deprecated_apis := dep\<rparr>) }"

subsection \<open>The synchronous request\<close>

text \<open>
  \<open>read_json_from_rpc\<close>: the length of the first message that ends with two newlines, among the bytes of the
  socket. When the bytes end before that, lightningd has gone away and the process exits.
\<close>

fun read_json_from_rpc :: "string \<Rightarrow> nat run" where
  "read_json_from_rpc (c # d # cs) =
     (if c = LF \<and> d = LF then Some 2 else map_option Suc (read_json_from_rpc (d # cs)))"
| "read_json_from_rpc _ = None"

text \<open>\<open>read_rpc_reply\<close>: a message without an \<open>id\<close> stays in the buffer and is read again.\<close>

partial_function (option) read_rpc_reply :: "string \<Rightarrow> (nat \<times> bool \<times> tokptr) option" where
  "read_rpc_reply mb = do {
     reqlen \<leftarrow> read_json_from_rpc mb;
     parsed \<leftarrow> json_parse_simple (take reqlen mb);
     case parsed of
       None \<Rightarrow> None
     | Some toks \<Rightarrow> do {
         idtok \<leftarrow> json_get_member mb toks ''id'';
         case idtok of
           None \<Rightarrow> read_rpc_reply mb
         | Some _ \<Rightarrow> do {
             err \<leftarrow> json_get_member mb toks ''error'';
             case err of
               Some contents \<Rightarrow> Some (reqlen, True, contents)
             | None \<Rightarrow> do {
                 result \<leftarrow> json_get_member mb toks ''result'';
                 case result of None \<Rightarrow> None | Some contents \<Rightarrow> Some (reqlen, False, contents) } } } }"

declare read_rpc_reply.simps [code]

text \<open>The request of \<open>start_json_request\<close> and \<open>finish_and_send_json\<close>, and \<open>rpc_scan\<close> for \<open>listconfigs\<close>: the text written to the socket and the value read.\<close>

definition start_json_rpc :: "u64 \<Rightarrow> json_out run" where
  "start_json_rpc id1 = do {
     j \<leftarrow> json_out_start json_out_new None (CHR ''{'');
     let j = json_out_addstr j (Some ''jsonrpc'') ''2.0'';
     Some (json_out_addv j (Some ''id'') False (dec_of_nat (unat id1))) }"

definition start_json_request :: "u64 \<Rightarrow> string \<Rightarrow> json_out \<Rightarrow> json_out run" where
  "start_json_request id1 meth params = do {
     j \<leftarrow> start_json_rpc id1;
     let j = json_out_addstr j (Some ''method'') meth;
     Some (fst (json_out_add_splice j (Some ''params'') params)) }"

definition finish_and_send_json :: "json_out \<Rightarrow> string run" where
  "finish_and_send_json j = do {
     j \<leftarrow> json_out_end j (CHR ''}'');
     json_out_contents (json_out_finished (json_out_direct j [LF, LF])) }"

definition rpc_scan_listconfigs :: "string \<Rightarrow> (string \<times> string) run" where
  "rpc_scan_listconfigs mb = do {
     params \<leftarrow> json_out_obj None None;
     j \<leftarrow> start_json_request 0 ''listconfigs'' params;
     sent \<leftarrow> finish_and_send_json j;
     (reqlen, error, contents) \<leftarrow> read_rpc_reply mb;
     if error then None
     else do {
       v \<leftarrow> system_defaulter_init mb contents;
       Some (sent, v) } }"

subsection \<open>\<open>init\<close>\<close>

definition json_tok_bin_from_hex :: "string \<Rightarrow> tokptr \<Rightarrow> u8 list option run" where
  "json_tok_bin_from_hex buffer tok = do {
     t \<leftarrow> deref tok;
     str \<leftarrow> slice buffer (tok_start t) (tok_end t);
     Some (hex_decode str (hex_data_size (length str))) }"

text \<open>The place of a feature set, by name; other names are skipped.\<close>

definition feature_place :: "string \<Rightarrow> tokptr \<Rightarrow> nat option run" where
  "feature_place buf t = do {
     k \<leftarrow> deref t;
     init \<leftarrow> json_tok_streq buf k ''init'';
     node \<leftarrow> json_tok_streq buf k ''node'';
     channel \<leftarrow> json_tok_streq buf k ''channel'';
     invoice \<leftarrow> json_tok_streq buf k ''invoice'';
     Some (if init then Some 0 else if node then Some 2 else if channel then Some 3 else if invoice then Some 4 else None) }"

definition feature_body :: "string \<Rightarrow> tokptr \<Rightarrow> feature_set \<Rightarrow> (feature_set + feature_set) run" where
  "feature_body buf t bits = do {
     place \<leftarrow> feature_place buf t;
     case place of
       None \<Rightarrow> Some (Inr bits)
     | Some i \<Rightarrow> do { b \<leftarrow> json_tok_bin_from_hex buf (tl t); Some (Inr (bits[i := b])) } }"

definition json_to_feature_set :: "string \<Rightarrow> tokptr \<Rightarrow> feature_set run" where
  "json_to_feature_set buf features = after_loop (json_for_each_obj features (feature_body buf) (replicate 5 None)) Some"

datatype init_val = IStr string | IFeatures feature_set

definition init_strdup :: "string \<Rightarrow> tokptr \<Rightarrow> init_val option run" where
  "init_strdup buf ts = do { s \<leftarrow> scan_strdup buf ts; Some (map_option IStr s) }"

definition init_features :: "string \<Rightarrow> tokptr \<Rightarrow> init_val option run" where
  "init_features buf ts = do { f \<leftarrow> json_to_feature_set buf ts; Some (Some (IFeatures f)) }"

definition scan_configuration :: "string \<Rightarrow> tokptr \<Rightarrow> (string \<times> string \<times> feature_set \<times> string) run" where
  "scan_configuration buf configtok = do {
     r \<leftarrow> json_scan buf configtok (''{lightning-dir:%'' @ '',network:%'' @ '',feature_set:%'' @ '',rpc-file:%}'')
       [(''json_strdup'', init_strdup), (''json_strdup'', init_strdup), (''json_to_feature_set'', init_features), (''json_strdup'', init_strdup)];
     case r of
       Inr [IStr dir, IStr network, IFeatures features, IStr location] \<Rightarrow> Some (dir, network, features, location)
     | _ \<Rightarrow> None }"

text \<open>\<open>flag_option\<close>: the problem, if any, and the flag. The assertion fails when the option is given twice.\<close>

definition flag_option :: "string \<Rightarrow> bool \<Rightarrow> (string option \<times> bool) run" where
  "flag_option arg i = do {
     c_assert (\<not> i);
     Some (if arg \<noteq> ''true'' then (Some (''Invalid argument '' @ [CHR 0x27] @ arg @ [CHR 0x27] @ '' passed to a flag''), False) else (None, True)) }"

definition option_body :: "plugin_option list \<Rightarrow> string \<Rightarrow> tokptr \<Rightarrow> bool \<Rightarrow> (bool + bool) run" where
  "option_body opts buf t flag = do {
     k \<leftarrow> deref t;
     opt \<leftarrow> json_strdup buf k;
     if opt \<notin> po_name ` set opts then Some (Inr flag)
     else do {
       v \<leftarrow> deref (tl t);
       arg \<leftarrow> json_strdup buf v;
       (problem, flag') \<leftarrow> flag_option arg flag;
       if problem \<noteq> None then None else Some (Inr flag') } }"

definition read_options :: "plugin_option list \<Rightarrow> string \<Rightarrow> tokptr \<Rightarrow> bool \<Rightarrow> bool run" where
  "read_options opts buf opttok flag = after_loop (json_for_each_obj opttok (option_body opts buf) flag) Some"

text \<open>
  \<open>handle_init\<close>. The socket is always configured (\<open>init_rpc\<close> is true). \<open>chainparams_for_network\<close>, which ignores
  its argument, sets a global that the plugin does not read. \<open>rpc_sent\<close> is what was written on the socket. \<open>payz_top_init\<close> sends \<open>listconfigs\<close> and waits for the reply, which \<open>plugin_err\<close> ends when the socket is not
  connected; it never disables the plugin.
\<close>

definition SUN_PATH :: nat where
  "SUN_PATH = 108"

definition connect_rpc :: "os \<Rightarrow> string \<Rightarrow> out_req plugin \<Rightarrow> (bool \<times> out_req plugin) run" where
  "connect_rpc os location p =
     (if length location + 1 > SUN_PATH then None
      else if os_connect os location then Some (True, p)
      else do {
        p' \<leftarrow> plugin_log p LOG_UNUSUAL (''Could not connect to '' @ [CHR 0x27] @ location @ [CHR 0x27] @ '': '' @ os_strerror os);
        Some (False, p') })"

definition payz_top_init :: "os \<Rightarrow> bool \<Rightarrow> (string \<times> string) run" where
  "payz_top_init os connected = (if \<not> connected then None else rpc_scan_listconfigs (os_rpc_input os))"

definition handle_init :: "os \<Rightarrow> plugin_option list \<Rightarrow> command \<Rightarrow> server \<Rightarrow> string \<Rightarrow> tokptr \<Rightarrow> server run" where
  "handle_init os opts cmd sv buf params = do {
     configtok \<leftarrow> json_get_member buf params ''configuration'';
     case configtok of
       None \<Rightarrow> None
     | Some configtok \<Rightarrow> do {
         (dir, network, features, location) \<leftarrow> scan_configuration buf configtok;
         c_assert (os_chdir os dir);
         (with_rpc, p) \<leftarrow> connect_rpc os location (sv_plugin sv);
         opttok \<leftarrow> json_get_member buf params ''options'';
         case opttok of
           None \<Rightarrow> None
         | Some opttok \<Rightarrow> do {
             flag \<leftarrow> read_options opts buf opttok (disablempp sv);
             (sent, maxdelay) \<leftarrow> payz_top_init os with_rpc;
             result \<leftarrow> json_out_obj None None;
             (res, p) \<leftarrow> command_success p cmd result;
             Some (sv\<lparr>sv_plugin := p, disablempp := flag, our_features := Some features, rpc_location := Some location,
               sv_maxdelay := Some maxdelay, rpc_connected := with_rpc, rpc_sent := rpc_sent sv @ sent\<rparr>) } } }"

subsection \<open>Messages from lightningd\<close>

text \<open>\<open>ld_command_handle\<close> as a whole. The delay read by \<open>init\<close> takes the place of the one in the environment.\<close>

definition run_command ::
  "environment \<Rightarrow> bool \<Rightarrow> timeabs \<Rightarrow> command \<Rightarrow> server \<Rightarrow> string \<Rightarrow> tokptr \<Rightarrow> server run" where
  "run_command env erange now cmd sv buf params = do {
     (res, z, p) \<leftarrow> ld_command_dispatch (env\<lparr>default_maxdelay := sv_maxdelay sv\<rparr>) erange now (sv_plugin sv) (sv_payz sv) cmd buf params;
     Some (sv\<lparr>sv_payz := z, sv_plugin := p\<rparr>) }"

definition ld_command_handle ::
  "os \<Rightarrow> plugin_option list \<Rightarrow> environment \<Rightarrow> bool \<Rightarrow> timeabs \<Rightarrow> string \<Rightarrow> tokptr \<Rightarrow> server \<Rightarrow> server run" where
  "ld_command_handle os opts env erange now buf toks sv = do {
     (cmd, params) \<leftarrow> ld_command_read erange buf toks;
     if \<not> sv_manifested sv then
       (if methodname cmd = ''getmanifest'' then do {
          sv' \<leftarrow> handle_getmanifest opts cmd sv buf params;
          Some (sv'\<lparr>sv_manifested := True\<rparr>) }
        else None)
     else if \<not> sv_initialized sv then
       (if methodname cmd = ''init'' then do {
          sv' \<leftarrow> handle_init os opts cmd sv buf params;
          Some (sv'\<lparr>sv_initialized := True\<rparr>) }
        else None)
     else run_command env erange now cmd sv buf params }"

text \<open>
  The two streams: standard input, and the replies on the RPC socket, which have to be JSON-RPC. The state has the
  number of messages handled, and what surrounds a message (environment, \<open>errno\<close>, time) depends on it.
\<close>

type_synonym surroundings = "environment \<times> bool \<times> timeabs"

definition ld_message ::
  "os \<Rightarrow> plugin_option list \<Rightarrow> (nat \<Rightarrow> surroundings) \<Rightarrow> string \<Rightarrow> tokptr \<Rightarrow> nat \<times> server \<Rightarrow> (nat \<times> server) run" where
  "ld_message os opts around buf toks s = (case (s, around (fst s)) of ((i, sv), (env, erange, now)) \<Rightarrow> do {
     sv' \<leftarrow> ld_command_handle os opts env erange now buf toks sv;
     Some (Suc i, sv') })"

definition ld_read_json ::
  "os \<Rightarrow> plugin_option list \<Rightarrow> (nat \<Rightarrow> surroundings) \<Rightarrow> reader \<Rightarrow> string \<Rightarrow> nat \<times> server \<Rightarrow> (reader \<times> nat \<times> server) run" where
  "ld_read_json os opts around = read_json (ld_message os opts around)"

definition rpc_response :: "(nat \<Rightarrow> bool) \<Rightarrow> string \<Rightarrow> tokptr \<Rightarrow> nat \<times> server \<Rightarrow> (nat \<times> server) run" where
  "rpc_response erange buf toks s = (case s of (i, sv) \<Rightarrow> do {
     jrtok \<leftarrow> json_get_member buf toks ''jsonrpc'';
     case jrtok of
       None \<Rightarrow> None
     | Some _ \<Rightarrow> do {
         (res, ecs, p) \<leftarrow> reply_callback (top_ecs (sv_payz sv)) (sv_plugin sv) (erange i) buf toks;
         Some (Suc i, sv\<lparr>sv_payz := (sv_payz sv)\<lparr>top_ecs := ecs\<rparr>, sv_plugin := p\<rparr>) } })"

definition rpc_conn_read_response :: "(nat \<Rightarrow> bool) \<Rightarrow> reader \<Rightarrow> string \<Rightarrow> nat \<times> server \<Rightarrow> (reader \<times> nat \<times> server) run" where
  "rpc_conn_read_response erange = read_json (rpc_response erange)"

text \<open>\<open>ld_write_json\<close> and \<open>ld_stream_complete\<close>: the first message of the queue is written and then removed.\<close>

definition ld_write_json :: "server \<Rightarrow> (string \<times> server) option" where
  "ld_write_json sv = (case js_arr (sv_plugin sv) of
     [] \<Rightarrow> None
   | m # ms \<Rightarrow> Some (m, sv\<lparr>sv_plugin := (sv_plugin sv)\<lparr>js_arr := ms\<rparr>\<rparr>))"

definition rpc_conn_write_request :: "server \<Rightarrow> (string \<times> server) option" where
  "rpc_conn_write_request sv = (case rpc_js_arr (sv_plugin sv) of
     [] \<Rightarrow> None
   | m # ms \<Rightarrow> Some (m, sv\<lparr>sv_plugin := (sv_plugin sv)\<lparr>rpc_js_arr := ms\<rparr>\<rparr>))"

subsection \<open>The usage of every command is recorded\<close>

fun usage_text :: "plugin_handler \<Rightarrow> string" where
  "usage_text LISTENTITIES = ''[required] [disallowed]''"
| "usage_text NEWENTITY = ''''"
| "usage_text GETCOMPONENTS = ''entity components''"
| "usage_text SETCOMPONENTS = ''writes [expected]''"
| "usage_text NEWSYSTEM = ''system required [disallowed]''"
| "usage_text ADVANCE = ''entity''"
| "usage_text GETDEFAULTSYSTEMS = ''''"
| "usage_text SETDEFAULTSYSTEMS = ''entity [prepend] [append]''"
| "usage_text SYSTRACE = ''entity''"

lemma usage_handler:
  assumes "usage_only cmd"
  shows "run_handler erange h p cmd z buf ts = do { p' \<leftarrow> command_set_usage p cmd (usage_text h); Some (COMPLETE, z, p') }"
  using assms
  by (cases h) (simp_all add: payecs_listentities_def payecs_newentity_def payecs_getcomponents_def payecs_setcomponents_def
      payecs_newsystem_def payecs_advance_def payecs_getdefaultsystems_def payecs_setdefaultsystems_def payecs_systrace_def param_def
      p_req_def p_opt_def command_param_failed_def)

definition usages_of :: "plugin_command list \<Rightarrow> string \<rightharpoonup> string" where
  "usages_of cs = map_of (map (\<lambda>c. (pc_name c, usage_text (pc_handle c))) cs)"

lemma usage_loop_spec:
  assumes "distinct (map pc_name cs)" "list_all (\<lambda>c. c_string (pc_name c)) cs" "strmap_inv (usagemap p)"
    and "\<forall>c\<in>set cs. strmap_get (usagemap p) (pc_name c) = None"
  shows "\<exists>m. usage_loop cs z p = Some (z, p\<lparr>usagemap := m\<rparr>) \<and> strmap_inv m \<and> strmap_get m = strmap_get (usagemap p) ++ usages_of cs"
  using assms
proof (induction cs arbitrary: p)
  case (Cons c cs)
  let ?m = "snd (strmap_add (usagemap p) (pc_name c) (usage_text (pc_handle c)))"
  have c: "c_string (pc_name c)" "strmap_get (usagemap p) (pc_name c) = None" using Cons.prems by auto
  have add: "fst (strmap_add (usagemap p) (pc_name c) (usage_text (pc_handle c)))" "strmap_inv ?m"
    "strmap_get ?m = (strmap_get (usagemap p))(pc_name c \<mapsto> usage_text (pc_handle c))"
    using sm.add_fresh [OF Cons.prems(3) c] sm.lookup_add [OF Cons.prems(3) c] by auto
  have "command_set_usage p \<lparr>cmd_id = None, methodname = pc_name c, usage_only = True\<rparr> (usage_text (pc_handle c)) = Some (p\<lparr>usagemap := ?m\<rparr>)"
    using add(1) by (simp add: command_set_usage_def split_beta)
  then have step: "usage_loop (c # cs) z p = usage_loop cs z (p\<lparr>usagemap := ?m\<rparr>)"
    using add(3) by (simp add: usage_handler c_assert_def)
  have "\<forall>d\<in>set cs. strmap_get ?m (pc_name d) = None" using Cons.prems(1,4) add(3) by (metis distinct.simps(2) fun_upd_other image_eqI list.set_map list.simps(9) list.set_intros(2))
  then have "\<exists>m. usage_loop cs z (p\<lparr>usagemap := ?m\<rparr>) = Some (z, p\<lparr>usagemap := ?m, usagemap := m\<rparr>) \<and> strmap_inv m \<and>
      strmap_get m = strmap_get ?m ++ usages_of cs"
    using Cons.prems(1,2) add(2) Cons.IH [of "p\<lparr>usagemap := ?m\<rparr>"] by simp
  moreover have "strmap_get ?m ++ usages_of cs = strmap_get (usagemap p) ++ usages_of (c # cs)"
  proof -
    have "usages_of cs (pc_name c) = None" using Cons.prems(1) by (auto simp: usages_of_def map_of_eq_None_iff)
    then show ?thesis unfolding add(3) by (auto simp: usages_of_def map_add_def fun_eq_iff split: option.split)
  qed
  ultimately show ?case unfolding step by auto
next
  case Nil
  then show ?case by (intro exI [of _ "usagemap p"]) (simp add: usages_of_def)
qed

lemma payz_command_names: "map pc_name payz_commands =
   [''payecs_listentities'', ''payecs_newentity'', ''payecs_getcomponents'', ''payecs_setcomponents'', ''payecs_newsystem'',
    ''payecs_advance'', ''payecs_getdefaultsystems'', ''payecs_setdefaultsystems'', ''payecs_systrace'']"
  by (simp add: payz_commands_def payecs_data_commands_def payecs_code_commands_def plugin_cmd_def)

lemma plugin_start_spec:
  "\<exists>z m. setup_payz_top = Some z \<and> strmap_get m = usages_of payz_commands \<and>
    plugin_start = Some \<lparr>sv_payz = z, sv_plugin = new_plugin\<lparr>usagemap := m\<rparr>, sv_manifested = False, sv_initialized = False,
      deprecated_apis = False, disablempp = False, our_features = None, rpc_location = None, sv_maxdelay = None, rpc_connected = False, rpc_sent = []\<rparr>"
proof -
  obtain z where z: "setup_payz_top = Some z" using setup_payz_top_spec by blast
  have names: "distinct (map pc_name payz_commands)" "list_all c_string (map pc_name payz_commands)" unfolding payz_command_names by simp_all
  have empty: "strmap_inv (usagemap new_plugin)" "strmap_get (usagemap new_plugin) k = None" for k
    using sm.invar_empty sm.lookup_empty by (simp_all add: new_plugin_def)
  obtain m where "usage_loop payz_commands z new_plugin = Some (z, new_plugin\<lparr>usagemap := m\<rparr>)"
    "strmap_get m = strmap_get (usagemap new_plugin) ++ usages_of payz_commands"
    using usage_loop_spec [OF names(1) _ empty(1), of z] names(2) empty(2) by (auto simp: list.pred_map comp_def)
  moreover have "strmap_get (usagemap new_plugin) = Map.empty" using empty(2) by blast
  ultimately show ?thesis unfolding plugin_start_def setup_command_usage_def z by (intro exI [of _ z] exI [of _ m]) simp
qed

subsection \<open>The manifest\<close>

definition CBool :: "bool \<Rightarrow> cst" where
  "CBool b = CPrim (if b then ''true'' else ''false'')"

definition option_cst :: "plugin_option \<Rightarrow> cst" where
  "option_cst o1 = mk_obj [(''name'', CString (po_name o1)), (''type'', CString (po_type o1)),
     (''description'', CString (po_description o1)), (''deprecated'', CBool (po_deprecated o1))]"

definition method_cst :: "plugin_command \<Rightarrow> cst" where
  "method_cst c = mk_obj ([(''name'', CString (pc_name c)), (''usage'', CString (usage_text (pc_handle c))),
     (''description'', CString (pc_description c))] @
     (case pc_long_description c of None \<Rightarrow> [] | Some d \<Rightarrow> [(''long_description'', CString d)]) @
     [(''deprecated'', CBool (pc_deprecated c))])"

definition manifest_members :: "plugin_option list \<Rightarrow> (string \<times> cst) list" where
  "manifest_members opts = [(''options'', mk_arr (map option_cst opts)), (''rpcmethods'', mk_arr (map method_cst payz_commands)),
     (''subscriptions'', mk_arr (map CString payecs_code_notifications)), (''hooks'', mk_arr []), (''dynamic'', CBool False),
     (''notifications'', mk_arr (map (\<lambda>s. mk_obj [(''method'', CString s)]) payecs_code_topics))]"

lemma json_add_bool_eq: "json_add_bool js f b = add_value f (CBool b) js"
  by (simp add: json_add_bool_def json_add_member_def json_out_addv_def json_out_member_direct_def json_out_direct_def add_value_def CBool_def)

definition add_elems :: "cst list \<Rightarrow> json_stream \<Rightarrow> json_stream" where
  "add_elems cs js = fold (add_value None) cs js"

lemma add_elems_simps: "add_elems [] js = js" "add_elems (c # cs) js = add_elems cs (add_value None c js)"
  by (simp_all add: add_elems_def)

definition option_ok :: "plugin_option \<Rightarrow> bool" where
  "option_ok o1 \<longleftrightarrow> c_string (po_name o1) \<and> c_string (po_type o1) \<and> c_string (po_description o1)"

lemma add_options_eq: "list_all option_ok opts \<Longrightarrow> add_options opts js = Some (add_elems (map option_cst opts) js)"
  by (induction opts arbitrary: js)
    (simp_all add: start_obj_eq json_add_string_eq option_ok_def json_add_bool_eq add_members_single add_members_append end_members
      add_elems_simps option_cst_def)

definition command_ok :: "plugin_command \<Rightarrow> bool" where
  "command_ok c \<longleftrightarrow> c_string (pc_name c) \<and> c_string (pc_description c) \<and> pred_option c_string (pc_long_description c)"

lemma usage_text_ok [simp]: "c_string (usage_text h)"
  by (cases h) simp_all

lemma add_rpcmethods_eq:
  assumes "list_all command_ok cs" "\<forall>c\<in>set cs. strmap_get usages (pc_name c) = Some (usage_text (pc_handle c))"
  shows "add_rpcmethods usages cs js = Some (add_elems (map method_cst cs) js)"
  using assms
proof (induction cs arbitrary: js)
  case (Cons c cs)
  then show ?case
    by (cases "pc_long_description c")
      (simp_all add: start_obj_eq json_add_string_eq command_ok_def json_add_bool_eq add_members_single add_members_append end_members
        add_elems_simps method_cst_def)
qed (simp add: add_elems_simps)

lemma add_strings_eq: "list_all c_string ss \<Longrightarrow> add_strings ss js = add_elems (map CString ss) js"
  by (induction ss arbitrary: js) (simp_all add: add_strings_def add_elems_simps json_add_string_eq)

lemma add_topics_eq: "list_all c_string ss \<Longrightarrow> add_topics ss js = Some (add_elems (map (\<lambda>s. mk_obj [(''method'', CString s)]) ss) js)"
  by (induction ss arbitrary: js) (simp_all add: start_obj_eq json_add_string_eq add_members_single end_members add_elems_simps)

definition start_arr :: "json_stream \<Rightarrow> string option \<Rightarrow> json_stream" where
  "start_arr js f = (json_out_member_direct js f ''['')\<lparr>jout_empty := True\<rparr>"

lemma start_arr_eq: "json_array_start js f = Some (start_arr js f)" and end_elems: "json_array_end (add_elems cs (start_arr js f)) = Some (add_value f (mk_arr cs) js)"
  using write_array by (simp_all add: start_arr_def json_array_start_eq add_elems_def)

lemma payz_commands_ok: "list_all command_ok payz_commands"
  by (simp add: payz_commands_def payecs_data_commands_def payecs_code_commands_def plugin_cmd_def command_ok_def)

lemma usages_of_get: "distinct (map pc_name cs) \<Longrightarrow> c \<in> set cs \<Longrightarrow> usages_of cs (pc_name c) = Some (usage_text (pc_handle c))"
  unfolding usages_of_def by (intro map_of_is_SomeI) (auto simp: comp_def)

lemma write_manifest_eq:
  assumes "list_all option_ok opts" "strmap_get usages = usages_of payz_commands"
  shows "write_manifest opts usages None js = Some (add_members (manifest_members opts) js)"
proof -
  have names: "distinct (map pc_name payz_commands)" unfolding payz_command_names by simp
  have u: "\<forall>c\<in>set payz_commands. strmap_get usages (pc_name c) = Some (usage_text (pc_handle c))"
    using assms(2) usages_of_get [OF names] by simp
  have c: "list_all c_string payecs_code_notifications" "list_all c_string payecs_code_topics"
    by (simp_all add: payecs_code_notifications_def payecs_code_topics_def ECSYS_SYSTEM_NOTIFICATION_def)
  have "json_array_end (start_arr js f) = Some (add_value f (mk_arr []) js)" for js f using end_elems [of "[]"] by (simp add: add_elems_simps)
  then show ?thesis
    by (simp add: write_manifest_def start_arr_eq add_options_eq [OF assms(1)] end_elems add_rpcmethods_eq [OF payz_commands_ok u]
        add_strings_eq [OF c(1)] add_topics_eq [OF c(2)] json_add_bool_eq add_members_single add_members_append manifest_members_def)
qed

lemma getmanifest_spec:
  assumes "list_all option_ok opts" "strmap_get (usagemap (sv_plugin sv)) = usages_of payz_commands" "our_features sv = None"
    and "cmd_id cmd = Some rid" "read_deprecated buf params = Some dep"
  shows "handle_getmanifest opts cmd sv buf params = Some (sv\<lparr>deprecated_apis := dep,
    sv_plugin := (sv_plugin sv)\<lparr>js_arr := js_arr (sv_plugin sv) @ [reply rid (''result'', mk_obj (manifest_members opts))]\<rparr>\<rparr>)"
  using assms
  by (simp add: handle_getmanifest_def jsonrpc_stream_success_def jsonrpc_stream_start_eq start_obj_eq write_manifest_eq command_finished_reply)

subsection \<open>The reply to \<open>listconfigs\<close>\<close>

lemma read_json_from_rpc_message: "LF \<notin> set s \<Longrightarrow> read_json_from_rpc (s @ LF # LF # r) = Some (length s + 2)"
proof (induction s)
  case (Cons c s)
  then show ?case by (cases s) auto
qed simp

definition listconfigs_request :: string where
  "listconfigs_request = text_of (mk_obj [VERSION, (''id'', CPrim ''0''), (''method'', CStr ''listconfigs''), (''params'', mk_obj [])]) @ [LF, LF]"

lemma read_rpc_reply_message:
  assumes "wf_cst (mk_obj ms)" "LF \<notin> set (text_of (mk_obj ms))" "map_of ms ''id'' \<noteq> None"
    and "map_of ms ''error'' = None" "map_of ms ''result'' = Some c"
  shows "\<exists>n contents. inner (text_of (mk_obj ms) @ LF # LF # r) contents c \<and>
    read_rpc_reply (text_of (mk_obj ms) @ LF # LF # r) = Some (n, False, contents)"
proof -
  let ?c = "mk_obj ms" and ?mb = "text_of (mk_obj ms) @ LF # LF # r"
  let ?toks = "toks_of 0 ?c @ [terminator]"
  have "json_parse_simple (text_of ?c @ [LF, LF]) = Some (Some ?toks)"
    using json_parse_simple_cst [OF assms(1), of "[]" "[LF, LF]"] by (simp add: ws_ok_def)
  moreover have "take (length (text_of ?c) + 2) ?mb = text_of ?c @ [LF, LF]" by simp
  ultimately have parse: "read_json_from_rpc ?mb = Some (length (text_of ?c) + 2)"
    "json_parse_simple (take (length (text_of ?c) + 2) ?mb) = Some (Some ?toks)"
    using read_json_from_rpc_message [OF assms(2)] by simp_all
  have d: "denotes ?mb ?toks ?c" using denotesI [OF assms(1), of ?mb "[]" "LF # LF # r" ?toks "[terminator]"] by simp
  note get = json_get_member_mk_obj [OF d]
  obtain i where "json_get_member ?mb ?toks ''id'' = Some (Some i)" using get [of "''id''"] assms(3) by (auto split: option.splits)
  moreover have "json_get_member ?mb ?toks ''error'' = Some None" using get [of "''error''"] assms(4) by simp
  moreover obtain contents where "json_get_member ?mb ?toks ''result'' = Some (Some contents)" "inner ?mb contents c"
    using get [of "''result''"] assms(5) by auto
  ultimately show ?thesis using parse by (subst read_rpc_reply.simps) auto
qed

lemma strdup_text:
  assumes "inner buf ts c" "c = CStr s \<or> c = CPrim s"
  shows "\<exists>t us. ts = t # us \<and> json_strdup buf t = Some s"
proof -
  obtain t us where ts: "ts = t # us" using denotes_deref [OF inner_denotes [OF assms(1)]] by blast
  have "c_string s" using assms str_ok_c_string by (auto simp: inner_def prim_ok_def c_string_def list_all_iff)
  moreover have "slice buf (tok_start t) (tok_end t) = Some s"
    using assms(2) inner_denotes [OF assms(1)] denotes_prim [of buf t us s] denotes_string [of buf t us s] by (auto simp: ts)
  ultimately show ?thesis by (simp add: ts json_strdup_def)
qed

lemma rpc_scan_listconfigs_reply:
  assumes "wf_cst (mk_obj ms)" "LF \<notin> set (text_of (mk_obj ms))" "map_of ms ''id'' \<noteq> None" "map_of ms ''error'' = None"
    and "map_of ms ''result'' = Some (mk_obj rs)" "map_of rs ''max-locktime-blocks'' = Some (CPrim v)"
  shows "rpc_scan_listconfigs (text_of (mk_obj ms) @ LF # LF # r) = Some (listconfigs_request, v)"
proof -
  let ?mb = "text_of (mk_obj ms) @ LF # LF # r"
  obtain n contents where c: "inner ?mb contents (mk_obj rs)" "read_rpc_reply ?mb = Some (n, False, contents)"
    using read_rpc_reply_message [OF assms(1-5)] by blast
  have str: "scan_strdup ?mb ts = Some (Some v)" if "inner ?mb ts (CPrim v)" for ts
    using strdup_text [OF that] by (auto simp: scan_strdup_def)
  have "system_defaulter_init ?mb contents = Some v"
    using scan_member [OF inner_denotes [OF c(1)] assms(6), of scan_strdup v "''json_strdup''"] str
    by (simp add: system_defaulter_init_def literal_char_def)
  moreover have "json_out_obj None None \<bind> (\<lambda>params. start_json_request 0 ''listconfigs'' params \<bind> finish_and_send_json) = Some listconfigs_request"
    by code_simp
  ultimately show ?thesis using c(2) by (auto simp: rpc_scan_listconfigs_def bind_eq_Some_conv)
qed

subsection \<open>Options\<close>

text \<open>
  Options of other names are skipped; the flag may be given once, as \<open>true\<close>. A second time fails the assertion
  of \<open>flag_option\<close>, another value is an error.
\<close>

fun options_flag :: "string set \<Rightarrow> (string \<times> cst) list \<Rightarrow> bool \<Rightarrow> bool option" where
  "options_flag names [] flag = Some flag"
| "options_flag names ((k, c) # xs) flag =
     (if k \<notin> names then options_flag names xs flag
      else if flag \<or> c \<noteq> CStr ''true'' \<and> c \<noteq> CPrim ''true'' then None
      else options_flag names xs True)"

definition scalar :: "cst \<Rightarrow> bool" where
  "scalar c \<longleftrightarrow> (case c of CStr _ \<Rightarrow> True | CPrim _ \<Rightarrow> True | _ \<Rightarrow> False)"

lemma strdup_key:
  assumes "denotes_member buf (t # ts) (k, c)" "str_ok k"
  shows "json_strdup buf t = Some k"
  using assms str_ok_c_string by (auto simp: denotes_member_def json_strdup_def)

lemma denotes_members_wf: "denotes buf t (mk_obj ms) \<Longrightarrow> list_all wf_member ms"
  using wf_members [of "mk_obj ms"] by (auto simp: denotes_def)

lemma option_body_reads:
  assumes "denotes_member buf q (k, c)" "str_ok k" "scalar c"
  shows "option_body opts buf q flag = map_option Inr (options_flag (po_name ` set opts) [(k, c)] flag)"
proof -
  obtain t ts where q: "q = t # ts" "inner buf ts c" using assms(1) by (auto simp: denotes_member_def)
  have key: "json_strdup buf t = Some k" using strdup_key assms(1,2) q(1) by blast
  obtain s where s: "c = CStr s \<or> c = CPrim s" using assms(3) by (cases c) (auto simp: scalar_def)
  obtain u us where "ts = u # us" "json_strdup buf u = Some s" using strdup_text [OF q(2) s] by blast
  then show ?thesis using s key by (auto simp: q(1) option_body_def flag_option_def c_assert_def)
qed

lemma read_options_eq:
  assumes "denotes buf opttok (mk_obj xs)" "list_all scalar (map snd xs)"
  shows "read_options opts buf opttok flag = options_flag (po_name ` set opts) xs flag"
proof -
  obtain ptrs where ptrs: "list_all2 (denotes_member buf) ptrs xs"
    and loop: "\<And>(f :: tokptr \<Rightarrow> bool \<Rightarrow> (bool + bool) run) s. json_for_each_obj opttok f s = early f ptrs s"
    using json_for_each_obj_denotes [OF assms(1) [unfolded mk_obj_def]] by auto
  from ptrs denotes_members_wf [OF assms(1)] assms(2)
  have "early (option_body opts buf) ptrs flag = map_option Inr (options_flag (po_name ` set opts) xs flag)"
  proof (induction ptrs xs arbitrary: flag rule: list_all2_induct)
    case (Cons q qs m ms)
    obtain k c where m: "m = (k, c)" by force
    have "option_body opts buf q flag = map_option Inr (options_flag (po_name ` set opts) [(k, c)] flag)"
      using Cons option_body_reads [of buf q k c] by (simp add: m wf_member_def)
    then show ?case using Cons by (simp add: m)
  qed simp
  then show ?thesis by (cases "options_flag (po_name ` set opts) xs flag") (simp_all add: read_options_def loop after_loop_def)
qed

lemma init_spec:
  assumes "json_get_member buf params ''configuration'' = Some (Some configtok)" "scan_configuration buf configtok = Some (dir, network, features, location)"
    and "os_chdir os dir" "os_connect os location" "length location < SUN_PATH"
    and "json_get_member buf params ''options'' = Some (Some opttok)" "read_options opts buf opttok (disablempp sv) = Some flag"
    and "rpc_scan_listconfigs (os_rpc_input os) = Some (sent, v)" "cmd_id cmd = Some rid"
  shows "handle_init os opts cmd sv buf params = Some (sv\<lparr>disablempp := flag, our_features := Some features, rpc_location := Some location,
    sv_maxdelay := Some v, rpc_connected := True, rpc_sent := rpc_sent sv @ sent,
    sv_plugin := (sv_plugin sv)\<lparr>js_arr := js_arr (sv_plugin sv) @ [reply rid (''result'', mk_obj [])]\<rparr>\<rparr>)"
  using assms command_success_empty [OF assms(9), of "sv_plugin sv"]
  by (auto simp: handle_init_def connect_rpc_def payz_top_init_def c_assert_def bind_eq_Some_conv)

subsection \<open>The configuration\<close>

fun feature_index :: "string \<Rightarrow> nat option" where
  "feature_index k = (if k = ''init'' then Some 0 else if k = ''node'' then Some 2 else if k = ''channel'' then Some 3
     else if k = ''invoice'' then Some 4 else None)"

definition set_feature :: "string \<times> u8 list \<Rightarrow> feature_set \<Rightarrow> feature_set" where
  "set_feature kb bits = (case feature_index (fst kb) of None \<Rightarrow> bits | Some i \<Rightarrow> bits[i := Some (snd kb)])"

definition features_cst :: "(string \<times> u8 list) list \<Rightarrow> cst" where
  "features_cst bits = mk_obj (map (\<lambda>(k, bs). (k, CStr (the (tal_hexstr bs)))) bits)"

definition features_of :: "(string \<times> u8 list) list \<Rightarrow> feature_set" where
  "features_of bits = fold set_feature bits (replicate 5 None)"

lemma bin_from_hex_text:
  assumes "inner buf ts (CStr (the (tal_hexstr bs)))"
  shows "json_tok_bin_from_hex buf ts = Some (Some bs)"
proof -
  obtain t us where ts: "ts = t # us" using denotes_deref [OF inner_denotes [OF assms]] by blast
  obtain s where s: "tal_hexstr bs = Some s" "hex_decode s (length bs) = Some bs" "length s = 2 * length bs" using tal_hexstr_props by blast
  have "slice buf (tok_start t) (tok_end t) = Some s" using denotes_string inner_denotes [OF assms] s(1) ts by fastforce
  then show ?thesis using s by (simp add: json_tok_bin_from_hex_def ts hex_data_size_def)
qed

lemma feature_place_key:
  assumes "denotes_member buf (t # ts) (k, c)"
  shows "feature_place buf (t # ts) = Some (feature_index k)"
  using member_streq [OF assms] by (simp add: feature_place_def)

lemma json_to_feature_set_reads:
  assumes "denotes buf ts (features_cst bits)"
  shows "json_to_feature_set buf ts = Some (features_of bits)"
proof -
  let ?m = "\<lambda>(k, bs). (k, CStr (the (tal_hexstr bs)))"
  obtain ptrs where ptrs: "list_all2 (denotes_member buf) ptrs (map ?m bits)"
    and loop: "\<And>(f :: tokptr \<Rightarrow> feature_set \<Rightarrow> (feature_set + feature_set) run) s. json_for_each_obj ts f s = early f ptrs s"
    using json_for_each_obj_denotes [OF assms [unfolded features_cst_def mk_obj_def]] by auto
  from ptrs have "early (feature_body buf) ptrs s = Some (Inr (fold set_feature bits s))" for s
  proof (induction bits arbitrary: ptrs s)
    case (Cons b bits)
    obtain k bs where b: "b = (k, bs)" by force
    obtain q qs where q: "ptrs = q # qs" "denotes_member buf q (k, CStr (the (tal_hexstr bs)))" "list_all2 (denotes_member buf) qs (map ?m bits)"
      using Cons.prems by (auto simp: list_all2_Cons2 b)
    obtain t us where t: "q = t # us" "inner buf us (CStr (the (tal_hexstr bs)))" using q(2) by (auto simp: denotes_member_def)
    have "feature_body buf q s = Some (Inr (set_feature b s))"
      using feature_place_key [of buf t us] q(2) bin_from_hex_text [OF t(2)] unfolding t(1)
      by (cases "feature_index k") (simp_all add: set_feature_def feature_body_def b del: feature_index.simps)
    then show ?case using Cons.IH [OF q(3)] by (simp add: q(1))
  qed simp
  then show ?thesis by (simp add: json_to_feature_set_def loop features_of_def after_loop_def)
qed

definition config_cst :: "string \<Rightarrow> string \<Rightarrow> (string \<times> u8 list) list \<Rightarrow> string \<Rightarrow> (string \<times> cst) list \<Rightarrow> bool" where
  "config_cst dir network bits location cs \<longleftrightarrow> map_of cs ''lightning-dir'' = Some (CStr dir) \<and> map_of cs ''network'' = Some (CStr network) \<and>
     map_of cs ''feature_set'' = Some (features_cst bits) \<and> map_of cs ''rpc-file'' = Some (CStr location)"

lemma scan_configuration_reads:
  assumes "denotes buf ts (mk_obj cs)" "config_cst dir network bits location cs"
  shows "scan_configuration buf ts = Some (dir, network, features_of bits, location)"
proof -
  obtain t us where t: "ts = t # us" "tok_type t = JSMN_OBJECT"
    using denotes_deref [OF assms(1)] denotes_type assms(1) by (fastforce simp: mk_obj_def)
  have str: "\<exists>ts'. json_get_membern buf ts k = Some (Some ts') \<and> init_strdup buf ts' = Some (Some (IStr s))" if "map_of cs k = Some (CStr s)" for k s
    using json_get_member_mk_obj [OF assms(1), of k] that strdup_text by (fastforce simp: json_get_member_def init_strdup_def scan_strdup_def)
  have feat: "\<exists>ts'. json_get_membern buf ts k = Some (Some ts') \<and> init_features buf ts' = Some (Some (IFeatures (features_of bits)))"
    if "map_of cs k = Some (features_cst bits)" for k
    using json_get_member_mk_obj [OF assms(1), of k] that json_to_feature_set_reads [OF inner_denotes]
    by (auto simp: json_get_member_def init_features_def)
  let ?xs = "[(''lightning-dir'', (''json_strdup'', init_strdup), IStr dir), (''network'', (''json_strdup'', init_strdup), IStr network),
    (''feature_set'', (''json_to_feature_set'', init_features), IFeatures (features_of bits)), (''rpc-file'', (''json_strdup'', init_strdup), IStr location)]"
  have "list_all (field_reads buf ts) ?xs"
    using assms(2) str feat by (simp add: config_cst_def field_reads_def literal_char_def)
  from json_scan_fields [OF t this] show ?thesis by (simp add: scan_configuration_def)
qed

subsection \<open>The messages of the handshake\<close>

lemma read_deprecated_eq:
  assumes "inner buf params (mk_obj ps)"
    and "map_of ps ''allow-deprecated-apis'' = None \<and> dep \<or> map_of ps ''allow-deprecated-apis'' = Some (CBool dep)"
  shows "read_deprecated buf params = Some dep"
proof (cases "map_of ps ''allow-deprecated-apis''")
  case None
  then show ?thesis using assms json_get_member_mk_obj [OF inner_denotes [OF assms(1)], of "''allow-deprecated-apis''"]
    by (auto simp: read_deprecated_def)
next
  case (Some c)
  then have c: "c = CBool dep" using assms(2) by simp
  obtain ts where ts: "json_get_member buf params ''allow-deprecated-apis'' = Some (Some ts)" "inner buf ts (CBool dep)"
    using Some json_get_member_mk_obj [OF inner_denotes [OF assms(1)], of "''allow-deprecated-apis''"] by (auto simp: c)
  obtain t us where t: "ts = t # us" using denotes_deref [OF inner_denotes [OF ts(2)]] by blast
  let ?s = "if dep then ''true'' else ''false''"
  have d: "denotes buf (t # us) (CPrim ?s)" using inner_denotes [OF ts(2)] by (simp add: t CBool_def)
  have "json_to_bool buf t = Some (Some dep)"
    using denotes_prim [OF d] denotes_type [OF d] length_slice [OF denotes_prim [OF d]] by (cases dep) (simp_all add: json_to_bool_def memeqstr_def)
  then show ?thesis by (simp add: read_deprecated_def ts(1) t)
qed

lemma mk_obj_eq_iff: "mk_obj ms = mk_obj ns \<longleftrightarrow> ms = ns"
  unfolding mk_obj_def by (metis cst.inject(4) ms_list_mk_ms)

text \<open>The messages, by the members that count.\<close>

definition getmanifest_msg :: "nat \<Rightarrow> bool \<Rightarrow> (string \<times> cst) list \<Rightarrow> bool" where
  "getmanifest_msg n dep ms \<longleftrightarrow> map_of ms ''id'' = Some (CPrim (dec_of_nat n)) \<and> n < ULLONG_MAX \<and>
     map_of ms ''method'' = Some (CStr ''getmanifest'') \<and> (\<exists>ps. map_of ms ''params'' = Some (mk_obj ps) \<and>
       (map_of ps ''allow-deprecated-apis'' = None \<and> dep \<or> map_of ps ''allow-deprecated-apis'' = Some (CBool dep)))"

definition init_msg ::
  "nat \<Rightarrow> string \<Rightarrow> string \<Rightarrow> (string \<times> u8 list) list \<Rightarrow> string \<Rightarrow> (string \<times> cst) list \<Rightarrow> (string \<times> cst) list \<Rightarrow> bool" where
  "init_msg n dir network bits location xs ms \<longleftrightarrow> map_of ms ''id'' = Some (CPrim (dec_of_nat n)) \<and> n < ULLONG_MAX \<and>
     map_of ms ''method'' = Some (CStr ''init'') \<and> (\<exists>ps cs. map_of ms ''params'' = Some (mk_obj ps) \<and>
       map_of ps ''configuration'' = Some (mk_obj cs) \<and> config_cst dir network bits location cs \<and>
       map_of ps ''options'' = Some (mk_obj xs) \<and> list_all scalar (map snd xs))"

definition configs_reply :: "string \<Rightarrow> string \<Rightarrow> bool" where
  "configs_reply v input \<longleftrightarrow> (\<exists>ms rs r. input = text_of (mk_obj ms) @ LF # LF # r \<and> wf_cst (mk_obj ms) \<and> LF \<notin> set (text_of (mk_obj ms)) \<and>
     map_of ms ''id'' \<noteq> None \<and> map_of ms ''error'' = None \<and> map_of ms ''result'' = Some (mk_obj rs) \<and>
     map_of rs ''max-locktime-blocks'' = Some (CPrim v))"

definition os_accepts :: "os \<Rightarrow> string \<Rightarrow> string \<Rightarrow> string \<Rightarrow> bool" where
  "os_accepts os dir location v \<longleftrightarrow> os_chdir os dir \<and> os_connect os location \<and> length location < SUN_PATH \<and> configs_reply v (os_rpc_input os)"

text \<open>The state after each of the two.\<close>

definition manifested_state :: "nat \<Rightarrow> bool \<Rightarrow> plugin_option list \<Rightarrow> server \<Rightarrow> server" where
  "manifested_state n dep opts sv = sv\<lparr>sv_manifested := True, deprecated_apis := dep,
     sv_plugin := (sv_plugin sv)\<lparr>js_arr := js_arr (sv_plugin sv) @ [reply (of_nat n) (''result'', mk_obj (manifest_members opts))]\<rparr>\<rparr>"

definition initialized_state :: "nat \<Rightarrow> bool \<Rightarrow> (string \<times> u8 list) list \<Rightarrow> string \<Rightarrow> string \<Rightarrow> server \<Rightarrow> server" where
  "initialized_state n flag bits location v sv = sv\<lparr>sv_initialized := True, disablempp := flag,
     our_features := Some (features_of bits), rpc_location := Some location, sv_maxdelay := Some v, rpc_connected := True,
     rpc_sent := rpc_sent sv @ listconfigs_request,
     sv_plugin := (sv_plugin sv)\<lparr>js_arr := js_arr (sv_plugin sv) @ [reply (of_nat n) (''result'', mk_obj [])]\<rparr>\<rparr>"

lemma handle_getmanifest_request:
  assumes "denotes buf toks (mk_obj ms)" "getmanifest_msg n dep ms" "list_all option_ok opts" "plugin_start = Some sv"
  shows "ld_command_handle os opts env erange now buf toks sv = Some (manifested_state n dep opts sv)"
proof -
  obtain ps where msg: "map_of ms ''id'' = Some (CPrim (dec_of_nat n))" "n < ULLONG_MAX" "map_of ms ''method'' = Some (CStr ''getmanifest'')"
    "map_of ms ''params'' = Some (mk_obj ps)" "map_of ps ''allow-deprecated-apis'' = None \<and> dep \<or> map_of ps ''allow-deprecated-apis'' = Some (CBool dep)"
    using assms(2) by (auto simp: getmanifest_msg_def)
  obtain params where read: "inner buf params (mk_obj ps)"
    "ld_command_read erange buf toks = Some (\<lparr>cmd_id = Some (of_nat n), methodname = ''getmanifest'', usage_only = False\<rparr>, params)"
    using ld_command_read_request [OF assms(1) msg(1-4), of erange] by blast
  have dep: "read_deprecated buf params = Some dep" using read_deprecated_eq [OF read(1) msg(5)] .
  obtain z m where "strmap_get m = usages_of payz_commands" "sv = \<lparr>sv_payz = z, sv_plugin = new_plugin\<lparr>usagemap := m\<rparr>, sv_manifested = False, sv_initialized = False,
      deprecated_apis = False, disablempp = False, our_features = None, rpc_location = None, sv_maxdelay = None, rpc_connected = False, rpc_sent = []\<rparr>"
    using plugin_start_spec assms(4) by (metis option.inject)
  then show ?thesis
    using getmanifest_spec [OF assms(3), of sv "\<lparr>cmd_id = Some (of_nat n), methodname = ''getmanifest'', usage_only = False\<rparr>" "of_nat n" buf params dep] dep
    by (simp add: ld_command_handle_def read(2) manifested_state_def)
qed

lemma handle_init_request:
  assumes "denotes buf toks (mk_obj ms)" "init_msg n dir network bits location xs ms"
    and "options_flag (po_name ` set opts) xs (disablempp sv) = Some flag"
    and "os_accepts os dir location v" "sv_manifested sv" "\<not> sv_initialized sv"
  shows "ld_command_handle os opts env erange now buf toks sv = Some (initialized_state n flag bits location v sv)"
proof -
  obtain ps cs where msg: "map_of ms ''id'' = Some (CPrim (dec_of_nat n))" "n < ULLONG_MAX" "map_of ms ''method'' = Some (CStr ''init'')"
    "map_of ms ''params'' = Some (mk_obj ps)" "map_of ps ''configuration'' = Some (mk_obj cs)" "config_cst dir network bits location cs"
    "map_of ps ''options'' = Some (mk_obj xs)" "list_all scalar (map snd xs)"
    using assms(2) by (auto simp: init_msg_def)
  have os: "os_chdir os dir" "os_connect os location" "length location < SUN_PATH" "rpc_scan_listconfigs (os_rpc_input os) = Some (listconfigs_request, v)"
    using assms(4) rpc_scan_listconfigs_reply by (auto simp: os_accepts_def configs_reply_def)
  let ?cmd = "\<lparr>cmd_id = Some (of_nat n), methodname = ''init'', usage_only = False\<rparr>"
  obtain params where read: "inner buf params (mk_obj ps)" "ld_command_read erange buf toks = Some (?cmd, params)"
    using ld_command_read_request [OF assms(1) msg(1-4), of erange] by blast
  note get = json_get_member_mk_obj [OF inner_denotes [OF read(1)]]
  obtain ct ot where c: "json_get_member buf params ''configuration'' = Some (Some ct)" "inner buf ct (mk_obj cs)"
    "json_get_member buf params ''options'' = Some (Some ot)" "inner buf ot (mk_obj xs)"
    using get [of "''configuration''"] get [of "''options''"] msg(5,7) by auto
  have "scan_configuration buf ct = Some (dir, network, features_of bits, location)"
    using scan_configuration_reads [OF inner_denotes [OF c(2)] msg(6)] .
  moreover have "read_options opts buf ot (disablempp sv) = Some flag"
    using read_options_eq [OF inner_denotes [OF c(4)] msg(8)] assms(3) by simp
  ultimately have "handle_init os opts ?cmd sv buf params = Some (sv\<lparr>disablempp := flag, our_features := Some (features_of bits), rpc_location := Some location,
    sv_maxdelay := Some v, rpc_connected := True, rpc_sent := rpc_sent sv @ listconfigs_request,
    sv_plugin := (sv_plugin sv)\<lparr>js_arr := js_arr (sv_plugin sv) @ [reply (of_nat n) (''result'', mk_obj [])]\<rparr>\<rparr>)"
    using init_spec [OF c(1) _ os(1-3) c(3) _ os(4), of network "features_of bits" opts sv flag ?cmd "of_nat n"] by simp
  then show ?thesis using assms(5,6) by (simp add: ld_command_handle_def read(2) initialized_state_def)
qed

subsection \<open>The order of the handshake\<close>

lemma getmanifest_keeps:
  "handle_getmanifest opts cmd sv buf params = Some sv' \<Longrightarrow> sv_payz sv' = sv_payz sv \<and> sv_initialized sv' = sv_initialized sv"
  by (auto simp: handle_getmanifest_def bind_eq_Some_conv)

lemma init_keeps:
  "handle_init os opts cmd sv buf params = Some sv' \<Longrightarrow> sv_payz sv' = sv_payz sv \<and> sv_manifested sv' = sv_manifested sv \<and>
     sv_maxdelay sv' \<noteq> None \<and> rpc_connected sv'"
  by (auto simp: handle_init_def payz_top_init_def bind_eq_Some_conv split: option.splits if_splits)

lemma run_command_keeps:
  "run_command env erange now cmd sv buf params = Some sv' \<Longrightarrow> sv_manifested sv' = sv_manifested sv \<and> sv_initialized sv' = sv_initialized sv \<and>
     sv_maxdelay sv' = sv_maxdelay sv \<and> rpc_connected sv' = rpc_connected sv"
  by (auto simp: run_command_def bind_eq_Some_conv)

text \<open>What the number of messages says about the state.\<close>

definition stage :: "server \<Rightarrow> nat \<times> server \<Rightarrow> bool" where
  "stage sv0 s \<longleftrightarrow> (case s of (i, sv) \<Rightarrow> (sv_manifested sv \<longleftrightarrow> 1 \<le> i) \<and> (sv_initialized sv \<longleftrightarrow> 2 \<le> i) \<and>
     (i \<le> 2 \<longrightarrow> sv_payz sv = sv_payz sv0) \<and> (2 \<le> i \<longrightarrow> sv_maxdelay sv \<noteq> None \<and> rpc_connected sv))"

definition method_of :: "bool \<Rightarrow> string \<times> tokptr \<Rightarrow> string option" where
  "method_of erange m = map_option (methodname \<circ> fst) (ld_command_read erange (fst m) (snd m))"

lemma ld_message_stage:
  assumes "ld_message os opts around buf toks (i, sv) = Some s'" "stage sv0 (i, sv)"
  shows "stage sv0 s' \<and> fst s' = Suc i \<and> (i = 0 \<longrightarrow> method_of (fst (snd (around i))) (buf, toks) = Some ''getmanifest'') \<and>
    (i = 1 \<longrightarrow> method_of (fst (snd (around i))) (buf, toks) = Some ''init'')"
proof -
  define env erange now where a: "env = fst (around i)" "erange = fst (snd (around i))" "now = snd (snd (around i))"
  obtain sv' where h: "ld_command_handle os opts env erange now buf toks sv = Some sv'" "s' = (Suc i, sv')"
    using assms(1) by (auto simp: ld_message_def a bind_eq_Some_conv split_beta)
  obtain cmd params where read: "ld_command_read erange buf toks = Some (cmd, params)"
    using h(1) by (auto simp: ld_command_handle_def bind_eq_Some_conv)
  have m: "method_of (fst (snd (around i))) (buf, toks) = Some (methodname cmd)" using read by (simp add: method_of_def a)
  consider "i = 0" | "i = 1" | "2 \<le> i" by linarith
  then show ?thesis
  proof cases
    case 1
    then show ?thesis using h assms(2) getmanifest_keeps unfolding m
      by (auto simp: ld_command_handle_def read stage_def bind_eq_Some_conv split: if_splits)
  next
    case 2
    then show ?thesis using h assms(2) init_keeps unfolding m
      by (auto simp: ld_command_handle_def read stage_def bind_eq_Some_conv split: if_splits)
  next
    case 3
    then have "run_command env erange now cmd sv buf params = Some sv'" using h(1) assms(2) by (simp add: ld_command_handle_def read stage_def)
    then show ?thesis using run_command_keeps 3 h(2) assms(2) by (auto simp: stage_def)
  qed
qed

lemma handle_all_stage:
  assumes "handle_all (ld_message os opts around) bufs (i, sv) = Some s'" "stage sv0 (i, sv)"
  shows "stage sv0 s' \<and> fst s' = i + length bufs \<and>
    (\<forall>j<length bufs. i + j < 2 \<longrightarrow> method_of (fst (snd (around (i + j)))) (bufs ! j) = Some ([''getmanifest'', ''init''] ! (i + j)))"
  using assms
proof (induction bufs arbitrary: i sv)
  case (Cons b bufs)
  obtain buf toks where b: "b = (buf, toks)" by force
  obtain i1 sv1 where s1: "ld_message os opts around buf toks (i, sv) = Some (i1, sv1)" "handle_all (ld_message os opts around) bufs (i1, sv1) = Some s'"
    using Cons.prems(1) by (auto simp: b bind_eq_Some_conv)
  note step = ld_message_stage [OF s1(1) Cons.prems(2)]
  then have i1: "i1 = Suc i" by simp
  note rest = Cons.IH [OF s1(2)]
  have "method_of (fst (snd (around (i + j)))) ((b # bufs) ! j) = Some ([''getmanifest'', ''init''] ! (i + j))"
    if "j < length (b # bufs)" "i + j < 2" for j
  proof (cases j)
    case 0
    then have "i = 0 \<or> i = 1" using that by auto
    then show ?thesis using step by (auto simp: 0 b)
  next
    case (Suc k)
    then show ?thesis using that rest step by (simp add: i1)
  qed
  then show ?case using rest step by (simp add: i1)
qed auto

lemma plugin_start_stage:
  assumes "plugin_start = Some sv"
  shows "stage sv (0, sv)"
proof -
  have "\<not> sv_manifested sv" "\<not> sv_initialized sv" using assms unfolding plugin_start_def by (elim bind_SomeE; auto elim!: bind_SomeE split: prod.splits)+
  then show ?thesis by (simp add: stage_def)
qed

end
