(* ===== verification/Amount.thy ===== *)
theory Amount
  imports Overflows Json_Out
begin

text \<open>
  \<open>common/amount.c\<close>: amounts in satoshis and millisatoshis as 64-bit numbers, with conversions, arithmetic that refuses to wrap
  around, fees, and their texts. The functions on \<open>double\<close> are left out. Results that the code
  returns through a pointer together with \<open>true\<close> are values of an option.
\<close>

record amount_sat =
  satoshis :: u64

record amount_msat =
  millisatoshis :: u64

definition MSAT_PER_SAT :: u64 where "MSAT_PER_SAT = 1000"
definition SAT_PER_BTC :: u64 where "SAT_PER_BTC = 100000000"
definition MSAT_PER_BTC :: u64 where "MSAT_PER_BTC = MSAT_PER_SAT * SAT_PER_BTC"

subsection \<open>Conversion and texts\<close>

definition amount_sat_to_msat :: "amount_sat \<Rightarrow> amount_msat option" where
  "amount_sat_to_msat sat =
     (if mul_overflows_u64 (satoshis sat) MSAT_PER_SAT then None
      else Some \<lparr>millisatoshis = satoshis sat * MSAT_PER_SAT\<rparr>)"

definition amount_msat_to_sat_round_down :: "amount_msat \<Rightarrow> amount_sat" where
  "amount_msat_to_sat_round_down msat = \<lparr>satoshis = millisatoshis msat div MSAT_PER_SAT\<rparr>"

text \<open>The conversion \<open>%0<n>\<close> of \<open>printf\<close>.\<close>

definition zero_pad :: "nat \<Rightarrow> string \<Rightarrow> string" where
  "zero_pad n s = replicate (n - length s) (CHR ''0'') @ s"

definition fmt_amount_msat_btc :: "amount_msat \<Rightarrow> bool \<Rightarrow> string" where
  "fmt_amount_msat_btc msat append_unit =
     (if millisatoshis msat = 0 then (if append_unit then ''0btc'' else ''0'')
      else dec_of_nat (unat (millisatoshis msat div MSAT_PER_BTC)) @ CHR ''.'' #
        zero_pad 11 (dec_of_nat (unat (millisatoshis msat mod MSAT_PER_BTC))) @ (if append_unit then ''btc'' else []))"

definition fmt_amount_msat :: "amount_msat \<Rightarrow> string" where
  "fmt_amount_msat msat = dec_of_nat (unat (millisatoshis msat)) @ ''msat''"

definition fmt_amount_sat_btc :: "amount_sat \<Rightarrow> bool \<Rightarrow> string" where
  "fmt_amount_sat_btc sat append_unit =
     (if satoshis sat = 0 then (if append_unit then ''0btc'' else ''0'')
      else dec_of_nat (unat (satoshis sat div SAT_PER_BTC)) @ CHR ''.'' #
        zero_pad 8 (dec_of_nat (unat (satoshis sat mod SAT_PER_BTC))) @ (if append_unit then ''btc'' else []))"

definition fmt_amount_sat :: "amount_sat \<Rightarrow> string" where
  "fmt_amount_sat sat = dec_of_nat (unat (satoshis sat)) @ ''sat''"

text \<open>
  \<open>breakup\<close>: the length of the whole number, the text after the point with the length of its digits, and the suffix.
  A NUL ends the text as the length does.
\<close>

definition at_end :: "string \<Rightarrow> bool" where
  "at_end s \<longleftrightarrow> s = [] \<or> hd s = NUL"

definition breakup :: "string \<Rightarrow> (nat \<times> string option \<times> nat \<times> string option) option" where
  "breakup s =
     (let whole = takeWhile cisdigit s; r = dropWhile cisdigit s in
      if at_end r then (if whole \<noteq> [] then Some (length whole, None, 0, None) else None)
      else if hd r = CHR ''.'' then
        (let p = tl r; ds = takeWhile cisdigit p; q = dropWhile cisdigit p in
         if at_end q then (if ds \<noteq> [] then Some (length whole, Some p, length ds, None) else None)
         else Some (length whole, Some p, length ds, Some q))
      else Some (length whole, None, 0, Some r))"

text \<open>\<open>from_number\<close>: the loop over the digits, with its assertion, and the loop over the factors of ten.\<close>

definition digit_of :: "char \<Rightarrow> nat" where
  "digit_of c = of_char c - 48"

fun add_digits :: "string \<Rightarrow> u64 \<Rightarrow> u64 option run" where
  "add_digits [] res = Some (Some res)"
| "add_digits (c # cs) res =
     (if mul_overflows_u64 res 10 then Some None
      else do {
        let res = res * 10;
        c_assert (cisdigit c);
        if add_overflows_u64 res (of_nat (digit_of c)) then Some None
        else add_digits cs (res + of_nat (digit_of c)) })"

fun tens :: "nat \<Rightarrow> u64 \<Rightarrow> u64 option" where
  "tens 0 res = Some res"
| "tens (Suc n) res = (if mul_overflows_u64 res 10 then None else tens n (res * 10))"

definition from_number :: "string \<Rightarrow> nat \<Rightarrow> nat \<Rightarrow> u64 option run" where
  "from_number s len tens_factor =
     (if len = 0 then Some None
      else do {
        r \<leftarrow> add_digits (take len s) 0;
        Some (r \<bind> tens tens_factor) })"

definition from_numbers :: "string \<Rightarrow> nat \<Rightarrow> nat \<Rightarrow> string \<Rightarrow> nat \<Rightarrow> u64 option run" where
  "from_numbers s1 len1 tens_factor s2 len2 =
     (if len2 > tens_factor then Some None
      else do {
        p1 \<leftarrow> from_number s1 len1 tens_factor;
        case p1 of
          None \<Rightarrow> Some None
        | Some p1 \<Rightarrow> do {
            p2 \<leftarrow> from_number s2 len2 (tens_factor - len2);
            case p2 of
              None \<Rightarrow> Some None
            | Some p2 \<Rightarrow> Some (if add_overflows_u64 p1 p2 then None else Some (p1 + p2)) } })"

definition memstarts_str :: "string option \<Rightarrow> string \<Rightarrow> bool" where
  "memstarts_str s p = (case s of None \<Rightarrow> False | Some s \<Rightarrow> take (length p) s = p)"

definition memends :: "string \<Rightarrow> string \<Rightarrow> bool" where
  "memends s p \<longleftrightarrow> length p \<le> length s \<and> drop (length s - length p) s = p"

definition parse_amount_msat :: "string \<Rightarrow> amount_msat option run" where
  "parse_amount_msat s =
     (case breakup s of
        None \<Rightarrow> Some None
      | Some (whole, post, post_len, unit1) \<Rightarrow>
          map_option (map_option (\<lambda>v. \<lparr>millisatoshis = v\<rparr>))
            (if post = None \<and> unit1 = None then from_number s whole 0
             else if post = None \<and> memstarts_str unit1 ''msat'' then from_number s whole 0
             else if post = None \<and> memstarts_str unit1 ''sat'' then from_number s whole 3
             else if memstarts_str unit1 ''btc'' then
               (if post_len > 0 then from_numbers s whole 11 (the post) post_len else from_number s whole 11)
             else Some None))"

definition parse_amount_sat :: "string \<Rightarrow> amount_sat option run" where
  "parse_amount_sat s =
     (case breakup s of
        None \<Rightarrow> Some None
      | Some (whole, post, post_len, unit1) \<Rightarrow>
          map_option (map_option (\<lambda>v. \<lparr>satoshis = v\<rparr>))
            (if post = None \<and> unit1 = None then from_number s whole 0
             else if post = None \<and> memstarts_str unit1 ''sat'' then from_number s whole 0
             else if post = None \<and> memstarts_str unit1 ''msat'' then
               (if \<not> memends (take whole s) ''000'' then
                  (if memstarts_str (Some (take whole s)) ''0'' then from_number s whole 0 else Some None)
                else from_number s (whole - 3) 0)
             else if memstarts_str unit1 ''btc'' then
               (if post_len > 0 then from_numbers s whole 8 (the post) post_len else from_number s whole 8)
             else Some None))"

subsection \<open>Arithmetic\<close>

definition amount_msat_add :: "amount_msat \<Rightarrow> amount_msat \<Rightarrow> amount_msat option" where
  "amount_msat_add a b =
     (if add_overflows_u64 (millisatoshis a) (millisatoshis b) then None
      else Some \<lparr>millisatoshis = millisatoshis a + millisatoshis b\<rparr>)"

definition amount_msat_sub :: "amount_msat \<Rightarrow> amount_msat \<Rightarrow> amount_msat option" where
  "amount_msat_sub a b =
     (if millisatoshis a < millisatoshis b then None else Some \<lparr>millisatoshis = millisatoshis a - millisatoshis b\<rparr>)"

definition amount_sat_add :: "amount_sat \<Rightarrow> amount_sat \<Rightarrow> amount_sat option" where
  "amount_sat_add a b =
     (if add_overflows_u64 (satoshis a) (satoshis b) then None else Some \<lparr>satoshis = satoshis a + satoshis b\<rparr>)"

definition amount_sat_sub :: "amount_sat \<Rightarrow> amount_sat \<Rightarrow> amount_sat option" where
  "amount_sat_sub a b = (if satoshis a < satoshis b then None else Some \<lparr>satoshis = satoshis a - satoshis b\<rparr>)"

definition amount_msat_sub_sat :: "amount_msat \<Rightarrow> amount_sat \<Rightarrow> amount_msat option" where
  "amount_msat_sub_sat a b = do { msatb \<leftarrow> amount_sat_to_msat b; amount_msat_sub a msatb }"

definition amount_sat_sub_msat :: "amount_sat \<Rightarrow> amount_msat \<Rightarrow> amount_msat option" where
  "amount_sat_sub_msat a b = do { msata \<leftarrow> amount_sat_to_msat a; amount_msat_sub msata b }"

definition amount_msat_add_sat :: "amount_msat \<Rightarrow> amount_sat \<Rightarrow> amount_msat option" where
  "amount_msat_add_sat a b = do { msatb \<leftarrow> amount_sat_to_msat b; amount_msat_add a msatb }"

definition amount_msat_to_u32 :: "amount_msat \<Rightarrow> u32 option" where
  "amount_msat_to_u32 msat = (if millisatoshis msat \<ge> 0x100000000 then None else Some (ucast (millisatoshis msat)))"

text \<open>Division by zero is a fault.\<close>

definition amount_msat_div :: "amount_msat \<Rightarrow> u64 \<Rightarrow> amount_msat run" where
  "amount_msat_div msat d = do { c_assert (d \<noteq> 0); Some \<lparr>millisatoshis = millisatoshis msat div d\<rparr> }"

definition amount_sat_div :: "amount_sat \<Rightarrow> u64 \<Rightarrow> amount_sat run" where
  "amount_sat_div sat d = do { c_assert (d \<noteq> 0); Some \<lparr>satoshis = satoshis sat div d\<rparr> }"

definition amount_msat_fee :: "amount_msat \<Rightarrow> u32 \<Rightarrow> u32 \<Rightarrow> amount_msat option" where
  "amount_msat_fee amt fee_base_msat fee_proportional_millionths =
     (let fee_base = \<lparr>millisatoshis = ucast fee_base_msat\<rparr> in
      if mul_overflows_u64 (millisatoshis amt) (ucast fee_proportional_millionths) then None
      else (let fee_prop = \<lparr>millisatoshis = millisatoshis amt * ucast fee_proportional_millionths div 1000000\<rparr> in
        amount_msat_add fee_base fee_prop))"

definition amount_msat_add_fee :: "amount_msat \<Rightarrow> u32 \<Rightarrow> u32 \<Rightarrow> amount_msat option" where
  "amount_msat_add_fee amt fee_base_msat fee_proportional_millionths = do {
     fee \<leftarrow> amount_msat_fee amt fee_base_msat fee_proportional_millionths;
     amount_msat_add amt fee }"

definition amount_tx_fee :: "u32 \<Rightarrow> u64 \<Rightarrow> amount_sat run" where
  "amount_tx_fee fee_per_kw weight = do {
     c_assert (\<not> mul_overflows_u64 (ucast fee_per_kw) weight);
     Some \<lparr>satoshis = ucast fee_per_kw * weight div 1000\<rparr> }"

subsection \<open>Comparison\<close>

text \<open>An amount in satoshis that does not fit is greater than every amount in millisatoshis; each test is then false.\<close>

definition compare_sat :: "(u64 \<Rightarrow> u64 \<Rightarrow> bool) \<Rightarrow> amount_msat \<Rightarrow> amount_sat \<Rightarrow> bool" where
  "compare_sat R msat sat = (case amount_sat_to_msat sat of
     None \<Rightarrow> False
   | Some msat_from_sat \<Rightarrow> R (millisatoshis msat) (millisatoshis msat_from_sat))"

definition amount_msat_greater_sat :: "amount_msat \<Rightarrow> amount_sat \<Rightarrow> bool" where
  "amount_msat_greater_sat = compare_sat (\<lambda>a b. a > b)"

definition amount_msat_greater_eq_sat :: "amount_msat \<Rightarrow> amount_sat \<Rightarrow> bool" where
  "amount_msat_greater_eq_sat = compare_sat (\<lambda>a b. a \<ge> b)"

definition amount_msat_less_sat :: "amount_msat \<Rightarrow> amount_sat \<Rightarrow> bool" where
  "amount_msat_less_sat = compare_sat (<)"

definition amount_msat_less_eq_sat :: "amount_msat \<Rightarrow> amount_sat \<Rightarrow> bool" where
  "amount_msat_less_eq_sat = compare_sat (\<le>)"

definition amount_msat_eq_sat :: "amount_msat \<Rightarrow> amount_sat \<Rightarrow> bool" where
  "amount_msat_eq_sat = compare_sat (=)"

subsection \<open>What the arithmetic computes\<close>

text \<open>The values as natural numbers; a result is given exactly when it fits into 64 bits.\<close>

abbreviation msat_nat :: "amount_msat \<Rightarrow> nat" where
  "msat_nat a \<equiv> unat (millisatoshis a)"

abbreviation sat_nat :: "amount_sat \<Rightarrow> nat" where
  "sat_nat a \<equiv> unat (satoshis a)"

definition msat_result :: "nat \<Rightarrow> amount_msat option" where
  "msat_result n = (if n < 2 ^ 64 then Some \<lparr>millisatoshis = of_nat n\<rparr> else None)"

lemma msat_eq_of_nat: "unat v = n \<Longrightarrow> v = (of_nat n :: u64)"
  by auto

lemma sat_to_msat_result: "amount_sat_to_msat s = msat_result (sat_nat s * 1000)"
  by (auto simp: amount_sat_to_msat_def msat_result_def mul_overflows_u64_iff MSAT_PER_SAT_def)

lemma add_result: "amount_msat_add a b = msat_result (msat_nat a + msat_nat b)"
  by (auto simp: amount_msat_add_def msat_result_def add_overflows_u64_iff)

lemma sub_result: "amount_msat_sub a b = (if msat_nat b \<le> msat_nat a then msat_result (msat_nat a - msat_nat b) else None)"
proof -
  have "unat (millisatoshis a) - unat (millisatoshis b) < 2 ^ 64" using unat_u64_less [of "millisatoshis a"] by linarith
  then show ?thesis
    by (auto simp: amount_msat_sub_def msat_result_def word_less_nat_alt of_nat_diff)
qed

lemma msat_result_nat: "msat_result n = Some a \<Longrightarrow> msat_nat a = n"
  by (auto simp: msat_result_def unat_of_nat split: if_splits)

lemma fee_result:
  "amount_msat_fee amt base pm = (if msat_nat amt * unat pm < 2 ^ 64 then msat_result (unat base + msat_nat amt * unat pm div 1000000) else None)"
proof -
  have u: "unat (ucast base :: u64) = unat base" "unat (ucast pm :: u64) = unat pm" 
    using unat_u32_less [of base] unat_u32_less [of pm] by (simp_all add: unsigned_ucast_eq take_bit_nat_eq_self)
  show ?thesis
    by (auto simp: amount_msat_fee_def Let_def mul_overflows_u64_iff u add_result unat_div unat_mult_u64)
qed

lemma add_fee_result:
  "amount_msat_add_fee amt base pm = (if msat_nat amt * unat pm < 2 ^ 64 then
     msat_result (msat_nat amt + (unat base + msat_nat amt * unat pm div 1000000)) else None)"
proof (cases "amount_msat_fee amt base pm")
  case None
  then show ?thesis by (auto simp: amount_msat_add_fee_def fee_result msat_result_def split: if_splits)
next
  case (Some fee)
  then show ?thesis using msat_result_nat [of _ fee] by (auto simp: amount_msat_add_fee_def fee_result add_result split: if_splits)
qed

lemma compare_sat_result:
  assumes "sat_nat s * 1000 < 2 ^ 64"
  shows "compare_sat R m s = R (millisatoshis m) (of_nat (sat_nat s * 1000))"
  using assms by (simp add: compare_sat_def sat_to_msat_result msat_result_def)

subsection \<open>Reading what was printed\<close>

definition digits_value :: "string \<Rightarrow> nat" where
  "digits_value ds = foldl (\<lambda>n c. n * 10 + digit_of c) 0 ds"

definition u64_result :: "nat \<Rightarrow> u64 option" where
  "u64_result n = (if n < 2 ^ 64 then Some (of_nat n) else None)"

lemma unat_digit: "cisdigit c \<Longrightarrow> unat (of_nat (digit_of c) :: u64) = digit_of c"
proof -
  assume "cisdigit c"
  then have "digit_of c \<le> 9" by (auto simp: cisdigit_def digit_of_def)
  then show ?thesis by (simp add: unat_of_nat)
qed

lemma foldl_digits_mono: "(n :: nat) \<le> foldl (\<lambda>n c. n * 10 + digit_of c) n ds"
proof (induction ds arbitrary: n)
  case (Cons c ds)
  have "n \<le> n * 10 + digit_of c" by simp
  then show ?case using Cons [of "n * 10 + digit_of c"] by simp
qed simp

lemma add_digits_value:
  assumes "list_all cisdigit ds"
  shows "add_digits ds res = Some (u64_result (foldl (\<lambda>n c. n * 10 + digit_of c) (unat res) ds))"
  using assms
proof (induction ds arbitrary: res)
  case Nil
  then show ?case using unat_u64_less [of res] by (simp add: u64_result_def)
next
  case (Cons c ds)
  let ?d = "of_nat (digit_of c) :: u64" and ?v = "unat res * 10 + digit_of c"
  have d: "unat ?d = digit_of c" using Cons.prems unat_digit by simp
  note mono = foldl_digits_mono [of ?v ds]
  consider (mul) "2 ^ 64 \<le> unat res * 10" | (add) "unat res * 10 < 2 ^ 64" "2 ^ 64 \<le> ?v" | (ok) "?v < 2 ^ 64" by linarith
  then show ?case
  proof cases
    case mul
    then have "\<not> foldl (\<lambda>n c. n * 10 + digit_of c) ?v ds < 2 ^ 64" using mono by linarith
    then show ?thesis using mul by (simp add: mul_overflows_u64_iff u64_result_def)
  next
    case add
    then have "\<not> foldl (\<lambda>n c. n * 10 + digit_of c) ?v ds < 2 ^ 64" using mono by linarith
    moreover have "unat (res * 10) = unat res * 10" using add(1) by (simp add: unat_mult_u64)
    ultimately show ?thesis using add Cons.prems d by (simp add: mul_overflows_u64_iff add_overflows_u64_iff u64_result_def c_assert_def)
  next
    case ok
    then have ten: "unat (res * 10) = unat res * 10" by (simp add: unat_mult_u64)
    then have "unat (res * 10 + ?d) = ?v" using ok d by (simp add: unat_add_u64)
    then show ?thesis using ok ten d Cons by (simp add: mul_overflows_u64_iff add_overflows_u64_iff c_assert_def)
  qed
qed

lemma tens_value: "tens n res = u64_result (unat res * 10 ^ n)"
proof (induction n arbitrary: res)
  case 0
  then show ?case using unat_u64_less [of res] by (simp add: u64_result_def)
next
  case (Suc n)
  show ?case
  proof (cases "unat res * 10 < 2 ^ 64")
    case True
    then have "unat (res * 10) = unat res * 10" by (simp add: unat_mult_u64)
    then show ?thesis using True Suc by (simp add: mul_overflows_u64_iff mult.assoc)
  next
    case False
    moreover have "unat res * 10 \<le> unat res * 10 ^ Suc n" by simp
    ultimately have "\<not> unat res * 10 ^ Suc n < 2 ^ 64" by linarith
    then show ?thesis using False by (simp add: mul_overflows_u64_iff u64_result_def)
  qed
qed

lemma u64_result_bind: "u64_result n \<bind> tens k = u64_result (n * 10 ^ k)"
proof (cases "n < 2 ^ 64")
  case True
  then show ?thesis by (simp add: u64_result_def [of n] tens_value unat_of_nat)
next
  case False
  moreover have "n \<le> n * 10 ^ k" by simp
  ultimately have "\<not> n * 10 ^ k < 2 ^ 64" by linarith
  then show ?thesis using False by (simp add: u64_result_def)
qed

lemma from_number_value:
  assumes "list_all cisdigit ds" "ds \<noteq> []"
  shows "from_number (ds @ r) (length ds) k = Some (u64_result (digits_value ds * 10 ^ k))"
  using assms add_digits_value [OF assms(1), of 0] by (simp add: from_number_def digits_value_def u64_result_bind)

lemma u64_result_add:
  assumes "u64_result m = Some a" "u64_result n = Some b"
  shows "(if add_overflows_u64 a b then None else Some (a + b)) = u64_result (m + n)"
proof -
  have "unat a = m" "unat b = n" using assms by (auto simp: u64_result_def unat_of_nat split: if_splits)
  then show ?thesis by (auto simp: add_overflows_u64_iff u64_result_def)
qed

lemma from_numbers_value:
  assumes "list_all cisdigit ds" "ds \<noteq> []" "list_all cisdigit es" "es \<noteq> []"
  shows "from_numbers (ds @ r) (length ds) k (es @ q) (length es) =
    Some (if length es \<le> k then u64_result (digits_value ds * 10 ^ k + digits_value es * 10 ^ (k - length es)) else None)"
  using assms
  by (auto simp: from_numbers_def from_number_value u64_result_add split: option.split) (auto simp: u64_result_def split: if_splits)

lemma takeWhile_digits: "list_all cisdigit ds \<Longrightarrow> takeWhile cisdigit (ds @ u) = ds @ takeWhile cisdigit u \<and> dropWhile cisdigit (ds @ u) = dropWhile cisdigit u"
  by (induction ds) auto

definition unit_text :: "string \<Rightarrow> bool" where
  "unit_text u \<longleftrightarrow> u \<noteq> [] \<and> \<not> cisdigit (hd u) \<and> hd u \<noteq> NUL \<and> hd u \<noteq> CHR ''.''"

lemma at_end_simps [simp]: "at_end []" "at_end (c # cs) \<longleftrightarrow> c = NUL"
  by (simp_all add: at_end_def)

lemma unit_text_while: "unit_text u \<Longrightarrow> takeWhile cisdigit u = [] \<and> dropWhile cisdigit u = u \<and> \<not> at_end u"
  by (cases u) (auto simp: unit_text_def at_end_def)

lemma breakup_texts:
  assumes "list_all cisdigit ds" "ds \<noteq> []"
  shows "breakup ds = Some (length ds, None, 0, None)"
    "unit_text u \<Longrightarrow> breakup (ds @ u) = Some (length ds, None, 0, Some u)"
    "list_all cisdigit es \<Longrightarrow> unit_text u \<Longrightarrow> breakup (ds @ CHR ''.'' # es @ u) = Some (length ds, Some (es @ u), length es, Some u)"
proof -
  have tw: "takeWhile cisdigit ds = ds" "dropWhile cisdigit ds = []" using takeWhile_digits [OF assms(1), of "[]"] unfolding append_Nil2 by simp_all
  show "breakup ds = Some (length ds, None, 0, None)" using assms(2) by (simp add: breakup_def at_end_def tw)
  show "breakup (ds @ u) = Some (length ds, None, 0, Some u)" if "unit_text u"
    using takeWhile_digits [OF assms(1), of u] unit_text_while [OF that] that by (simp add: breakup_def unit_text_def)
  have "\<not> cisdigit (CHR ''.'')" by (simp add: cisdigit_def)
  then show "breakup (ds @ CHR ''.'' # es @ u) = Some (length ds, Some (es @ u), length es, Some u)" if "list_all cisdigit es" "unit_text u"
    using takeWhile_digits [OF assms(1), of "CHR ''.'' # es @ u"] takeWhile_digits [OF that(1), of u] unit_text_while [OF that(2)]
    by (simp add: breakup_def)
qed

lemma units [simp]: "unit_text (''msat'' @ r)" "unit_text (''sat'' @ r)" "unit_text (''btc'' @ r)"
  by (simp_all add: unit_text_def cisdigit_def)

definition msat_value :: "nat \<Rightarrow> amount_msat option" where
  "msat_value n = map_option (\<lambda>v. \<lparr>millisatoshis = v\<rparr>) (u64_result n)"

lemma msat_value_result: "msat_value n = msat_result n"
  by (simp add: msat_value_def u64_result_def msat_result_def)

lemma parse_msat_texts:
  assumes "list_all cisdigit ds" "ds \<noteq> []"
  shows "parse_amount_msat ds = Some (msat_result (digits_value ds))"
    "parse_amount_msat (ds @ ''msat'' @ r) = Some (msat_result (digits_value ds))"
    "parse_amount_msat (ds @ ''sat'' @ r) = Some (msat_result (digits_value ds * 1000))"
    "parse_amount_msat (ds @ ''btc'' @ r) = Some (msat_result (digits_value ds * 10 ^ 11))"
    "list_all cisdigit es \<Longrightarrow> es \<noteq> [] \<Longrightarrow> parse_amount_msat (ds @ CHR ''.'' # es @ ''btc'' @ r) =
      Some (if length es \<le> 11 then msat_result (digits_value ds * 10 ^ 11 + digits_value es * 10 ^ (11 - length es)) else None)"
proof -
  note v = msat_value_result [symmetric] msat_value_def
  show "parse_amount_msat ds = Some (msat_result (digits_value ds))"
    using breakup_texts(1) [OF assms] from_number_value [OF assms, of "[]" 0] by (simp add: parse_amount_msat_def v)
  show "parse_amount_msat (ds @ ''msat'' @ r) = Some (msat_result (digits_value ds))"
    using breakup_texts(2) [OF assms units(1)] from_number_value [OF assms, of "''msat'' @ r" 0] by (simp add: parse_amount_msat_def v memstarts_str_def)
  show "parse_amount_msat (ds @ ''sat'' @ r) = Some (msat_result (digits_value ds * 1000))"
    using breakup_texts(2) [OF assms units(2)] from_number_value [OF assms, of "''sat'' @ r" 3] by (simp add: parse_amount_msat_def v memstarts_str_def)
  show "parse_amount_msat (ds @ ''btc'' @ r) = Some (msat_result (digits_value ds * 10 ^ 11))"
    using breakup_texts(2) [OF assms units(3)] from_number_value [OF assms, of "''btc'' @ r" 11] by (simp add: parse_amount_msat_def v memstarts_str_def)
  show "parse_amount_msat (ds @ CHR ''.'' # es @ ''btc'' @ r) =
      Some (if length es \<le> 11 then msat_result (digits_value ds * 10 ^ 11 + digits_value es * 10 ^ (11 - length es)) else None)"
    if es: "list_all cisdigit es" "es \<noteq> []"
    using breakup_texts(3) [OF assms es(1) units(3)] from_numbers_value [OF assms es, of "CHR ''.'' # es @ ''btc'' @ r" 11 "''btc'' @ r"] es(2)
    by (simp add: parse_amount_msat_def v memstarts_str_def)
qed

lemma digits_value_snoc: "digits_value (ds @ [c]) = digits_value ds * 10 + digit_of c"
  by (simp add: digits_value_def)

lemma digit_of_char: "d < 10 \<Longrightarrow> digit_of (digit_char d) = d"
  by (simp add: digit_of_def of_char_digit)

lemma digits_value_dec: "digits_value (dec_of_nat n) = n"
proof (induction n rule: dec_of_nat_induct)
  case (small n)
  then show ?case using digits_value_snoc [of "[]"] by (simp add: dec_of_nat_small digit_of_char digits_value_def)
next
  case (big n)
  then show ?case by (simp add: dec_of_nat_big digits_value_snoc digit_of_char)
qed

lemma digits_dec: "list_all cisdigit (dec_of_nat n)"
  using dec_of_nat_digits by (auto simp: list_all_iff)

lemma length_dec: "n < 10 ^ k \<Longrightarrow> 0 < k \<Longrightarrow> length (dec_of_nat n) \<le> k"
proof (induction n arbitrary: k rule: dec_of_nat_induct)
  case (big n)
  then obtain j where k: "k = Suc j" "0 < j" by (cases k) (auto, cases "k - 1", auto)
  have "n div 10 < 10 ^ j" using big.prems(1) k(1) by (simp add: less_mult_imp_div_less mult.commute)
  then show ?case using big k by (simp add: dec_of_nat_big)
qed (simp add: dec_of_nat_small)

lemma zero_pad_props:
  assumes "list_all cisdigit s" "s \<noteq> []" "length s \<le> n"
  shows "list_all cisdigit (zero_pad n s)" "zero_pad n s \<noteq> []" "length (zero_pad n s) = n" "digits_value (zero_pad n s) = digits_value s"
proof -
  have "foldl (\<lambda>n c. n * 10 + digit_of c) 0 (replicate k (CHR ''0'')) = 0" for k by (induction k) (simp_all add: digit_of_def)
  then show "list_all cisdigit (zero_pad n s)" "zero_pad n s \<noteq> []" "length (zero_pad n s) = n" "digits_value (zero_pad n s) = digits_value s"
    using assms by (auto simp: zero_pad_def digits_value_def list_all_iff cisdigit_def)
qed

text \<open>What is printed is read back.\<close>

lemma msat_result_id: "msat_result (msat_nat a) = Some a"
  using unat_u64_less [of "millisatoshis a"] by (simp add: msat_result_def)

lemma parse_fmt_msat: "parse_amount_msat (fmt_amount_msat a) = Some (Some a)"
  using parse_msat_texts(2) [OF digits_dec dec_of_nat_nonempty, of "msat_nat a" "[]"]
  by (simp add: fmt_amount_msat_def digits_value_dec msat_result_id)

lemma parse_fmt_sat_as_msat: "parse_amount_msat (fmt_amount_sat s) = Some (amount_sat_to_msat s)"
  using parse_msat_texts(3) [OF digits_dec dec_of_nat_nonempty, of "sat_nat s" "[]"]
  by (simp add: fmt_amount_sat_def digits_value_dec sat_to_msat_result)

lemma parse_fmt_msat_btc: "parse_amount_msat (fmt_amount_msat_btc a True) = Some (Some a)"
proof (cases "millisatoshis a = 0")
  case True
  have "digits_value ''0'' = 0" "list_all cisdigit ''0''" by (simp_all add: digits_value_def digit_of_def cisdigit_def)
  then show ?thesis using parse_msat_texts(4) [of "''0''" "[]"] msat_result_id [of a] True by (simp add: fmt_amount_msat_btc_def)
next
  case False
  let ?b = "100000000000 :: nat"
  have b: "unat MSAT_PER_BTC = ?b" by (simp add: MSAT_PER_BTC_def MSAT_PER_SAT_def SAT_PER_BTC_def)
  let ?s = "dec_of_nat (unat (millisatoshis a mod MSAT_PER_BTC))"
  have "unat (millisatoshis a mod MSAT_PER_BTC) < 10 ^ 11" unfolding unat_mod b by simp
  then have len: "length ?s \<le> 11" by (rule length_dec) simp
  note pad = zero_pad_props [OF digits_dec dec_of_nat_nonempty len]
  have "unat (millisatoshis a div MSAT_PER_BTC) * 10 ^ 11 + unat (millisatoshis a mod MSAT_PER_BTC) = msat_nat a"
    unfolding unat_div unat_mod b by simp
  moreover have "parse_amount_msat (fmt_amount_msat_btc a True) =
      Some (msat_result (unat (millisatoshis a div MSAT_PER_BTC) * 10 ^ 11 + unat (millisatoshis a mod MSAT_PER_BTC)))"
    using parse_msat_texts(5) [OF digits_dec dec_of_nat_nonempty pad(1,2), of "unat (millisatoshis a div MSAT_PER_BTC)" "[]"] False
    unfolding fmt_amount_msat_btc_def pad(3,4) digits_value_dec by simp
  ultimately show ?thesis using msat_result_id [of a] by simp
qed

subsection \<open>Texts of satoshis\<close>

definition sat_result :: "nat \<Rightarrow> amount_sat option" where
  "sat_result n = map_option (\<lambda>v. \<lparr>satoshis = v\<rparr>) (u64_result n)"

lemma sat_result_id: "sat_result (sat_nat s) = Some s"
  using unat_u64_less [of "satoshis s"] by (simp add: sat_result_def u64_result_def)

lemma parse_sat_texts:
  assumes "list_all cisdigit ds" "ds \<noteq> []"
  shows "parse_amount_sat ds = Some (sat_result (digits_value ds))"
    "parse_amount_sat (ds @ ''sat'' @ r) = Some (sat_result (digits_value ds))"
    "parse_amount_sat (ds @ ''000msat'' @ r) = Some (sat_result (digits_value ds))"
    "parse_amount_sat (ds @ ''btc'' @ r) = Some (sat_result (digits_value ds * 10 ^ 8))"
    "list_all cisdigit es \<Longrightarrow> es \<noteq> [] \<Longrightarrow> parse_amount_sat (ds @ CHR ''.'' # es @ ''btc'' @ r) =
      Some (if length es \<le> 8 then sat_result (digits_value ds * 10 ^ 8 + digits_value es * 10 ^ (8 - length es)) else None)"
proof -
  show "parse_amount_sat ds = Some (sat_result (digits_value ds))"
    using breakup_texts(1) [OF assms] from_number_value [OF assms, of "[]" 0] by (simp add: parse_amount_sat_def sat_result_def)
  show "parse_amount_sat (ds @ ''sat'' @ r) = Some (sat_result (digits_value ds))"
    using breakup_texts(2) [OF assms units(2)] from_number_value [OF assms, of "''sat'' @ r" 0] by (simp add: parse_amount_sat_def sat_result_def memstarts_str_def)
  have "list_all cisdigit (ds @ ''000'')" using assms(1) by (simp add: cisdigit_def)
  then show "parse_amount_sat (ds @ ''000msat'' @ r) = Some (sat_result (digits_value ds))"
    using breakup_texts(2) [of "ds @ ''000''" "''msat'' @ r"] from_number_value [OF assms, of "''000msat'' @ r" 0] units(1) [of r]
    by (simp add: parse_amount_sat_def sat_result_def memstarts_str_def memends_def)
  show "parse_amount_sat (ds @ ''btc'' @ r) = Some (sat_result (digits_value ds * 10 ^ 8))"
    using breakup_texts(2) [OF assms units(3)] from_number_value [OF assms, of "''btc'' @ r" 8] by (simp add: parse_amount_sat_def sat_result_def memstarts_str_def)
  show "parse_amount_sat (ds @ CHR ''.'' # es @ ''btc'' @ r) =
      Some (if length es \<le> 8 then sat_result (digits_value ds * 10 ^ 8 + digits_value es * 10 ^ (8 - length es)) else None)"
    if es: "list_all cisdigit es" "es \<noteq> []"
    using breakup_texts(3) [OF assms es(1) units(3)] from_numbers_value [OF assms es, of "CHR ''.'' # es @ ''btc'' @ r" 8 "''btc'' @ r"] es(2)
    by (simp add: parse_amount_sat_def sat_result_def memstarts_str_def)
qed

lemma parse_fmt_sat: "parse_amount_sat (fmt_amount_sat s) = Some (Some s)"
  using parse_sat_texts(2) [OF digits_dec dec_of_nat_nonempty, of "sat_nat s" "[]"]
  by (simp add: fmt_amount_sat_def digits_value_dec sat_result_id)

lemma parse_fmt_sat_btc: "parse_amount_sat (fmt_amount_sat_btc s True) = Some (Some s)"
proof (cases "satoshis s = 0")
  case True
  have "digits_value ''0'' = 0" "list_all cisdigit ''0''" by (simp_all add: digits_value_def digit_of_def cisdigit_def)
  then show ?thesis using parse_sat_texts(4) [of "''0''" "[]"] sat_result_id [of s] True by (simp add: fmt_amount_sat_btc_def)
next
  case False
  have b: "unat SAT_PER_BTC = 100000000" by (simp add: SAT_PER_BTC_def)
  have "unat (satoshis s mod SAT_PER_BTC) < 10 ^ 8" unfolding unat_mod b by simp
  then have len: "length (dec_of_nat (unat (satoshis s mod SAT_PER_BTC))) \<le> 8" by (rule length_dec) simp
  note pad = zero_pad_props [OF digits_dec dec_of_nat_nonempty len]
  have "unat (satoshis s div SAT_PER_BTC) * 10 ^ 8 + unat (satoshis s mod SAT_PER_BTC) = sat_nat s" unfolding unat_div unat_mod b by simp
  moreover have "parse_amount_sat (fmt_amount_sat_btc s True) =
      Some (sat_result (unat (satoshis s div SAT_PER_BTC) * 10 ^ 8 + unat (satoshis s mod SAT_PER_BTC)))"
    using parse_sat_texts(5) [OF digits_dec dec_of_nat_nonempty pad(1,2), of "unat (satoshis s div SAT_PER_BTC)" "[]"] False
    unfolding fmt_amount_sat_btc_def pad(3,4) digits_value_dec by simp
  ultimately show ?thesis using sat_result_id [of s] by simp
qed

text \<open>Millisatoshis that are no multiple of a satoshi are refused, unless the first digit is a zero: then they are taken for satoshis.\<close>

lemma parse_sat_leading_zero:
  assumes "list_all cisdigit ds" "\<not> memends (CHR ''0'' # ds) ''000''"
  shows "parse_amount_sat (CHR ''0'' # ds @ ''msat'' @ r) = Some (sat_result (digits_value ds))"
proof -
  have d: "list_all cisdigit (CHR ''0'' # ds)" using assms(1) by (simp add: cisdigit_def)
  have "digits_value (CHR ''0'' # ds) = digits_value ds" by (simp add: digits_value_def digit_of_def)
  then show ?thesis
    using breakup_texts(2) [OF d _ units(1), of r] from_number_value [OF d, of "''msat'' @ r" 0] assms(2)
    by (simp add: parse_amount_sat_def sat_result_def memstarts_str_def)
qed

lemma parse_sat_refuses:
  assumes "list_all cisdigit ds" "ds \<noteq> []" "hd ds \<noteq> CHR ''0''" "\<not> memends ds ''000''"
  shows "parse_amount_sat (ds @ ''msat'' @ r) = Some None"
  using breakup_texts(2) [OF assms(1,2) units(1), of r] assms(2-4)
  by (cases ds) (simp_all add: parse_amount_sat_def memstarts_str_def)

text \<open>Bitcoins printed without the unit are not read back, apart from zero: a text with a point needs the unit.\<close>

lemma parse_no_unit:
  assumes "list_all cisdigit ds" "ds \<noteq> []" "list_all cisdigit es" "es \<noteq> []"
  shows "parse_amount_msat (ds @ CHR ''.'' # es) = Some None" "parse_amount_sat (ds @ CHR ''.'' # es) = Some None"
proof -
  have "\<not> cisdigit (CHR ''.'')" by (simp add: cisdigit_def)
  have tw: "takeWhile cisdigit es = es" "dropWhile cisdigit es = []"
    using takeWhile_digits [OF assms(3), of "[]"] unfolding append_Nil2 by simp_all
  have "breakup (ds @ CHR ''.'' # es) = Some (length ds, Some es, length es, None)"
    using takeWhile_digits [OF assms(1), of "CHR ''.'' # es"] assms(4) \<open>\<not> cisdigit _\<close> by (simp add: breakup_def tw)
  then show "parse_amount_msat (ds @ CHR ''.'' # es) = Some None" "parse_amount_sat (ds @ CHR ''.'' # es) = Some None"
    by (simp_all add: parse_amount_msat_def parse_amount_sat_def memstarts_str_def)
qed

lemma parse_fmt_no_unit:
  "parse_amount_msat (fmt_amount_msat_btc a False) = Some (if millisatoshis a = 0 then Some a else None)"
  "parse_amount_sat (fmt_amount_sat_btc s False) = Some (if satoshis s = 0 then Some s else None)"
proof -
  have zero: "digits_value ''0'' = 0" "list_all cisdigit ''0''" by (simp_all add: digits_value_def digit_of_def cisdigit_def)
  have "unat (millisatoshis a mod MSAT_PER_BTC) < 10 ^ 11" by (simp add: unat_mod MSAT_PER_BTC_def MSAT_PER_SAT_def SAT_PER_BTC_def)
  then have "length (dec_of_nat (unat (millisatoshis a mod MSAT_PER_BTC))) \<le> 11" by (rule length_dec) simp
  note pad = zero_pad_props(1,2) [OF digits_dec dec_of_nat_nonempty this]
  show "parse_amount_msat (fmt_amount_msat_btc a False) = Some (if millisatoshis a = 0 then Some a else None)"
    using parse_msat_texts(1) [OF zero(2)] zero(1) msat_result_id [of a] parse_no_unit(1) [OF digits_dec dec_of_nat_nonempty pad]
    by (cases "millisatoshis a = 0") (simp_all add: fmt_amount_msat_btc_def)
  have "unat (satoshis s mod SAT_PER_BTC) < 10 ^ 8" by (simp add: unat_mod SAT_PER_BTC_def)
  then have "length (dec_of_nat (unat (satoshis s mod SAT_PER_BTC))) \<le> 8" by (rule length_dec) simp
  note pad = zero_pad_props(1,2) [OF digits_dec dec_of_nat_nonempty this]
  show "parse_amount_sat (fmt_amount_sat_btc s False) = Some (if satoshis s = 0 then Some s else None)"
    using parse_sat_texts(1) [OF zero(2)] zero(1) sat_result_id [of s] parse_no_unit(2) [OF digits_dec dec_of_nat_nonempty pad]
    by (cases "satoshis s = 0") (simp_all add: fmt_amount_sat_btc_def)
qed

end
