(* ===== verification/Wire.thy ===== *)
theory Wire
  imports Amount
begin

text \<open>
  \<open>wire/wire.c\<close> and \<open>common/bigsize.c\<close>: big-endian integers, truncated integers and integers of variable size.
  A cursor with the number of bytes that remain is the list of these
  bytes, and \<open>None\<close> after \<open>fromwire_fail\<close>. What is written is appended to an array.
\<close>

unbundle bit_operations_syntax

type_synonym cursor = "u8 list option"

subsection \<open>Bytes\<close>

text \<open>\<open>memcpy\<close> from and to an integer in network order, of \<open>k\<close> bytes.\<close>

fun be_bytes :: "nat \<Rightarrow> u64 \<Rightarrow> u8 list" where
  "be_bytes 0 v = []"
| "be_bytes (Suc k) v = ucast (drop_bit (8 * k) v) # be_bytes k v"

definition be_value :: "u8 list \<Rightarrow> u64" where
  "be_value bs = foldl (\<lambda>a b. push_bit 8 a OR ucast b) 0 bs"

text \<open>The bytes copied, zeros after a failure, and the cursor.\<close>

definition fromwire :: "cursor \<Rightarrow> nat \<Rightarrow> u8 list \<times> cursor" where
  "fromwire cur n = (case cur of
     None \<Rightarrow> (replicate n 0, None)
   | Some bs \<Rightarrow> if length bs < n then (replicate n 0, None) else (take n bs, Some (drop n bs)))"

definition towire :: "u8 list \<Rightarrow> u8 list \<Rightarrow> u8 list" where
  "towire p data = p @ data"

definition fromwire_tlv_uint :: "cursor \<Rightarrow> nat \<Rightarrow> (u64 \<times> cursor) run" where
  "fromwire_tlv_uint cur maxlen = do {
     c_assert (maxlen \<le> 8);
     let length1 = (case cur of None \<Rightarrow> 0 | Some bs \<Rightarrow> length bs);
     if length1 > maxlen then Some (0, None)
     else (case fromwire cur length1 of
       (bytes, cur') \<Rightarrow>
         if length1 > 0 \<and> hd bytes = 0 then Some (0, None)
         else Some (be_value (replicate (8 - length1) 0 @ bytes), cur')) }"

definition towire_tlv_uint :: "u8 list \<Rightarrow> u64 \<Rightarrow> u8 list" where
  "towire_tlv_uint p v = towire p (dropWhile (\<lambda>b. b = 0) (be_bytes 8 v))"

definition fromwire_peektype :: "u8 list \<Rightarrow> int" where
  "fromwire_peektype msg = (case fromwire (Some msg) 2 of (bs, None) \<Rightarrow> - 1 | (bs, Some _) \<Rightarrow> int (unat (be_value bs)))"

definition fromwire_tu64 :: "cursor \<Rightarrow> (u64 \<times> cursor) run" where
  "fromwire_tu64 cur = fromwire_tlv_uint cur 8"

definition fromwire_u64 :: "cursor \<Rightarrow> u64 \<times> cursor" where
  "fromwire_u64 cur = (case fromwire cur 8 of (bs, None) \<Rightarrow> (0, None) | (bs, Some r) \<Rightarrow> (be_value bs, Some r))"

definition fromwire_u16 :: "cursor \<Rightarrow> u16 \<times> cursor" where
  "fromwire_u16 cur = (case fromwire cur 2 of (bs, None) \<Rightarrow> (0, None) | (bs, Some r) \<Rightarrow> (ucast (be_value bs), Some r))"

definition fromwire_u8 :: "cursor \<Rightarrow> u8 \<times> cursor" where
  "fromwire_u8 cur = (case fromwire cur 1 of (bs, None) \<Rightarrow> (0, None) | (bs, Some r) \<Rightarrow> (hd bs, Some r))"

text \<open>A byte other than 0 and 1 fails, and is converted to \<open>true\<close>.\<close>

definition fromwire_bool :: "cursor \<Rightarrow> bool \<times> cursor" where
  "fromwire_bool cur = (case fromwire cur 1 of
     (bs, None) \<Rightarrow> (False, None)
   | (bs, Some r) \<Rightarrow> if hd bs \<noteq> 0 \<and> hd bs \<noteq> 1 then (True, None) else (hd bs \<noteq> 0, Some r))"

definition fromwire_sha256 :: "cursor \<Rightarrow> u8 list \<times> cursor" where
  "fromwire_sha256 cur = fromwire cur 32"

definition fromwire_u8_array :: "cursor \<Rightarrow> nat \<Rightarrow> u8 list \<times> cursor" where
  "fromwire_u8_array cur num = fromwire cur num"

text \<open>An array of no bytes is \<open>NULL\<close>, which every user treats as the empty array.\<close>

definition fromwire_tal_arrn :: "cursor \<Rightarrow> nat \<Rightarrow> u8 list \<times> cursor" where
  "fromwire_tal_arrn cur num =
     (if num = 0 then ([], cur)
      else if num > (case cur of None \<Rightarrow> 0 | Some bs \<Rightarrow> length bs) then ([], None)
      else fromwire_u8_array cur num)"

definition towire_tu64 :: "u8 list \<Rightarrow> u64 \<Rightarrow> u8 list" where
  "towire_tu64 p v = towire_tlv_uint p v"

definition towire_u64 :: "u8 list \<Rightarrow> u64 \<Rightarrow> u8 list" where
  "towire_u64 p v = towire p (be_bytes 8 v)"

definition towire_u16 :: "u8 list \<Rightarrow> u16 \<Rightarrow> u8 list" where
  "towire_u16 p v = towire p (be_bytes 2 (ucast v))"

definition towire_u8 :: "u8 list \<Rightarrow> u8 \<Rightarrow> u8 list" where
  "towire_u8 p v = towire p [v]"

definition towire_bool :: "u8 list \<Rightarrow> bool \<Rightarrow> u8 list" where
  "towire_bool p v = towire p [if v then 1 else 0]"

definition towire_sha256 :: "u8 list \<Rightarrow> u8 list \<Rightarrow> u8 list" where
  "towire_sha256 p sha256 = towire p sha256"

definition towire_u8_array :: "u8 list \<Rightarrow> u8 list \<Rightarrow> u8 list" where
  "towire_u8_array p arr = towire p arr"

definition fromwire_amount_msat :: "cursor \<Rightarrow> amount_msat \<times> cursor" where
  "fromwire_amount_msat cur = (case fromwire_u64 cur of (v, c) \<Rightarrow> (\<lparr>millisatoshis = v\<rparr>, c))"

definition fromwire_amount_sat :: "cursor \<Rightarrow> amount_sat \<times> cursor" where
  "fromwire_amount_sat cur = (case fromwire_u64 cur of (v, c) \<Rightarrow> (\<lparr>satoshis = v\<rparr>, c))"

definition towire_amount_msat :: "u8 list \<Rightarrow> amount_msat \<Rightarrow> u8 list" where
  "towire_amount_msat p msat = towire_u64 p (millisatoshis msat)"

definition towire_amount_sat :: "u8 list \<Rightarrow> amount_sat \<Rightarrow> u8 list" where
  "towire_amount_sat p sat = towire_u64 p (satoshis sat)"

subsection \<open>Integers of variable size\<close>

definition bigsize_len :: "u64 \<Rightarrow> nat" where
  "bigsize_len v = (if v < 0xfd then 1 else if v \<le> 0xffff then 3 else if v \<le> 0xffffffff then 5 else 9)"

definition bigsize_put :: "u64 \<Rightarrow> u8 list" where
  "bigsize_put v =
     (if v < 0xfd then [ucast v]
      else if v \<le> 0xffff then [0xfd, ucast (drop_bit 8 v), ucast v]
      else if v \<le> 0xffffffff then [0xfe, ucast (drop_bit 24 v), ucast (drop_bit 16 v), ucast (drop_bit 8 v), ucast v]
      else [0xff, ucast (drop_bit 56 v), ucast (drop_bit 48 v), ucast (drop_bit 40 v), ucast (drop_bit 32 v),
        ucast (drop_bit 24 v), ucast (drop_bit 16 v), ucast (drop_bit 8 v), ucast v])"

text \<open>The number of bytes read, 0 for a failure, and the value.\<close>

definition bigsize_get :: "u8 list \<Rightarrow> nat \<times> u64" where
  "bigsize_get p =
     (if length p < 1 then (0, 0)
      else if p ! 0 = 0xfd then
        (if length p < 3 then (0, 0)
         else let val = push_bit 8 (ucast (p ! 1)) + ucast (p ! 2) in if val < 0xfd then (0, val) else (3, val))
      else if p ! 0 = 0xfe then
        (if length p < 5 then (0, 0)
         else let val = push_bit 24 (ucast (p ! 1)) + push_bit 16 (ucast (p ! 2)) + push_bit 8 (ucast (p ! 3)) + ucast (p ! 4) in
           if drop_bit 16 val = 0 then (0, val) else (5, val))
      else if p ! 0 = 0xff then
        (if length p < 9 then (0, 0)
         else let val = push_bit 56 (ucast (p ! 1)) + push_bit 48 (ucast (p ! 2)) + push_bit 40 (ucast (p ! 3)) + push_bit 32 (ucast (p ! 4)) +
             push_bit 24 (ucast (p ! 5)) + push_bit 16 (ucast (p ! 6)) + push_bit 8 (ucast (p ! 7)) + ucast (p ! 8) in
           if drop_bit 32 val = 0 then (0, val) else (9, val))
      else (1, ucast (p ! 0)))"

definition fromwire_bigsize :: "cursor \<Rightarrow> (u64 \<times> cursor) run" where
  "fromwire_bigsize cur = (case cur of
     None \<Rightarrow> Some (0, None)
   | Some bs \<Rightarrow> (case bigsize_get bs of (len, v) \<Rightarrow>
       if len = 0 then Some (0, None)
       else do { c_assert (len \<le> length bs); Some (v, snd (fromwire cur len)) }))"

definition towire_bigsize :: "u8 list \<Rightarrow> u64 \<Rightarrow> u8 list" where
  "towire_bigsize p val = towire p (bigsize_put val)"

subsection \<open>Reading back what was written\<close>

lemma u8_bit_high: "8 \<le> i \<Longrightarrow> \<not> bit (b :: u8) i"
  using bit_imp_le_length [of b i] by auto

lemma be_value_foldl: "foldl (\<lambda>a b. push_bit 8 a OR ucast (b :: u8)) a (be_bytes k v) = push_bit (8 * k) a OR take_bit (8 * k) v"
proof (induction k arbitrary: a)
  case (Suc k)
  show ?case unfolding be_bytes.simps foldl.simps Suc
  proof (rule bit_word_eqI)
    fix n assume n: "n < LENGTH(64)"
    consider "n < 8 * k" | "8 * k \<le> n" "n < 8 * k + 8" | "8 * k + 8 \<le> n" by linarith
    then show "bit (push_bit (8 * k) (push_bit 8 a OR ucast (ucast (drop_bit (8 * k) v) :: u8)) OR take_bit (8 * k) v) n =
        bit (push_bit (8 * Suc k) a OR take_bit (8 * Suc k) v) n"
      using n by cases (auto simp: bit_simps u8_bit_high diff_diff_left add.commute)
  qed
qed simp

lemma be_value_bytes: "be_value (be_bytes k v) = take_bit (8 * k) v"
  by (simp add: be_value_def be_value_foldl)

lemma be_value_bytes8: "be_value (be_bytes 8 v) = v"
  unfolding be_value_bytes by (rule bit_word_eqI) (simp add: bit_simps)

lemma length_be_bytes [simp]: "length (be_bytes k v) = k"
  by (induction k) auto

lemma be_value_snoc: "be_value (bs @ [b]) = push_bit 8 (be_value bs) OR ucast b"
  by (simp add: be_value_def)

lemma be_bytes_snoc: "be_bytes (Suc k) v = be_bytes k (drop_bit 8 v) @ [ucast v]"
  by (induction k) (simp_all add: add.commute)

lemma take_bit_be_value: "take_bit (8 * length bs) (be_value bs) = be_value bs"
proof (induction bs rule: rev_induct)
  case (snoc b bs)
  have "\<not> bit (be_value bs) i" if "8 * length bs \<le> i" for i
    using snoc bit_take_bit_iff [of "8 * length bs" "be_value bs" i] that by simp
  then have "\<not> bit (be_value (bs @ [b])) i" if "8 * length (bs @ [b]) \<le> i" for i
    using that u8_bit_high [of i b] by (auto simp: be_value_snoc bit_simps)
  then show ?case by (intro bit_word_eqI) (metis bit_take_bit_iff linorder_not_less)
qed (simp add: be_value_def)

lemma be_bytes_value: "length bs \<le> 8 \<Longrightarrow> be_bytes (length bs) (be_value bs) = bs"
proof (induction bs rule: rev_induct)
  case (snoc b bs)
  have hi: "\<not> bit (be_value bs) i" if "8 * length bs \<le> i" for i
    using take_bit_be_value [of bs] bit_take_bit_iff [of "8 * length bs" "be_value bs" i] that by simp
  have "drop_bit 8 (be_value (bs @ [b])) = be_value bs"
  proof (rule bit_word_eqI)
    fix n assume "n < LENGTH(64)"
    then show "bit (drop_bit 8 (be_value (bs @ [b]))) n = bit (be_value bs) n"
      using hi [of n] snoc.prems u8_bit_high [of "8 + n" b] by (cases "n < 56") (auto simp: be_value_snoc bit_simps)
  qed
  moreover have "ucast (be_value (bs @ [b])) = b" unfolding be_value_snoc by (intro bit_word_eqI) (auto simp: bit_simps)
  ultimately show ?case using snoc by (simp add: be_bytes_snoc del: be_bytes.simps)
qed (simp add: be_value_def)

lemma be_step: "push_bit 8 a OR ucast (b :: u8) = (a * 256 + ucast b :: u64)"
proof -
  have "push_bit 8 a OR ucast b = push_bit 8 a + (ucast b :: u64)"
    by (rule disjunctive_add [symmetric]) (auto simp: bit_simps u8_bit_high)
  then show ?thesis by (simp add: push_bit_eq_mult)
qed

lemma be_value_sum: "be_value bs = foldl (\<lambda>a b. a * 256 + ucast b) 0 bs"
  by (simp add: be_value_def be_step)

lemma be_value_list:
  "be_value [a, b] = push_bit 8 (ucast a) + ucast b"
  "be_value [a, b, c, d] = push_bit 24 (ucast a) + push_bit 16 (ucast b) + push_bit 8 (ucast c) + ucast d"
  "be_value [a, b, c, d, e, f, g, h] = push_bit 56 (ucast a) + push_bit 48 (ucast b) + push_bit 40 (ucast c) + push_bit 32 (ucast d) +
     push_bit 24 (ucast e) + push_bit 16 (ucast f) + push_bit 8 (ucast g) + ucast h"
  by (simp_all add: be_value_sum push_bit_eq_mult algebra_simps)

lemma take_nth: "n \<le> length xs \<Longrightarrow> take n xs = map (\<lambda>i. xs ! i) [0..<n]"
  by (rule nth_equalityI) auto

lemma bigsize_get_Cons:
  "bigsize_get (b # bs) =
     (if b = 0xfd then if length bs < 2 then (0, 0) else let v = be_value (take 2 bs) in if v < 0xfd then (0, v) else (3, v)
      else if b = 0xfe then if length bs < 4 then (0, 0) else let v = be_value (take 4 bs) in if drop_bit 16 v = 0 then (0, v) else (5, v)
      else if b = 0xff then if length bs < 8 then (0, 0) else let v = be_value (take 8 bs) in if drop_bit 32 v = 0 then (0, v) else (9, v)
      else (1, ucast b))"
proof -
  have "be_value (take 2 bs) = push_bit 8 (ucast (bs ! 0)) + ucast (bs ! 1)" if "\<not> length bs < 2"
    using take_nth [of 2 bs] that by (simp add: upt_rec numeral_eq_Suc be_value_list)
  moreover have "be_value (take 4 bs) = push_bit 24 (ucast (bs ! 0)) + push_bit 16 (ucast (bs ! 1)) + push_bit 8 (ucast (bs ! 2)) + ucast (bs ! 3)"
    if "\<not> length bs < 4"
    using take_nth [of 4 bs] that by (simp add: upt_rec be_value_list) (simp add: numeral_eq_Suc)
  moreover have "be_value (take 8 bs) = push_bit 56 (ucast (bs ! 0)) + push_bit 48 (ucast (bs ! 1)) + push_bit 40 (ucast (bs ! 2)) + push_bit 32 (ucast (bs ! 3)) +
     push_bit 24 (ucast (bs ! 4)) + push_bit 16 (ucast (bs ! 5)) + push_bit 8 (ucast (bs ! 6)) + ucast (bs ! 7)" if "\<not> length bs < 8"
    using take_nth [of 8 bs] that by (simp add: upt_rec be_value_list) (simp add: numeral_eq_Suc)
  ultimately show ?thesis unfolding bigsize_get_def by (simp add: Let_def numeral_eq_Suc)
qed

lemma take_bit_u64: "unat (v :: u64) < 2 ^ k \<Longrightarrow> take_bit k v = v"
proof -
  assume "unat v < 2 ^ k"
  then have "take_bit k (unat v) = unat v" by (simp add: take_bit_nat_eq_self)
  then have "unat (take_bit k v) = unat v" by (metis unsigned_take_bit_eq)
  then show ?thesis by (simp add: word_unat_eq_iff)
qed

lemma drop_bit_u64: "drop_bit k (v :: u64) = 0 \<longleftrightarrow> unat v < 2 ^ k"
  unfolding word_unat_eq_iff unat_drop_bit by (simp add: div_eq_0_iff)

lemma bigsize_put_be:
  "bigsize_put v = (if v < 0xfd then [ucast v] else if v \<le> 0xffff then 0xfd # be_bytes 2 v
     else if v \<le> 0xffffffff then 0xfe # be_bytes 4 v else 0xff # be_bytes 8 v)"
  by (simp add: bigsize_put_def eval_nat_numeral)

lemma length_bigsize_put: "length (bigsize_put v) = bigsize_len v"
  by (simp add: bigsize_put_be bigsize_len_def)

lemma bigsize_get_put: "bigsize_get (bigsize_put v @ r) = (bigsize_len v, v)"
proof -
  consider (one) "v < 0xfd" | (three) "\<not> v < 0xfd" "v \<le> 0xffff" | (five) "\<not> v < 0xfd" "\<not> v \<le> 0xffff" "v \<le> 0xffffffff"
    | (nine) "\<not> v < 0xfd" "\<not> v \<le> 0xffff" "\<not> v \<le> 0xffffffff" by blast
  then show ?thesis
  proof cases
    case one
    then have u: "unat v < 253" by (simp add: word_less_nat_alt)
    then have uv: "unat (ucast v :: u8) = unat v" by (simp add: unsigned_ucast_eq take_bit_nat_eq_self)
    then have "(ucast v :: u8) \<noteq> 0xfd" "(ucast v :: u8) \<noteq> 0xfe" "(ucast v :: u8) \<noteq> 0xff" using u by auto
    moreover have "ucast (ucast v :: u8) = v" 
      using u unsigned_less [of v] unfolding word_unat_eq_iff unsigned_ucast_eq [of "ucast v :: u8"] uv by (simp add: take_bit_nat_eq_self)
    ultimately show ?thesis using one by (simp add: bigsize_put_be bigsize_get_Cons bigsize_len_def)
  next
    case three
    then have "take_bit 16 v = v" by (intro take_bit_u64) (simp add: word_le_nat_alt)
    then show ?thesis using three be_value_bytes [of 2 v] by (simp add: bigsize_put_be bigsize_get_Cons bigsize_len_def)
  next
    case five
    then have "take_bit 32 v = v" "drop_bit 16 v \<noteq> 0" using take_bit_u64 [of v 32] drop_bit_u64 [of 16 v] by (simp_all add: word_le_nat_alt)
    then show ?thesis using five be_value_bytes [of 4 v] by (simp add: bigsize_put_be bigsize_get_Cons bigsize_len_def)
  next
    case nine
    then have "drop_bit 32 v \<noteq> 0" using drop_bit_u64 [of 32 v] by (simp add: word_le_nat_alt)
    then show ?thesis using nine be_value_bytes8 [of v] by (simp add: bigsize_put_be bigsize_get_Cons bigsize_len_def)
  qed
qed

lemma be_value_less: "length bs \<le> 8 \<Longrightarrow> unat (be_value bs) < 2 ^ (8 * length bs)"
proof -
  assume "length bs \<le> 8"
  have "take_bit (8 * length bs) (unat (be_value bs)) = unat (be_value bs)" using take_bit_be_value [of bs] by (metis unsigned_take_bit_eq)
  then show ?thesis by (metis take_bit_nat_less_exp)
qed

text \<open>An encoding that is accepted is the one that is written: no value has two encodings.\<close>

lemma bigsize_put_get:
  assumes "bigsize_get p = (n, v)" "n \<noteq> 0"
  shows "n \<le> length p \<and> take n p = bigsize_put v"
proof (cases p)
  case Nil
  then show ?thesis using assms by (simp add: bigsize_get_def)
next
  case (Cons b bs)
  have len: "be_bytes k (be_value (take k bs)) = take k bs" "unat (be_value (take k bs)) < 2 ^ (8 * k)" if "k \<le> 8" "\<not> length bs < k" for k
  proof -
    have l: "length (take k bs) = k" using that(2) by simp
    show "be_bytes k (be_value (take k bs)) = take k bs" "unat (be_value (take k bs)) < 2 ^ (8 * k)"
      using be_bytes_value [of "take k bs"] be_value_less [of "take k bs"] that(1) unfolding l by simp_all
  qed
  consider (two) "b = 0xfd" | (four) "b = 0xfe" | (eight) "b = 0xff" | (one) "b \<noteq> 0xfd" "b \<noteq> 0xfe" "b \<noteq> 0xff" by blast
  then show ?thesis
  proof cases
    case two
    then have p: "\<not> length bs < 2" "v = be_value (take 2 bs)" "\<not> v < 0xfd" "n = 3"
      using assms by (auto simp: Cons bigsize_get_Cons Let_def split: if_splits)
    then have "v \<le> 0xffff" using len(2) [of 2] by (simp add: word_le_nat_alt)
    then show ?thesis using p two len(1) [of 2] by (simp add: Cons bigsize_put_be)
  next
    case four
    then have p: "\<not> length bs < 4" "v = be_value (take 4 bs)" "drop_bit 16 v \<noteq> 0" "n = 5"
      using assms by (auto simp: Cons bigsize_get_Cons Let_def split: if_splits)
    then have "\<not> v < 0xfd" "\<not> v \<le> 0xffff" "v \<le> 0xffffffff"
      using len(2) [of 4] drop_bit_u64 [of 16 v] by (simp_all add: word_le_nat_alt word_less_nat_alt)
    then show ?thesis using p four len(1) [of 4] by (simp add: Cons bigsize_put_be)
  next
    case eight
    then have p: "\<not> length bs < 8" "v = be_value (take 8 bs)" "drop_bit 32 v \<noteq> 0" "n = 9"
      using assms by (auto simp: Cons bigsize_get_Cons Let_def split: if_splits)
    then have "\<not> v < 0xfd" "\<not> v \<le> 0xffff" "\<not> v \<le> 0xffffffff"
      using drop_bit_u64 [of 32 v] by (simp_all add: word_le_nat_alt word_less_nat_alt)
    then show ?thesis using p eight len(1) [of 8] by (simp add: Cons bigsize_put_be)
  next
    case one
    then have p: "v = ucast b" "n = 1" using assms by (auto simp: Cons bigsize_get_Cons)
    have "unat b < 256" using unsigned_less [of b] by simp
    moreover have "unat b \<noteq> 253" "unat b \<noteq> 254" "unat b \<noteq> 255" using one by (auto simp: word_unat_eq_iff)
    ultimately have "unat b < 253" by linarith
    then have "v < 0xfd" using p by (simp add: word_less_nat_alt unsigned_ucast_eq take_bit_nat_eq_self)
    moreover have "ucast (ucast b :: u64) = b" by (rule bit_word_eqI) (simp add: bit_simps)
    ultimately show ?thesis using p by (simp add: Cons bigsize_put_be)
  qed
qed

end
