(* ===== verification/Tlv.thy ===== *)
theory Tlv
  imports Wire
begin

text \<open>
  \<open>wire/tlvstream.c\<close>: streams of fields with a type, a length and a value. A known type comes with functions that write and read its
  member of a record; they are fields of \<open>tlv_record_type\<close>, as in the code, and the record is a type
  parameter. A pointer \<open>meta\<close> into the array of types is an index.
\<close>

record 'r tlv_record_type =
  tlv_type :: u64
  tlv_towire :: "'r \<Rightarrow> u8 list option"
  tlv_fromwire :: "cursor \<Rightarrow> 'r \<Rightarrow> cursor \<times> 'r"

record tlv_field =
  tf_meta :: "nat option"
  tf_numtype :: u64
  tf_length :: u64
  tf_value :: "u8 list"

definition write_field :: "u8 list \<Rightarrow> u64 \<Rightarrow> u64 \<Rightarrow> u8 list \<Rightarrow> u8 list run" where
  "write_field p numtype len value = do {
     let p = towire_bigsize p numtype;
     let p = towire_bigsize p len;
     c_assert (unat len \<le> length value);
     Some (towire p (take (unat len) value)) }"

fun write_fields :: "u8 list \<Rightarrow> tlv_field list \<Rightarrow> u8 list run" where
  "write_fields p [] = Some p"
| "write_fields p (f # fs) = do { p \<leftarrow> write_field p (tf_numtype f) (tf_length f) (tf_value f); write_fields p fs }"

text \<open>\<open>asort\<close> with \<open>tlv_field_cmp\<close>; for two fields of the same type the comparison has no meaning and the order is left open.\<close>

definition towire_tlvstream_raw :: "u8 list \<Rightarrow> tlv_field list \<Rightarrow> u8 list run" where
  "towire_tlvstream_raw p flds = write_fields p (sort_key tf_numtype flds)"

definition tlvstream_get_raw :: "tlv_field list \<Rightarrow> u64 \<Rightarrow> tlv_field option" where
  "tlvstream_get_raw stream type1 = find (\<lambda>f. tf_numtype f = type1) stream"

fun replace_first :: "tlv_field list \<Rightarrow> u64 \<Rightarrow> u8 list \<Rightarrow> tlv_field list" where
  "replace_first [] type1 value = []"
| "replace_first (f # fs) type1 value =
     (if tf_numtype f = type1 then f\<lparr>tf_length := of_nat (length value), tf_value := value\<rparr> # fs
      else f # replace_first fs type1 value)"

text \<open>A new field has no \<open>meta\<close>: the code leaves it uninitialised, and no reader of the stream is called on it.\<close>

definition tlvstream_set_raw :: "tlv_field list \<Rightarrow> u64 \<Rightarrow> u8 list \<Rightarrow> tlv_field list" where
  "tlvstream_set_raw stream type1 value =
     (if tlvstream_get_raw stream type1 \<noteq> None then replace_first stream type1 value
      else stream @ [\<lparr>tf_meta = None, tf_numtype = type1, tf_length = of_nat (length value), tf_value = value\<rparr>])"

definition tlvstream_set_tu64 :: "tlv_field list \<Rightarrow> u64 \<Rightarrow> u64 \<Rightarrow> tlv_field list" where
  "tlvstream_set_tu64 stream type1 value = tlvstream_set_raw stream type1 (towire_tu64 [] value)"

definition tlvstream_set_tu32 :: "tlv_field list \<Rightarrow> u64 \<Rightarrow> u32 \<Rightarrow> tlv_field list" where
  "tlvstream_set_tu32 stream type1 value = tlvstream_set_raw stream type1 (towire_tu64 [] (ucast value))"

definition tlvstream_get_tu64 :: "tlv_field list \<Rightarrow> u64 \<Rightarrow> u64 option run" where
  "tlvstream_get_tu64 stream type1 = (case tlvstream_get_raw stream type1 of
     None \<Rightarrow> Some None
   | Some raw \<Rightarrow> if tf_length raw \<noteq> 8 then Some None
       else do { (v, c) \<leftarrow> fromwire_tu64 (Some (tf_value raw)); Some (Some v) })"

definition tlvstream_get_tu32 :: "tlv_field list \<Rightarrow> u64 \<Rightarrow> u32 option run" where
  "tlvstream_get_tu32 stream type1 = (case tlvstream_get_raw stream type1 of
     None \<Rightarrow> Some None
   | Some raw \<Rightarrow> if tf_length raw \<noteq> 8 then Some None
       else do { (v, c) \<leftarrow> fromwire_tu64 (Some (tf_value raw)); Some (Some (ucast v)) })"

text \<open>The last type with the number.\<close>

definition find_meta :: "'r tlv_record_type list \<Rightarrow> u64 \<Rightarrow> nat option" where
  "find_meta types numtype = find (\<lambda>i. tlv_type (types ! i) = numtype) (rev [0..<length types])"

lemma fromwire_bigsize_shorter:
  assumes "fromwire_bigsize (Some bs) = Some (v, Some r)"
  shows "length r < length bs"
proof -
  obtain n w where g: "bigsize_get bs = (n, w)" by force
  then have "n \<noteq> 0" "n \<le> length bs" "r = drop n bs"
    using assms by (auto simp: fromwire_bigsize_def fromwire_def c_assert_def split: if_splits)
  then show ?thesis by simp
qed

text \<open>\<open>fromwire_tlv\<close>: whether it succeeds, the record and the fields read so far.\<close>

function fromwire_tlv ::
  "'r tlv_record_type list \<Rightarrow> u8 list \<Rightarrow> 'r \<Rightarrow> tlv_field list \<Rightarrow> (bool \<times> 'r \<times> tlv_field list) run" where
  "fromwire_tlv types bs record1 flds =
     (if bs = [] then Some (True, record1, flds)
      else case fromwire_bigsize (Some bs) of
        None \<Rightarrow> None
      | Some (numtype, None) \<Rightarrow> Some (False, record1, flds)
      | Some (numtype, Some b1) \<Rightarrow> (case fromwire_bigsize (Some b1) of
          None \<Rightarrow> None
        | Some (len, None) \<Rightarrow> Some (False, record1, flds)
        | Some (len, Some b2) \<Rightarrow>
            if unat len > length b2 then Some (False, record1, flds)
            else let field = \<lparr>tf_meta = find_meta types numtype, tf_numtype = numtype, tf_length = len, tf_value = take (unat len) b2\<rparr> in
              (case tf_meta field of
                 None \<Rightarrow> fromwire_tlv types (drop (unat len) b2) record1 (flds @ [field])
               | Some i \<Rightarrow> (case tlv_fromwire (types ! i) (Some (tf_value field)) record1 of
                   (None, record2) \<Rightarrow> Some (False, record2, flds)
                 | (Some rest, record2) \<Rightarrow>
                     if rest \<noteq> [] then Some (False, record2, flds)
                     else fromwire_tlv types (drop (unat len) b2) record2 (flds @ [field])))))"
  by pat_completeness auto
termination
  by (relation "measure (\<lambda>(types, bs, record1, flds). length bs)")
    (auto dest!: fromwire_bigsize_shorter)

declare fromwire_tlv.simps [simp del]

definition tlv_type_is_allowed :: "tlv_field \<Rightarrow> u64 list option \<Rightarrow> bool" where
  "tlv_type_is_allowed f extra_types =
     (if tf_numtype f mod 2 \<noteq> 0 \<or> tf_meta f \<noteq> None then True
      else case extra_types of None \<Rightarrow> False | Some es \<Rightarrow> tf_numtype f \<in> set es)"

text \<open>The index of the first field that is refused, if any.\<close>

fun check_fields :: "tlv_field list \<Rightarrow> u64 list option \<Rightarrow> nat \<Rightarrow> u64 option \<Rightarrow> nat option" where
  "check_fields [] allow_extra i prev = None"
| "check_fields (f # fs) allow_extra i prev =
     (if \<not> tlv_type_is_allowed f allow_extra then Some i
      else if (case prev of None \<Rightarrow> False | Some prev_type \<Rightarrow> tf_numtype f \<le> prev_type) then Some i
      else check_fields fs allow_extra (Suc i) (Some (tf_numtype f)))"

definition tlv_fields_valid :: "tlv_field list \<Rightarrow> u64 list option \<Rightarrow> nat option" where
  "tlv_fields_valid flds allow_extra = check_fields flds allow_extra 0 None"

fun towire_types :: "u8 list \<Rightarrow> 'r tlv_record_type list \<Rightarrow> u64 option \<Rightarrow> 'r \<Rightarrow> u8 list run" where
  "towire_types p [] prev record1 = Some p"
| "towire_types p (t # ts) prev record1 = do {
     c_assert (case prev of None \<Rightarrow> True | Some q \<Rightarrow> tlv_type t > q);
     case tlv_towire t record1 of
       None \<Rightarrow> towire_types p ts (Some (tlv_type t)) record1
     | Some val \<Rightarrow> do {
         p \<leftarrow> write_field p (tlv_type t) (of_nat (length val)) val;
         towire_types p ts (Some (tlv_type t)) record1 } }"

definition towire_tlv :: "u8 list \<Rightarrow> 'r tlv_record_type list \<Rightarrow> 'r \<Rightarrow> u8 list run" where
  "towire_tlv p types record1 = towire_types p types None record1"

fun make_fields :: "'r tlv_record_type list \<Rightarrow> nat \<Rightarrow> u64 option \<Rightarrow> 'r \<Rightarrow> tlv_field list run" where
  "make_fields [] i prev record1 = Some []"
| "make_fields (t # ts) i prev record1 = do {
     c_assert (case prev of None \<Rightarrow> True | Some q \<Rightarrow> tlv_type t > q);
     fs \<leftarrow> make_fields ts (Suc i) (Some (tlv_type t)) record1;
     Some (case tlv_towire t record1 of
         None \<Rightarrow> fs
       | Some val \<Rightarrow> \<lparr>tf_meta = Some i, tf_numtype = tlv_type t, tf_length = of_nat (length val), tf_value = val\<rparr> # fs) }"

definition tlv_make_fields :: "'r tlv_record_type list \<Rightarrow> 'r \<Rightarrow> tlv_field list run" where
  "tlv_make_fields types record1 = make_fields types 0 None record1"

subsection \<open>Reading a stream that was written\<close>

definition field_text :: "u64 \<Rightarrow> u8 list \<Rightarrow> u8 list" where
  "field_text ty val = bigsize_put ty @ bigsize_put (of_nat (length val)) @ val"

lemma write_field_text:
  "length val < 2 ^ 64 \<Longrightarrow> write_field p ty (of_nat (length val)) val = Some (p @ field_text ty val)"
  by (simp add: write_field_def field_text_def towire_bigsize_def towire_def unat_of_nat c_assert_def)

lemma fromwire_bigsize_put: "fromwire_bigsize (Some (bigsize_put v @ r)) = Some (v, Some r)"
  using length_bigsize_put [of v] by (auto simp: fromwire_bigsize_def bigsize_get_put fromwire_def c_assert_def bigsize_len_def)

lemma field_text_nonempty: "field_text ty val \<noteq> []"
  using length_bigsize_put [of ty] by (auto simp: field_text_def bigsize_len_def split: if_splits)

lemma fromwire_tlv_step:
  assumes "length val < 2 ^ 64"
  shows "fromwire_tlv types (field_text ty val @ r) rec1 flds =
    (let field = \<lparr>tf_meta = find_meta types ty, tf_numtype = ty, tf_length = of_nat (length val), tf_value = val\<rparr> in
     case find_meta types ty of
       None \<Rightarrow> fromwire_tlv types r rec1 (flds @ [field])
     | Some i \<Rightarrow> (case tlv_fromwire (types ! i) (Some val) rec1 of
         (None, rec2) \<Rightarrow> Some (False, rec2, flds)
       | (Some rest, rec2) \<Rightarrow> if rest \<noteq> [] then Some (False, rec2, flds) else fromwire_tlv types r rec2 (flds @ [field])))"
proof -
  have "field_text ty val \<noteq> []" by (rule field_text_nonempty)
  moreover have "fromwire_bigsize (Some (field_text ty val @ r)) = Some (ty, Some (bigsize_put (of_nat (length val)) @ val @ r))"
    "fromwire_bigsize (Some (bigsize_put (of_nat (length val)) @ val @ r)) = Some (of_nat (length val), Some (val @ r))"
    by (simp_all add: field_text_def fromwire_bigsize_put)
  ultimately show ?thesis using assms
    by (subst fromwire_tlv.simps) (simp add: unat_of_nat Let_def split: option.split prod.split)
qed

text \<open>The number of a type determines its index.\<close>

definition ascending :: "'r tlv_record_type list \<Rightarrow> bool" where
  "ascending types \<longleftrightarrow> sorted_wrt (<) (map tlv_type types)"

lemma find_meta_nth:
  assumes "ascending types" "i < length types"
  shows "find_meta types (tlv_type (types ! i)) = Some i"
proof -
  have d: "distinct (map tlv_type types)" using assms(1) by (simp add: ascending_def strict_sorted_iff)
  have "find (\<lambda>j. tlv_type (types ! j) = tlv_type (types ! i)) (rev [0..<length types]) \<noteq> None"
    using assms(2) by (auto simp: find_None_iff)
  then obtain j where j: "find_meta types (tlv_type (types ! i)) = Some j" by (auto simp: find_meta_def)
  then have "j < length types" "tlv_type (types ! j) = tlv_type (types ! i)"
    using find_rev_upt_Some [of "\<lambda>j. tlv_type (types ! j) = tlv_type (types ! i)" "length types" j] by (auto simp: find_meta_def)
  then show ?thesis using d assms(2) j nth_eq_iff_index_eq [of "map tlv_type types" j i] by simp
qed

text \<open>Every known type reads all of what it writes.\<close>

definition type_reads :: "'r \<Rightarrow> 'r tlv_record_type \<Rightarrow> bool" where
  "type_reads r t \<longleftrightarrow> (\<forall>val. tlv_towire t r = Some val \<longrightarrow> length val < 2 ^ 64 \<and> (\<forall>acc. fst (tlv_fromwire t (Some val) acc) = Some []))"

definition decode_all :: "'r tlv_record_type list \<Rightarrow> 'r \<Rightarrow> 'r \<Rightarrow> 'r" where
  "decode_all types r acc = fold (\<lambda>t acc. case tlv_towire t r of None \<Rightarrow> acc | Some val \<Rightarrow> snd (tlv_fromwire t (Some val) acc)) types acc"

lemma tlv_loop:
  assumes "ascending types" "drop k types = ts" "k \<le> length types" "\<forall>t\<in>set types. type_reads r t" 
    and "case prev of None \<Rightarrow> True | Some q \<Rightarrow> \<forall>t\<in>set ts. q < tlv_type t"
  shows "\<exists>bs fs. (\<forall>p. towire_types p ts prev r = Some (p @ bs)) \<and> make_fields ts k prev r = Some fs \<and>
    (\<forall>acc flds. fromwire_tlv types bs acc flds = Some (True, decode_all ts r acc, flds @ fs))"
  using assms
proof (induction ts arbitrary: k prev)
  case Nil
  then show ?case by (intro exI [of _ "[]"]) (simp add: fromwire_tlv.simps decode_all_def)
next
  case (Cons t ts)
  have k: "k < length types" "types ! k = t" "drop (Suc k) types = ts"
    using Cons.prems(2,3) by (cases "k < length types"; auto simp: Cons_nth_drop_Suc [symmetric])+
  have sorted: "sorted_wrt (<) (map tlv_type (t # ts))"
    using Cons.prems(1,2) sorted_wrt_drop [of "(<)" "map tlv_type types" k] by (simp add: ascending_def drop_map)
  then have "\<exists>bs fs. (\<forall>p. towire_types p ts (Some (tlv_type t)) r = Some (p @ bs)) \<and> make_fields ts (Suc k) (Some (tlv_type t)) r = Some fs \<and>
    (\<forall>acc flds. fromwire_tlv types bs acc flds = Some (True, decode_all ts r acc, flds @ fs))"
    using Cons.IH [of "Suc k" "Some (tlv_type t)"] Cons.prems(1,4) k by simp
  then obtain bs fs where IH: "\<And>p. towire_types p ts (Some (tlv_type t)) r = Some (p @ bs)" "make_fields ts (Suc k) (Some (tlv_type t)) r = Some fs"
    "\<And>acc flds. fromwire_tlv types bs acc flds = Some (True, decode_all ts r acc, flds @ fs)" by blast
  have prev: "case prev of None \<Rightarrow> True | Some q \<Rightarrow> tlv_type t > q" using Cons.prems(5) by (auto split: option.splits)
  show ?case
  proof (cases "tlv_towire t r")
    case None
    then show ?thesis using IH prev by (intro exI [of _ bs] exI [of _ fs]) (simp add: c_assert_def decode_all_def)
  next
    case (Some val)
    have "type_reads r t" using Cons.prems(4) k by (metis nth_mem)
    then have val: "length val < 2 ^ 64" "\<And>acc. fst (tlv_fromwire t (Some val) acc) = Some []" using Some by (auto simp: type_reads_def)
    have meta: "find_meta types (tlv_type t) = Some k" using find_meta_nth [OF Cons.prems(1) k(1)] k(2) by simp
    let ?f = "\<lparr>tf_meta = Some k, tf_numtype = tlv_type t, tf_length = of_nat (length val), tf_value = val\<rparr>"
    have "fromwire_tlv types (field_text (tlv_type t) val @ bs) acc flds = Some (True, decode_all (t # ts) r acc, flds @ ?f # fs)" for acc flds
      using val(2) [of acc] IH(3) by (cases "tlv_fromwire t (Some val) acc") (simp add: fromwire_tlv_step [OF val(1)] meta k(2) decode_all_def Some)
    then show ?thesis
      using IH(1,2) prev Some val(1)
      by (intro exI [of _ "field_text (tlv_type t) val @ bs"] exI [of _ "?f # fs"]) (simp add: c_assert_def write_field_text)
  qed
qed

subsection \<open>Validity\<close>

text \<open>The first field that is unknown, even and not allowed, or whose type is not greater than the one before.\<close>

definition field_bad :: "tlv_field list \<Rightarrow> u64 list option \<Rightarrow> nat \<Rightarrow> bool" where
  "field_bad flds allow_extra i \<longleftrightarrow> \<not> tlv_type_is_allowed (flds ! i) allow_extra \<or>
     0 < i \<and> tf_numtype (flds ! i) \<le> tf_numtype (flds ! (i - 1))"

lemma check_fields_find:
  assumes "i \<le> length flds"
  shows "check_fields (drop i flds) allow_extra i (if i = 0 then None else Some (tf_numtype (flds ! (i - 1)))) =
    find (field_bad flds allow_extra) [i..<length flds]"
  using assms
proof (induction "length flds - i" arbitrary: i)
  case (Suc n)
  then have i: "i < length flds" "drop i flds = flds ! i # drop (Suc i) flds" by (simp_all add: Cons_nth_drop_Suc)
  have "check_fields (drop (Suc i) flds) allow_extra (Suc i) (Some (tf_numtype (flds ! i))) = find (field_bad flds allow_extra) [Suc i..<length flds]"
    using Suc(1) [of "Suc i"] Suc(2) i(1) by simp
  then show ?case using i by (simp add: upt_conv_Cons field_bad_def)
qed simp

lemma tlv_fields_valid_find: "tlv_fields_valid flds allow_extra = find (field_bad flds allow_extra) [0..<length flds]"
  using check_fields_find [of 0 flds allow_extra] by (simp add: tlv_fields_valid_def)

lemma make_fields_valid:
  assumes "make_fields ts i prev r = Some fs"
  shows "check_fields fs allow_extra j prev = None \<and> (\<forall>q. prev = Some q \<longrightarrow> (\<forall>f\<in>set fs. q < tf_numtype f))"
  using assms
proof (induction ts arbitrary: i j prev fs)
  case (Cons t ts)
  then obtain gs where gs: "make_fields ts (Suc i) (Some (tlv_type t)) r = Some gs" "case prev of None \<Rightarrow> True | Some q \<Rightarrow> tlv_type t > q"
    "fs = (case tlv_towire t r of None \<Rightarrow> gs | Some val \<Rightarrow> \<lparr>tf_meta = Some i, tf_numtype = tlv_type t, tf_length = of_nat (length val), tf_value = val\<rparr> # gs)"
    by (auto simp: bind_eq_Some_conv c_assert_def split: if_splits)
  note IH = Cons.IH [OF gs(1)]
  have later: "\<forall>f\<in>set gs. tlv_type t < tf_numtype f" using IH [of j] by simp
  have none: "check_fields gs allow_extra j prev = None"
  proof (cases gs)
    case (Cons f hs)
    then show ?thesis using IH [of j] later gs(2) by (cases prev) (auto split: if_splits)
  qed simp
  show ?case using gs(2,3) IH [of "Suc j"] later none
    by (cases "tlv_towire t r"; cases prev) (auto simp: tlv_type_is_allowed_def)
qed simp

subsection \<open>Setting and getting\<close>

lemma get_set_raw:
  "tlvstream_get_raw (tlvstream_set_raw stream ty value) ty' =
    (if ty' = ty then Some ((case tlvstream_get_raw stream ty of None \<Rightarrow> \<lparr>tf_meta = None, tf_numtype = ty, tf_length = 0, tf_value = []\<rparr> | Some f \<Rightarrow> f)
       \<lparr>tf_length := of_nat (length value), tf_value := value\<rparr>)
     else tlvstream_get_raw stream ty')"
proof (cases "tlvstream_get_raw stream ty")
  case None
  have "find P (stream @ [f]) = (case find P stream of Some x \<Rightarrow> Some x | None \<Rightarrow> if P f then Some f else None)" for P and f :: tlv_field
    by (induction stream) auto
  then show ?thesis using None by (auto simp: tlvstream_set_raw_def tlvstream_get_raw_def split: option.split)
next
  case (Some f)
  then have "find (\<lambda>f. tf_numtype f = ty') (replace_first stream ty value) =
      (if ty' = ty then Some (f\<lparr>tf_length := of_nat (length value), tf_value := value\<rparr>) else find (\<lambda>f. tf_numtype f = ty') stream)"
    unfolding tlvstream_get_raw_def by (induction stream) (auto split: if_splits)
  then show ?thesis using Some by (simp add: tlvstream_set_raw_def tlvstream_get_raw_def)
qed

lemma replicate_dropWhile: "replicate (length xs - length (dropWhile (\<lambda>x. x = a) xs)) a @ dropWhile (\<lambda>x. x = a) xs = xs"
  by (induction xs) (auto simp: Suc_diff_le length_dropWhile_le)

lemma length_dropWhile_8: "length (dropWhile (\<lambda>b. b = 0) (be_bytes 8 v)) \<le> 8"
  using length_dropWhile_le [of "\<lambda>b. b = 0" "be_bytes 8 v"] by simp

lemma tu64_roundtrip: "fromwire_tu64 (Some (towire_tu64 [] v)) = Some (v, Some [])"
proof -
  let ?t = "dropWhile (\<lambda>b. b = 0) (be_bytes 8 v)"
  have "replicate (8 - length ?t) 0 @ ?t = be_bytes 8 v" using replicate_dropWhile [of "be_bytes 8 v" 0] by simp
  moreover have "hd ?t \<noteq> 0" if "?t \<noteq> []" using hd_dropWhile [OF that] by simp
  ultimately show ?thesis
    using length_dropWhile_8 [of v] be_value_bytes8 [of v]
    by (auto simp: fromwire_tu64_def fromwire_tlv_uint_def towire_tu64_def towire_tlv_uint_def towire_def fromwire_def c_assert_def)
qed

lemma tu64_full: "length (towire_tu64 [] v) = 8 \<longleftrightarrow> 2 ^ 56 \<le> unat v"
proof -
  have b: "be_bytes 8 v = ucast (drop_bit 56 v) # be_bytes 7 v" by (simp add: eval_nat_numeral)
  have "length (dropWhile (\<lambda>b. b = 0) (be_bytes 7 v)) \<le> 7" using length_dropWhile_le [of "\<lambda>b. b = 0" "be_bytes 7 v"] by simp
  then have "length (towire_tu64 [] v) = 8 \<longleftrightarrow> (ucast (drop_bit 56 v) :: u8) \<noteq> 0"
    unfolding towire_tu64_def towire_tlv_uint_def towire_def b by auto
  also have "\<dots> \<longleftrightarrow> drop_bit 56 v \<noteq> 0"
  proof -
    have "unat (drop_bit 56 v) < 256" unfolding unat_drop_bit using unat_u64_less [of v] by (simp add: less_mult_imp_div_less)
    then have "unat (ucast (drop_bit 56 v) :: u8) = unat (drop_bit 56 v)" by (simp add: unsigned_ucast_eq take_bit_nat_eq_self)
    then show ?thesis by (simp only: word_unat_eq_iff unsigned_0)
  qed
  finally show ?thesis using drop_bit_u64 [of 56 v] by auto
qed

text \<open>The getter asks for eight bytes, and the setter writes the shortest form: only values of eight bytes are found again.\<close>

lemma get_set_tu64: "tlvstream_get_tu64 (tlvstream_set_tu64 stream ty v) ty = Some (if 2 ^ 56 \<le> unat v then Some v else None)"
proof -
  have "(of_nat (length (towire_tu64 [] v)) :: u64) = 8 \<longleftrightarrow> length (towire_tu64 [] v) = 8"
    using length_dropWhile_8 [of v] by (auto simp: towire_tu64_def towire_tlv_uint_def towire_def word_unat_eq_iff unat_of_nat)
  then show ?thesis
    using tu64_roundtrip [of v] tu64_full [of v]
    by (simp add: tlvstream_get_tu64_def tlvstream_set_tu64_def get_set_raw del: One_nat_def)
qed

end
