(* ===== verification/Features.thy ===== *)
theory Features
  imports Wire
begin

text \<open>
  \<open>common/features.c\<close>: arrays of feature bits, packed to the end of the array. The pointer \<open>NULL\<close> and an array of no bytes, which have the
  same \<open>tal_count\<close>, are the empty list. A bit number of type \<open>size_t\<close> is a natural number: the arrays are in memory. The
  functions with a \<open>u32\<close> take a word. A feature set has one array for each place.
\<close>

unbundle bit_operations_syntax

type_synonym feature_arrays = "u8 list list"

definition INIT_FEATURE :: nat where "INIT_FEATURE = 0"
definition GLOBAL_INIT_FEATURE :: nat where "GLOBAL_INIT_FEATURE = 1"
definition NODE_ANNOUNCE_FEATURE :: nat where "NODE_ANNOUNCE_FEATURE = 2"
definition CHANNEL_FEATURE :: nat where "CHANNEL_FEATURE = 3"
definition BOLT11_FEATURE :: nat where "BOLT11_FEATURE = 4"
definition NUM_FEATURE_PLACE :: nat where "NUM_FEATURE_PLACE = BOLT11_FEATURE + 1"

text \<open>The constant of the first macro is an \<open>unsigned int\<close>: the upper half of a \<open>size_t\<close> is cleared as well.\<close>

definition COMPULSORY_FEATURE :: "nat \<Rightarrow> nat" where "COMPULSORY_FEATURE x = x AND 0xFFFFFFFE"
definition OPTIONAL_FEATURE :: "nat \<Rightarrow> nat" where "OPTIONAL_FEATURE x = x OR 1"

definition OPT_DATA_LOSS_PROTECT :: nat where "OPT_DATA_LOSS_PROTECT = 0"
definition OPT_INITIAL_ROUTING_SYNC :: nat where "OPT_INITIAL_ROUTING_SYNC = 2"
definition OPT_UPFRONT_SHUTDOWN_SCRIPT :: nat where "OPT_UPFRONT_SHUTDOWN_SCRIPT = 4"
definition OPT_GOSSIP_QUERIES :: nat where "OPT_GOSSIP_QUERIES = 6"
definition OPT_VAR_ONION :: nat where "OPT_VAR_ONION = 8"
definition OPT_GOSSIP_QUERIES_EX :: nat where "OPT_GOSSIP_QUERIES_EX = 10"
definition OPT_STATIC_REMOTEKEY :: nat where "OPT_STATIC_REMOTEKEY = 12"
definition OPT_PAYMENT_SECRET :: nat where "OPT_PAYMENT_SECRET = 14"
definition OPT_BASIC_MPP :: nat where "OPT_BASIC_MPP = 16"
definition OPT_LARGE_CHANNELS :: nat where "OPT_LARGE_CHANNELS = 18"
definition OPT_ANCHOR_OUTPUTS :: nat where "OPT_ANCHOR_OUTPUTS = 20"
definition OPT_SHUTDOWN_ANYSEGWIT :: nat where "OPT_SHUTDOWN_ANYSEGWIT = 26"
definition OPT_DUAL_FUND :: nat where "OPT_DUAL_FUND = 28"
definition OPT_ONION_MESSAGES :: nat where "OPT_ONION_MESSAGES = 38"
definition OPT_SHUTDOWN_WRONG_FUNDING :: nat where "OPT_SHUTDOWN_WRONG_FUNDING = 104"

lemmas feature_numbers = OPT_DATA_LOSS_PROTECT_def OPT_INITIAL_ROUTING_SYNC_def OPT_UPFRONT_SHUTDOWN_SCRIPT_def OPT_GOSSIP_QUERIES_def
  OPT_VAR_ONION_def OPT_GOSSIP_QUERIES_EX_def OPT_STATIC_REMOTEKEY_def OPT_PAYMENT_SECRET_def OPT_BASIC_MPP_def OPT_LARGE_CHANNELS_def
  OPT_ANCHOR_OUTPUTS_def OPT_SHUTDOWN_ANYSEGWIT_def OPT_DUAL_FUND_def OPT_ONION_MESSAGES_def OPT_SHUTDOWN_WRONG_FUNDING_def

datatype feature_copy_style_enum = FEATURE_DONT_REPRESENT | FEATURE_REPRESENT | FEATURE_REPRESENT_AS_OPTIONAL

record feature_style =
  fs_bit :: nat
  copy_style :: "feature_copy_style_enum list"

text \<open>The places in order: init, global init, node, channel, invoice; a place the initialiser leaves out is not represented.\<close>

definition style :: "nat \<Rightarrow> feature_copy_style_enum \<Rightarrow> bool \<Rightarrow> bool \<Rightarrow> bool \<Rightarrow> feature_style" where
  "style b at_init global node invoice =
     (let rep = (\<lambda>p. if p then FEATURE_REPRESENT else FEATURE_DONT_REPRESENT)
      in \<lparr>fs_bit = b, copy_style = [at_init, rep global, rep node, FEATURE_DONT_REPRESENT, rep invoice]\<rparr>)"

definition feature_styles :: "feature_style list" where
  "feature_styles =
    [style OPT_DATA_LOSS_PROTECT FEATURE_REPRESENT False True False,
     style OPT_INITIAL_ROUTING_SYNC FEATURE_REPRESENT_AS_OPTIONAL False False False,
     style OPT_UPFRONT_SHUTDOWN_SCRIPT FEATURE_REPRESENT False True False,
     style OPT_GOSSIP_QUERIES FEATURE_REPRESENT False True False,
     style OPT_GOSSIP_QUERIES_EX FEATURE_REPRESENT False True False,
     style OPT_VAR_ONION FEATURE_REPRESENT True True True,
     style OPT_STATIC_REMOTEKEY FEATURE_REPRESENT True True False,
     style OPT_PAYMENT_SECRET FEATURE_REPRESENT False True True,
     style OPT_BASIC_MPP FEATURE_REPRESENT False True True,
     style OPT_LARGE_CHANNELS FEATURE_REPRESENT False True False,
     style OPT_ONION_MESSAGES FEATURE_REPRESENT False True True,
     style OPT_SHUTDOWN_WRONG_FUNDING FEATURE_REPRESENT False True False,
     style OPT_ANCHOR_OUTPUTS FEATURE_REPRESENT False True False,
     style OPT_DUAL_FUND FEATURE_REPRESENT False True True,
     style OPT_SHUTDOWN_ANYSEGWIT FEATURE_REPRESENT False True False]"

record dependency =
  depender :: nat
  must_also_have :: nat

definition feature_deps :: "dependency list" where
  "feature_deps =
    [\<lparr>depender = OPT_GOSSIP_QUERIES_EX, must_also_have = OPT_GOSSIP_QUERIES\<rparr>,
     \<lparr>depender = OPT_PAYMENT_SECRET, must_also_have = OPT_VAR_ONION\<rparr>,
     \<lparr>depender = OPT_BASIC_MPP, must_also_have = OPT_PAYMENT_SECRET\<rparr>,
     \<lparr>depender = OPT_ANCHOR_OUTPUTS, must_also_have = OPT_STATIC_REMOTEKEY\<rparr>,
     \<lparr>depender = OPT_DUAL_FUND, must_also_have = OPT_ANCHOR_OUTPUTS\<rparr>]"

subsection \<open>One array\<close>

definition trim_features :: "u8 list \<Rightarrow> u8 list" where
  "trim_features features = dropWhile (\<lambda>b. b = 0) features"

definition clear_feature_bit :: "u8 list \<Rightarrow> u32 \<Rightarrow> u8 list" where
  "clear_feature_bit features b =
     (let bytenum = unat b div 8; bitnum = unat b mod 8; len = length features; at = len - 1 - bytenum
      in if bytenum \<ge> len then features else features[at := features ! at AND NOT (push_bit bitnum 1)])"

definition set_feature_bit :: "u8 list \<Rightarrow> u32 \<Rightarrow> u8 list" where
  "set_feature_bit features b =
     (let bytenum = unat b div 8; bitnum = unat b mod 8;
          arr = (if bytenum \<ge> length features then replicate (bytenum + 1 - length features) 0 @ features else features);
          at = length arr - 1 - bytenum
      in arr[at := arr ! at OR push_bit bitnum 1])"

definition test_bit :: "u8 list \<Rightarrow> nat \<Rightarrow> nat \<Rightarrow> bool run" where
  "test_bit features byte b = do {
     c_assert (byte < length features);
     Some (features ! (length features - 1 - byte) AND push_bit (b mod 8) 1 \<noteq> 0) }"

text \<open>The assertion of \<open>test_bit\<close> holds here, by the test before the call.\<close>

definition feature_is_set :: "u8 list \<Rightarrow> nat \<Rightarrow> bool" where
  "feature_is_set features b =
     (let bytenum = b div 8
      in if bytenum \<ge> length features then False else test_bit features bytenum (b mod 8) = Some True)"

definition feature_offered :: "u8 list \<Rightarrow> nat \<Rightarrow> bool" where
  "feature_offered features f \<longleftrightarrow> feature_is_set features (COMPULSORY_FEATURE f) \<or> feature_is_set features (OPTIONAL_FEATURE f)"

definition or_array :: "u8 list \<Rightarrow> u8 list \<Rightarrow> u8 list" where
  "or_array f1 f2 = (let k = length f1 - length f2 in take k f1 @ map2 (OR) (drop k f1) f2)"

definition featurebits_or :: "u8 list \<Rightarrow> u8 list \<Rightarrow> u8 list" where
  "featurebits_or f1 f2 = (if length f1 < length f2 then or_array f2 f1 else or_array f1 f2)"

definition featurebits_eq :: "u8 list \<Rightarrow> u8 list \<Rightarrow> bool" where
  "featurebits_eq f1 f2 \<longleftrightarrow> list_all (\<lambda>i. feature_is_set f1 i = feature_is_set f2 i) [0..<8 * max (length f1) (length f2)]"

definition fmt_featurebits :: "u8 list \<Rightarrow> string" where
  "fmt_featurebits featurebits =
     fst (foldl (\<lambda>(fmt, pre) i. if feature_is_set featurebits i then (fmt @ pre @ dec_of_nat i, '','') else (fmt, pre)) ([], [])
       [0..<length featurebits * 8])"

subsection \<open>Feature sets\<close>

definition feature_copy_style :: "u32 \<Rightarrow> nat \<Rightarrow> feature_copy_style_enum run" where
  "feature_copy_style f p =
     map_option (\<lambda>s. copy_style s ! p) (find (\<lambda>s. fs_bit s = COMPULSORY_FEATURE (unat f)) feature_styles)"

definition place_bits :: "u32 \<Rightarrow> nat \<Rightarrow> u8 list run" where
  "place_bits feature p = do {
     st \<leftarrow> feature_copy_style feature p;
     Some (case st of
       FEATURE_DONT_REPRESENT \<Rightarrow> []
     | FEATURE_REPRESENT \<Rightarrow> set_feature_bit [] feature
     | FEATURE_REPRESENT_AS_OPTIONAL \<Rightarrow> set_feature_bit [] (of_nat (OPTIONAL_FEATURE (unat feature)))) }"

definition feature_set_for_feature :: "u32 \<Rightarrow> feature_arrays run" where
  "feature_set_for_feature feature = those (map (place_bits feature) [0..<NUM_FEATURE_PLACE])"

definition set_bits :: "u8 list \<Rightarrow> u8 list \<Rightarrow> u8 list" where
  "set_bits a b = fold (\<lambda>j f. if feature_is_set b j then set_feature_bit f (of_nat j) else f) [0..<length b * 8] a"

definition clear_bits :: "u8 list \<Rightarrow> u8 list \<Rightarrow> u8 list" where
  "clear_bits a b = fold (\<lambda>j f. if feature_is_set b j then clear_feature_bit f (of_nat j) else f) [0..<length b * 8] a"

text \<open>The result \<open>None\<close> is \<open>false\<close>, with the first set unchanged.\<close>

definition feature_set_or :: "feature_arrays \<Rightarrow> feature_arrays \<Rightarrow> feature_arrays option" where
  "feature_set_or a b =
     (if list_ex (\<lambda>i. list_ex (\<lambda>j. feature_is_set (b ! i) j \<and> feature_offered (a ! i) j) [0..<length (b ! i) * 8]) [0..<NUM_FEATURE_PLACE]
      then None else Some (map (\<lambda>i. set_bits (a ! i) (b ! i)) [0..<NUM_FEATURE_PLACE]))"

definition feature_set_sub :: "feature_arrays \<Rightarrow> feature_arrays \<Rightarrow> feature_arrays option" where
  "feature_set_sub a b =
     (if list_ex (\<lambda>i. list_ex (\<lambda>j. feature_is_set (b ! i) j \<and> \<not> feature_offered (a ! i) j) [0..<length (b ! i) * 8]) [0..<NUM_FEATURE_PLACE]
      then None else Some (map (\<lambda>i. trim_features (clear_bits (a ! i) (b ! i))) [0..<NUM_FEATURE_PLACE]))"

lemma length_trim_features: "length (trim_features f) \<le> length f"
  by (simp add: trim_features_def length_dropWhile_le)

lemma length_clear_feature_bit [simp]: "length (clear_feature_bit f b) = length f"
  by (simp add: clear_feature_bit_def Let_def)

function agreed_loop :: "u8 list \<Rightarrow> nat \<Rightarrow> u8 list \<Rightarrow> nat \<Rightarrow> u8 list \<times> nat" where
  "agreed_loop theirs i f max_len =
     (if \<not> i < 8 * length f then (f, max_len)
      else if \<not> feature_offered f i then agreed_loop theirs (i + 2) f max_len
      else if \<not> feature_offered theirs i
      then agreed_loop theirs (i + 2)
        (trim_features (clear_feature_bit (clear_feature_bit f (of_nat (COMPULSORY_FEATURE i))) (of_nat (OPTIONAL_FEATURE i)))) max_len
      else agreed_loop theirs (i + 2) f (i div 8 + 1))"
  by pat_completeness auto
termination
proof (relation "measure (\<lambda>(_, i, f, _). 8 * length f - i)", goal_cases)
  case (3 theirs i f max_len)
  then show ?case
    using length_trim_features [of "clear_feature_bit (clear_feature_bit f (of_nat (COMPULSORY_FEATURE i))) (of_nat (OPTIONAL_FEATURE i))"]
    by simp
qed auto

declare agreed_loop.simps [simp del]

text \<open>\<open>tal_resize\<close> keeps the first bytes; more bytes than there are would be uninitialised.\<close>

definition get_agreed_channelfeatures :: "feature_arrays \<Rightarrow> u8 list \<Rightarrow> u8 list run" where
  "get_agreed_channelfeatures our_features their_features =
     (case agreed_loop their_features 0 (our_features ! CHANNEL_FEATURE) 0 of
        (f, max_len) \<Rightarrow> do { c_assert (max_len \<le> length f); Some (take max_len f) })"

definition feature_negotiated :: "feature_arrays \<Rightarrow> u8 list \<Rightarrow> nat \<Rightarrow> bool" where
  "feature_negotiated our_features their_features f \<longleftrightarrow>
     feature_offered their_features f \<and> feature_offered (our_features ! INIT_FEATURE) f"

definition feature_check_depends :: "u8 list \<Rightarrow> (nat \<times> nat) option" where
  "feature_check_depends their_features =
     map_option (\<lambda>d. (depender d, must_also_have d))
       (find (\<lambda>d. feature_offered their_features (depender d) \<and> \<not> feature_offered their_features (must_also_have d)) feature_deps)"

fun first_unsupported :: "u8 list \<Rightarrow> u8 list \<Rightarrow> nat list \<Rightarrow> int run" where
  "first_unsupported ours bitmap [] = Some (- 1)"
| "first_unsupported ours bitmap (bitnum # bs) = do {
     t \<leftarrow> test_bit bitmap (bitnum div 8) (bitnum mod 8);
     if \<not> t then first_unsupported ours bitmap bs
     else if feature_offered ours bitnum then first_unsupported ours bitmap bs
     else Some (sint (of_nat bitnum :: u32)) }"

definition all_supported_features :: "feature_arrays \<Rightarrow> u8 list \<Rightarrow> nat \<Rightarrow> int run" where
  "all_supported_features our_features bitmap p = first_unsupported (our_features ! p) bitmap (map ((*) 2) [0..<length bitmap * 4])"

definition features_unsupported :: "feature_arrays \<Rightarrow> u8 list \<Rightarrow> nat \<Rightarrow> int run" where
  "features_unsupported our_features their_features p =
     (if feature_is_set their_features (COMPULSORY_FEATURE OPT_INITIAL_ROUTING_SYNC)
      then Some (int (COMPULSORY_FEATURE OPT_INITIAL_ROUTING_SYNC))
      else all_supported_features our_features their_features p)"

text \<open>The names, by half of the bit number; the array goes on to 100/101 with \<open>NULL\<close>.\<close>

definition fnames :: "string option list" where
  "fnames = [Some ''option_data_loss_protect'', Some ''option_initial_routing_sync'', Some ''option_upfront_shutdown_script'',
     Some ''option_gossip_queries'', Some ''option_var_onion_optin'', Some ''option_gossip_queries_ex'', Some ''option_static_remotekey'',
     Some ''option_payment_secret'', Some ''option_basic_mpp'', Some ''option_support_large_channel'', Some ''option_anchor_outputs'',
     Some ''option_anchors_zero_fee_htlc_tx'', None, Some ''option_shutdown_anysegwit'', Some ''option_dual_fund'', None, None, None, None,
     Some ''option_onion_messages''] @ replicate 31 None"

definition feature_name :: "nat \<Rightarrow> string" where
  "feature_name f =
     (let parity = (if odd f then ''odd'' else ''even'')
      in case (if f div 2 \<ge> length fnames then None else fnames ! (f div 2)) of
        None \<Rightarrow> ''option_unknown_'' @ dec_of_nat (COMPULSORY_FEATURE f) @ ''/'' @ parity
      | Some name \<Rightarrow> name @ ''/'' @ parity)"

fun names_loop :: "u8 list \<Rightarrow> nat list \<Rightarrow> string list run" where
  "names_loop features [] = Some []"
| "names_loop features (i # is) = do {
     t \<leftarrow> test_bit features (i div 8) (i mod 8);
     rest \<leftarrow> names_loop features is;
     Some (if t then feature_name i # rest else rest) }"

definition list_supported_features :: "feature_arrays \<Rightarrow> string list run" where
  "list_supported_features sets = names_loop (sets ! INIT_FEATURE) [0..<length (sets ! INIT_FEATURE) * 8]"

fun fromwire_arrays :: "nat \<Rightarrow> cursor \<Rightarrow> u8 list list \<times> cursor" where
  "fromwire_arrays 0 cur = ([], cur)"
| "fromwire_arrays (Suc n) cur =
     (case fromwire_u16 cur of (len, cur) \<Rightarrow>
      case fromwire_tal_arrn cur (unat len) of (arr, cur) \<Rightarrow>
      case fromwire_arrays n cur of (arrs, cur) \<Rightarrow> (arr # arrs, cur))"

definition fromwire_feature_set :: "cursor \<Rightarrow> feature_arrays option \<times> cursor" where
  "fromwire_feature_set cur =
     (case fromwire_arrays NUM_FEATURE_PLACE cur of (arrs, None) \<Rightarrow> (None, None) | (arrs, Some r) \<Rightarrow> (Some arrs, Some r))"

definition towire_feature_set :: "u8 list \<Rightarrow> feature_arrays \<Rightarrow> u8 list" where
  "towire_feature_set p sets = foldl (\<lambda>p arr. towire_u8_array (towire_u16 p (of_nat (length arr))) arr) p sets"

subsection \<open>The set of an array\<close>

definition bits_of :: "u8 list \<Rightarrow> nat set" where
  "bits_of f = {i. feature_is_set f i}"

definition trimmed :: "u8 list \<Rightarrow> bool" where
  "trimmed f \<longleftrightarrow> f = [] \<or> hd f \<noteq> 0"

lemma and_power_bit: "(w :: 'a :: len word) AND 2 ^ n \<noteq> 0 \<longleftrightarrow> bit w n"
proof -
  have "bit (w AND 2 ^ n) i \<longleftrightarrow> i = n \<and> bit w n" for i
    using bit_imp_le_length [of w n] by (auto simp: bit_and_iff bit_exp_iff possible_bit_def)
  then show ?thesis by (metis bit_eqI bit_0_eq bot_apply bot_bool_def)
qed

lemma test_bit_rev: "byte < length f \<Longrightarrow> test_bit f byte b = Some (bit (rev f ! byte) (b mod 8))"
  by (simp add: test_bit_def and_power_bit rev_nth push_bit_eq_mult)

lemma is_set_rev: "feature_is_set f i \<longleftrightarrow> i div 8 < length f \<and> bit (rev f ! (i div 8)) (i mod 8)"
  by (auto simp: feature_is_set_def Let_def test_bit_rev)

lemma bits_of_iff: "i \<in> bits_of f \<longleftrightarrow> feature_is_set f i"
  by (simp add: bits_of_def)

lemma bits_of_bound: "i \<in> bits_of f \<Longrightarrow> i < 8 * length f"
  by (simp add: bits_of_iff is_set_rev div_less_iff_less_mult mult.commute)

lemma bits_of_Nil [simp]: "bits_of [] = {}"
  by (simp add: bits_of_def is_set_rev)

lemma test_bit_bits: "i < 8 * length f \<Longrightarrow> test_bit f (i div 8) (i mod 8) = Some (i \<in> bits_of f)"
  by (simp add: test_bit_rev bits_of_iff is_set_rev div_less_iff_less_mult mult.commute)

lemma bits_of_pad: "bits_of (replicate k 0 @ f) = bits_of f"
proof -
  have "feature_is_set (replicate k 0 @ f) i = feature_is_set f i" for i
    by (auto simp: is_set_rev nth_append)
  then show ?thesis by (simp add: bits_of_def)
qed

lemma bits_of_update:
  assumes "k < length f"
  shows "i \<in> bits_of (f[length f - 1 - k := w]) \<longleftrightarrow> (if i div 8 = k then bit w (i mod 8) else i \<in> bits_of f)"
proof -
  have "rev (f[length f - 1 - k := w]) = (rev f)[k := w]" using assms by (simp add: rev_update)
  then show ?thesis using assms by (auto simp: bits_of_iff is_set_rev nth_list_update)
qed

lemma bits_of_byte: "k < length f \<Longrightarrow> j < 8 \<Longrightarrow> bit (f ! (length f - 1 - k)) j \<longleftrightarrow> 8 * k + j \<in> bits_of f"
  by (simp add: bits_of_iff is_set_rev rev_nth)

lemma bits_of_byte': "k < length f \<Longrightarrow> i div 8 = k \<Longrightarrow> bit (f ! (length f - 1 - k)) (i mod 8) \<longleftrightarrow> i \<in> bits_of f"
  using bits_of_byte [of k f "i mod 8"] by auto

lemma div_mod_8_eq: "i div 8 = b div 8 \<and> i mod 8 = b mod 8 \<longleftrightarrow> i = (b :: nat)"
  by (metis div_mult_mod_eq)

lemma bits_of_set_in:
  assumes "unat b div 8 < length f"
  shows "bits_of (f[length f - 1 - unat b div 8 := f ! (length f - 1 - unat b div 8) OR push_bit (unat b mod 8) 1]) = insert (unat (b :: u32)) (bits_of f)"
proof (rule set_eqI)
  fix i :: nat
  show "i \<in> bits_of (f[length f - 1 - unat b div 8 := f ! (length f - 1 - unat b div 8) OR push_bit (unat b mod 8) 1]) \<longleftrightarrow> i \<in> insert (unat b) (bits_of f)"
    unfolding bits_of_update [OF assms]
    using bits_of_byte' [OF assms, of i] div_mod_8_eq [of i "unat b"]
    by (auto simp: bit_or_iff bit_push_bit_iff bit_1_iff possible_bit_def simp del: push_bit_of_1)
qed

lemma bits_of_set_feature_bit: "bits_of (set_feature_bit f b) = insert (unat b) (bits_of f)"
proof (cases "unat b div 8 < length f")
  case True
  then show ?thesis using bits_of_set_in [OF True] by (simp add: set_feature_bit_def Let_def)
next
  case False
  then show ?thesis
    using bits_of_set_in [of b "replicate (unat b div 8 + 1 - length f) 0 @ f"]
    by (simp add: set_feature_bit_def Let_def bits_of_pad)
qed

lemma bits_of_clear_feature_bit: "bits_of (clear_feature_bit f b) = bits_of f - {unat b}"
proof (cases "unat b div 8 < length f")
  case True
  have eq: "clear_feature_bit f b = f[length f - 1 - unat b div 8 := f ! (length f - 1 - unat b div 8) AND NOT (push_bit (unat b mod 8) 1)]"
    using True by (simp add: clear_feature_bit_def Let_def)
  show ?thesis
  proof (rule set_eqI)
    fix i :: nat
    show "i \<in> bits_of (clear_feature_bit f b) \<longleftrightarrow> i \<in> bits_of f - {unat b}"
      unfolding eq bits_of_update [OF True]
      using bits_of_byte' [OF True, of i] div_mod_8_eq [of i "unat b"]
      by (auto simp: bit_and_iff bit_not_iff bit_push_bit_iff bit_1_iff possible_bit_def simp del: push_bit_of_1)
  qed
next
  case False
  then have "unat b \<notin> bits_of f" by (auto simp: bits_of_iff is_set_rev)
  then show ?thesis using False by (simp add: clear_feature_bit_def Let_def)
qed

lemma trim_pad: "\<exists>k. f = replicate k 0 @ trim_features f"
  unfolding trim_features_def by (induction f) (auto intro: exI [of _ 0] exI [of _ "Suc _"])

lemma bits_of_trim_features [simp]: "bits_of (trim_features f) = bits_of f"
  using trim_pad [of f] bits_of_pad by metis

lemma trimmed_trim_features [simp]: "trimmed (trim_features f)"
  using hd_dropWhile [of "\<lambda>b. b = 0" f] by (auto simp: trimmed_def trim_features_def)

lemma trim_features_id [simp]: "trimmed f \<Longrightarrow> trim_features f = f"
  by (cases f) (auto simp: trimmed_def trim_features_def)

lemma trimmed_top:
  assumes "trimmed f" "f \<noteq> []"
  obtains i where "i \<in> bits_of f" "i div 8 = length f - 1"
proof -
  have "f ! 0 \<noteq> 0" using assms by (simp add: trimmed_def hd_conv_nth)
  then obtain j where j: "bit (f ! 0) j" by (auto simp: bit_eq_iff)
  then have "j < 8" using bit_imp_le_length [of "f ! 0" j] by simp
  then have "8 * (length f - 1) + j \<in> bits_of f" using j assms(2) bits_of_byte [of "length f - 1" f j] by simp
  moreover have "(8 * (length f - 1) + j) div 8 = length f - 1" using \<open>j < 8\<close> by simp
  ultimately show ?thesis by (rule that)
qed

lemma trimmed_length:
  assumes "trimmed f" "bits_of f \<subseteq> bits_of g"
  shows "length f \<le> length g"
proof (cases "f = []")
  case False
  then obtain i where "i \<in> bits_of f" "i div 8 = length f - 1" using trimmed_top assms(1) by blast
  then have "i \<in> bits_of g" using assms(2) by blast
  then have "i div 8 < length g" by (simp add: bits_of_iff is_set_rev)
  then show ?thesis using \<open>i div 8 = length f - 1\<close> by simp
qed simp

lemma bits_of_inject:
  assumes "trimmed f" "trimmed g" "bits_of f = bits_of g"
  shows "f = g"
proof -
  have len: "length f = length g" using assms trimmed_length [of f g] trimmed_length [of g f] by simp
  moreover have "rev f ! k = rev g ! k" if "k < length f" for k
  proof (rule bit_eqI)
    fix j assume "possible_bit TYPE(8 word) j"
    then have "j < 8" by (simp add: possible_bit_def)
    then show "bit (rev f ! k) j = bit (rev g ! k) j"
      using that len assms(3) bits_of_byte [of k f j] bits_of_byte [of k g j] by (simp add: rev_nth)
  qed
  ultimately have "rev f = rev g" by (intro nth_equalityI) simp_all
  then show ?thesis by simp
qed

lemma featurebits_eq_bits: "featurebits_eq f g \<longleftrightarrow> bits_of f = bits_of g"
proof -
  have "i < 8 * max (length f) (length g)" if "i \<in> bits_of f \<or> i \<in> bits_of g" for i
    using that bits_of_bound [of i f] bits_of_bound [of i g] by auto
  then show ?thesis by (auto simp: featurebits_eq_def list_all_iff bits_of_iff [symmetric])
qed

lemma bits_of_or_array:
  assumes "length g \<le> length f"
  shows "bits_of (or_array f g) = bits_of f \<union> bits_of g"
proof -
  have len: "length (or_array f g) = length f" using assms by (simp add: or_array_def Let_def)
  have b: "bit (or_array f g ! (length f - 1 - k)) j \<longleftrightarrow> 8 * k + j \<in> bits_of f \<or> 8 * k + j \<in> bits_of g" if "k < length f" "j < 8" for k j
  proof (cases "k < length g")
    case True
    have at: "\<not> length f - 1 - k < length f - length g" "length f - 1 - k - (length f - length g) = length g - 1 - k"
      "length f - length g + (length g - 1 - k) = length f - 1 - k" "length g - 1 - k < length g"
      using True assms by linarith+
    have "or_array f g ! (length f - 1 - k) = f ! (length f - 1 - k) OR g ! (length g - 1 - k)"
      using assms at by (simp add: or_array_def Let_def nth_append)
    then show ?thesis using True that bits_of_byte [of k f j] bits_of_byte [of k g j] by (simp add: bit_or_iff)
  next
    case False
    have at: "length f - 1 - k < length f - length g" using False assms that(1) by linarith
    then have "or_array f g ! (length f - 1 - k) = f ! (length f - 1 - k)"
      using assms that by (simp add: or_array_def Let_def nth_append)
    then show ?thesis using False that bits_of_bound [of "8 * k + j" g] bits_of_byte [of k f j] by auto
  qed
  have "i \<in> bits_of (or_array f g) \<longleftrightarrow> i \<in> bits_of f \<or> i \<in> bits_of g" for i
  proof (cases "i < 8 * length f")
    case True
    then show ?thesis using b [of "i div 8" "i mod 8"] bits_of_byte [of "i div 8" "or_array f g" "i mod 8"] len by (simp add: div_less_iff_less_mult mult.commute)
  next
    case False
    then show ?thesis using assms len bits_of_bound [of i f] bits_of_bound [of i g] bits_of_bound [of i "or_array f g"] by auto
  qed
  then show ?thesis by blast
qed

lemma bits_of_featurebits_or: "bits_of (featurebits_or f g) = bits_of f \<union> bits_of g"
  by (auto simp: featurebits_or_def bits_of_or_array)

subsection \<open>Feature sets as sets\<close>

text \<open>The two bits of a feature.\<close>

definition pair :: "nat \<Rightarrow> nat set" where
  "pair i = {2 * (i div 2), Suc (2 * (i div 2))}"

definition small :: "u8 list \<Rightarrow> bool" where
  "small f \<longleftrightarrow> 8 * length f \<le> 2 ^ 32"

lemma compulsory_even: "i < 2 ^ 32 \<Longrightarrow> COMPULSORY_FEATURE i = 2 * (i div 2)"
proof -
  assume "i < 2 ^ 32"
  have "bit (i AND 0xFFFFFFFE) n \<longleftrightarrow> bit (2 * (i div 2)) n" for n
  proof -
    have "bit (0xFFFFFFFE :: nat) n \<longleftrightarrow> 0 < n \<and> n < 32"
    proof -
      have m: "(0xFFFFFFFE :: nat) = 2 * mask 31" by (simp add: mask_eq_exp_minus_1)
      show ?thesis unfolding m by (cases n) (auto simp: bit_double_iff bit_mask_iff possible_bit_def)
    qed
    moreover have "n < 32" if "bit i n"
      using that \<open>i < 2 ^ 32\<close> by (metis bit_take_bit_iff take_bit_nat_eq_self)
    moreover have "bit (2 * (i div 2)) n \<longleftrightarrow> 0 < n \<and> bit i n"
      by (cases n) (simp_all add: bit_double_iff bit_Suc)
    ultimately show ?thesis by (simp only: bit_and_iff) blast
  qed
  then show ?thesis unfolding COMPULSORY_FEATURE_def by (auto intro: bit_eqI)
qed

lemma optional_odd: "OPTIONAL_FEATURE i = Suc (2 * (i div 2))"
  unfolding OPTIONAL_FEATURE_def or_one_eq by (cases "even i") (auto elim!: evenE oddE)

lemma offered_pair: "i < 2 ^ 32 \<Longrightarrow> feature_offered f i \<longleftrightarrow> bits_of f \<inter> pair i \<noteq> {}"
  by (auto simp: feature_offered_def compulsory_even optional_odd pair_def bits_of_iff)

lemma small_bits: "small f \<Longrightarrow> i \<in> bits_of f \<Longrightarrow> i < 2 ^ 32"
  using bits_of_bound [of i f] by (simp add: small_def)

lemma fold_bits:
  assumes "\<And>j f. j \<in> set js \<Longrightarrow> bits_of (upd f j) = change (bits_of f) j"
  shows "bits_of (fold (\<lambda>j f. if P j then upd f j else f) js a) = fold (\<lambda>j s. if P j then change s j else s) js (bits_of a)"
  using assms by (induction js arbitrary: a) auto

lemma fold_insert_bits: "fold (\<lambda>j s. if P j then insert j s else s) js s = s \<union> {j \<in> set js. P j}"
  by (induction js arbitrary: s) auto

lemma fold_remove_bits: "fold (\<lambda>j s. if P j then s - {j} else s) js s = s - {j \<in> set js. P j}"
  by (induction js arbitrary: s) auto

lemma bits_in_range: "{j \<in> set [0..<length b * 8]. feature_is_set b j} = bits_of b"
  using bits_of_bound [of _ b] by (fastforce simp: bits_of_iff)

lemma bits_of_set_bits:
  assumes "small b"
  shows "bits_of (set_bits a b) = bits_of a \<union> bits_of b"
proof -
  have "bits_of (set_bits a b) = fold (\<lambda>j s. if feature_is_set b j then insert j s else s) [0..<length b * 8] (bits_of a)"
    unfolding set_bits_def using assms
    by (intro fold_bits [where change = "\<lambda>s j. insert j s"]) (auto simp: bits_of_set_feature_bit small_def unat_of_nat_u32)
  then show ?thesis by (simp only: fold_insert_bits bits_in_range)
qed

lemma bits_of_clear_bits:
  assumes "small b"
  shows "bits_of (clear_bits a b) = bits_of a - bits_of b"
proof -
  have "bits_of (clear_bits a b) = fold (\<lambda>j s. if feature_is_set b j then s - {j} else s) [0..<length b * 8] (bits_of a)"
    unfolding clear_bits_def using assms
    by (intro fold_bits [where change = "\<lambda>s j. s - {j}"]) (auto simp: bits_of_clear_feature_bit small_def unat_of_nat_u32)
  then show ?thesis by (simp only: fold_remove_bits bits_in_range)
qed

lemma trimmed_set_feature_bit: "trimmed f \<Longrightarrow> trimmed (set_feature_bit f b)"
proof -
  assume "trimmed f"
  let ?k = "unat b div 8"
  have nz: "w OR push_bit (unat b mod 8) 1 \<noteq> 0" for w :: u8
  proof -
    have "bit (w OR push_bit (unat b mod 8) 1) (unat b mod 8)"
      by (simp add: bit_or_iff bit_push_bit_iff bit_1_iff possible_bit_def del: push_bit_of_1)
    then show ?thesis by auto
  qed
  show ?thesis
  proof (cases "?k < length f")
    case True
    then have "f \<noteq> []" by auto
    then show ?thesis using True \<open>trimmed f\<close> nz
      by (auto simp: trimmed_def set_feature_bit_def Let_def hd_conv_nth nth_list_update simp del: push_bit_of_1)
  next
    case False
    then have "length (replicate (?k + 1 - length f) 0 @ f) - 1 - ?k = 0" by simp
    then show ?thesis using False nz
      by (auto simp: trimmed_def set_feature_bit_def Let_def hd_conv_nth simp del: push_bit_of_1)
  qed
qed

lemma trimmed_set_bits: "trimmed a \<Longrightarrow> trimmed (set_bits a b)"
proof -
  have "trimmed a \<Longrightarrow> trimmed (fold (\<lambda>j f. if feature_is_set b j then set_feature_bit f (of_nat j) else f) js a)" for js
    by (induction js arbitrary: a) (auto intro: trimmed_set_feature_bit)
  then show "trimmed a \<Longrightarrow> trimmed (set_bits a b)" by (simp add: set_bits_def)
qed

text \<open>A well-formed set has five arrays whose bit numbers fit 32 bits and which do not start with a zero byte.\<close>

definition wf_set :: "feature_arrays \<Rightarrow> bool" where
  "wf_set a \<longleftrightarrow> length a = NUM_FEATURE_PLACE \<and> list_all small a"

definition all_trimmed :: "feature_arrays \<Rightarrow> bool" where
  "all_trimmed a \<longleftrightarrow> list_all trimmed a"

definition offers :: "nat set \<Rightarrow> nat \<Rightarrow> bool" where
  "offers s i \<longleftrightarrow> s \<inter> pair i \<noteq> {}"

lemma offered_offers: "i < 2 ^ 32 \<Longrightarrow> feature_offered f i \<longleftrightarrow> offers (bits_of f) i"
  by (simp add: offered_pair offers_def)

lemma ex_bit_range: "(\<exists>j\<in>set [0..<length b * 8]. feature_is_set b j \<and> P j) \<longleftrightarrow> (\<exists>j\<in>bits_of b. P j)"
  using bits_in_range [of b] by blast

lemma wf_set_small: "wf_set b \<Longrightarrow> i < NUM_FEATURE_PLACE \<Longrightarrow> small (b ! i)"
  by (simp add: wf_set_def list_all_length)

lemma feature_set_or_sets:
  assumes "wf_set b" "length a = NUM_FEATURE_PLACE"
  shows "feature_set_or a b =
    (if \<exists>i<NUM_FEATURE_PLACE. \<exists>j\<in>bits_of (b ! i). offers (bits_of (a ! i)) j then None
     else Some (map2 set_bits a b))"
proof -
  have "(\<exists>j\<in>bits_of (b ! i). feature_offered (a ! i) j) \<longleftrightarrow> (\<exists>j\<in>bits_of (b ! i). offers (bits_of (a ! i)) j)" if "i < NUM_FEATURE_PLACE" for i
    using small_bits [OF wf_set_small [OF assms(1) that]] offered_offers by blast
  moreover have "map (\<lambda>i. set_bits (a ! i) (b ! i)) [0..<NUM_FEATURE_PLACE] = map2 set_bits a b"
    using assms by (intro nth_equalityI) (auto simp: wf_set_def)
  ultimately show ?thesis
    unfolding feature_set_or_def by (auto simp: list_ex_iff ex_bit_range [unfolded set_upt] simp del: bex_simps)
qed

lemma feature_set_sub_sets:
  assumes "wf_set b" "length a = NUM_FEATURE_PLACE"
  shows "feature_set_sub a b =
    (if \<exists>i<NUM_FEATURE_PLACE. \<exists>j\<in>bits_of (b ! i). \<not> offers (bits_of (a ! i)) j then None
     else Some (map2 (\<lambda>x y. trim_features (clear_bits x y)) a b))"
proof -
  have "(\<exists>j\<in>bits_of (b ! i). \<not> feature_offered (a ! i) j) \<longleftrightarrow> (\<exists>j\<in>bits_of (b ! i). \<not> offers (bits_of (a ! i)) j)" if "i < NUM_FEATURE_PLACE" for i
    using small_bits [OF wf_set_small [OF assms(1) that]] offered_offers by blast
  moreover have "map (\<lambda>i. trim_features (clear_bits (a ! i) (b ! i))) [0..<NUM_FEATURE_PLACE] = map2 (\<lambda>x y. trim_features (clear_bits x y)) a b"
    using assms by (intro nth_equalityI) (auto simp: wf_set_def)
  ultimately show ?thesis
    unfolding feature_set_sub_def by (auto simp: list_ex_iff ex_bit_range [unfolded set_upt] simp del: bex_simps)
qed

text \<open>Adding a set and subtracting it again gives the trimmed arrays back.\<close>

lemma self_offers: "i \<in> s \<Longrightarrow> offers s i"
  by (cases "even i") (auto simp: offers_def pair_def elim!: evenE oddE)

lemma offers_Un: "offers (s \<union> t) i \<longleftrightarrow> offers s i \<or> offers t i"
  by (auto simp: offers_def)

lemma sub_or:
  assumes "wf_set b" "length a = NUM_FEATURE_PLACE" "all_trimmed a" "feature_set_or a b = Some c"
  shows "feature_set_sub c b = Some a"
proof -
  have len: "length b = NUM_FEATURE_PLACE" using assms(1) by (simp add: wf_set_def)
  have disj: "\<forall>i<NUM_FEATURE_PLACE. \<forall>j\<in>bits_of (b ! i). \<not> offers (bits_of (a ! i)) j" and c: "c = map2 set_bits a b"
    using assms(4) unfolding feature_set_or_sets [OF assms(1,2)] by (auto split: if_splits)
  have lenc: "length c = NUM_FEATURE_PLACE" using c len assms(2) by simp
  have nth: "bits_of (c ! i) = bits_of (a ! i) \<union> bits_of (b ! i)" if "i < NUM_FEATURE_PLACE" for i
    using that len assms(2) c bits_of_set_bits [OF wf_set_small [OF assms(1) that]] by simp
  have "\<not> (\<exists>i<NUM_FEATURE_PLACE. \<exists>j\<in>bits_of (b ! i). \<not> offers (bits_of (c ! i)) j)"
    using nth by (auto simp: offers_Un self_offers)
  moreover have "map2 (\<lambda>x y. trim_features (clear_bits x y)) c b = a"
  proof (rule nth_equalityI)
    show "length (map2 (\<lambda>x y. trim_features (clear_bits x y)) c b) = length a" using len lenc assms(2) by simp
    fix i assume "i < length (map2 (\<lambda>x y. trim_features (clear_bits x y)) c b)"
    then have i: "i < NUM_FEATURE_PLACE" using len lenc by simp
    have "bits_of (a ! i) \<inter> bits_of (b ! i) = {}" using disj i self_offers by blast
    then have "bits_of (trim_features (clear_bits (c ! i) (b ! i))) = bits_of (a ! i)"
      using nth [OF i] bits_of_clear_bits [OF wf_set_small [OF assms(1) i]] by auto
    moreover have "trimmed (a ! i)" using assms(2,3) i by (simp add: all_trimmed_def list_all_length)
    ultimately show "map2 (\<lambda>x y. trim_features (clear_bits x y)) c b ! i = a ! i"
      using bits_of_inject [OF trimmed_trim_features] i len lenc by simp
  qed
  ultimately show ?thesis unfolding feature_set_sub_sets [OF assms(1) lenc] by simp
qed

subsection \<open>The agreed features of a channel\<close>

text \<open>
  What the loop keeps: the bits below \<open>i\<close> are of features the peer offers, the bits from \<open>i\<close> on are those of the array at the
  start, and \<open>max_len\<close> is the number of bytes for the bits below \<open>i\<close>.
\<close>

definition agreed_inv :: "nat set \<Rightarrow> u8 list \<Rightarrow> nat \<Rightarrow> u8 list \<Rightarrow> nat \<Rightarrow> bool" where
  "agreed_inv s theirs i f max_len \<longleftrightarrow>
     even i \<and> trimmed f \<and> small f \<and> bits_of f = {j \<in> s. i \<le> j \<or> offers (bits_of theirs) j} \<and>
     (\<forall>j\<in>bits_of f. j < i \<longrightarrow> j div 8 < max_len) \<and> (max_len = 0 \<or> (\<exists>j\<in>bits_of f. j < i \<and> max_len = j div 8 + 1))"

lemma agreed_inv_end:
  assumes "agreed_inv s theirs i f max_len" "8 * length f \<le> i"
  shows "max_len = length f" "bits_of f = {j \<in> s. offers (bits_of theirs) j}"
proof -
  note inv = assms(1) [unfolded agreed_inv_def]
  have below: "j < i" if "j \<in> bits_of f" for j using bits_of_bound [OF that] assms(2) by simp
  then show "bits_of f = {j \<in> s. offers (bits_of theirs) j}" using inv by fastforce
  have le: "max_len \<le> length f" using inv by (auto simp: bits_of_iff is_set_rev)
  show "max_len = length f"
  proof (cases "f = []")
    case False
    then obtain j where "j \<in> bits_of f" "j div 8 = length f - 1" using inv trimmed_top by blast
    then have "length f - 1 < max_len" using inv below by force
    then show ?thesis using le by linarith
  qed (use le in simp)
qed

lemma agreed_inv_skip:
  assumes "agreed_inv s theirs i f max_len" "i < 8 * length f" "\<not> feature_offered f i"
  shows "agreed_inv s theirs (i + 2) f max_len"
proof -
  note inv = assms(1) [unfolded agreed_inv_def]
  have "i < 2 ^ 32" using inv assms(2) by (simp add: small_def)
  then have "bits_of f \<inter> pair i = {}" using assms(3) by (simp add: offered_pair)
  moreover have "pair i = {i, i + 1}" using inv by (auto simp: pair_def elim!: evenE)
  ultimately have no: "i \<notin> bits_of f" "i + 1 \<notin> bits_of f" by auto
  have bits: "bits_of f = {j \<in> s. i + 2 \<le> j \<or> offers (bits_of theirs) j}"
  proof (rule set_eqI)
    fix j
    have "j \<in> bits_of f \<longleftrightarrow> j \<in> s \<and> (i \<le> j \<or> offers (bits_of theirs) j)" using inv by simp
    moreover have "j = i \<or> j = i + 1 \<or> j < i \<or> i + 2 \<le> j" by arith
    ultimately show "j \<in> bits_of f \<longleftrightarrow> j \<in> {j \<in> s. i + 2 \<le> j \<or> offers (bits_of theirs) j}" using no by auto
  qed
  have "j div 8 < max_len" if "j \<in> bits_of f" "j < i + 2" for j
  proof -
    have "j \<noteq> i" "j \<noteq> i + 1" using that no by auto
    then show ?thesis using that inv by auto
  qed
  moreover have "max_len = 0 \<or> (\<exists>j\<in>bits_of f. j < i + 2 \<and> max_len = j div 8 + 1)" using inv trans_less_add1 by blast
  ultimately show ?thesis using inv bits by (simp add: agreed_inv_def)
qed

lemma agreed_inv_keep:
  assumes "agreed_inv s theirs i f max_len" "i < 8 * length f" "feature_offered f i" "feature_offered theirs i"
  shows "agreed_inv s theirs (i + 2) f (i div 8 + 1)"
proof -
  note inv = assms(1) [unfolded agreed_inv_def]
  have "i < 2 ^ 32" using inv assms(2) by (simp add: small_def)
  then have o: "offers (bits_of theirs) i" using assms(4) by (simp add: offered_offers)
  moreover have "pair (i + 1) = pair i" using inv by (auto simp: pair_def elim!: evenE)
  ultimately have o1: "offers (bits_of theirs) (i + 1)" by (simp add: offers_def)
  have bits: "bits_of f = {j \<in> s. i + 2 \<le> j \<or> offers (bits_of theirs) j}"
  proof (rule set_eqI)
    fix j
    have "j \<in> bits_of f \<longleftrightarrow> j \<in> s \<and> (i \<le> j \<or> offers (bits_of theirs) j)" using inv by simp
    moreover have "j = i \<or> j = i + 1 \<or> j < i \<or> i + 2 \<le> j" by arith
    ultimately show "j \<in> bits_of f \<longleftrightarrow> j \<in> {j \<in> s. i + 2 \<le> j \<or> offers (bits_of theirs) j}" using o o1 by auto
  qed
  have "j div 8 < i div 8 + 1" if "j < i + 2" for j
  proof -
    from inv have "even i" by simp
    then have "(i + 1) div 8 = i div 8" by presburger
    moreover have "j div 8 \<le> (i + 1) div 8" using that by (intro div_le_mono) simp
    ultimately show ?thesis by simp
  qed
  moreover have "\<exists>j\<in>bits_of f. j < i + 2 \<and> i div 8 + 1 = j div 8 + 1"
  proof -
    have "even i" using inv by simp
    then have "(i + 1) div 8 = i div 8" by presburger
    moreover have "pair i = {i, i + 1}" using \<open>even i\<close> by (auto simp: pair_def elim!: evenE)
    moreover have "bits_of f \<inter> pair i \<noteq> {}" using assms(3) \<open>i < 2 ^ 32\<close> by (simp add: offered_pair)
    ultimately obtain j where "j \<in> bits_of f" "j < i + 2" "j div 8 = i div 8" by fastforce
    then show ?thesis by (intro bexI [of _ j]) simp_all
  qed
  ultimately show ?thesis using inv bits by (simp add: agreed_inv_def)
qed

lemma agreed_inv_clear:
  fixes f i
  defines "g \<equiv> trim_features (clear_feature_bit (clear_feature_bit f (of_nat (COMPULSORY_FEATURE i))) (of_nat (OPTIONAL_FEATURE i)))"
  assumes "agreed_inv s theirs i f max_len" "i < 8 * length f" "\<not> feature_offered theirs i"
  shows "agreed_inv s theirs (i + 2) g max_len"
proof -
  note inv = assms(2) [unfolded agreed_inv_def]
  have i: "i < 2 ^ 32" using inv assms(3) by (simp add: small_def)
  have e: "2 * (i div 2) = i" using inv by simp
  have "even (2 ^ 32 :: nat)" "odd (i + 1)" using inv by simp_all
  then have "i + 1 \<noteq> 2 ^ 32" by metis
  then have "i + 1 < 2 ^ 32" using i by linarith
  then have u: "unat (of_nat i :: u32) = i" "unat (of_nat (Suc i) :: u32) = Suc i" using i unat_of_nat_u32 [of i] unat_of_nat_u32 [of "Suc i"] by (simp_all del: of_nat_Suc)
  have "bits_of g = bits_of f - {i, i + 1}"
    unfolding g_def bits_of_trim_features bits_of_clear_feature_bit compulsory_even [OF i] optional_odd e u by auto
  moreover have no: "\<not> offers (bits_of theirs) i" using assms(4) i by (simp add: offered_offers)
  moreover have "pair (i + 1) = pair i" using inv by (auto simp: pair_def elim!: evenE)
  then have no1: "\<not> offers (bits_of theirs) (i + 1)" using no by (simp add: offers_def)
  ultimately have bits: "bits_of g = {j \<in> s. i + 2 \<le> j \<or> offers (bits_of theirs) j}" (is "_ = ?S")
  proof -
    have "j \<in> bits_of f - {i, i + 1} \<longleftrightarrow> j \<in> ?S" for j
    proof -
      have "j \<in> bits_of f \<longleftrightarrow> j \<in> s \<and> (i \<le> j \<or> offers (bits_of theirs) j)" using inv by simp
      moreover have "j = i \<or> j = i + 1 \<or> j < i \<or> i + 2 \<le> j" by arith
      ultimately show ?thesis using no no1 by auto
    qed
    then show ?thesis using \<open>bits_of g = bits_of f - {i, i + 1}\<close> by blast
  qed
  have len: "length g \<le> length f" unfolding g_def using length_trim_features order.trans by (metis length_clear_feature_bit)
  have old: "j \<in> bits_of f \<and> j < i" if "j \<in> bits_of g" "j < i + 2" for j
    using that \<open>bits_of g = bits_of f - {i, i + 1}\<close> by auto
  have "\<forall>j\<in>bits_of g. j < i + 2 \<longrightarrow> j div 8 < max_len" using old inv by blast
  moreover have "max_len = 0 \<or> (\<exists>j\<in>bits_of g. j < i + 2 \<and> max_len = j div 8 + 1)"
  proof (cases "max_len = 0")
    case False
    then obtain j where "j \<in> bits_of f" "j < i" "max_len = j div 8 + 1" using inv by blast
    then show ?thesis using \<open>bits_of g = bits_of f - {i, i + 1}\<close> by (intro disjI2 bexI [of _ j]) auto
  qed simp
  moreover have "trimmed g" "small g" "even (i + 2)" using inv len by (simp_all add: g_def small_def)
  ultimately show ?thesis using bits by (simp add: agreed_inv_def)
qed

lemma agreed_loop_inv:
  "agreed_inv s theirs i f max_len \<Longrightarrow> agreed_loop theirs i f max_len = (g, n) \<Longrightarrow>
   n = length g \<and> trimmed g \<and> bits_of g = {j \<in> s. offers (bits_of theirs) j}"
proof (induction theirs i f max_len rule: agreed_loop.induct)
  case (1 theirs i f max_len)
  show ?case
  proof (cases "i < 8 * length f")
    case False
    then have "g = f" "n = max_len" using 1(5) by (simp_all add: agreed_loop.simps)
    moreover have "trimmed f" using 1(4) by (simp add: agreed_inv_def)
    ultimately show ?thesis using agreed_inv_end [OF 1(4)] False by simp
  next
    case True
    consider "\<not> feature_offered f i" | "feature_offered f i" "\<not> feature_offered theirs i" | "feature_offered f i" "feature_offered theirs i" by blast
    then show ?thesis
    proof cases
      case 1
      then show ?thesis using "1.IH"(1) [OF _ _ agreed_inv_skip [OF "1.prems"(1) True]] True "1.prems"(2) by (simp add: agreed_loop.simps [of theirs i])
    next
      case 2
      then show ?thesis using "1.IH"(2) [OF _ _ _ agreed_inv_clear [OF "1.prems"(1) True]] True "1.prems"(2) by (simp add: agreed_loop.simps [of theirs i])
    next
      case 3
      then show ?thesis using "1.IH"(3) [OF _ _ _ agreed_inv_keep [OF "1.prems"(1) True]] True "1.prems"(2) by (simp add: agreed_loop.simps [of theirs i])
    qed
  qed
qed

lemma agreed_features:
  assumes "trimmed (ours ! CHANNEL_FEATURE)" "small (ours ! CHANNEL_FEATURE)"
  shows "\<exists>g. get_agreed_channelfeatures ours theirs = Some g \<and> trimmed g \<and>
    bits_of g = {j \<in> bits_of (ours ! CHANNEL_FEATURE). offers (bits_of theirs) j}"
proof -
  obtain g n where l: "agreed_loop theirs 0 (ours ! CHANNEL_FEATURE) 0 = (g, n)" by (cases "agreed_loop theirs 0 (ours ! CHANNEL_FEATURE) 0")
  have "agreed_inv (bits_of (ours ! CHANNEL_FEATURE)) theirs 0 (ours ! CHANNEL_FEATURE) 0" using assms by (simp add: agreed_inv_def)
  from agreed_loop_inv [OF this l] show ?thesis by (simp add: get_agreed_channelfeatures_def l)
qed

subsection \<open>Unsupported and dependent features\<close>

lemma first_unsupported_bits:
  assumes "\<forall>i\<in>set is. i < 8 * length bitmap" "length bitmap \<le> 2 ^ 28"
  shows "first_unsupported ours bitmap is =
    Some (case find (\<lambda>i. i \<in> bits_of bitmap \<and> \<not> offers (bits_of ours) i) is of None \<Rightarrow> - 1 | Some i \<Rightarrow> int i)"
  using assms
proof (induction "is")
  case (Cons i "is")
  have "i < 2 ^ 31" using Cons.prems by auto
  then have u: "uint (of_nat i :: u32) = int i" by (simp add: uint_nat unat_of_nat_u32)
  with \<open>i < 2 ^ 31\<close> have "feature_offered ours i = offers (bits_of ours) i" "sint (of_nat i :: u32) = int i"
    by (simp_all add: offered_offers sint_uint u signed_take_bit_int_eq_self)
  then show ?case using Cons test_bit_bits [of i bitmap] by simp
qed simp

text \<open>The answer is the least even bit of the peer that is not offered here.\<close>

lemma features_unsupported_bits:
  assumes "length theirs \<le> 2 ^ 28"
  shows "features_unsupported ours theirs p =
    Some (if 2 \<in> bits_of theirs then 2
      else case find (\<lambda>i. i \<in> bits_of theirs \<and> \<not> offers (bits_of (ours ! p)) i) (map ((*) 2) [0..<length theirs * 4]) of
        None \<Rightarrow> - 1 | Some i \<Rightarrow> int i)"
proof -
  have "COMPULSORY_FEATURE OPT_INITIAL_ROUTING_SYNC = 2" by (simp add: feature_numbers compulsory_even)
  then show ?thesis
    using first_unsupported_bits [of "map ((*) 2) [0..<length theirs * 4]" theirs "ours ! p"] assms
    by (simp add: features_unsupported_def all_supported_features_def bits_of_iff)
qed

lemma depends_offers:
  "feature_check_depends theirs =
    map_option (\<lambda>d. (depender d, must_also_have d))
      (find (\<lambda>d. offers (bits_of theirs) (depender d) \<and> \<not> offers (bits_of theirs) (must_also_have d)) feature_deps)"
proof -
  have "\<forall>d\<in>set feature_deps. depender d < 2 ^ 32 \<and> must_also_have d < 2 ^ 32" by (simp add: feature_deps_def feature_numbers)
  then show ?thesis
    unfolding feature_check_depends_def by (intro arg_cong [where f = "map_option _"] find_cong refl) (simp add: offered_offers)
qed

subsection \<open>Feature sets on the wire\<close>

lemma fromwire_u16_towire: "fromwire_u16 (Some (be_bytes 2 (ucast (v :: u16)) @ r)) = (v, Some r)"
proof -
  have "ucast (take_bit 16 (ucast v :: u64)) = v" by (rule bit_word_eqI) (simp add: bit_simps)
  then show ?thesis by (simp add: fromwire_u16_def fromwire_def be_value_bytes)
qed

lemma fromwire_arrn: "fromwire_tal_arrn (Some (arr @ r)) (length arr) = (arr, Some r)"
  by (simp add: fromwire_tal_arrn_def fromwire_u8_array_def fromwire_def)

definition array_text :: "u8 list \<Rightarrow> u8 list" where
  "array_text arr = be_bytes 2 (ucast (of_nat (length arr) :: u16)) @ arr"

lemma fromwire_arrays_text:
  "list_all (\<lambda>arr. length arr < 2 ^ 16) arrs \<Longrightarrow>
   fromwire_arrays (length arrs) (Some (concat (map array_text arrs) @ r)) = (arrs, Some r)"
proof (induction arrs)
  case (Cons arr arrs)
  have "unat (of_nat (length arr) :: u16) = length arr" using Cons.prems by (simp add: unat_of_nat)
  then show ?case using Cons by (simp add: array_text_def fromwire_u16_towire fromwire_arrn)
qed simp

lemma towire_feature_set_text: "towire_feature_set p sets = p @ concat (map array_text sets)"
  unfolding towire_feature_set_def
  by (induction sets arbitrary: p) (simp_all add: array_text_def towire_u8_array_def towire_u16_def towire_def)

lemma feature_set_wire:
  assumes "length sets = NUM_FEATURE_PLACE" "list_all (\<lambda>arr. length arr < 2 ^ 16) sets"
  shows "fromwire_feature_set (Some (towire_feature_set [] sets @ r)) = (Some sets, Some r)"
  using fromwire_arrays_text [OF assms(2), of r] by (simp add: fromwire_feature_set_def towire_feature_set_text assms(1))

subsection \<open>The set for one feature\<close>

lemma those_nth: "those xs = Some ys \<Longrightarrow> length ys = length xs \<and> (\<forall>i<length xs. xs ! i = Some (ys ! i))"
proof (induction xs arbitrary: ys)
  case (Cons x xs)
  then obtain y zs where "x = Some y" "those xs = Some zs" "ys = y # zs" by (auto split: option.splits)
  then show ?case using Cons.IH [of zs] by (auto simp: nth_Cons split: nat.splits)
qed simp

lemma length_set_feature_bit: "length (set_feature_bit f b) = max (length f) (unat b div 8 + 1)"
  by (simp add: set_feature_bit_def Let_def)

lemma small_set_feature_bit: "small (set_feature_bit [] b)"
proof -
  have "unat b < 2 ^ 32" using unsigned_less [of b] by simp
  then show ?thesis by (simp add: small_def length_set_feature_bit)
qed

lemma feature_set_for_feature_wf:
  assumes "feature_set_for_feature feature = Some sets"
  shows "wf_set sets \<and> all_trimmed sets"
proof -
  note t = those_nth [OF assms [unfolded feature_set_for_feature_def]]
  have "small (sets ! i) \<and> trimmed (sets ! i)" if "i < NUM_FEATURE_PLACE" for i
  proof -
    have "place_bits feature i = Some (sets ! i)" using t that by simp
    then obtain st where "feature_copy_style feature i = Some st" by (auto simp: place_bits_def bind_eq_Some_conv)
    then have "sets ! i = [] \<or> (\<exists>b. sets ! i = set_feature_bit [] b)"
      using \<open>place_bits feature i = Some (sets ! i)\<close> [symmetric] by (cases st) (auto simp: place_bits_def)
    moreover have "trimmed []" "small []" by (simp_all add: trimmed_def small_def)
    ultimately show ?thesis using small_set_feature_bit trimmed_set_feature_bit [of "[]"] by auto
  qed
  then show ?thesis using t by (simp add: wf_set_def all_trimmed_def list_all_length)
qed

text \<open>With leading zeros the array is cut at the wrong end: of \<open>00 02\<close> the first byte remains, and the bit both sides offer is lost.\<close>

lemma agreed_untrimmed: "get_agreed_channelfeatures [[], [], [], [0, 2], []] [2] = Some [0]"
proof -
  have "feature_offered [0, 2] i \<longleftrightarrow> i < 2" "feature_offered [2] i \<longleftrightarrow> i < 2" if "i < 16" for i
  proof -
    have h: "{1} \<inter> pair i \<noteq> {} \<longleftrightarrow> i < 2" "i < 2 ^ 32" using that by (simp_all add: pair_def) presburger
    have "set_feature_bit [] 1 = [2]" by (simp add: set_feature_bit_def)
    then have "bits_of [2] = {1}" using bits_of_set_feature_bit [of "[]" 1] by simp
    moreover from this have "bits_of [0, 2] = {1}" using bits_of_pad [of 1 "[2]"] by simp
    ultimately show "feature_offered [0, 2] i \<longleftrightarrow> i < 2" "feature_offered [2] i \<longleftrightarrow> i < 2" using h unfolding offered_pair [OF h(2)] by simp_all
  qed
  then have "agreed_loop [2] 0 [0, 2] 0 = agreed_loop [2] 2 [0, 2] 1"
    and "\<And>i. 2 \<le> i \<Longrightarrow> i < 16 \<Longrightarrow> agreed_loop [2] i [0, 2] 1 = agreed_loop [2] (i + 2) [0, 2] 1"
    by (subst agreed_loop.simps; simp)+
  moreover have "agreed_loop [2] 16 [0, 2] 1 = ([0, 2], 1)" by (subst agreed_loop.simps) simp
  ultimately show ?thesis by (simp add: get_agreed_channelfeatures_def CHANNEL_FEATURE_def)
qed

end
