(* ===== verification/Scid.thy ===== *)
theory Scid
  imports Tlv
begin

text \<open>
  \<open>bitcoin/short_channel_id.c\<close>: identifiers of channels, as an integer of 64 bits, as text and on the wire. \<open>struct short_channel_id\<close>
  has this integer as its only member.
\<close>

unbundle bit_operations_syntax

type_synonym short_channel_id = u64

record short_channel_id_dir =
  scid :: short_channel_id
  scid_dir :: int

definition short_channel_id_blocknum :: "short_channel_id \<Rightarrow> u32" where
  "short_channel_id_blocknum s = ucast (drop_bit 40 s)"

definition short_channel_id_txnum :: "short_channel_id \<Rightarrow> u32" where
  "short_channel_id_txnum s = ucast (drop_bit 16 s AND 0x00FFFFFF)"

definition short_channel_id_outnum :: "short_channel_id \<Rightarrow> u16" where
  "short_channel_id_outnum s = ucast (s AND 0xFFFF)"

definition is_scid_depth_announceable :: "short_channel_id \<Rightarrow> u32 \<Rightarrow> bool" where
  "is_scid_depth_announceable s height \<longleftrightarrow> short_channel_id_blocknum s + 6 - 1 \<le> height"

definition mk_short_channel_id :: "u64 \<Rightarrow> u64 \<Rightarrow> u64 \<Rightarrow> short_channel_id option" where
  "mk_short_channel_id blocknum txnum outnum =
     (if blocknum AND 0xFFFFFF \<noteq> blocknum \<or> txnum AND 0xFFFFFF \<noteq> txnum \<or> outnum AND 0xFFFF \<noteq> outnum then None
      else Some (push_bit 40 (blocknum AND 0xFFFFFF) OR push_bit 16 (txnum AND 0xFFFFFF) OR (outnum AND 0xFFFF)))"

text \<open>
  \<open>%u\<close> and \<open>%hu\<close> of \<open>sscanf\<close>, for \<open>w\<close> bits: spaces, a sign, decimal digits. \<open>Some None\<close> is a matching failure. A number that
  does not fit the object has no defined result.
\<close>

definition scan_unsigned :: "nat \<Rightarrow> string \<Rightarrow> (nat \<times> string) option run" where
  "scan_unsigned w s =
     (let s = dropWhile c_isspace s;
          neg = (s \<noteq> [] \<and> hd s = CHR ''-'');
          s = (if s \<noteq> [] \<and> (hd s = CHR ''-'' \<or> hd s = CHR ''+'') then tl s else s);
          ds = takeWhile cisdigit s; v = digits_value ds
      in if ds = [] then Some None
         else if v < 2 ^ w then Some (Some ((if neg then (2 ^ w - v) mod 2 ^ w else v), dropWhile cisdigit s))
         else None)"

definition scan_x :: "string \<Rightarrow> string option" where
  "scan_x s = (case s of [] \<Rightarrow> None | c # cs \<Rightarrow> if c = CHR ''x'' then Some cs else None)"

text \<open>The conversions of \<open>%ux%ux%hu\<close>; \<open>Some None\<close> is a count of matches below 3.\<close>

definition scan_scid :: "string \<Rightarrow> (nat \<times> nat \<times> nat) option run" where
  "scan_scid s = do {
     r \<leftarrow> scan_unsigned 32 s;
     case r of None \<Rightarrow> Some None | Some (blocknum, s) \<Rightarrow>
     (case scan_x s of None \<Rightarrow> Some None | Some s \<Rightarrow> do {
       r \<leftarrow> scan_unsigned 32 s;
       case r of None \<Rightarrow> Some None | Some (txnum, s) \<Rightarrow>
       (case scan_x s of None \<Rightarrow> Some None | Some s \<Rightarrow> do {
         r \<leftarrow> scan_unsigned 16 s;
         case r of None \<Rightarrow> Some None | Some (outnum, s) \<Rightarrow> Some (Some (blocknum, txnum, outnum)) }) }) }"

definition short_channel_id_from_str :: "string \<Rightarrow> short_channel_id option run" where
  "short_channel_id_from_str str = do {
     r \<leftarrow> scan_scid (takeWhile (\<lambda>c. c \<noteq> NUL) str);
     Some (case r of None \<Rightarrow> None | Some (b, t, u) \<Rightarrow> mk_short_channel_id (of_nat b) (of_nat t) (of_nat u)) }"

definition short_channel_id_to_str :: "short_channel_id \<Rightarrow> string" where
  "short_channel_id_to_str s =
     dec_of_nat (unat (short_channel_id_blocknum s)) @ ''x'' @ dec_of_nat (unat (short_channel_id_txnum s)) @ ''x'' @
     dec_of_nat (unat (short_channel_id_outnum s))"

definition short_channel_id_dir_from_str :: "string \<Rightarrow> short_channel_id_dir option run" where
  "short_channel_id_dir_from_str str =
     (let before = takeWhile (\<lambda>c. c \<noteq> CHR ''/'') str; rest = dropWhile (\<lambda>c. c \<noteq> CHR ''/'') str
      in if length rest \<noteq> 2 then Some None
         else do {
           r \<leftarrow> short_channel_id_from_str before;
           case r of None \<Rightarrow> Some None | Some s \<Rightarrow>
           if rest ! 1 = CHR ''0'' then Some (Some \<lparr>scid = s, scid_dir = 0\<rparr>)
           else if rest ! 1 = CHR ''1'' then Some (Some \<lparr>scid = s, scid_dir = 1\<rparr>)
           else Some None })"

text \<open>\<open>%u\<close> of an \<open>int\<close>.\<close>

definition short_channel_id_dir_to_str :: "short_channel_id_dir \<Rightarrow> string" where
  "short_channel_id_dir_to_str scidd = short_channel_id_to_str (scid scidd) @ ''/'' @ dec_of_nat (nat (scid_dir scidd mod 2 ^ 32))"

definition towire_short_channel_id :: "u8 list \<Rightarrow> short_channel_id \<Rightarrow> u8 list" where
  "towire_short_channel_id p s = towire_u64 p s"

definition towire_short_channel_id_dir :: "u8 list \<Rightarrow> short_channel_id_dir \<Rightarrow> u8 list" where
  "towire_short_channel_id_dir p scidd = towire_bool (towire_short_channel_id p (scid scidd)) (scid_dir scidd \<noteq> 0)"

definition fromwire_short_channel_id :: "cursor \<Rightarrow> short_channel_id \<times> cursor" where
  "fromwire_short_channel_id cur = fromwire_u64 cur"

definition fromwire_short_channel_id_dir :: "cursor \<Rightarrow> short_channel_id_dir \<times> cursor" where
  "fromwire_short_channel_id_dir cur =
     (case fromwire_short_channel_id cur of (s, cur) \<Rightarrow>
      case fromwire_bool cur of (d, cur) \<Rightarrow> (\<lparr>scid = s, scid_dir = of_bool d\<rparr>, cur))"

definition tlvstream_set_short_channel_id :: "tlv_field list \<Rightarrow> u64 \<Rightarrow> short_channel_id \<Rightarrow> tlv_field list" where
  "tlvstream_set_short_channel_id stream ty s = tlvstream_set_raw stream ty (towire_short_channel_id [] s)"

definition tlvstream_get_short_channel_id :: "tlv_field list \<Rightarrow> u64 \<Rightarrow> short_channel_id option" where
  "tlvstream_get_short_channel_id stream ty = (case tlvstream_get_raw stream ty of
     None \<Rightarrow> None
   | Some raw \<Rightarrow> if tf_length raw \<noteq> 8 then None else Some (fst (fromwire_short_channel_id (Some (tf_value raw)))))"

subsection \<open>The three numbers\<close>

lemma mask_u64: "(0xFFFFFF :: u64) = mask 24" "(0xFFFF :: u64) = mask 16"
  by (simp_all add: mask_eq_exp_minus_1)

lemma and_mask_id: "(v :: u64) AND mask n = v \<longleftrightarrow> n \<ge> 64 \<or> unat v < 2 ^ n"
proof -
  have "v AND mask n = v \<longleftrightarrow> take_bit n (unat v) = unat v"
    unfolding take_bit_eq_mask [symmetric] by (metis unsigned_take_bit_eq word_unat_eq_iff)
  also have "\<dots> \<longleftrightarrow> unat v < 2 ^ n" by (simp add: take_bit_nat_eq_self_iff)
  finally show ?thesis using unat_u64_less [of v] power_increasing [of 64 n "2 :: nat"] by (metis less_le_trans one_le_numeral)
qed

lemma mk_masks:
  "mk_short_channel_id b t u =
     (if unat b < 2 ^ 24 \<and> unat t < 2 ^ 24 \<and> unat u < 2 ^ 16 then Some (push_bit 40 b OR push_bit 16 t OR u) else None)"
proof (cases "unat b < 2 ^ 24 \<and> unat t < 2 ^ 24 \<and> unat u < 2 ^ 16")
  case True
  then have "b AND mask 24 = b" "t AND mask 24 = t" "u AND mask 16 = u" using and_mask_id [of b 24] and_mask_id [of t 24] and_mask_id [of u 16] by simp_all
  then show ?thesis unfolding mk_short_channel_id_def mask_u64 using True by presburger
qed (auto simp: mk_short_channel_id_def mask_u64 and_mask_id)

lemma low_bits: "(\<And>i. n \<le> i \<Longrightarrow> \<not> bit v i) \<Longrightarrow> unat (v :: u64) < 2 ^ n"
proof -
  assume high: "\<And>i. n \<le> i \<Longrightarrow> \<not> bit v i"
  have "take_bit n v = v" by (rule bit_word_eqI) (use high in \<open>auto simp: bit_take_bit_iff not_le [symmetric]\<close>)
  then have "take_bit n (unat v) = unat v" by (metis unsigned_take_bit_eq)
  then show ?thesis by (simp only: take_bit_nat_eq_self_iff)
qed

lemma mk_parts:
  assumes "mk_short_channel_id b t u = Some s"
  shows "unat b < 2 ^ 24" "unat t < 2 ^ 24" "unat u < 2 ^ 16"
    "ucast (short_channel_id_blocknum s) = b" "ucast (short_channel_id_txnum s) = t" "ucast (short_channel_id_outnum s) = u"
proof -
  show f: "unat b < 2 ^ 24" "unat t < 2 ^ 24" "unat u < 2 ^ 16" using assms by (simp_all add: mk_masks split: if_splits)
  have s: "s = push_bit 40 b OR push_bit 16 t OR u" using assms by (simp add: mk_masks split: if_splits)
  have hb: "\<not> bit b i" "\<not> bit t i" if "24 \<le> i" for i using word_high_bits [OF f(1) that] word_high_bits [OF f(2) that] by auto
  have hu: "\<not> bit u i" if "16 \<le> i" for i using word_high_bits [OF f(3) that] by auto
  have lb: "i < 24" if "bit b i" for i using hb [of i] that by (cases "24 \<le> i") auto
  have lt: "i < 24" if "bit t i" for i using hb [of i] that by (cases "24 \<le> i") auto
  have lu: "i < 16" if "bit u i" for i using hu [of i] that by (cases "16 \<le> i") auto
  show "ucast (short_channel_id_blocknum s) = b"
    by (rule bit_word_eqI) (auto simp: short_channel_id_blocknum_def s bit_simps dest: lu lb lt)
  show "ucast (short_channel_id_txnum s) = t"
    unfolding short_channel_id_txnum_def mask_u64
    by (rule bit_word_eqI) (auto simp: s bit_simps dest: lu lb lt)
  show "ucast (short_channel_id_outnum s) = u"
    unfolding short_channel_id_outnum_def mask_u64
    by (rule bit_word_eqI) (auto simp: s bit_simps dest: lu lb lt)
qed

lemma parts_mk:
  "mk_short_channel_id (ucast (short_channel_id_blocknum s)) (ucast (short_channel_id_txnum s)) (ucast (short_channel_id_outnum s)) = Some s"
proof -
  have "unat (ucast (short_channel_id_blocknum s) :: u64) < 2 ^ 24"
    unfolding short_channel_id_blocknum_def using bit_imp_le_length [of s] by (intro low_bits) (fastforce simp: bit_simps)
  moreover have "unat (ucast (short_channel_id_txnum s) :: u64) < 2 ^ 24"
    unfolding short_channel_id_txnum_def mask_u64 by (rule low_bits) (auto simp: bit_simps)
  moreover have "unat (ucast (short_channel_id_outnum s) :: u64) < 2 ^ 16"
    unfolding short_channel_id_outnum_def mask_u64 by (rule low_bits) (auto simp: bit_simps)
  moreover have "push_bit 40 (ucast (short_channel_id_blocknum s)) OR push_bit 16 (ucast (short_channel_id_txnum s)) OR ucast (short_channel_id_outnum s) = s"
    unfolding short_channel_id_blocknum_def short_channel_id_txnum_def short_channel_id_outnum_def mask_u64
  proof (rule bit_word_eqI, goal_cases)
    case (1 n)
    then show ?case by (cases "40 \<le> n") (auto simp: bit_simps)
  qed
  ultimately show ?thesis by (simp add: mk_masks)
qed

subsection \<open>Text\<close>

lemma scan_dec:
  assumes "n < 2 ^ w" "r = [] \<or> \<not> cisdigit (hd r)"
  shows "scan_unsigned w (dec_of_nat n @ r) = Some (Some (n, r))"
proof -
  obtain d ds where d: "dec_of_nat n = d # ds" by (cases "dec_of_nat n") simp_all
  then have dig: "cisdigit d" using dec_of_nat_digits [of d n] by simp
  then have "\<not> c_isspace d" "d \<noteq> CHR ''-''" "d \<noteq> CHR ''+''" by (auto simp: cisdigit_def c_isspace_def)
  moreover have "takeWhile cisdigit (dec_of_nat n @ r) = dec_of_nat n" "dropWhile cisdigit (dec_of_nat n @ r) = r"
    using dec_of_nat_digits [of _ n] assms(2) by (cases r; simp add: takeWhile_append dropWhile_append dropWhile_eq_Nil_conv)+
  ultimately show ?thesis
    using assms(1) digits_value_dec [of n] dig unfolding d by (simp add: scan_unsigned_def)
qed

lemma scan_scid_dec:
  assumes "b < 2 ^ 32" "t < 2 ^ 32" "u < 2 ^ 16" "r = [] \<or> \<not> cisdigit (hd r)"
  shows "scan_scid (dec_of_nat b @ CHR ''x'' # dec_of_nat t @ CHR ''x'' # dec_of_nat u @ r) = Some (Some (b, t, u))"
  using assms scan_dec [of b 32 "CHR ''x'' # dec_of_nat t @ CHR ''x'' # dec_of_nat u @ r"]
    scan_dec [of t 32 "CHR ''x'' # dec_of_nat u @ r"] scan_dec [of u 16 r]
  by (simp add: scan_scid_def scan_x_def cisdigit_def)

lemma not_dec: "NUL \<notin> set (dec_of_nat n)" "CHR ''/'' \<notin> set (dec_of_nat n)"
  using dec_of_nat_digits [of NUL n] dec_of_nat_digits [of "CHR ''/''" n] by (auto simp: cisdigit_def)

text \<open>What was printed is read again, whatever text follows it: \<open>sscanf\<close> stops after the third number.\<close>

lemma scid_from_to_str:
  assumes "r = [] \<or> \<not> cisdigit (hd r)"
  shows "short_channel_id_from_str (short_channel_id_to_str s @ r) = Some (Some s)"
proof -
  let ?t = "dec_of_nat (unat (short_channel_id_blocknum s)) @ CHR ''x'' # dec_of_nat (unat (short_channel_id_txnum s)) @ CHR ''x'' #
    dec_of_nat (unat (short_channel_id_outnum s))"
  have "c \<noteq> NUL" if "c \<in> set ?t" for c
    using that not_dec by auto
  then have "takeWhile (\<lambda>c. c \<noteq> NUL) (?t @ r) = ?t @ takeWhile (\<lambda>c. c \<noteq> NUL) r" by (simp add: takeWhile_append2)
  moreover have "takeWhile (\<lambda>c. c \<noteq> NUL) r = [] \<or> \<not> cisdigit (hd (takeWhile (\<lambda>c. c \<noteq> NUL) r))" using assms by (cases r) auto
  ultimately have "scan_scid (takeWhile (\<lambda>c. c \<noteq> NUL) (short_channel_id_to_str s @ r)) =
      Some (Some (unat (short_channel_id_blocknum s), unat (short_channel_id_txnum s), unat (short_channel_id_outnum s)))"
    using scan_scid_dec [of "unat (short_channel_id_blocknum s)" "unat (short_channel_id_txnum s)" "unat (short_channel_id_outnum s)" "takeWhile (\<lambda>c. c \<noteq> NUL) r"]
      unsigned_less [of "short_channel_id_blocknum s"] unsigned_less [of "short_channel_id_txnum s"] unsigned_less [of "short_channel_id_outnum s"]
    by (simp add: short_channel_id_to_str_def)
  then show ?thesis using parts_mk [of s] by (simp add: short_channel_id_from_str_def)
qed

lemma scidd_from_to_str:
  assumes "scid_dir d \<in> {0, 1}"
  shows "short_channel_id_dir_from_str (short_channel_id_dir_to_str d) = Some (Some d)"
proof -
  have "c \<noteq> CHR ''/''" if "c \<in> set (short_channel_id_to_str (scid d))" for c
    using that not_dec by (auto simp: short_channel_id_to_str_def)
  then have t: "takeWhile (\<lambda>c. c \<noteq> CHR ''/'') (short_channel_id_to_str (scid d) @ CHR ''/'' # r) = short_channel_id_to_str (scid d)"
    "dropWhile (\<lambda>c. c \<noteq> CHR ''/'') (short_channel_id_to_str (scid d) @ CHR ''/'' # r) = CHR ''/'' # r" for r
    by (simp_all add: takeWhile_append2 dropWhile_append2)
  have e: "dec_of_nat (nat (scid_dir d mod 2 ^ 32)) = (if scid_dir d = 0 then ''0'' else ''1'')"
  proof -
    have "digit_char 0 = CHR ''0''" "digit_char (Suc 0) = CHR ''1''" by code_simp+
    then show ?thesis using assms by (auto simp: dec_of_nat_small)
  qed
  show ?thesis
    unfolding short_channel_id_dir_from_str_def short_channel_id_dir_to_str_def e
    using assms scid_from_to_str [of "[]" "scid d"] t by (cases d) (auto simp: Let_def)
qed

lemma fromwire_u64_towire: "fromwire_u64 (Some (towire_u64 [] v @ r)) = (v, Some r)"
  by (simp add: fromwire_u64_def towire_u64_def towire_def fromwire_def be_value_bytes8)

lemma get_set_short_channel_id: "tlvstream_get_short_channel_id (tlvstream_set_short_channel_id stream ty s) ty = Some s"
  using get_set_raw [of stream ty "towire_short_channel_id [] s"] fromwire_u64_towire [of s "[]"]
  by (auto simp: tlvstream_get_short_channel_id_def tlvstream_set_short_channel_id_def towire_short_channel_id_def
      fromwire_short_channel_id_def towire_u64_def towire_def)

end
