(* ===== verification/Fp16.thy ===== *)
theory Fp16
  imports Intmap Amount
begin

text \<open>
  \<open>common/fp16.c\<close>: numbers of 16 bits with an exponent of 5 bits and a mantissa of 11, which approximate 64 bits from below or from above.
\<close>

unbundle bit_operations_syntax

type_synonym fp16_t = u16

definition fp16_to_u64 :: "fp16_t \<Rightarrow> u64" where
  "fp16_to_u64 v = push_bit (unat (drop_bit 11 v)) (ucast v AND (2 ^ 11 - 1))"

text \<open>The mantissa and the exponent, when the number needs more than 11 bits.\<close>

definition fp16_round :: "u64 \<Rightarrow> bool \<Rightarrow> nat \<Rightarrow> nat \<times> u16" where
  "fp16_round val round_up exponent =
     (let mantissa = (ucast (drop_bit exponent val) :: u16);
          (exponent, mantissa) =
            (if round_up \<and> val AND (push_bit exponent 1 - 1) \<noteq> 0
             then (if mantissa + 1 = 2048 then (exponent + 1, drop_bit 1 (mantissa + 1)) else (exponent, mantissa + 1))
             else (exponent, mantissa))
      in if exponent \<ge> 32 then (31, 2047) else (exponent, mantissa))"

definition u64_to_fp16 :: "u64 \<Rightarrow> bool \<Rightarrow> fp16_t run" where
  "u64_to_fp16 val round_up =
     (if val = 0 then Some 0
      else do {
        let mantissa_bits = bitops_hs64 val + 1;
        let (exponent, mantissa) = (if mantissa_bits > 11 then fp16_round val round_up (mantissa_bits - 11) else (0, ucast val));
        c_assert (drop_bit 11 mantissa = 0);
        Some (push_bit 11 (of_nat exponent) OR mantissa) })"

definition amount_msat_less_fp16 :: "amount_msat \<Rightarrow> fp16_t \<Rightarrow> bool" where
  "amount_msat_less_fp16 amt fp \<longleftrightarrow> millisatoshis amt < fp16_to_u64 fp"

definition amount_msat_greater_fp16 :: "amount_msat \<Rightarrow> fp16_t \<Rightarrow> bool" where
  "amount_msat_greater_fp16 amt fp \<longleftrightarrow> millisatoshis amt > fp16_to_u64 fp"

subsection \<open>Values\<close>

lemma hs64_bounds:
  assumes "v \<noteq> 0"
  shows "2 ^ bitops_hs64 v \<le> unat v" "unat v < 2 ^ (bitops_hs64 v + 1)"
proof -
  note h = bitops_hs64_props [OF assms]
  have le: "n \<le> bitops_hs64 v" if "bit v n" for n using h(3) that by (meson not_le)
  have "take_bit (bitops_hs64 v + 1) v = v" by (rule bit_word_eqI) (auto simp: bit_take_bit_iff less_Suc_eq_le dest: le)
  then have "take_bit (bitops_hs64 v + 1) (unat v) = unat v" by (metis unsigned_take_bit_eq)
  then show "unat v < 2 ^ (bitops_hs64 v + 1)" by (simp only: take_bit_nat_eq_self_iff)
  have "bit (unat v) (bitops_hs64 v)" using h(1,2) by (simp add: bit_unsigned_iff)
  then have "odd (unat v div 2 ^ bitops_hs64 v)" by (simp add: bit_iff_odd)
  then have "unat v div 2 ^ bitops_hs64 v \<noteq> 0" by (metis even_zero)
  then show "2 ^ bitops_hs64 v \<le> unat v" by (simp add: div_eq_0_iff)
qed

text \<open>An encoding of a mantissa and an exponent in their ranges.\<close>

lemma fp16_decode:
  assumes "unat (m :: u16) < 2 ^ 11" "e < 32"
  shows "drop_bit 11 m = 0" "unat (fp16_to_u64 (push_bit 11 (of_nat e) OR m)) = unat m * 2 ^ e"
proof -
  have hm: "\<not> bit m i" if "11 \<le> i" for i by (rule word_high_bits [OF assms(1) that])
  show "drop_bit 11 m = 0" by (rule bit_word_eqI) (simp add: bit_drop_bit_eq hm)
  have he: "\<not> bit (of_nat e :: u16) i" if "5 \<le> i" for i
    by (rule word_high_bits [OF _ that]) (use assms(2) in \<open>simp add: unat_of_nat\<close>)
  have le: "i < 5" if "bit (of_nat e :: u16) i" for i using he that by (meson not_le)
  have "drop_bit 11 (push_bit 11 (of_nat e) OR m) = (of_nat e :: u16)"
    by (rule bit_word_eqI) (use hm in \<open>auto simp: bit_or_iff bit_push_bit_iff bit_drop_bit_eq simp del: bit_of_nat_iff_bit dest: le\<close>)
  moreover have "(ucast (push_bit 11 (of_nat e) OR m) :: u64) AND (2 ^ 11 - 1) = ucast m"
  proof -
    have mask: "(2 ^ 11 - 1 :: u64) = mask 11" by (simp add: mask_eq_exp_minus_1)
    have "i < 11" if "bit m i" for i using hm that by (meson not_le)
    then show ?thesis unfolding mask by (intro bit_word_eqI) (auto simp: bit_and_iff bit_or_iff bit_unsigned_iff bit_push_bit_iff bit_mask_iff)
  qed
  moreover have "unat (of_nat e :: u16) = e" using assms(2) by (simp add: unat_of_nat)
  ultimately have "fp16_to_u64 (push_bit 11 (of_nat e) OR m) = push_bit e (ucast m)" by (simp only: fp16_to_u64_def)
  moreover have "unat (push_bit e (ucast m) :: u64) = unat m * 2 ^ e"
  proof -
    have "unat m * 2 ^ e < 2 ^ 11 * 2 ^ e" using assms(1) by simp
    also have "(2 :: nat) ^ 11 * 2 ^ e \<le> 2 ^ 11 * 2 ^ 31" using assms(2) by (intro mult_le_mono2 power_increasing) simp_all
    finally have "unat m * 2 ^ e < 2 ^ 64" by simp
    moreover have "unat (ucast m :: u64) = unat m" by (simp add: unsigned_ucast_eq take_bit_nat_eq_self order_less_trans [OF assms(1)])
    ultimately show ?thesis unfolding unsigned_push_bit_eq by (simp add: push_bit_eq_mult take_bit_nat_eq_self)
  qed
  ultimately show "unat (fp16_to_u64 (push_bit 11 (of_nat e) OR m)) = unat m * 2 ^ e" by simp
qed

definition FP16_MAX :: nat where
  "FP16_MAX = 2047 * 2 ^ 31"

lemma fp16_exponent:
  assumes "v \<noteq> 0" "bitops_hs64 v + 1 > 11"
  defines "e \<equiv> bitops_hs64 v + 1 - 11"
  shows "1024 \<le> unat v div 2 ^ e" "unat v div 2 ^ e < 2048" "unat (ucast (drop_bit e v) :: u16) = unat v div 2 ^ e"
    "v AND (push_bit e 1 - 1) \<noteq> 0 \<longleftrightarrow> unat v mod 2 ^ e \<noteq> 0"
proof -
  have h: "bitops_hs64 v = 10 + e" "e < 64" using assms(2) bitops_hs64_props(1) [OF assms(1)] by (simp_all add: e_def)
  have b: "1024 * 2 ^ e \<le> unat v" "unat v < 2048 * 2 ^ e" using hs64_bounds [OF assms(1)] by (simp_all add: h power_add)
  then show lo: "1024 \<le> unat v div 2 ^ e" by (simp add: less_eq_div_iff_mult_less_eq)
  show hi: "unat v div 2 ^ e < 2048" using b by (simp add: div_less_iff_less_mult)
  show "unat (ucast (drop_bit e v) :: u16) = unat v div 2 ^ e"
    using hi unat_drop_bit [of e v] by (simp add: unsigned_ucast_eq take_bit_nat_eq_self)
  have "push_bit e 1 - 1 = (mask e :: u64)" by (simp add: mask_eq_exp_minus_1)
  then have "v AND (push_bit e 1 - 1) = take_bit e v" by (simp add: take_bit_eq_mask)
  moreover have "unat (take_bit e v) = unat v mod 2 ^ e" unfolding unsigned_take_bit_eq by (rule take_bit_eq_mod)
  ultimately show "v AND (push_bit e 1 - 1) \<noteq> 0 \<longleftrightarrow> unat v mod 2 ^ e \<noteq> 0" by (metis unat_eq_zero unsigned_0)
qed

text \<open>The mantissa and the exponent are in their ranges, with this value.\<close>

definition rounded :: "nat \<Rightarrow> bool \<Rightarrow> nat \<Rightarrow> nat" where
  "rounded n up e = min FP16_MAX ((if up \<and> n mod 2 ^ e \<noteq> 0 then n div 2 ^ e + 1 else n div 2 ^ e) * 2 ^ e)"

lemma rounded_range:
  assumes "1024 \<le> q" "q \<le> 2047"
  shows "min FP16_MAX (q * 2 ^ e) = (if 32 \<le> e then 2047 * 2 ^ 31 else q * 2 ^ e)"
proof (cases "32 \<le> e")
  case True
  have "(1024 :: nat) * 2 ^ 32 \<le> q * 2 ^ e" using assms(1) True by (intro mult_le_mono power_increasing) simp_all
  moreover have "(2047 :: nat) * 2 ^ 31 \<le> 1024 * 2 ^ 32" by simp
  ultimately show ?thesis using True unfolding FP16_MAX_def by (simp only: min_def if_True) (meson order_trans)
next
  case False
  have "q * 2 ^ e \<le> 2047 * 2 ^ 31" using assms(2) False by (intro mult_le_mono power_increasing) simp_all
  then show ?thesis using False unfolding FP16_MAX_def by (simp only: min_def if_False) (meson antisym)
qed

lemma fp16_round_value:
  assumes "v \<noteq> 0" "bitops_hs64 v + 1 > 11" "fp16_round v up (bitops_hs64 v + 1 - 11) = (e', m)"
  shows "e' < 32 \<and> unat m < 2 ^ 11 \<and> unat m * 2 ^ e' = rounded (unat v) up (bitops_hs64 v + 1 - 11)"
proof -
  define e where "e = bitops_hs64 v + 1 - 11"
  define q where "q = unat v div 2 ^ e"
  define k where "k = (ucast (drop_bit e v) :: u16)"
  note x = fp16_exponent [OF assms(1,2), folded e_def, folded q_def k_def]
  note r = assms(3) [folded e_def, unfolded fp16_round_def, folded k_def, unfolded x(4)]
  have u: "unat (k + 1) = q + 1" using x(2,3) by (simp add: unat_word_ariths)
  then have c: "k + 1 = 2048 \<longleftrightarrow> q = 2047" by (auto simp: word_unat_eq_iff)
  consider (carry) "up" "unat v mod 2 ^ e \<noteq> 0" "q = 2047" | (up) "up" "unat v mod 2 ^ e \<noteq> 0" "q \<noteq> 2047" | (down) "\<not> (up \<and> unat v mod 2 ^ e \<noteq> 0)" by blast
  then have "e' < 32 \<and> unat m < 2 ^ 11 \<and> unat m * 2 ^ e' = rounded (unat v) up e"
  proof cases
    case carry
    then have "k + 1 = 2048" using c by simp
    then have m: "(e', m) = (if 32 \<le> e + 1 then (31, 2047) else (e + 1, 1024))" using r carry by (simp add: Let_def split: if_splits)
    have "(q + 1) * 2 ^ e = 1024 * 2 ^ (e + 1)" using carry by simp
    then have "rounded (unat v) up e = min FP16_MAX (1024 * 2 ^ (e + 1))" using carry by (simp add: rounded_def q_def)
    then show ?thesis using m rounded_range [of 1024 "e + 1"] by (simp split: if_splits)
  next
    case up
    then have m: "(e', m) = (if 32 \<le> e then (31, 2047) else (e, k + 1))" using r c by (simp add: Let_def split: if_splits)
    have "rounded (unat v) up e = min FP16_MAX ((q + 1) * 2 ^ e)" using up by (simp add: rounded_def q_def)
    then show ?thesis using m u x(1,2) up rounded_range [of "q + 1" e] by (simp split: if_splits)
  next
    case down
    then have m: "(e', m) = (if 32 \<le> e then (31, 2047) else (e, k))" using r by (auto simp: Let_def split: if_splits)
    have "rounded (unat v) up e = min FP16_MAX (q * 2 ^ e)" using down by (auto simp: rounded_def q_def)
    then show ?thesis using m x(1,2,3) rounded_range [of q e] by (simp split: if_splits)
  qed
  then show ?thesis unfolding e_def .
qed

lemma u64_to_fp16_value:
  "\<exists>f. u64_to_fp16 v up = Some f \<and>
    unat (fp16_to_u64 f) = (if v \<noteq> 0 \<and> bitops_hs64 v + 1 > 11 then rounded (unat v) up (bitops_hs64 v + 1 - 11) else unat v)"
proof -
  consider "v = 0" | "v \<noteq> 0" "bitops_hs64 v + 1 > 11" | "v \<noteq> 0" "\<not> bitops_hs64 v + 1 > 11" by blast
  then show ?thesis
  proof cases
    case 1
    then show ?thesis by (simp add: u64_to_fp16_def fp16_to_u64_def)
  next
    case 2
    obtain e m where r: "fp16_round v up (bitops_hs64 v + 1 - 11) = (e, m)" by (cases "fp16_round v up (bitops_hs64 v + 1 - 11)")
    note f = fp16_round_value [OF 2 r]
    then show ?thesis using 2 r fp16_decode [of m e] by (simp add: u64_to_fp16_def c_assert_def)
  next
    case 3
    have "unat v < 2 ^ (bitops_hs64 v + 1)" by (rule hs64_bounds(2) [OF 3(1)])
    also have "\<dots> \<le> 2 ^ 11" using 3(2) by (intro power_increasing) simp_all
    finally have v: "unat v < 2 ^ 11" .
    then have u: "unat (ucast v :: u16) = unat v" by (simp add: unsigned_ucast_eq take_bit_nat_eq_self)
    then show ?thesis using 3 v fp16_decode [of "ucast v" 0] by (simp add: u64_to_fp16_def c_assert_def)
  qed
qed

text \<open>The approximation is on the asked side, within a part in 1024, and saturates.\<close>

lemma rounded_saturates:
  assumes "1024 * 2 ^ e \<le> n" "FP16_MAX < n" "n < 2048 * 2 ^ e"
  shows "rounded n up e = FP16_MAX"
proof -
  have e: "31 \<le> e"
  proof (rule ccontr)
    assume "\<not> 31 \<le> e"
    then have "(2048 :: nat) * 2 ^ e \<le> 2048 * 2 ^ 30" by (intro mult_le_mono power_increasing) simp_all
    then show False using assms(2,3) by (simp add: FP16_MAX_def)
  qed
  have "FP16_MAX \<le> n div 2 ^ e * 2 ^ e"
  proof (cases "e = 31")
    case True
    have "2047 \<le> n div 2 ^ 31" using assms(2) by (simp add: FP16_MAX_def less_eq_div_iff_mult_less_eq)
    then have "2047 * 2 ^ 31 \<le> n div 2 ^ 31 * 2 ^ 31" by (intro mult_le_mono1)
    then show ?thesis unfolding True FP16_MAX_def .
  next
    case False
    have "1024 \<le> n div 2 ^ e" using assms(1) by (simp add: less_eq_div_iff_mult_less_eq)
    then have "(1024 :: nat) * 2 ^ 32 \<le> n div 2 ^ e * 2 ^ e" using e False by (intro mult_le_mono power_increasing) simp_all
    moreover have "FP16_MAX \<le> 1024 * 2 ^ 32" by (simp add: FP16_MAX_def)
    ultimately show ?thesis by (meson order_trans)
  qed
  moreover have "n div 2 ^ e * 2 ^ e \<le> (n div 2 ^ e + 1) * 2 ^ e" by (intro mult_le_mono1) simp
  ultimately show ?thesis unfolding rounded_def by (simp only: min_absorb1 split: if_split) (meson min_absorb1 order_trans)
qed

lemma rounded_down:
  assumes "1024 * 2 ^ e \<le> n" "n \<le> FP16_MAX"
  shows "rounded n False e \<le> n \<and> 1024 * (n - rounded n False e) \<le> n"
proof -
  have d: "n = n div 2 ^ e * 2 ^ e + n mod 2 ^ e" by (rule div_mult_mod_eq [symmetric])
  have "1024 * (n mod 2 ^ e) \<le> 1024 * 2 ^ e" by (intro mult_le_mono2 less_imp_le) simp
  moreover have "rounded n False e = n div 2 ^ e * 2 ^ e" using d assms(2) unfolding rounded_def by (simp add: min_absorb2)
  moreover have "n - n div 2 ^ e * 2 ^ e = n mod 2 ^ e" by (simp add: minus_div_mult_eq_mod)
  ultimately show ?thesis using assms(1) by (simp only: div_times_less_eq_dividend simp_thms)
qed

lemma rounded_up:
  assumes "1024 * 2 ^ e \<le> n" "n \<le> FP16_MAX"
  shows "n \<le> rounded n True e \<and> 1024 * (rounded n True e - n) \<le> n"
proof -
  define x where "x = (if n mod 2 ^ e \<noteq> 0 then n div 2 ^ e + 1 else n div 2 ^ e) * 2 ^ e"
  have d: "n = n div 2 ^ e * 2 ^ e + n mod 2 ^ e" by (rule div_mult_mod_eq [symmetric])
  moreover have "n mod 2 ^ e < 2 ^ e" by simp
  moreover have "(n div 2 ^ e + 1) * 2 ^ e = n div 2 ^ e * 2 ^ e + 2 ^ e" by simp
  ultimately have "n \<le> x" "x - n \<le> 2 ^ e" unfolding x_def by (cases "n mod 2 ^ e = 0"; simp only: if_True if_False not_False_eq_True simp_thms; linarith)+
  moreover have "rounded n True e = min FP16_MAX x" by (simp add: rounded_def x_def)
  ultimately show ?thesis using assms by auto
qed

lemma fp16_approximates:
  "\<exists>f. u64_to_fp16 v up = Some f \<and>
    (if FP16_MAX < unat v then unat (fp16_to_u64 f) = FP16_MAX
     else if up then v \<le> fp16_to_u64 f \<and> 1024 * (unat (fp16_to_u64 f) - unat v) \<le> unat v
     else fp16_to_u64 f \<le> v \<and> 1024 * (unat v - unat (fp16_to_u64 f)) \<le> unat v)"
proof (cases "v \<noteq> 0 \<and> bitops_hs64 v + 1 > 11")
  case True
  define e where "e = bitops_hs64 v + 1 - 11"
  have h: "bitops_hs64 v = 10 + e" using True by (simp add: e_def)
  have b: "1024 * 2 ^ e \<le> unat v" "unat v < 2048 * 2 ^ e" using hs64_bounds [of v] True by (simp_all add: h power_add)
  obtain f where f: "u64_to_fp16 v up = Some f" "unat (fp16_to_u64 f) = rounded (unat v) up e"
    using u64_to_fp16_value [of v up] True by (auto simp: e_def)
  show ?thesis using f rounded_saturates [OF b(1) _ b(2)] rounded_up [OF b(1)] rounded_down [OF b(1)] by (cases up) (auto simp: word_le_nat_alt)
next
  case False
  have "unat v < 2048"
  proof (cases "v = 0")
    case v: False
    have "unat v < 2 ^ (bitops_hs64 v + 1)" by (rule hs64_bounds(2) [OF v])
    also have "\<dots> \<le> 2 ^ 11" using False v by (intro power_increasing) simp_all
    finally show ?thesis by simp
  qed simp
  then show ?thesis using u64_to_fp16_value [of v up] False by (auto simp: FP16_MAX_def word_le_nat_alt)
qed

end
