(* ===== verification/Plugin_Util.thy ===== *)
theory Plugin_Util
  imports Libplugin
begin

text \<open>
  Parts of \<open>plugins/libplugin.c\<close> and \<open>common/json.c\<close> that the library offers to plugins: the readers of options, results that are passed on
  unchanged, progress notifications, signed numbers and the comparison of tokens. A problem of an option is the text of the
  error, on the left.
\<close>

definition LLONG_MAX :: int where "LLONG_MAX = 2 ^ 63 - 1"
definition LLONG_MIN :: int where "LLONG_MIN = - (2 ^ 63)"

text \<open>\<open>strtoll(nptr, &end, 0)\<close> and \<open>strtol\<close>, which has the same width: the value, whether \<open>errno\<close> becomes \<open>ERANGE\<close>, and \<open>end - nptr\<close>.\<close>

definition strtoll :: "string \<Rightarrow> (int \<times> bool \<times> nat) run" where
  "strtoll cs = do {
     let ws = length (takeWhile c_isspace cs);
     (neg, sg) \<leftarrow> scan_sign (drop ws cs);
     (v, n) \<leftarrow> scan_magnitude (drop (ws + sg) cs);
     let l = (if neg then - int v else int v);
     Some (if n = 0 then (0, False, 0)
           else if l > LLONG_MAX then (LLONG_MAX, True, ws + sg + n)
           else if l < LLONG_MIN then (LLONG_MIN, True, ws + sg + n)
           else (l, False, ws + sg + n)) }"

definition json_to_s64 :: "bool \<Rightarrow> string \<Rightarrow> jsmntok \<Rightarrow> int option run" where
  "json_to_s64 erange buf tok = do {
     c_assert (0 \<le> tok_start tok \<and> tok_start tok \<le> int (length buf));
     (l, range, n) \<leftarrow> strtoll (drop (nat (tok_start tok)) buf);
     if tok_start tok + int n \<noteq> tok_end tok then Some None
     else if (l = LLONG_MAX \<or> l = LLONG_MIN) \<and> (range \<or> erange) then Some None
     else Some (Some l) }"

text \<open>The conversion to 32 bits and the test that nothing is lost.\<close>

definition json_to_int :: "bool \<Rightarrow> string \<Rightarrow> jsmntok \<Rightarrow> int option run" where
  "json_to_int erange buf tok = do {
     r \<leftarrow> json_to_s64 erange buf tok;
     case r of None \<Rightarrow> Some None
     | Some tmp \<Rightarrow> let num = sint (of_int tmp :: u32) in if num \<noteq> tmp then Some None else Some (Some num) }"

definition json_to_errcode :: "bool \<Rightarrow> string \<Rightarrow> jsmntok \<Rightarrow> int option run" where
  "json_to_errcode erange buf tok = do {
     r \<leftarrow> json_to_s64 erange buf tok;
     case r of None \<Rightarrow> Some None
     | Some tmp \<Rightarrow> let errcode = sint (of_int tmp :: u32) in if errcode \<noteq> tmp then Some None else Some (Some errcode) }"

definition json_tok_startswith :: "string \<Rightarrow> jsmntok \<Rightarrow> string \<Rightarrow> bool run" where
  "json_tok_startswith buffer tok pre =
     (if tok_type tok \<noteq> JSMN_STRING then Some False
      else if tok_end tok - tok_start tok < int (length pre) then Some False
      else do { s \<leftarrow> slice buffer (tok_start tok) (tok_start tok + int (length pre)); Some (s = pre) })"

definition json_tok_endswith :: "string \<Rightarrow> jsmntok \<Rightarrow> string \<Rightarrow> bool run" where
  "json_tok_endswith buffer tok post =
     (if tok_type tok \<noteq> JSMN_STRING then Some False
      else if tok_end tok - tok_start tok < int (length post) then Some False
      else do { s \<leftarrow> slice buffer (tok_end tok - int (length post)) (tok_end tok); Some (s = post) })"

subsection \<open>Options\<close>

definition quote_arg :: "string \<Rightarrow> string" where
  "quote_arg arg = [CHR 0x27] @ arg @ [CHR 0x27]"

definition u64_option :: "string \<Rightarrow> (string + u64) run" where
  "u64_option arg = do {
     (l, range, n) \<leftarrow> strtoll (arg @ [NUL]);
     Some (if n < length arg \<or> arg = [] then Inl (quote_arg arg @ '' is not a number'')
           else if range then Inl (quote_arg arg @ '' is out of range'')
           else Inr (of_int l)) }"

text \<open>The other two read an \<open>unsigned long\<close> and test that the narrower integer is equal.\<close>

definition narrow_option :: "(u64 \<Rightarrow> 'a :: len word) \<Rightarrow> string \<Rightarrow> (string + 'a word) run" where
  "narrow_option narrow arg = do {
     (n, range, e) \<leftarrow> strtoull (arg @ [NUL]);
     Some (if e < length arg \<or> arg = [] then Inl (quote_arg arg @ '' is not a number'')
           else if range then Inl (quote_arg arg @ '' is out of range'')
           else if unat (narrow n) \<noteq> unat n then Inl (quote_arg arg @ '' is too large (overflow)'')
           else Inr (narrow n)) }"

definition u32_option :: "string \<Rightarrow> (string + u32) run" where
  "u32_option arg = narrow_option ucast arg"

definition u16_option :: "string \<Rightarrow> (string + u16) run" where
  "u16_option arg = narrow_option ucast arg"

definition bool_option :: "string \<Rightarrow> string + bool" where
  "bool_option arg =
     (if arg \<noteq> ''true'' \<and> arg \<noteq> ''false'' then Inl (quote_arg arg @ '' is not a bool, must be '' @ [QUOTE] @ ''true'' @ [QUOTE] @ '' or '' @ [QUOTE] @ ''false'' @ [QUOTE])
      else Inr (arg = ''true''))"

definition charp_option :: "string \<Rightarrow> string + string" where
  "charp_option arg = Inr arg"

subsection \<open>Replies passed on, and progress\<close>

definition command_done_raw :: "'r plugin \<Rightarrow> command \<Rightarrow> string \<Rightarrow> string \<Rightarrow> (command_result \<times> 'r plugin) run" where
  "command_done_raw p cmd label str = do {
     js \<leftarrow> jsonrpc_stream_start cmd;
     command_complete p cmd (json_out_member_direct js (Some label) str) }"

definition command_err_raw :: "'r plugin \<Rightarrow> command \<Rightarrow> string \<Rightarrow> (command_result \<times> 'r plugin) run" where
  "command_err_raw p cmd json_str = command_done_raw p cmd ''error'' json_str"

definition forward_error :: "'r plugin \<Rightarrow> command \<Rightarrow> string \<Rightarrow> tokptr \<Rightarrow> (command_result \<times> 'r plugin) run" where
  "forward_error p cmd buf err = do {
     t \<leftarrow> deref err;
     s \<leftarrow> slice buf (tok_start t) (tok_end t);
     command_done_raw p cmd ''error'' s }"

definition forward_result :: "'r plugin \<Rightarrow> command \<Rightarrow> string \<Rightarrow> tokptr \<Rightarrow> (command_result \<times> 'r plugin) run" where
  "forward_result p cmd buf result = do {
     t \<leftarrow> deref result;
     s \<leftarrow> slice buf (tok_start t) (tok_end t);
     command_done_raw p cmd ''result'' s }"

definition log_level_name :: "log_level \<Rightarrow> string" where
  "log_level_name l = (case l of LOG_IO_OUT \<Rightarrow> ''io'' | LOG_IO_IN \<Rightarrow> ''io'' | LOG_DBG \<Rightarrow> ''debug'' | LOG_INFORM \<Rightarrow> ''info''
     | LOG_UNUSUAL \<Rightarrow> ''unusual'' | LOG_BROKEN \<Rightarrow> ''broken'')"

definition plugin_notify_start :: "command \<Rightarrow> string \<Rightarrow> json_stream run" where
  "plugin_notify_start cmd meth = do {
     js \<leftarrow> json_object_start new_json_stream None;
     let js = json_add_string js (Some ''jsonrpc'') ''2.0'';
     let js = json_add_string js (Some ''method'') meth;
     js \<leftarrow> json_object_start js (Some ''params'');
     cid \<leftarrow> cmd_id cmd;
     Some (json_add_u64 js (Some ''id'') cid) }"

definition plugin_notify_end :: "'r plugin \<Rightarrow> json_stream \<Rightarrow> 'r plugin run" where
  "plugin_notify_end p js = do {
     js \<leftarrow> json_object_end js;
     jsonrpc_finish_and_send p js }"

text \<open>After formatting the message.\<close>

definition plugin_notify_message :: "'r plugin \<Rightarrow> command \<Rightarrow> log_level \<Rightarrow> string \<Rightarrow> 'r plugin run" where
  "plugin_notify_message p cmd level msg = do {
     p \<leftarrow> plugin_log p LOG_DBG (''notify msg '' @ log_level_name level @ '': '' @ msg);
     js \<leftarrow> plugin_notify_start cmd ''message'';
     let js = json_add_string js (Some ''level'') (log_level_name level);
     let js = json_out_addstr js (Some ''message'') msg;
     plugin_notify_end p js }"

definition plugin_notify_progress :: "'r plugin \<Rightarrow> command \<Rightarrow> u32 \<Rightarrow> u32 \<Rightarrow> u32 \<Rightarrow> u32 \<Rightarrow> 'r plugin run" where
  "plugin_notify_progress p cmd num_stages stage num_progress progress = do {
     js \<leftarrow> plugin_notify_start cmd ''progress'';
     c_assert (progress < num_progress);
     let js = json_add_u32 js (Some ''num'') progress;
     let js = json_add_u32 js (Some ''total'') num_progress;
     js \<leftarrow> (if num_stages > 0 then do {
         c_assert (stage < num_stages);
         js \<leftarrow> json_object_start js (Some ''stage'');
         let js = json_add_u32 js (Some ''num'') stage;
         let js = json_add_u32 js (Some ''total'') num_stages;
         json_object_end js }
       else Some js);
     plugin_notify_end p js }"

subsection \<open>What the options read\<close>

lemma dec_start:
  "takeWhile c_isspace (dec_of_nat n @ b) = []" "scan_sign (dec_of_nat n @ b) = Some (False, 0)"
proof -
  obtain c cs where d: "dec_of_nat n = c # cs" by (cases "dec_of_nat n") auto
  then have "cisdigit c" using dec_of_nat_digits [of c n] by simp
  note c = cisdigit_not_stop [OF this]
  then show "takeWhile c_isspace (dec_of_nat n @ b) = []" "scan_sign (dec_of_nat n @ b) = Some (False, 0)"
    by (simp_all add: d scan_sign_def)
qed

lemma scan_magnitude_dec_NUL: "scan_magnitude (dec_of_nat n @ [NUL]) = Some (n, length (dec_of_nat n))"
  by (rule scan_magnitude_dec_Cons) (simp add: digit_val_def)

text \<open>Numbers from \<open>2 ^ 63\<close> on are refused, and a negative number is taken modulo \<open>2 ^ 64\<close>: \<open>u64_option\<close> reads a signed number.\<close>

lemma u64_option_dec:
  "u64_option (dec_of_nat n) = Some (if n < 2 ^ 63 then Inr (of_nat n) else Inl (quote_arg (dec_of_nat n) @ '' is out of range''))"
proof -
  have "strtoll (dec_of_nat n @ [NUL]) =
      Some (if n < 2 ^ 63 then (int n, False, length (dec_of_nat n)) else (LLONG_MAX, True, length (dec_of_nat n)))"
    using scan_magnitude_dec_NUL [of n] by (auto simp: strtoll_def dec_start Let_def LLONG_MAX_def LLONG_MIN_def)
  then show ?thesis by (simp add: u64_option_def)
qed

lemma u64_option_negative:
  assumes "0 < n" "n \<le> 2 ^ 63"
  shows "u64_option (CHR ''-'' # dec_of_nat n) = Some (Inr (- of_nat n))"
proof -
  have "strtoll (CHR ''-'' # dec_of_nat n @ [NUL]) = Some (- int n, False, Suc (length (dec_of_nat n)))"
    using scan_magnitude_dec_NUL [of n] assms by (auto simp: strtoll_def scan_sign_def c_isspace_def Let_def LLONG_MAX_def LLONG_MIN_def)
  then show ?thesis by (simp add: u64_option_def)
qed

lemma narrow_option_dec:
  assumes "\<And>v. unat (narrow v) = unat v \<longleftrightarrow> unat v < 2 ^ k" "k \<le> 64"
  shows "narrow_option narrow (dec_of_nat n) =
    Some (if n < 2 ^ k then Inr (narrow (of_nat n))
          else Inl (quote_arg (dec_of_nat n) @ (if n < 2 ^ 64 then '' is too large (overflow)'' else '' is out of range'')))"
proof -
  have s: "strtoull (dec_of_nat n @ [NUL]) =
      Some (if n < 2 ^ 64 then (of_nat n, False, length (dec_of_nat n)) else (of_nat ULLONG_MAX, True, length (dec_of_nat n)))"
    using scan_magnitude_dec_NUL [of n] by (auto simp: strtoull_def dec_start Let_def ULLONG_MAX_def)
  have "(2 :: nat) ^ k \<le> 2 ^ 64" using assms(2) by (intro power_increasing) simp_all
  moreover have "unat (of_nat n :: u64) = n" if "n < 2 ^ 64" using that by (simp add: unat_of_nat)
  ultimately show ?thesis using assms(1) [of "of_nat n"] unfolding narrow_option_def s by (cases "n < 2 ^ 64") auto
qed

lemma unat_ucast_eq: "unat (ucast (v :: u64) :: 'a :: len word) = unat v \<longleftrightarrow> unat v < 2 ^ LENGTH('a)"
  by (simp add: unsigned_ucast_eq take_bit_nat_eq_self_iff)

lemma u32_option_dec:
  "u32_option (dec_of_nat n) = Some (if n < 2 ^ 32 then Inr (of_nat n)
     else Inl (quote_arg (dec_of_nat n) @ (if n < 2 ^ 64 then '' is too large (overflow)'' else '' is out of range'')))"
proof -
  have "(ucast (of_nat n :: u64) :: u32) = of_nat n" if "n < 2 ^ 32" using that by (simp add: word_unat_eq_iff unsigned_ucast_eq unat_of_nat take_bit_nat_eq_self)
  then show ?thesis using narrow_option_dec [of "ucast :: u64 \<Rightarrow> u32" 32 n] unat_ucast_eq [where 'a = 32] by (simp add: u32_option_def)
qed

lemma u16_option_dec:
  "u16_option (dec_of_nat n) = Some (if n < 2 ^ 16 then Inr (of_nat n)
     else Inl (quote_arg (dec_of_nat n) @ (if n < 2 ^ 64 then '' is too large (overflow)'' else '' is out of range'')))"
proof -
  have "(ucast (of_nat n :: u64) :: u16) = of_nat n" if "n < 2 ^ 16" using that by (simp add: word_unat_eq_iff unsigned_ucast_eq unat_of_nat take_bit_nat_eq_self)
  then show ?thesis using narrow_option_dec [of "ucast :: u64 \<Rightarrow> u16" 16 n] unat_ucast_eq [where 'a = 16] by (simp add: u16_option_def)
qed

subsection \<open>What is sent\<close>

lemma command_done_raw_reply:
  assumes "cmd_id cmd = Some rid"
  shows "command_done_raw p cmd label (text_of c) = Some (COMPLETE, p\<lparr>js_arr := js_arr p @ [reply rid (label, c)]\<rparr>)"
  using command_complete_reply [of p cmd rid "(label, c)"]
  by (simp add: command_done_raw_def jsonrpc_stream_start_eq [OF assms] add_value_def [symmetric] add_value_members)

text \<open>A result is passed on as it is, but the token of a string excludes its quotes, so a string is sent as a bare word.\<close>

definition unquoted :: "cst \<Rightarrow> cst" where
  "unquoted c = (case c of CStr s \<Rightarrow> CPrim s | _ \<Rightarrow> c)"

lemma slice_token: "denotes buf (t # ts) c \<Longrightarrow> slice buf (tok_start t) (tok_end t) = Some (text_of (unquoted c))"
proof (cases c)
  case (CStr s)
  assume "denotes buf (t # ts) c"
  then show ?thesis using denotes_string CStr by (simp add: unquoted_def)
next
  case (CPrim s)
  assume "denotes buf (t # ts) c"
  then show ?thesis using denotes_prim CPrim by (simp add: unquoted_def)
qed (use denotes_full_text [of buf t ts c] denotes_type [of buf t ts c] in \<open>auto simp: unquoted_def full_text_def json_tok_full_def json_tok_full_len_def\<close>)

lemma forward_result_reply:
  assumes "cmd_id cmd = Some rid" "denotes buf ts c"
  shows "forward_result p cmd buf ts = Some (COMPLETE, p\<lparr>js_arr := js_arr p @ [reply rid (''result'', unquoted c)]\<rparr>)"
proof -
  obtain t us where ts: "ts = t # us" using denotes_deref [OF assms(2)] by blast
  show ?thesis using slice_token [of buf t us c] assms(2) by (simp add: ts forward_result_def command_done_raw_reply [OF assms(1)])
qed

lemma forward_error_reply:
  assumes "cmd_id cmd = Some rid" "denotes buf ts c"
  shows "forward_error p cmd buf ts = Some (COMPLETE, p\<lparr>js_arr := js_arr p @ [reply rid (''error'', unquoted c)]\<rparr>)"
proof -
  obtain t us where ts: "ts = t # us" using denotes_deref [OF assms(2)] by blast
  show ?thesis using slice_token [of buf t us c] assms(2) by (simp add: ts forward_error_def command_done_raw_reply [OF assms(1)])
qed

lemma json_add_u32_members: "json_add_u32 (add_members ms js) (Some k) v = add_members (ms @ [(k, CPrim (dec_of_nat (unat v)))]) js"
  by (simp add: json_add_u32_eq add_value_members)

definition counts :: "u32 \<Rightarrow> u32 \<Rightarrow> (string \<times> cst) list" where
  "counts num all = [(''num'', CPrim (dec_of_nat (unat num))), (''total'', CPrim (dec_of_nat (unat all)))]"

lemma plugin_notify_progress_message:
  assumes "cmd_id cmd = Some rid" "progress < num_progress" "num_stages = 0 \<or> stage < num_stages"
  shows "plugin_notify_progress p cmd num_stages stage num_progress progress =
    Some (p\<lparr>js_arr := js_arr p @ [message [VERSION, (''method'', CStr ''progress''),
      (''params'', mk_obj ((''id'', CPrim (dec_of_nat (unat rid))) # counts progress num_progress @
        (if num_stages = 0 then [] else [(''stage'', mk_obj (counts stage num_stages))])))]]\<rparr>)"
proof -
  let ?params = "(''id'', CPrim (dec_of_nat (unat rid))) # counts progress num_progress @ (if num_stages = 0 then [] else [(''stage'', mk_obj (counts stage num_stages))])"
  have plain: "CString ''progress'' = CStr ''progress''" by (rule CString_plain) (simp add: json_escape_needed_def escape_control_def)
  have pos: "num_stages = 0 \<or> 0 < num_stages" using word_gt_0 [of num_stages] by auto
  show ?thesis
    using assms pos jsonrpc_finish_and_send_message [of p "[VERSION, (''method'', CStr ''progress''), (''params'', mk_obj ?params)]"]
    by (auto simp: plugin_notify_progress_def plugin_notify_start_def plugin_notify_end_def start_obj_eq json_add_version json_add_string_eq plain
        json_add_u64_eq json_add_u32_eq add_members_single add_members_append end_members [of _ _ "Some _"] counts_def c_assert_def)
qed

end
