(* ===== verification/Json_Edit.thy ===== *)
theory Json_Edit
  imports Json
begin

text \<open>
  \<open>json_tok_remove\<close> and \<open>json_tok_copy\<close> of \<open>common/json.c\<close>: members of an object or elements of an array are removed from the array of
  tokens. Pointers into the array are indices.
\<close>

definition next_index :: "jsmntok list \<Rightarrow> nat \<Rightarrow> nat run" where
  "next_index tokens i = map_option (\<lambda>r. length tokens - length r) (json_next (drop i tokens))"

fun skip_index :: "jsmntok list \<Rightarrow> nat \<Rightarrow> nat \<Rightarrow> nat run" where
  "skip_index tokens 0 i = Some i"
| "skip_index tokens (Suc n) i = do { j \<leftarrow> next_index tokens i; skip_index tokens n j }"

definition json_tok_copy :: "tokptr \<Rightarrow> tokptr run" where
  "json_tok_copy tok = map_option (\<lambda>r. take (length tok - length r) tok) (json_next tok)"

text \<open>The result is the array after \<open>memmove\<close>, with the size of the container changed, without its last tokens.\<close>

definition json_tok_remove :: "jsmntok list \<Rightarrow> nat \<Rightarrow> nat \<Rightarrow> nat \<Rightarrow> jsmntok list run" where
  "json_tok_remove tokens obj_or_array tok num = do {
     fin \<leftarrow> next_index tokens 0;
     c_assert (obj_or_array < length tokens);
     let ob = tokens ! obj_or_array;
     c_assert (tok_type ob = JSMN_ARRAY \<or> tok_type ob = JSMN_OBJECT);
     c_assert (tok \<ge> obj_or_array \<and> tok < length tokens);
     src \<leftarrow> skip_index tokens num tok;
     ob_end \<leftarrow> next_index tokens obj_or_array;
     c_assert (src \<le> ob_end);
     let remove_count = src - tok;
     let moved = take tok tokens @ take (fin - src) (drop src tokens) @ drop (tok + (fin - src)) tokens;
     let sized = moved[obj_or_array := (moved ! obj_or_array)\<lparr>tok_size := tok_size (moved ! obj_or_array) - int num\<rparr>];
     Some (take (length tokens - remove_count) sized) }"

subsection \<open>What remains\<close>

text \<open>The tokens of one value, or of one key with its value.\<close>

definition token_block :: "jsmntok list \<Rightarrow> bool" where
  "token_block x \<longleftrightarrow> (\<forall>r. json_next (x @ r) = Some r)"

lemma token_block_toks_of: "token_block (toks_of p c)"
  by (simp add: token_block_def)

lemma token_block_nonempty: "token_block x \<Longrightarrow> x \<noteq> []"
proof -
  assume "token_block x"
  then have "json_next (x @ []) = Some []" unfolding token_block_def by blast
  then show ?thesis by auto
qed

lemma json_skip_blocks: "list_all token_block xs \<Longrightarrow> json_skip (length xs) (concat xs @ r) = Some r"
  by (induction xs) (simp_all add: token_block_def)

lemma next_index_block:
  assumes "token_block x"
  shows "next_index (pre @ x @ r) (length pre) = Some (length pre + length x)"
  using assms by (simp add: next_index_def token_block_def)

lemma skip_index_blocks:
  assumes "list_all token_block xs"
  shows "skip_index (pre @ concat xs @ r) (length xs) (length pre) = Some (length pre + length (concat xs))"
  using assms
proof (induction xs arbitrary: pre)
  case (Cons x xs)
  then show ?case using next_index_block [of x pre "concat xs @ r"] Cons.IH [of "pre @ x"] by (simp add: add.assoc)
qed simp

lemma container_block:
  assumes "list_all token_block xs" "tok_size ob = int (length xs)"
  shows "token_block (ob # concat xs)"
  using assms by (simp add: token_block_def tok_count_def json_skip_blocks)

text \<open>
  A container \<open>ob\<close> with the values or members \<open>a\<close>, \<open>b\<close> and \<open>c\<close> of which \<open>b\<close> are removed. The tokens after the value, such as the terminator, are not moved:
  the array ends with the tokens that stood at these places before.
\<close>

lemma json_tok_remove_blocks:
  fixes a b c :: "jsmntok list list"
  defines "n \<equiv> \<lambda>xs. length (concat xs)"
  assumes "list_all token_block (a @ b @ c)" "tok_size ob = int (length (a @ b @ c))" "tok_type ob = JSMN_ARRAY \<or> tok_type ob = JSMN_OBJECT"
    and whole: "json_next tokens = Some rest" "tokens = pre @ (ob # concat a @ concat b @ concat c) @ post @ rest" and "b \<noteq> []"
  shows "json_tok_remove tokens (length pre) (length pre + 1 + n a) (length b) =
    Some (pre @ (ob\<lparr>tok_size := int (length (a @ c))\<rparr> # concat a @ concat c) @ post @
      take (length rest) (drop (length pre + 1 + n a + n c + length post) tokens))"
proof -
  have blk: "token_block (ob # concat (a @ b @ c))" by (rule container_block [OF assms(2,3)])
  have fin: "next_index tokens 0 = Some (length tokens - length rest)" using whole(1) by (simp add: next_index_def)
  have "next_index tokens (length pre) = Some (length pre + (1 + n a + n b + n c))"
    using next_index_block [OF blk, of pre "post @ rest"] by (simp add: whole(2) n_def add.assoc)
  moreover have "skip_index tokens (length b) (length pre + 1 + n a) = Some (length pre + 1 + n a + n b)"
    using skip_index_blocks [of b "pre @ ob # concat a" "concat c @ post @ rest"] assms(2) by (simp add: whole(2) n_def)
  moreover have "n b \<noteq> 0"
    using assms(2) \<open>b \<noteq> []\<close> token_block_nonempty by (cases b) (auto simp: n_def)
  ultimately show ?thesis
    using fin assms(4)
    by (simp add: json_tok_remove_def whole(2) n_def nth_append c_assert_def Let_def assms(3) add.assoc)
qed

text \<open>The container that remains is a value again.\<close>

lemma remaining_block:
  "list_all token_block (a @ b @ c) \<Longrightarrow> token_block (ob\<lparr>tok_size := int (length (a @ c))\<rparr> # concat a @ concat c)"
  using container_block [of "a @ c" "ob\<lparr>tok_size := int (length (a @ c))\<rparr>"] by simp

lemma json_tok_copy_block: "token_block x \<Longrightarrow> json_tok_copy (x @ r) = Some x"
  by (simp add: json_tok_copy_def token_block_def)

end
