(* ===== verification/Spec2Isabelle.thy ===== *)
theory Spec2Isabelle
  imports Handshake Tlv Features Scid Fp16 Plugin_Util Json_Edit
begin

text \<open>
  A verification of payz, a plugin for lightningd that makes payments with an entity-component
  system. An entity is a number; a component is a JSON value attached to an entity under a name; a
  system is a piece of code with the components it requires and disallows. The component
  \<open>lightningd:systems\<close> of an entity lists the systems that may run on it. To advance an entity is to find
  the first of them that matches it and to send a notification with the required components. lightningd
  delivers the notification to every subscriber, the plugin among them: a built-in system
  runs its code, which changes the entity and advances it again.

  \<^bold>\<open>Layers and theories.\<close> Every theory names its source files in its opening text.

  \<^item> \<open>Payz_Prelude\<close>: machine integers, the type \<open>run\<close> of computations that may stop the process, C strings.
  \<^item> Text and JSON: \<open>Utf8\<close> (\<open>ccan/utf8\<close>), \<open>Hex\<close> (\<open>ccan/str/hex\<close>), \<open>Overflows\<close> (\<open>common/overflows.h\<close>), \<open>Jsmn\<close> (\<open>external/jsmn\<close>: the
    tokenizer, and concrete syntax \<open>cst\<close> with its text and its tokens), \<open>Json\<close> (\<open>common/json.c\<close>: reading),
    \<open>Json_Scan\<close> (\<open>json_scan\<close>), \<open>Json_Escape\<close> (\<open>ccan/json_escape\<close>), \<open>Json_Equal\<close> (\<open>plugins/payz/json_equal.c\<close>), \<open>Json_Out\<close>
    (\<open>ccan/json_out\<close>, \<open>common/json_stream.c\<close> and the writing half of \<open>common/json.c\<close>), \<open>Parsing\<close> (\<open>plugins/payz/parsing.c\<close>).
  \<^item> Maps: \<open>Critbit\<close> (the trees and the interface \<open>ordered_map\<close>), \<open>Strmap\<close> (\<open>ccan/strmap\<close>) and \<open>Intmap\<close> (\<open>ccan/intmap\<close>), both instances.
  \<^item> The framework under \<open>plugins/payz/ecs\<close>: \<open>Ec\<close> (\<open>ec.c\<close>, the table), \<open>Ecsys\<close> (\<open>ecsys.c\<close>, registration and
    advancement), \<open>Ecs\<close> (\<open>ecs.c\<close>, the object that owns both and the code of the built-in systems), \<open>Setsystems\<close>
    (\<open>setsystems.c\<close>, the fields of \<open>lightningd:systems\<close>).
  \<^item> The plugin library: \<open>Libplugin\<close> (replies, notifications, log messages and requests of \<open>plugins/libplugin.c\<close>),
    \<open>Param\<close> (\<open>common/param.c\<close> and the readers of parameters), \<open>Dispatch\<close> (the tables of commands and the second half of
    \<open>ld_command_handle\<close>, for a plugin that is initialised), \<open>Framing\<close> (\<open>ld_read_json\<close>: the buffer of a stream and the messages in it), \<open>Handshake\<close>
    (\<open>plugin_main\<close>, \<open>getmanifest\<close>, \<open>init\<close> and \<open>ld_command_handle\<close> as a whole).
  \<^item> The plugin: \<open>Payz_State\<close> (\<open>struct payz_top\<close> and the static variables of the commands as one record), \<open>Payecs_Data\<close> and
    \<open>Payecs_Cas\<close> (\<open>payecs_data.c\<close>), \<open>Payecs_Code\<close> (\<open>payecs_code.c\<close>), \<open>Systems\<close> (the four files of \<open>systems/\<close> and \<open>setup_payz_top\<close> of
    \<open>top.c\<close>).
  \<^item> Behaviour over time: \<open>Rounds\<close> (deliveries of notifications), \<open>Plugin_Run\<close> (steps and reachable states), \<open>Requests\<close> (commands
    on requests as lightningd sends them, with what their results say).
  \<^item> What the plugin library offers beside: \<open>Plugin_Util\<close> (readers of options, results passed on, progress; signed numbers of \<open>common/json.c\<close>), \<open>Json_Edit\<close>
    (\<open>json_tok_remove\<close>), \<open>Amount\<close> (\<open>common/amount.c\<close>), \<open>Wire\<close> (\<open>wire/wire.c\<close>, \<open>common/bigsize.c\<close>), \<open>Tlv\<close> (\<open>wire/tlvstream.c\<close>), \<open>Features\<close>
    (\<open>common/features.c\<close>), \<open>Scid\<close> (\<open>bitcoin/short_channel_id.c\<close>), \<open>Fp16\<close> (\<open>common/fp16.c\<close>). The functions of \<open>Tlv\<close> that write and read one type are
    parameters, the generated code of the message definitions.

  \<^bold>\<open>How the program is modelled.\<close> Structures are records, tagged unions datatypes, \<open>u32\<close> and \<open>u64\<close> words of their width. A
  function that can fail an assertion, call \<open>abort\<close> or \<open>plugin_err\<close>, or read outside of an array returns an option:
  \<open>None\<close> is the end of the process. A pointer to a token is the list of the tokens from there to the end of the array.
  Global variables and the output queues are passed as the records \<open>payz\<close> and \<open>plugin\<close>; a message that was sent is the
  text appended to a queue. The code of a system and of a continuation is a constructor (\<open>builtin\<close>, \<open>out_req\<close>), run by
  \<open>run_builtin\<close> and \<open>reply_callback\<close>. The random bytes of the nonce and the delay read from lightningd are in the record
  \<open>environment\<close>, whose bytes are chosen anew for every message of a run (\<open>step\<close>), and of which a delivery of \<open>Rounds\<close> draws at most once; the time of a notification is an argument, and \<open>erange\<close> is a value of \<open>errno\<close> left by an
  earlier call, which \<open>json_to_u64\<close> does not reset.

  \<^bold>\<open>What is shown.\<close> The properties are numbered in the order of importance.

  \<^item> The plugin: the invariant of the reachable states, what a payment goes through, the session with lightningd
    from the first byte on, every command on its requests, the parameters, start-up and registration.
  \<^item> Advancement: the first matching system runs; every other outcome is an error that is recorded.
  \<^item> The table refines a map from entities and names to JSON texts with their tokens, under every history of calls.
  \<^item> JSON: the parser reads every layout of every value, what is written can be parsed and found again,
    escaping, hexadecimal and decimal texts are read back, \<open>json_equal\<close> decides equality.
  \<^item> Maps: both kinds of trees implement finite maps, and the walks over them follow the order of the keys.
  \<^item> Amounts and the wire: amounts and channel identifiers are read back from their texts, arithmetic is exact or refused, integers have one
    encoding, streams of fields are read back, feature sets are sets of bits. The theories \<open>Fp16\<close> (bounds of the approximation), \<open>Plugin_Util\<close> and \<open>Json_Edit\<close> have
    their main lemmas at the end.

  The interfaces are locales: \<open>critbit\<close> for the trees and \<open>ordered_map\<close> for their clients, both interpreted on \<open>strmap\<close> and \<open>intmap\<close>;
  \<open>component_table\<close> for code that works on a table through its get and set functions, interpreted on the table of
  \<open>ec.c\<close> and on the framework object of \<open>ecs.c\<close>.

  \<^bold>\<open>Loops.\<close> Loops are structural recursion, or functions with a termination proof whose measure is the text or the tokens that
  remain. Three loops have no bound in the code and are partial functions. The one of \<open>json_parse_input\<close> doubles the array of tokens and goes on with
  the parser; the property \<open>json_parse_loop_returns\<close> shows that it returns. The one of \<open>ld_read_json\<close> handles messages as long as one is
  complete; the property \<open>session\<close> has it return after each piece. The one of \<open>read_rpc_reply\<close> returns on a reply, and not on a message without \<open>id\<close>.
  The guides of \<open>json_scan\<close> are read by mutually recursive functions with a count of calls that is four times the length of the guide;
  \<open>json_scan_path\<close> and \<open>json_scan_fields\<close> show that it is enough for the guides of the program.

  \<^bold>\<open>What is not modelled.\<close> System calls and the poll loop (their results are arguments: bytes read, whether a connection succeeds), memory
  management (nothing of the model depends on when memory is freed) and timers; the gossip map,
  routing, the messages between peers, keys, transactions and addresses, which are linked with the plugin library
  but not called by the plugin at this commit and rest on libwally and libsecp256k1; floating-point scaling of amounts; the test driver. The
  plugin library is modelled as this repository builds it, without \<open>DEVELOPER\<close>, which would add a subscription to the manifest. \<open>handle_init\<close> reads the
  name of the network and hands it to \<open>chainparams_for_network\<close>, which ignores it; the global it sets is never read. Replies to requests of the plugin
  are followed when their result is an object, as that of \<open>decode\<close> is. Offsets of tokens are unbounded, which is faithful for texts below
  two gigabytes.
\<close>

section \<open>The plugin\<close>

subsection \<open>Concrete states and requests\<close>

text \<open>The value \<open>{"a": [1, "b"]}\<close>.\<close>

definition sample :: cst where
  "sample = CObj (MCons [] ''a'' [] '' '' (CArr (ECons [] (CPrim ''1'') (ECons '', '' (CStr ''b'') ENil)) []) MNil) []"

lemma wf_sample: "wf_cst sample"
  by (simp add: sample_def layout_eval)

definition quiet :: "out_req plugin" where
  "quiet = \<lparr>js_arr = [], rpc_js_arr = [], next_outreq_id = 0, out_reqs = None, usagemap = None\<rparr>"

definition env0 :: environment where
  "env0 = \<lparr>random_bytes = replicate 32 0, default_maxdelay = Some ''2016''\<rparr>"

definition a_command :: command where
  "a_command = \<lparr>cmd_id = Some 7, methodname = ''payecs_advance'', usage_only = False\<rparr>"

definition started :: "builtin payz" where
  "started = the setup_payz_top"

lemma started: "setup_payz_top = Some started"
  using setup_payz_top_spec unfolding started_def by (metis option.sel)

lemmas started_inv = setup_inv [OF started]

lemma env0_ok: "env_ok env0"
  by (simp add: env_ok_def env0_def prim_ok_def primitive_bad_def primitive_stop_def)

lemma a_command [simp]: "\<not> usage_only a_command" "cmd_id a_command = Some 7"
  by (simp_all add: a_command_def)

definition now0 :: timeabs where
  "now0 = \<lparr>tv_sec = 1600000000, tv_nsec = 5000000\<rparr>"

lemma now0_formats: "\<exists>tm. format_time now0 = Some tm"
proof -
  have "civil_of_days 18518 = (2020, 9, 13)" by code_simp
  then show ?thesis by (simp add: format_time_def now0_def)
qed

definition entity7 :: cst where
  "entity7 = mk_obj [(''entity'', CPrim (dec_of_nat (unat (7 :: u32))))]"

lemma wf_entity7: "wf_cst entity7"
  unfolding entity7_def by (intro wf_mk_obj) (simp add: wf_member_def str_ok_plain_text plain_text_def wf_dec)

definition my_system :: cst where
  "my_system = mk_obj [(''system'', CStr ''mine''), (''required'', mk_arr (map CString [''x''])), (''disallowed'', mk_arr (map CString [''y'']))]"

lemma wf_my_system: "wf_cst my_system"
  unfolding my_system_def
  by (intro wf_mk_obj) (auto intro!: wf_mk_arr simp: wf_member_def str_ok_plain_text plain_text_def plain_text_utf8)

lemma not_started: "s \<notin> set (map b_name builtin_blocks) \<Longrightarrow> \<not> ecs_system_exists (top_ecs started) s"
proof -
  assume s: "s \<notin> set (map b_name builtin_blocks)"
  have "registered_all builtin_blocks ecs_new (top_ecs started)"
    using setup_payz_top_spec unfolding started_def by (metis option.sel payz.select_convs(1))
  then have "strmap_get (system_map (ecsys_of (top_ecs started))) s = strmap_get (system_map (ecsys_of (ecs_new :: builtin ecs))) s"
    using registered_all_spec [OF _ ecs_inv_new builtin_blocks_ok(2)] s by simp
  then show ?thesis by (simp add: ecs_system_exists_def ecsys_system_exists_def ecs_new_def ecsys_new_def sm.lookup_empty)
qed

definition write_a :: cst where
  "write_a = mk_obj [(''writes'', spec_cst 1 False [(''a'', CPrim ''5'')]), (''expected'', spec_cst 1 True [])]"

lemma wf_spec_cst: "list_all wf_member ms \<Longrightarrow> wf_cst (spec_cst e x ms)"
  unfolding spec_cst_def
  by (intro wf_mk_obj) (auto simp: wf_member_def str_ok_plain_text plain_text_def wf_true simp del: wf_cst.simps)

lemma wf_write_a: "wf_cst write_a"
  unfolding write_a_def
  by (intro wf_mk_obj) (auto intro!: wf_spec_cst simp: wf_member_def str_ok_plain_text plain_text_def prim_ok_def primitive_bad_def primitive_stop_def)

lemma a_member: "spec_members [(''a'', CPrim ''5'')]" "spec_members []"
  by (simp_all add: spec_members_def json_escape_needed_def escape_control_def)

definition ask_a :: cst where
  "ask_a = mk_obj [(''entity'', CPrim (dec_of_nat (unat (7 :: u32)))), (''components'', mk_arr (map CString [''a'']))]"

lemma wf_ask_a: "wf_cst ask_a"
  unfolding ask_a_def
  by (intro wf_mk_obj) (auto intro!: wf_mk_arr simp: wf_member_def str_ok_plain_text plain_text_def wf_dec plain_text_utf8)

lemma wf_no_params: "wf_cst (mk_obj [])"
  by (intro wf_mk_obj) simp

lemma no_strings: "strings_of_cst (mk_arr (map CString [])) = Some []"
  by (rule strings_of_mk_arr) simp

lemma started_table: "table_of started e cn = None"
  using started_inv(4) by blast

definition set_defaults :: cst where
  "set_defaults = mk_obj [(''entity'', CPrim (dec_of_nat (unat (1 :: u32)))), (''prepend'', mk_arr (map CString [])), (''append'', mk_arr (map CString []))]"

lemma wf_set_defaults: "wf_cst set_defaults"
  unfolding set_defaults_def
  by (intro wf_mk_obj) (auto intro!: wf_mk_arr simp: wf_member_def str_ok_plain_text plain_text_def)

lemma started_fields: "ecst.fields (top_ecs started) e []"
  by (simp add: ecst.fields_def started_table)

lemma started_traces: "payecs_systraces started = []"
  using setup_payz_top_spec unfolding started_def by (metis option.sel payz.select_convs)

definition run_nonce :: cst where
  "run_nonce = mk_obj [(''payload'', invoke_params ''lightningd:generate_nonce'' 1 (zip [''lightningd:systems''] [CPrim ''1'']))]"

text \<open>The state after a request that attaches components to entity 1.\<close>

definition write_request :: "(string \<times> cst) list \<Rightarrow> cst" where
  "write_request ms = mk_obj [(''id'', CPrim (dec_of_nat 7)), (''method'', CStr ''payecs_setcomponents''),
     (''params'', mk_obj [(''writes'', spec_cst 1 False ms), (''expected'', spec_cst 1 True [])])]"

lemma wf_write_request: "list_all wf_member ms \<Longrightarrow> wf_cst (write_request ms)"
  unfolding write_request_def
  by (intro wf_mk_obj) (auto intro!: wf_spec_cst wf_mk_obj simp: wf_member_def str_ok_plain_text plain_text_def wf_dec)

lemma written:
  assumes "list_all wf_member ms" "spec_members ms"
  shows "\<exists>z p. reachable env0 (z, p) \<and> (\<forall>cn. table_of z 1 cn = (case map_of ms cn of Some c \<Rightarrow> value_of c | None \<Rightarrow> None))"
proof -
  have none: "names_of (table_of started) 1 = []" by (simp add: names_of_def started_table)
  obtain params where d: "inner (text_of (write_request ms)) params (mk_obj [(''writes'', spec_cst 1 False ms), (''expected'', spec_cst 1 True [])])"
    and h: "ld_command_running env0 False now0 quiet started (text_of (write_request ms)) (toks_of 0 (write_request ms)) =
      payecs_setcomponents False quiet \<lparr>cmd_id = Some 7, methodname = ''payecs_setcomponents'', usage_only = False\<rparr> started (text_of (write_request ms)) params"
    using handle_request [OF denotes_attached' [OF wf_write_request [OF assms(1)], unfolded write_request_def], of 7 "''payecs_setcomponents''"
        _ SETCOMPONENTS env0 False now0 quiet started]
    by (auto simp: write_request_def find_command_def payz_commands_def payecs_data_commands_def plugin_cmd_def ULLONG_MAX_def)
  obtain z p where z: "payecs_setcomponents False quiet \<lparr>cmd_id = Some 7, methodname = ''payecs_setcomponents'', usage_only = False\<rparr> started
      (text_of (write_request ms)) params = Some (COMPLETE, z, p)" "table_of z = tab_over (table_of started) 1 (map_of ms)"
    using setcomponents_one [OF started_inv(1) _ _ assms(2) a_member(2) inner_denotes [OF d], of "\<lparr>cmd_id = Some 7, methodname = ''payecs_setcomponents'', usage_only = False\<rparr>" 7 False quiet] none
    by (auto simp: expectation_def)
  then have "reachable env0 (z, p)"
    using reachable.step [OF reachable.start [OF started, of env0 quiet] step.message [OF denotes_attached' [OF wf_write_request [OF assms(1)]], where rb = "random_bytes env0"]] h by simp
  then show ?thesis using z(2) by (auto simp: tab_over_def started_table split: option.splits)
qed

definition invoice_call :: cst where
  "invoice_call = mk_obj [(''lightningd:invoice'', CStr ''lnbc1'')]"

definition decoded :: cst where
  "decoded = mk_obj [(''id'', CPrim (dec_of_nat (unat (0 :: u64)))), (''result'', mk_obj [(''type'', CStr ''bolt11'')])]"

lemma wf_decoded: "wf_cst invoice_call" "wf_cst decoded"
  unfolding invoice_call_def decoded_def
  by (auto intro!: wf_mk_obj simp: wf_member_def str_ok_plain_text plain_text_def wf_dec [simplified])

text \<open>The messages of a start: \<open>getmanifest\<close> and \<open>init\<close>, as lightningd writes them, and its reply to \<open>listconfigs\<close>.\<close>

definition manifest_members0 :: "(string \<times> cst) list" where
  "manifest_members0 = [VERSION, (''id'', CPrim (dec_of_nat 0)), (''method'', CStr ''getmanifest''),
     (''params'', mk_obj [(''allow-deprecated-apis'', CBool False)])]"

definition init_members :: "(string \<times> cst) list" where
  "init_members = [VERSION, (''id'', CPrim (dec_of_nat 1)), (''method'', CStr ''init''), (''params'', mk_obj [
     (''options'', mk_obj [(''pay-disable-mpp'', CPrim ''true'')]),
     (''configuration'', mk_obj [(''lightning-dir'', CStr ''l''), (''network'', CStr ''regtest''),
       (''feature_set'', features_cst [(''init'', [8, 0x2a])]), (''rpc-file'', CStr ''lightning-rpc'')])])]"

definition configs_text :: string where
  "configs_text = text_of (mk_obj [VERSION, (''id'', CPrim ''0''), (''result'', mk_obj [(''max-locktime-blocks'', CPrim ''2016'')])]) @ [LF, LF]"

definition os0 :: os where
  "os0 = \<lparr>os_chdir = (\<lambda>d. d = ''l''), os_connect = (\<lambda>f. f = ''lightning-rpc''), os_strerror = ''no'', os_rpc_input = configs_text\<rparr>"

definition around0 :: "nat \<Rightarrow> surroundings" where
  "around0 i = (env0, False, now0)"

definition paytest_options :: "plugin_option list" where
  "paytest_options = payz_options ''pay'' ''keysend2''"

lemma features0: "features_cst [(''init'', [8, 0x2a])] = mk_obj [(''init'', CStr ''082a'')]"
proof -
  have "tal_hexstr [8, 0x2a] = Some ''082a''" by code_simp
  then show ?thesis by (simp add: features_cst_def)
qed

lemma ids: "dec_of_nat 0 = ''0''" "dec_of_nat 1 = ''1''"
  by code_simp+

lemma wf_handshake: "wf_cst (mk_obj manifest_members0)" "wf_cst (mk_obj init_members)"
  unfolding manifest_members0_def init_members_def features0 CBool_def ids
  by (auto intro!: wf_mk_obj simp: wf_member_def layout_eval)

lemma configs_text_reply: "configs_reply ''2016'' configs_text"
  unfolding configs_reply_def configs_text_def
  by (rule exI [of _ "[VERSION, (''id'', CPrim ''0''), (''result'', mk_obj [(''max-locktime-blocks'', CPrim ''2016'')])]"])
    (rule exI [of _ "[(''max-locktime-blocks'', CPrim ''2016'')]"], simp add: mk_obj_def layout_eval )

lemma manifest0_msg: "getmanifest_msg 0 False manifest_members0"
  by (simp add: getmanifest_msg_def manifest_members0_def ULLONG_MAX_def mk_obj_eq_iff)

lemma init_members_msg:
  "init_msg 1 ''l'' ''regtest'' [(''init'', [8, 0x2a])] ''lightning-rpc'' [(''pay-disable-mpp'', CPrim ''true'')] init_members"
  by (simp add: init_msg_def init_members_def ULLONG_MAX_def config_cst_def scalar_def mk_obj_eq_iff)

lemma os0_accepts: "os_accepts os0 ''l'' ''lightning-rpc'' ''2016''"
  using configs_text_reply by (simp add: os_accepts_def os0_def SUN_PATH_def)

lemma paytest_options_ok: "list_all option_ok paytest_options" "po_name ` set paytest_options = {''pay-disable-mpp''}"
  by (simp_all add: paytest_options_def payz_options_def option_ok_def)

lemma handshake_denotes:
  "denotes (text_of (mk_obj manifest_members0)) (toks_of 0 (mk_obj manifest_members0) @ [terminator]) (mk_obj manifest_members0)"
  "denotes (text_of (mk_obj init_members)) (toks_of 0 (mk_obj init_members) @ [terminator]) (mk_obj init_members)"
  using denotesI [OF wf_handshake(1), of _ "[]" "[]"] denotesI [OF wf_handshake(2), of _ "[]" "[]"] by simp_all

definition manifested0 :: server where
  "manifested0 = manifested_state 0 False paytest_options (the plugin_start)"

lemma started_server: "plugin_start = Some (the plugin_start)" "\<not> sv_manifested (the plugin_start)" "\<not> sv_initialized (the plugin_start)" "\<not> disablempp (the plugin_start)"
  using plugin_start_spec by (metis option.sel server.select_convs(3,4,6))+

lemma manifested0: "sv_manifested manifested0" "\<not> sv_initialized manifested0" "\<not> disablempp manifested0"
  using started_server by (simp_all add: manifested0_def manifested_state_def)

lemma handshake_run:
  assumes "plugin_start = Some sv" "denotes b1 t1 (mk_obj m1)" "getmanifest_msg n1 dep m1" "list_all option_ok opts"
    and "denotes b2 t2 (mk_obj m2)" "init_msg n2 dir network bits location xs m2"
    and "options_flag (po_name ` set opts) xs False = Some flag" "os_accepts os dir location v"
  shows "handle_all (ld_message os opts around) ((b1, t1) # (b2, t2) # bufs) (0, sv) =
    handle_all (ld_message os opts around) bufs (2, initialized_state n2 flag bits location v (manifested_state n1 dep opts sv))"
proof -
  let ?sv = "manifested_state n1 dep opts sv"
  have f: "sv_manifested ?sv" "\<not> sv_initialized ?sv" "disablempp ?sv = False"
    using started_server(2-4) [unfolded assms(1) option.sel] by (simp_all add: manifested_state_def)
  show ?thesis
    using handle_getmanifest_request [OF assms(2,3,4,1)] handle_init_request [OF assms(5,6) _ assms(8) f(1,2), of opts flag] assms(7) f(3)
    by (simp add: ld_message_def split_beta numeral_2_eq_2)
qed

definition stream0 :: "(cst \<times> string) list" where
  "stream0 = [(mk_obj manifest_members0, [LF, LF]), (mk_obj init_members, [LF, LF])]"

lemma cuts0: "clean_cut 60 (stream_toks 0 stream0)" "clean_cut (length (stream_text stream0)) (stream_toks 0 stream0)"
  by code_simp+

text \<open>The message \<open>{"a":[12]}\<close>, cut between the digits: the element is read as two, and nothing reports it.\<close>

lemma cut_element_split:
  "\<exists>parser toks parser' toks'.
    json_parse_input jsmn_init [] toks_alloc_count (CHR ''{'' # QUOTE # CHR ''a'' # QUOTE # '':[1'') = Some (PIncomplete, parser, toks, 10) \<and>
    json_parse_input parser toks 10 (CHR ''{'' # QUOTE # CHR ''a'' # QUOTE # '':[12]}'') = Some (PComplete, parser', toks', 6) \<and>
    map tok_type toks' = [JSMN_OBJECT, JSMN_STRING, JSMN_ARRAY, JSMN_PRIMITIVE, JSMN_PRIMITIVE, JSMN_MINUS_ONE] \<and>
    map tok_size toks' = [1, 1, 2, 0, 0, 0]"
proof -
  let ?t = "\<lambda>ty s e n. \<lparr>tok_type = ty, tok_start = s, tok_end = e, tok_size = n\<rparr>"
  let ?T = "[?t JSMN_OBJECT 0 (-1) 1, ?t JSMN_STRING 2 3 1, ?t JSMN_ARRAY 5 (-1) 1, ?t JSMN_PRIMITIVE 6 7 0]"
  let ?T' = "[?t JSMN_OBJECT 0 10 1, ?t JSMN_STRING 2 3 1, ?t JSMN_ARRAY 5 9 2, ?t JSMN_PRIMITIVE 6 7 0, ?t JSMN_PRIMITIVE 7 8 0]"
  let ?P = "\<lparr>jpos = 7, toksuper = 2\<rparr>" and ?P' = "\<lparr>jpos = 10, toksuper = -1\<rparr>"
  have one: "json_parse_input jsmn_init [] toks_alloc_count (CHR ''{'' # QUOTE # CHR ''a'' # QUOTE # '':[1'') = Some (PIncomplete, ?P, ?T, 10)"
    by code_simp
  have "jsmn_parse ?P (CHR ''{'' # QUOTE # CHR ''a'' # QUOTE # '':[12]}'') ?T 9 = (JCount 5, ?P', ?T')" by code_simp
  moreover have "utf8_check ''a''" by (simp add: plain_text_utf8 plain_text_def)
  ultimately have two: "json_parse_input ?P ?T 10 (CHR ''{'' # QUOTE # CHR ''a'' # QUOTE # '':[12]}'') = Some (PComplete, ?P', ?T' @ [terminator], 6)"
    unfolding json_parse_input_def
    by (subst json_parse_again.simps) (simp add: json_next.simps json_skip.simps tok_count_def no_children_def slice_def numeral_eq_Suc)
  show ?thesis by (rule exI [of _ ?P], rule exI [of _ ?T], rule exI [of _ ?P'], rule exI [of _ "?T' @ [terminator]"])
    (simp only: one two, simp add: terminator_def)
qed

subsection \<open>Runs, commands and notifications\<close>

text \<open>C1: the invariant of the plugin. In every state that is reached from start-up, by any sequence of commands and notifications with
  well-formed contents, each with random bytes of its own, and of replies whose result is an object, the table, the registry and the maps are consistent, every external and every default system
  is registered with the components it was declared with, the built-in systems are as they were at start-up, and the trace
  holds at most 100000 JSON texts.\<close>

theorem reachable_states_consistent:
  assumes "env_ok env" "reachable env (z, p)"
  shows "payz_inv z \<and> builtins_registered (top_ecs z) \<and> default_systems z = map b_name builtin_blocks \<and>
    length (payecs_systraces z) \<le> 100000"
  using reachable_inv [OF assms(2,1)] by (auto simp: payz_inv_def trace_ok_def MAX_SYSTRACES_def)

theorem reachable_states_consistent_witness:
  "reachable env0 (started, quiet) \<and> payz_inv started \<and> length (payecs_systraces started) \<le> 100000"
  using reachable_states_consistent [OF env0_ok reachable.start [OF started, of env0 quiet]] reachable.start [OF started, of env0 quiet] by blast

text \<open>C2: a payment gets its defaults. In every reachable state, an entity marked as main payment that has no invoice, put on the default
  systems and advanced once, reaches a state, by deliveries of the queued invocations alone, where it has every default
  component it lacked, with the default value, where nothing else has changed, and where no built-in system matches it. The bytes in \<open>env\<close> are those drawn
  for the nonce: one system of a payment draws bytes, once; before that each message had its own.\<close>

theorem payment_gets_defaults:
  assumes "env_ok env" "reachable env (z, p)" "format_time now = Some tm" "\<not> usage_only cmd" "cmd_id cmd = Some rid"
    and "table_of z e ''lightningd:main-payment'' \<noteq> None"
    and "\<forall>cn\<in>{''lightningd:invoice'', ''lightningd:invoice:type'', ''lightningd:invoice:amount_msat''}. table_of z e cn = None"
    and "denotes buf1 ts1 (mk_obj [(''entity'', CPrim (dec_of_nat (unat e))), (''prepend'', mk_arr (map CString [])), (''append'', mk_arr (map CString []))])"
    and "denotes buf2 ts2 (mk_obj [(''entity'', CPrim (dec_of_nat (unat e)))])"
  shows "\<exists>z1 p1 z2 p2 z3 p3. payecs_setdefaultsystems erange p cmd z buf1 ts1 = Some (COMPLETE, z1, p1) \<and>
    payecs_advance erange p1 cmd z1 buf2 ts2 = Some (COMPLETE, z2, p2) \<and>
    (delivered env erange now)\<^sup>*\<^sup>* (z2, p2) (z3, p3) \<and>
    (\<forall>e' cn. e' \<noteq> e \<longrightarrow> table_of z3 e' cn = table_of z e' cn) \<and>
    (\<forall>cn. cn \<noteq> syscomp \<longrightarrow> table_of z3 e cn =
      (case table_of z e cn of Some x \<Rightarrow> Some x | None \<Rightarrow> map_option attached (default_value env cn))) \<and>
    next_block (has (table_of z3) e) = None"
proof -
  note inv = reachable_inv [OF assms(2,1)]
  obtain z1 p1 z2 p2 where s: "payecs_setdefaultsystems erange p cmd z buf1 ts1 = accepted rid p z1"
    "accepted rid p z1 = Some (COMPLETE, z1, p1)" "payecs_advance erange p1 cmd z1 buf2 ts2 = Some (COMPLETE, z2, p2)"
    "table_after (table_of z) (table_of z1) e" "table_after (table_of z1) (table_of z2) e"
    "next_block (has (table_of z1) e) \<noteq> None \<Longrightarrow> on_default z2 e \<and> pending z2 e p2"
    using set_then_advance [OF _ _ _ assms(4,5,8,9), of z erange p] inv by blast
  have same: "has (table_of z2) e = has (table_of z1) e" using has_after [OF s(5)] s(4) by (simp add: table_after_def)
  have plain: "plain_payment (has (table_of z2) e)"
    unfolding same using s(4) assms(6,7) by (auto simp: plain_payment_def has_def table_after_def syscomp_def)
  have "\<exists>z3 p3. (delivered env erange now)\<^sup>*\<^sup>* (z2, p2) (z3, p3) \<and> with_defaults env e (table_of z2) (table_of z3) \<and>
    next_block (has (table_of z3) e) = None"
  proof (cases "next_block (has (table_of z1) e)")
    case None
    then show ?thesis using no_block_defaults [OF _ plain assms(1)] same by auto
  next
    case (Some b)
    then show ?thesis using defaults_reached [OF _ plain assms(1,3), of p2 erange] s(6) by auto
  qed
  then obtain z3 p3 where z3: "(delivered env erange now)\<^sup>*\<^sup>* (z2, p2) (z3, p3)" "with_defaults env e (table_of z2) (table_of z3)"
    "next_block (has (table_of z3) e) = None" by blast
  have "with_defaults env e (table_of z) (table_of z3)"
    using with_defaults_syscomp [OF z3(2), of "table_of z" "table_of z3"] s(4,5) by (auto simp: table_after_def)
  then show ?thesis using s(1-3) z3(1,3) unfolding with_defaults_def by auto
qed

theorem payment_gets_defaults_witness:
  "\<exists>z2 p2 z3 p3. (delivered env0 False now0)\<^sup>*\<^sup>* (z2, p2) (z3, p3) \<and>
    table_of z3 1 ''lightningd:riskfactor'' = Some (attached (CPrim ''10''))"
proof -
  let ?ms = "[(''lightningd:main-payment'', CPrim ''true'')]"
  have ok: "list_all wf_member ?ms" "spec_members ?ms"
    by (simp_all add: wf_member_def str_ok_plain_text plain_text_def wf_true spec_members_def json_escape_needed_def escape_control_def del: wf_cst.simps)
  obtain z p where z: "reachable env0 (z, p)" "\<And>cn. table_of z 1 cn = (case map_of ?ms cn of Some c \<Rightarrow> value_of c | None \<Rightarrow> None)"
    using written [OF ok] by blast
  obtain tm where tm: "format_time now0 = Some tm" using now0_formats by blast
  let ?e = "mk_obj [(''entity'', CPrim (dec_of_nat (unat (1 :: u32))))]"
  have "wf_cst ?e" by (intro wf_mk_obj) (simp add: wf_member_def str_ok_plain_text plain_text_def wf_dec)
  from payment_gets_defaults [OF env0_ok z(1) tm a_command _ _ denotes_attached' [OF wf_set_defaults, unfolded set_defaults_def]
      denotes_attached' [OF this], of False]
  obtain z2 p2 z3 p3 where d: "(delivered env0 False now0)\<^sup>*\<^sup>* (z2, p2) (z3, p3)" "table_of z3 1 ''lightningd:riskfactor'' =
      map_option attached (default_value env0 ''lightningd:riskfactor'')"
    by (auto simp: z(2) value_of_def null_cst_def syscomp_def)
  obtain v h where "default_maxdelay env0 = Some v" "tal_hexstr (random_bytes env0) = Some h" using env_ok_cases [OF env0_ok] by blast
  then have "default_value env0 ''lightningd:riskfactor'' = Some (CPrim ''10'')"
    by (simp add: default_value_def map_filter_simps)
  then show ?thesis using d by (metis option.simps(9))
qed

text \<open>C3: an invoice is decoded. The system \<open>lightningd:parse_invoice\<close> marks the entity and sends one request for \<open>decode\<close> with the invoice. The reply with
  that identifier takes the request off the table; its result attaches each member as \<open>lightningd:invoice:\<close> and its name and advances the
  entity, its error is attached as \<open>lightningd:error\<close> and takes the entity off its systems.\<close>

theorem invoice_decoded:
  assumes "ecs_inv ecs" "denotes buf eo (mk_obj ms)" "map_of ms ''lightningd:invoice'' = Some c"
    and "intmap_inv (out_reqs p)" "intmap_get (out_reqs p) (next_outreq_id p) = None" "unat (next_outreq_id p) < ULLONG_MAX"
    and "denotes buf' toks (mk_obj rs)" "map_of rs ''id'' = Some (CPrim (dec_of_nat (unat (next_outreq_id p))))"
  shows "\<exists>ecs1 p1 p2. parse_invoice ecs p e buf eo = Some (PENDING, ecs1, p1) \<and> ecs_inv ecs1 \<and>
    ec_table (ec_of ecs1) = tab_upd (ec_table (ec_of ecs)) e ''lightningd:parse_invoice:ran'' (Some (attached (CPrim ''true''))) \<and>
    rpc_js_arr p1 = rpc_js_arr p @ [request (next_outreq_id p) ''decode'' [(''string'', c)]] \<and>
    intmap_get (out_reqs p2) = intmap_get (out_reqs p) \<and> js_arr p2 = js_arr p \<and>
    (case (map_of rs ''error'', map_of rs ''result'') of
       (Some err, _) \<Rightarrow> \<exists>ecs2. reply_callback ecs1 p1 erange buf' toks = Some (COMPLETE, ecs2, p2) \<and> ecs_inv ecs2 \<and>
         ec_table (ec_of ecs2) = tab_upd (tab_upd (ec_table (ec_of ecs1)) e ''lightningd:error'' (value_of err)) e syscomp None
     | (None, Some res) \<Rightarrow> (\<forall>fs. res = mk_obj fs \<longrightarrow> (\<exists>ecs2. reply_callback ecs1 p1 erange buf' toks = ecs_advance_done p2 ecs2 e \<and> ecs_inv ecs2 \<and>
         ec_table (ec_of ecs2) = invoice_fields e fs (ec_table (ec_of ecs1))))
     | (None, None) \<Rightarrow> reply_callback ecs1 p1 erange buf' toks = None)"
proof -
  let ?id = "next_outreq_id p"
  obtain ecs1 p1 where s: "parse_invoice ecs p e buf eo = Some (PENDING, ecs1, p1)" "ecs_inv ecs1"
    "ec_table (ec_of ecs1) = tab_upd (ec_table (ec_of ecs)) e ''lightningd:parse_invoice:ran'' (Some (attached (CPrim ''true'')))"
    "rpc_js_arr p1 = rpc_js_arr p @ [request ?id ''decode'' [(''string'', c)]]" "js_arr p1 = js_arr p" "intmap_inv (out_reqs p1)"
    "intmap_get (out_reqs p1) = (intmap_get (out_reqs p))(?id \<mapsto> PARSE_INVOICE_DECODE e)"
    using parse_invoice_spec [OF assms(1-5), of e] by blast
  let ?p2 = "answered p1 (unat ?id)"
  have p2: "intmap_get (out_reqs ?p2) = intmap_get (out_reqs p)" "js_arr ?p2 = js_arr p"
    using s(5,6,7) assms(5) im.lookup_del [OF s(6)] by (auto simp: answered_def)
  have "intmap_get (out_reqs p1) (of_nat (unat ?id)) = Some (PARSE_INVOICE_DECODE e)" using s(7) by simp
  note reply = reply_decode_spec [OF s(2) assms(7,8,6) this, of erange]
  show ?thesis by (rule exI [of _ ecs1], rule exI [of _ p1], rule exI [of _ ?p2]) (use s(1-4) p2 reply in simp)
qed

theorem invoice_decoded_witness:
  "\<exists>ecs1 p1 p2 ecs2. reply_callback ecs1 p1 False (text_of decoded) (toks_of 0 decoded) = ecs_advance_done p2 ecs2 1 \<and>
    ec_table (ec_of ecs2) 1 ''lightningd:invoice:type'' = Some (attached (CStr ''bolt11'')) \<and>
    ec_table (ec_of ecs2) 1 ''lightningd:parse_invoice:ran'' = Some (attached (CPrim ''true''))"
proof -
  have inv: "ecs_inv (top_ecs started)" using started_inv(1) by simp
  have q: "intmap_inv (out_reqs quiet)" "intmap_get (out_reqs quiet) k = None" "next_outreq_id quiet = 0" for k
    using im.invar_empty im.lookup_empty by (simp_all add: quiet_def intmap_init_def)
  obtain ecs1 p1 p2 ecs2 where "ec_table (ec_of ecs1) = tab_upd (table_of started) 1 ''lightningd:parse_invoice:ran'' (Some (attached (CPrim ''true'')))"
    "reply_callback ecs1 p1 False (text_of decoded) (toks_of 0 decoded) = ecs_advance_done p2 ecs2 1"
    "ec_table (ec_of ecs2) = invoice_fields 1 [(''type'', CStr ''bolt11'')] (ec_table (ec_of ecs1))"
    using invoice_decoded [OF inv denotes_attached' [OF wf_decoded(1), unfolded invoice_call_def] _ q(1,2) _
        denotes_attached' [OF wf_decoded(2), unfolded decoded_def], of "CStr ''lnbc1''" 1 False]
    by (auto simp: q(3) decoded_def ULLONG_MAX_def)
  then show ?thesis
    by (intro exI [of _ ecs1] exI [of _ p1] exI [of _ p2] exI [of _ ecs2]) (simp add: value_of_def null_cst_def)
qed

text \<open>C4: the promotion of the invoice type never ends. \<open>promote_invoice_type\<close> does not attach the marker its description disallows: an entity
  with an invoice type, put on the default systems and advanced once, has the same invocation queued again after every
  delivery, whatever their number.\<close>

theorem promotion_livelock:
  assumes "env_ok env" "reachable env (z, p)" "format_time now = Some tm" "\<not> usage_only cmd" "cmd_id cmd = Some rid"
    and "table_of z e ''lightningd:invoice:type'' = Some (attached (CStr ty))"
    and "table_of z e ''lightningd:promote_invoice_type:ran'' = None" "table_of z e ''lightningd:nonce'' \<noteq> None"
    and "table_of z e ''lightningd:invoice'' = None \<or> table_of z e ''lightningd:parse_invoice:ran'' \<noteq> None"
    and "denotes buf1 ts1 (mk_obj [(''entity'', CPrim (dec_of_nat (unat e))), (''prepend'', mk_arr (map CString [])), (''append'', mk_arr (map CString []))])"
    and "denotes buf2 ts2 (mk_obj [(''entity'', CPrim (dec_of_nat (unat e)))])"
  shows "\<exists>z1 p1 z2 p2. payecs_setdefaultsystems erange p cmd z buf1 ts1 = Some (COMPLETE, z1, p1) \<and>
    payecs_advance erange p1 cmd z1 buf2 ts2 = Some (COMPLETE, z2, p2) \<and>
    (\<forall>n. \<exists>z3 p3. (delivered env erange now ^^ n) (z2, p2) (z3, p3) \<and> queued p3 (invocation (table_of z3) e promote_block))"
proof -
  note inv = reachable_inv [OF assms(2,1)]
  obtain z1 p1 z2 p2 where s: "payecs_setdefaultsystems erange p cmd z buf1 ts1 = accepted rid p z1"
    "accepted rid p z1 = Some (COMPLETE, z1, p1)" "payecs_advance erange p1 cmd z1 buf2 ts2 = Some (COMPLETE, z2, p2)"
    "table_after (table_of z) (table_of z1) e" "table_after (table_of z1) (table_of z2) e"
    "next_block (has (table_of z1) e) \<noteq> None \<Longrightarrow> on_default z2 e \<and> pending z2 e p2"
    using set_then_advance [OF _ _ _ assms(4,5,10,11), of z erange p] inv by blast
  have same: "has (table_of z2) e = has (table_of z1) e" using has_after [OF s(5)] s(4) by (simp add: table_after_def)
  have nb: "next_block (has (table_of z1) e) = Some promote_block"
    using s(4) assms(6-9) by (auto simp: next_block_promote has_def table_after_def syscomp_def)
  have "table_of z2 e ''lightningd:invoice:type'' = Some (attached (CStr ty))"
    using s(4,5) assms(6) by (simp add: table_after_def syscomp_def)
  then have "promoting z2 e p2" using s(6) nb same by (auto simp: promoting_def)
  then have "\<exists>z3 p3. (delivered env erange now ^^ n) (z2, p2) (z3, p3) \<and> queued p3 (invocation (table_of z3) e promote_block)" for n
    using promote_forever [OF _ assms(3), of z2 e p2 n env erange] by (fastforce simp: promoting_def pending_def)
  then show ?thesis using s(1-3) by auto
qed

theorem promotion_livelock_witness:
  "\<exists>z2 p2. \<forall>n. \<exists>z3 p3. (delivered env0 False now0 ^^ n) (z2, p2) (z3, p3) \<and> queued p3 (invocation (table_of z3) 1 promote_block)"
proof -
  let ?ms = "[(''lightningd:invoice:type'', CStr ''bolt11''), (''lightningd:nonce'', CPrim ''true'')]"
  have ok: "list_all wf_member ?ms" "spec_members ?ms"
    by (simp_all add: wf_member_def str_ok_plain_text plain_text_def wf_true spec_members_def json_escape_needed_def escape_control_def prim_ok_def primitive_bad_def primitive_stop_def)
  obtain z p where z: "reachable env0 (z, p)" "\<And>cn. table_of z 1 cn = (case map_of ?ms cn of Some c \<Rightarrow> value_of c | None \<Rightarrow> None)"
    using written [OF ok] by blast
  obtain tm where tm: "format_time now0 = Some tm" using now0_formats by blast
  let ?e = "mk_obj [(''entity'', CPrim (dec_of_nat (unat (1 :: u32))))]"
  have "wf_cst ?e" by (intro wf_mk_obj) (simp add: wf_member_def str_ok_plain_text plain_text_def wf_dec)
  from promotion_livelock [OF env0_ok z(1) tm a_command _ _ _ _ denotes_attached' [OF wf_set_defaults, unfolded set_defaults_def]
      denotes_attached' [OF this], of "''bolt11''" False]
  show ?thesis by (auto simp: z(2) value_of_def null_cst_def)
qed

text \<open>C5: start-up succeeds: the ten built-in systems are registered with their code and are the default systems, in the order of
  the descriptions; no entity has a component and the first identifier is 1.\<close>

theorem startup:
  "\<exists>z. setup_payz_top = Some z \<and> payz_inv z \<and> builtins_registered (top_ecs z) \<and>
    default_systems z = [''lightningd:generate_nonce'', ''lightningd:parse_invoice'', ''lightningd:promote_invoice_type'',
      ''lightningd:invoice_amount_msat'', ''lightningd:fail_invoice_amount_and_amount'', ''lightningd:default_riskfactor'',
      ''lightningd:default_maxfeepercent'', ''lightningd:default_retry_for'', ''lightningd:default_maxdelay'',
      ''lightningd:default_exemptfee''] \<and>
    (\<forall>e cn. table_of z e cn = None) \<and> next_entity (ec_of (top_ecs z)) = 1"
  using started started_inv by (auto simp: builtin_blocks_def sys_block_def)

subsection \<open>The session with lightningd\<close>

text \<open>C6: a session. lightningd writes \<open>getmanifest\<close>, \<open>init\<close> and further messages with white space between them; the bytes arrive in
  pieces, cut anywhere but inside a number or literal. The plugin starts, answers the first with its manifest and the second with an empty
  result after its own synchronous request, and then handles the other messages one after the other, in order, each with the tokens of that message.\<close>

theorem session:
  assumes "ws_ok w" "stream_ok ((mk_obj m1, w1) # (mk_obj m2, w2) # rest)" "concat xs = w @ stream_text ((mk_obj m1, w1) # (mk_obj m2, w2) # rest)"
    and "\<forall>i\<le>length xs. clean_cut (length (concat (take i xs))) (stream_toks (int (length w)) ((mk_obj m1, w1) # (mk_obj m2, w2) # rest))"
    and "getmanifest_msg n1 dep m1" "init_msg n2 dir network bits location os_opts m2"
    and "list_all option_ok opts" "options_flag (po_name ` set opts) os_opts False = Some flag" "os_accepts os dir location v"
  shows "\<exists>sv bufs rd. plugin_start = Some sv \<and> list_all2 (\<lambda>(buf, toks) (c, _). denotes buf toks c) bufs rest \<and>
    read_pieces (ld_message os opts around) new_reader xs (0, sv) =
      do { s \<leftarrow> handle_all (ld_message os opts around) bufs (2, initialized_state n2 flag bits location v (manifested_state n1 dep opts sv));
           Some (rd, s) }"
proof -
  obtain bs rd where bs: "list_all2 (\<lambda>(buf, toks) (c, _). denotes buf toks c) bs ((mk_obj m1, w1) # (mk_obj m2, w2) # rest)"
    "\<And>s. read_pieces (ld_message os opts around) new_reader xs s = do { s' \<leftarrow> handle_all (ld_message os opts around) bs s; Some (rd, s') }"
    using stream_handled [OF assms(1-4), of "ld_message os opts around"] by blast
  obtain b1 t1 b2 t2 bufs where b: "bs = (b1, t1) # (b2, t2) # bufs" "denotes b1 t1 (mk_obj m1)" "denotes b2 t2 (mk_obj m2)"
    "list_all2 (\<lambda>(buf, toks) (c, _). denotes buf toks c) bufs rest"
    using bs(1) by (auto simp: list_all2_Cons2)
  show ?thesis
    using started_server(1) b(4) bs(2) handshake_run [OF started_server(1) b(2) assms(5,7) b(3) assms(6,8,9), of around bufs]
    unfolding b(1) by (intro exI [of _ "the plugin_start"] exI [of _ bufs] exI [of _ rd]) (simp del: handle_all.simps)
qed

theorem session_witness:
  "\<exists>rd. read_pieces (ld_message os0 paytest_options around0) new_reader [take 60 (stream_text stream0), drop 60 (stream_text stream0)] (0, the plugin_start) =
     Some (rd, 2, initialized_state 1 True [(''init'', [8, 0x2a])] ''lightning-rpc'' ''2016'' manifested0)"
proof -
  let ?xs = "[take 60 (stream_text stream0), drop 60 (stream_text stream0)]"
  have len: "60 < length (stream_text stream0)" by code_simp
  have ok: "stream_ok [(mk_obj manifest_members0, [LF, LF]), (mk_obj init_members, [LF, LF])]" using wf_handshake by (simp add: ws_ok_def mk_obj_def)
  have cut: "\<forall>i\<le>length ?xs. clean_cut (length (concat (take i ?xs))) (stream_toks (int (length [])) [(mk_obj manifest_members0, [LF, LF]), (mk_obj init_members, [LF, LF])])"
    using cuts0 clean_cut_0 [of 0] len unfolding stream0_def [symmetric] by (auto simp: le_Suc_eq numeral_2_eq_2)
  have whole: "concat ?xs = [] @ stream_text [(mk_obj manifest_members0, [LF, LF]), (mk_obj init_members, [LF, LF])]"
    unfolding stream0_def [symmetric] by simp
  have flag: "options_flag (po_name ` set paytest_options) [(''pay-disable-mpp'', CPrim ''true'')] False = Some True"
    by (simp add: paytest_options_ok(2))
  obtain sv bufs rd where s: "plugin_start = Some sv" "bufs = []" "read_pieces (ld_message os0 paytest_options around0) new_reader ?xs (0, sv) =
      do { s \<leftarrow> handle_all (ld_message os0 paytest_options around0) bufs (2, initialized_state 1 True [(''init'', [8, 0x2a])] ''lightning-rpc'' ''2016'' (manifested_state 0 False paytest_options sv));
           Some (rd, s) }"
    using session [OF _ ok whole cut manifest0_msg init_members_msg paytest_options_ok(1) flag os0_accepts, of around0] unfolding list_all2_Nil2
    by (auto simp: ws_ok_def)
  show ?thesis using s(3) unfolding s(2) manifested0_def s(1) option.sel by auto
qed

text \<open>C7: \<open>init\<close> is completed. The directory, the socket and the feature bits are read from the configuration, a flag is read from
  the options, the request for \<open>listconfigs\<close> is written on the socket and answered there, and the state records all of them before the empty
  result is queued.\<close>

theorem init_completes:
  assumes "denotes buf toks (mk_obj ms)" "init_msg n dir network bits location xs ms"
    and "options_flag (po_name ` set opts) xs (disablempp sv) = Some flag" "os_accepts os dir location v"
    and "sv_manifested sv" "\<not> sv_initialized sv"
  shows "ld_command_handle os opts env erange now buf toks sv = Some (initialized_state n flag bits location v sv)"
  using handle_init_request [OF assms] .

theorem init_completes_witness:
  "ld_command_handle os0 paytest_options env0 False now0 (text_of (mk_obj init_members)) (toks_of 0 (mk_obj init_members) @ [terminator]) manifested0 =
     Some (initialized_state 1 True [(''init'', [8, 0x2a])] ''lightning-rpc'' ''2016'' manifested0)"
  using init_completes [OF handshake_denotes(2) init_members_msg _ os0_accepts manifested0(1,2), of paytest_options True env0 False now0]
    paytest_options_ok(2) manifested0(3) by simp

text \<open>C8: \<open>getmanifest\<close> is answered in the first state: the options, every command with the usage that its
  parameters give and with its description, the subscription, no hooks, and the topic of the notification.\<close>

theorem getmanifest_answers:
  assumes "denotes buf toks (mk_obj ms)" "getmanifest_msg n dep ms" "c_string pay_command"
  shows "\<exists>sv. plugin_start = Some sv \<and>
    ld_command_handle os (payz_options pay_command keysend_command) env erange now buf toks sv =
      Some (manifested_state n dep (payz_options pay_command keysend_command) sv)"
proof -
  have "list_all option_ok (payz_options pay_command keysend_command)" using assms(3) by (simp add: payz_options_def option_ok_def)
  then show ?thesis using plugin_start_spec handle_getmanifest_request [OF assms(1,2)] by metis
qed

theorem getmanifest_answers_witness:
  "\<exists>sv. plugin_start = Some sv \<and> ld_command_handle os0 paytest_options env0 False now0
     (text_of (mk_obj manifest_members0)) (toks_of 0 (mk_obj manifest_members0) @ [terminator]) sv =
     Some (manifested_state 0 False paytest_options sv)"
  unfolding paytest_options_def
  using getmanifest_answers [OF handshake_denotes(1) manifest0_msg, of "''pay''" os0 "''keysend2''" env0 False now0] by simp

text \<open>C9: the order of the handshake. A process that is still running has received \<open>getmanifest\<close> first and \<open>init\<close> second, has changed no component
  before the third message, and from the second on is connected and knows the maximal delay.\<close>

theorem handshake_order:
  assumes "plugin_start = Some sv0" "handle_all (ld_message os opts around) bufs (0, sv0) = Some (i, sv)"
  shows "i = length bufs \<and> (sv_manifested sv \<longleftrightarrow> bufs \<noteq> []) \<and> (sv_initialized sv \<longleftrightarrow> 2 \<le> length bufs) \<and>
    (\<forall>j<length bufs. j < 2 \<longrightarrow> method_of (fst (snd (around j))) (bufs ! j) = Some ([''getmanifest'', ''init''] ! j)) \<and>
    (length bufs \<le> 2 \<longrightarrow> sv_payz sv = sv_payz sv0) \<and> (2 \<le> length bufs \<longrightarrow> sv_maxdelay sv \<noteq> None \<and> rpc_connected sv)"
  using handle_all_stage [OF assms(2) plugin_start_stage [OF assms(1)]] by (auto simp: stage_def Suc_le_eq)

theorem handshake_order_witness:
  "\<exists>sv. handle_all (ld_message os0 paytest_options around0)
       [(text_of (mk_obj manifest_members0), toks_of 0 (mk_obj manifest_members0) @ [terminator]),
        (text_of (mk_obj init_members), toks_of 0 (mk_obj init_members) @ [terminator])] (0, the plugin_start) = Some (2, sv) \<and>
     sv_initialized sv \<and> sv_maxdelay sv \<noteq> None \<and> rpc_connected sv"
proof -
  let ?sv = "initialized_state 1 True [(''init'', [8, 0x2a])] ''lightning-rpc'' ''2016'' (manifested_state 0 False paytest_options (the plugin_start))"
  let ?bufs = "[(text_of (mk_obj manifest_members0), toks_of 0 (mk_obj manifest_members0) @ [terminator]),
        (text_of (mk_obj init_members), toks_of 0 (mk_obj init_members) @ [terminator])]"
  have run: "handle_all (ld_message os0 paytest_options around0) ?bufs (0, the plugin_start) = Some (2, ?sv)"
    using handshake_run [OF started_server(1) handshake_denotes(1) manifest0_msg paytest_options_ok(1) handshake_denotes(2) init_members_msg _ os0_accepts,
        of True around0 "[]"] paytest_options_ok(2) by (simp del: handle_all.simps(2))
  show ?thesis using run handshake_order [OF started_server(1) run] by simp
qed

text \<open>C10: a read that ends inside a number or literal that is the value of a member of a message stops the process, whatever stands before and after it
  in the message and whatever the handler does: the rest is taken for a second value of the label, which is refused. The same bytes in one
  read are handled. (A number that is cut inside an array becomes two elements instead.)\<close>

theorem split_value_stops:
  assumes "idle rd" "c = CObj (app_ms pre (MCons sep k w1 w2 (CPrim (a @ b)) post)) w" "wf_cst c" "prim_ok a" "prim_ok b" "ws_ok r" "r \<noteq> []"
    and "x = before_value pre sep k w1 w2 @ a" "x @ y = text_of c @ r"
  shows "read_pieces handle rd [x, y] s = None \<and>
    (\<exists>buf toks rd'. denotes buf toks c \<and> read_pieces handle rd [x @ y] s = do { s' \<leftarrow> handle buf toks s; Some (rd', s') })"
proof
  have y: "y = b @ text_ms post @ w @ CHR ''}'' # r" using assms(2,8,9) by (simp add: before_value_def)
  show "read_pieces handle rd [x, y] s = None"
    unfolding assms(8) y by (rule cut_stops [OF assms(1) assms(3) [unfolded assms(2)] assms(4-6)])
  have ok: "stream_ok [(c, r)]" using assms(2,3,6,7) by simp
  have ends: "\<forall>t\<in>set (stream_toks (int (length [])) [(c, r)]). tok_end t \<le> int (length (x @ y))"
    using toks_of_ends(1) [of 0 c] unfolding assms(9) ends_in_def by force
  have cut: "\<forall>i\<le>length [x @ y]. clean_cut (length (concat (take i [x @ y]))) (stream_toks (int (length [])) [(c, r)])"
    using ends clean_cut_0 [of 0 "[(c, r)]"] by (fastforce simp: le_Suc_eq clean_cut_def cuts_primitive_def)
  obtain bufs rd' where b: "list_all2 (\<lambda>(buf, toks) (c, _). denotes buf toks c) bufs [(c, r)]"
    "read_pieces handle rd [x @ y] s = do { s' \<leftarrow> handle_all handle bufs s; Some (rd', s') }"
    using idle_stream_handled [OF assms(1) _ ok _ cut, of handle] assms(9) by (auto simp: ws_ok_def)
  then obtain buf toks where "bufs = [(buf, toks)]" "denotes buf toks c" by (auto simp: list_all2_Cons2)
  with b(2) show "\<exists>buf toks rd'. denotes buf toks c \<and> read_pieces handle rd [x @ y] s = do { s' \<leftarrow> handle buf toks s; Some (rd', s') }"
    by (intro exI [of _ buf] exI [of _ toks] exI [of _ rd']) (simp del: read_pieces.simps)
qed

theorem split_value_stops_witness:
  "read_pieces (\<lambda>buf toks n. Some (Suc n)) new_reader [CHR ''{'' # QUOTE # ''id'' @ QUOTE # '':1'', ''2}'' @ [LF, LF]] 0 = None"
  using split_value_stops [OF idle_new, of _ MNil "[]" "''id''" "[]" "[]" "''1''" "''2''" MNil "[]" "[LF, LF]" _ "''2}'' @ [LF, LF]" "\<lambda>buf toks n. Some (Suc n)" 0]
  by (simp add: before_value_def layout_eval ws_ok_def)

subsection \<open>Commands\<close>

text \<open>C11: \<open>payecs_advance\<close>. The first system of the entity that matches is invoked: one notification with its components is queued before
  the reply, and its index is recorded. Without a list of systems, with an unregistered system before any match, or without a
  match, the request is refused with the error, which is recorded in \<open>lightningd:systems\<close>.\<close>

theorem advance_command:
  assumes "payz_inv z" "\<not> usage_only cmd" "cmd_id cmd = Some rid" "ect.fields (ec_of (top_ecs z)) e ms"
    and "denotes buf ts (mk_obj [(''entity'', CPrim (dec_of_nat (unat e)))])"
  shows "case systems_of ms of
      None \<Rightarrow> refused cmd p z e ms PAY_ECS_INVALID_SYSTEMS_COMPONENT msg_systems_absent (payecs_advance erange p cmd z buf ts)
    | Some ss \<Rightarrow> (case first_system (table_of z) e (ecsys_of (top_ecs z)) ss 0 of
        NoMatch \<Rightarrow> refused cmd p z e ms PAY_ECS_NOT_ADVANCEABLE msg_no_match (payecs_advance erange p cmd z buf ts)
      | Unregistered s \<Rightarrow> refused cmd p z e ms PAY_ECS_INVALID_SYSTEMS_COMPONENT (msg_unregistered s) (payecs_advance erange p cmd z buf ts)
      | Matching i reg \<Rightarrow> advanced cmd p z e ms i reg (payecs_advance erange p cmd z buf ts))"
  by (rule advance_vals [OF assms(1,3) entity_request [OF assms(2,5)] assms(4)])

theorem advance_command_witness:
  "refused a_command quiet started 7 [] PAY_ECS_INVALID_SYSTEMS_COMPONENT msg_systems_absent
    (payecs_advance False quiet a_command started (text_of entity7) (toks_of 0 entity7))"
proof -
  have "ect.fields (ec_of (top_ecs started)) 7 []" by (simp add: ect.fields_def started_table)
  from advance_command [OF started_inv(1) a_command this denotes_attached' [OF wf_entity7, unfolded entity7_def], of quiet False]
  show ?thesis by (simp add: systems_of_def entity7_def)
qed

text \<open>C12: the notification \<open>payecs_system_invoke\<close>. For an invocation of a built-in system, as \<open>ecsys_advance\<close> queues it, the code of the system
  runs exactly once, on the entity and the object of its components, and the invocation is appended to the trace, which keeps the
  last 100000 of them; the rest of the state is left to the code.\<close>

theorem notification_runs_system:
  assumes "payz_inv z" "format_time now = Some tm"
    and "strmap_get (system_funcs (top_ecs z)) s = Some w" "\<not> json_escape_needed s" "c_string s"
    and "length vals = length (wrapper_required w)"
    and "denotes buf params (mk_obj ms)" "map_of ms ''payload'' = Some (invoke_params s e (zip (wrapper_required w) vals))"
  shows "\<exists>ts z1 log. inner buf ts (mk_obj ((''entity'', CPrim (dec_of_nat (unat e))) # zip (wrapper_required w) vals)) \<and>
    payz_inv z1 \<and> only_trace z z1 \<and>
    payecs_systraces z1 = keep_last (payecs_systraces z @ [\<lparr>tr_entity = e, tr_json = text_of (trace_cst tm (CString s)
      (mk_obj ((''entity'', CPrim (dec_of_nat (unat e))) # zip (wrapper_required w) vals)))\<rparr>]) \<and>
    payecs_system_notification call erange now p z buf params = do {
      (r, ecs, p') \<leftarrow> call (wrapper_func w) (top_ecs z) (p\<lparr>js_arr := js_arr p @ [log_message LOG_DBG log]\<rparr>) e buf ts;
      Some (r, z1\<lparr>top_ecs := ecs\<rparr>, p') }"
  by (rule system_notification_spec [OF assms])

theorem notification_runs_system_witness:
  "\<exists>z1. payecs_system_notification (\<lambda>f ecs p e buf ts. Some (COMPLETE, ecs, p)) False now0 quiet started
      (text_of run_nonce) (toks_of 0 run_nonce) = Some z1 \<and> length (payecs_systraces (fst (snd z1))) = 1"
proof -
  let ?b = "hd builtin_blocks"
  have b: "?b \<in> set builtin_blocks" "b_name ?b = ''lightningd:generate_nonce''" "b_required ?b = [''lightningd:systems'']"
    "b_func ?b = Some GENERATE_NONCE" by (simp_all add: builtin_blocks_def sys_block_def)
  have w: "strmap_get (system_funcs (top_ecs started)) ''lightningd:generate_nonce'' = Some (block_wrapper ?b GENERATE_NONCE)"
    using started_inv(2) b by (fastforce simp: builtins_registered_def)
  have "wf_cst run_nonce" using wf_invocation [OF b(1), of "[CPrim ''1'']" 1]
    by (simp add: run_nonce_def b prim_ok_def primitive_bad_def primitive_stop_def)
  then have d: "denotes (text_of run_nonce) (toks_of 0 run_nonce) run_nonce" by simp
  have name: "\<not> json_escape_needed ''lightningd:generate_nonce''" "c_string ''lightningd:generate_nonce''"
    by (simp_all add: json_escape_needed_def escape_control_def)
  obtain tm where tm: "format_time now0 = Some tm" using now0_formats by blast
  from notification_runs_system [OF started_inv(1) tm w name, of "[CPrim ''1'']" _ _ _ 1 "\<lambda>f ecs p e buf ts. Some (COMPLETE, ecs, p)" False quiet,
      OF _ d [unfolded run_nonce_def]]
  show ?thesis by (auto simp: run_nonce_def block_wrapper_def b keep_last_def MAX_SYSTRACES_def started_traces)
qed

text \<open>C13: \<open>payecs_setcomponents\<close> with one write and one expectation is a compare-and-set. When the entity does not hold what is
  expected, nothing is written and the request is refused; otherwise the components of the write are attached or, for \<open>null\<close>,
  detached, and no other component changes. With \<open>exact\<close> in a write only the first component of the entity is removed beforehand. With \<open>exact\<close> in
  an expectation the entity must have as many components as the expectation has members, those with the value \<open>null\<close> included; this is what
  \<open>PAYECS.md\<close> says when no member is \<open>null\<close>, and differs from it otherwise.\<close>

theorem setcomponents_compare_and_set:
  assumes "payz_inv z" "\<not> usage_only cmd" "cmd_id cmd = Some rid" "spec_members ms" "spec_members ms'"
    and "denotes buf ts (mk_obj [(''writes'', spec_cst e x ms), (''expected'', spec_cst e' x' ms')])"
  shows "(if \<not> expectation (table_of z) e' x' ms'
    then payecs_setcomponents erange p cmd z buf ts =
      rejected rid p z PAYECS_SETCOMPONENTS_UNEXPECTED_COMPONENTS ''Validation of expected failed.''
    else \<exists>z'. payecs_setcomponents erange p cmd z buf ts = accepted rid p z' \<and> payz_inv z' \<and>
      table_of z' = tab_over (if x \<and> names_of (table_of z) e \<noteq> [] then tab_upd (table_of z) e (hd (names_of (table_of z) e)) None
        else table_of z) e (map_of ms)) \<and>
    (x' \<and> (\<exists>(k, c)\<in>set ms'. null_cst c) \<or> expectation (table_of z) e' x' ms' = documented_expectation (table_of z) e' x' ms')"
proof -
  have "finite {cn. table_of z e' cn \<noteq> None}" using finite_names assms(1) by (simp add: payz_inv_def ecs_inv_def)
  moreover have "distinct (map fst ms')" using assms(5) by (simp add: spec_members_def)
  ultimately have "x' \<and> (\<exists>(k, c)\<in>set ms'. null_cst c) \<or> expectation (table_of z) e' x' ms' = documented_expectation (table_of z) e' x' ms'"
    using expectation_documented [of "table_of z" e' ms' x'] by fastforce
  then show ?thesis using setcomponents_one [OF assms, of erange p] by (simp add: accepted_def rejected_def)
qed

theorem setcomponents_compare_and_set_witness:
  "\<exists>z'. payecs_setcomponents False quiet a_command started (text_of write_a) (toks_of 0 write_a) = accepted 7 quiet z' \<and>
    table_of z' 1 ''a'' = Some (attached (CPrim ''5''))"
proof -
  have empty: "table_of started e cn = None" for e cn using started_inv(4) by blast
  have "names_of (table_of started) 1 = []" by (simp add: names_of_def empty)
  then have "expectation (table_of started) 1 True []" by (simp add: expectation_def)
  then show ?thesis
    using setcomponents_compare_and_set [OF started_inv(1) a_command a_member denotes_attached' [OF wf_write_a, unfolded write_a_def], of False quiet]
    by (auto simp: write_a_def tab_over_def value_of_def null_cst_def)
qed

text \<open>C14: \<open>payecs_setdefaultsystems\<close> gives the entity the default systems between the systems prepended and appended, keeping the other
  members of \<open>lightningd:systems\<close>; the first system that is not registered refuses the request and changes nothing.\<close>

theorem setdefaultsystems_sets:
  assumes "payz_inv z" "\<not> usage_only cmd" "cmd_id cmd = Some rid" "ecst.fields (top_ecs z) e ms"
    and "denotes buf ts (mk_obj [(''entity'', CPrim (dec_of_nat (unat e))), (''prepend'', cp), (''append'', ca)])"
    and "strings_of_cst cp = Some pre" "strings_of_cst ca = Some app"
  shows "case filter (\<lambda>s. \<not> ecs_system_exists (top_ecs z) s) (pre @ app) of
      s # _ \<Rightarrow> payecs_setdefaultsystems erange p cmd z buf ts = rejected rid p z JSONRPC2_INVALID_PARAMS (''Unregistered system: '' @ s)
    | [] \<Rightarrow> \<exists>z'. payecs_setdefaultsystems erange p cmd z buf ts = accepted rid p z' \<and> payz_inv z' \<and>
        table_of z' = tab_upd (table_of z) e syscomp (Some (attached (mk_obj (set_field ''systems''
          (Some (mk_arr (map CString (pre @ default_systems z @ app)))) ms))))"
proof -
  have wf: "wf_cst cp" "wf_cst ca" using assms(5) by (auto simp: denotes_def mk_obj_def wf_member_def)
  have "list_all text_ok (opt_strs (Some (PStrs pre)))" "list_all text_ok (opt_strs (Some (PStrs app)))"
    using strings_of_cst_utf8 [OF wf(1) assms(6)] strings_of_cst_utf8 [OF wf(2) assms(7)] by (auto simp: list_all_iff)
  from setdefaultsystems_vals [OF assms(1,3,4) setdefault_request [OF assms(2,5,6,7), of p erange] this] show ?thesis
    by (cases "filter (\<lambda>s. \<not> ecs_system_exists (top_ecs z) s) (pre @ app)") (simp_all add: accepted_def rejected_def del: filter_append)
qed

theorem setdefaultsystems_sets_witness:
  "\<exists>z'. payecs_setdefaultsystems False quiet a_command started (text_of set_defaults) (toks_of 0 set_defaults) = accepted 7 quiet z' \<and>
    table_of z' 1 syscomp \<noteq> None"
  using setdefaultsystems_sets [OF started_inv(1) a_command started_fields denotes_attached' [OF wf_set_defaults, unfolded set_defaults_def]
      no_strings no_strings, of False quiet]
  by (auto simp: set_defaults_def)

text \<open>C15: \<open>payecs_newsystem\<close>. A new name is registered with the components given, in the table of systems and in the registry of external systems, and
  nothing else changes; the same request again succeeds and changes nothing, as every repeated registration does; a
  name that is taken otherwise is refused with an error. A system that disallows components without requiring any makes the assertion in
  \<open>ecs_register\<close> fail. The list \<open>disallowed\<close> may be left out.\<close>

theorem newsystem_registers:
  fixes p :: "'r plugin" and z :: "'f payz"
  assumes "payz_inv z" "\<not> usage_only cmd" "cmd_id cmd = Some rid" "c_string s"
    and "denotes buf ts (mk_obj ([(''system'', CStr s), (''required'', cr)] @ given ''disallowed'' cd))"
    and "strings_of_cst cr = Some req" "strings_given cd = Some dis"
  shows "if strmap_get (payecs_registry z) s = Some \<lparr>ex_system = s, ex_required = req, ex_disallowed = dis\<rparr>
      then payecs_newsystem p cmd z buf ts = accepted rid p z
    else if ecs_system_exists (top_ecs z) s
      then payecs_newsystem p cmd z buf ts =
        rejected rid p z JSONRPC2_INVALID_PARAMS (''Conflict with existing `system`: '' @ s)
    else if req = [] \<and> dis \<noteq> [] then payecs_newsystem p cmd z buf ts = None
    else \<exists>z'. payecs_newsystem p cmd z buf ts = accepted rid p z' \<and> payz_inv z' \<and> ec_of (top_ecs z') = ec_of (top_ecs z) \<and>
      default_systems z' = default_systems z \<and> payecs_systraces z' = payecs_systraces z \<and>
      strmap_get (payecs_registry z') = (strmap_get (payecs_registry z))
        (s \<mapsto> \<lparr>ex_system = s, ex_required = req, ex_disallowed = dis\<rparr>) \<and>
      strmap_get (system_funcs (top_ecs z')) = strmap_get (system_funcs (top_ecs z)) \<and>
      strmap_get (system_map (ecsys_of (top_ecs z'))) = (strmap_get (system_map (ecsys_of (top_ecs z))))
        (s \<mapsto> \<lparr>reg_system = s, requiredComponents = req, disallowedComponents = dis\<rparr>) \<and>
      (\<forall>p' :: 'r plugin. payecs_newsystem p' cmd z' buf ts = accepted rid p' z')"
proof -
  let ?x = "\<lparr>ex_system = s, ex_required = req, ex_disallowed = dis\<rparr>"
  have again: "\<forall>p' :: 'r plugin. payecs_newsystem p' cmd z' buf ts = accepted rid p' z'"
    if "payz_inv z'" "strmap_get (payecs_registry z') = (strmap_get (payecs_registry z))(s \<mapsto> ?x)" for z'
  proof
    fix p' :: "'r plugin"
    show "payecs_newsystem p' cmd z' buf ts = accepted rid p' z'"
      using newsystem_vals [OF that(1) assms(3,4) newsystem_request [OF assms(2,5,4,6,7), of p']] that(2)
      by (simp add: accepted_def opt_strs_given [OF assms(7)])
  qed
  show ?thesis
    using newsystem_vals [OF assms(1,3,4) newsystem_request [OF assms(2,5,4,6,7), of p]] again
    unfolding opt_strs_given [OF assms(7)] accepted_def rejected_def ex_reg_def
    by (auto split: if_splits)
qed

theorem newsystem_registers_witness:
  "\<exists>z'. payecs_newsystem quiet a_command started (text_of my_system) (toks_of 0 my_system) = accepted 7 quiet z' \<and>
    payecs_newsystem quiet a_command z' (text_of my_system) (toks_of 0 my_system) = accepted 7 quiet z'"
proof -
  have strs: "strings_of_cst (mk_arr (map CString [''x''])) = Some [''x'']" "strings_given (Some (mk_arr (map CString [''y'']))) = Some [''y'']"
    using strings_of_mk_arr [of "[''x'']"] strings_of_mk_arr [of "[''y'']"] by (simp_all add: unescapable_def escape_control_def)
  have "\<not> ecs_system_exists (top_ecs started) ''mine''" by (rule not_started) (simp add: builtin_blocks_def sys_block_def)
  moreover from this have "strmap_get (payecs_registry started) ''mine'' = None" by (rule registry_none [OF started_inv(1)])
  moreover have den: "denotes (text_of my_system) (toks_of 0 my_system)
      (mk_obj ([(''system'', CStr ''mine''), (''required'', mk_arr (map CString [''x'']))] @ given ''disallowed'' (Some (mk_arr (map CString [''y''])))))"
    using denotes_attached' [OF wf_my_system] by (simp add: my_system_def)
  moreover have "c_string ''mine''" by simp
  ultimately obtain z' where "payecs_newsystem quiet a_command started (text_of my_system) (toks_of 0 my_system) = accepted 7 quiet z'"
    "\<forall>p' :: out_req plugin. payecs_newsystem p' a_command z' (text_of my_system) (toks_of 0 my_system) = accepted 7 p' z'"
    using newsystem_registers [OF started_inv(1) a_command _ den strs, of quiet] by auto
  then show ?thesis by blast
qed

text \<open>C16: \<open>payecs_listentities\<close>, with or without its two lists. As long as entity 4294967295 has no component, it lists, in increasing order and each
  with all its components and their values, exactly the entities that have a component, have all the required ones and none of the disallowed
  ones from the tenth on: the first nine disallowed components of a request are ignored. When that entity has a component, the upper bound
  of the loop wraps around to 0 and nothing is listed.\<close>

theorem listentities_lists:
  assumes "payz_inv z" "\<not> usage_only cmd" "cmd_id cmd = Some rid"
    and "denotes buf ts (mk_obj (given ''required'' cr @ given ''disallowed'' cd))"
    and "strings_given cr = Some req" "strings_given cd = Some dis"
  shows "\<exists>es cs. payecs_listentities p cmd z buf ts = resulted rid p z [(''entities'', mk_arr cs)] \<and>
    sorted_wrt (<) es \<and> list_all2 (entity_shown (table_of z)) es cs \<and>
    set es = (if names_of (table_of z) 4294967295 \<noteq> [] then {}
      else {e. names_of (table_of z) e \<noteq> [] \<and> set req \<subseteq> set (names_of (table_of z) e) \<and>
        set (drop 9 dis) \<inter> set (names_of (table_of z) e) = {}})"
proof -
  have last: "(- 1 :: u32) = 4294967295" by simp
  show ?thesis
    using listentities_result [OF assms(1,3) listentities_request [OF assms(2,4,5,6), of p]] opt_strs_given [OF assms(5)] opt_strs_given [OF assms(6)]
    unfolding lists_entities_def last finished_resulted [OF assms(3)] listed_iff by force
qed

theorem listentities_lists_witness:
  "payecs_listentities quiet a_command started (text_of (mk_obj [])) (toks_of 0 (mk_obj [])) = resulted 7 quiet started [(''entities'', mk_arr [])]"
proof -
  have none: "names_of (table_of started) e = []" for e by (simp add: names_of_def started_table)
  from listentities_lists [OF started_inv(1) a_command, of _ _ None None "[]" "[]" quiet] denotes_attached' [OF wf_no_params]
  show ?thesis by (auto simp: none)
qed

text \<open>C17: the commands that read or allocate. On an empty request \<open>payecs_newentity\<close> answers with the next identifier and counts it, and
  \<open>payecs_getdefaultsystems\<close> with the default systems; \<open>payecs_getcomponents\<close> answers with exactly the components it is asked for, of the entity it is asked
  for, in order and with their values, \<open>null\<close> for one that is not attached; \<open>payecs_systrace\<close> answers with the trace of the entity it is
  asked for. On any other well-formed parameters each of them sends exactly one reply and changes no component.\<close>

theorem commands_answer:
  assumes "payz_inv z" "\<not> usage_only cmd" "cmd_id cmd = Some rid" "denotes buf0 ts0 (mk_obj [])"
    and "denotes buf1 ts1 (mk_obj [(''entity'', CPrim (dec_of_nat (unat e))), (''components'', cc)])" "strings_of_cst cc = Some cns"
    and "denotes buf2 ts2 (mk_obj [(''entity'', CPrim (dec_of_nat (unat e)))])" "denotes buf ts c"
  shows "(\<exists>z'. payecs_newentity p cmd z buf0 ts0 = resulted rid p z' [(''entity'', CPrim (dec_of_nat (unat (next_entity (ec_of (top_ecs z))))))] \<and>
      payz_inv z' \<and> table_of z' = table_of z \<and> next_entity (ec_of (top_ecs z')) = next_entity (ec_of (top_ecs z)) + 1) \<and>
    payecs_getdefaultsystems p cmd z buf0 ts0 = resulted rid p z [(''systems'', mk_arr (map CString (default_systems z)))] \<and>
    (\<exists>ms. payecs_getcomponents erange p cmd z buf1 ts1 = resulted rid p z ms \<and> entity_members (table_of z) e cns ms) \<and>
    (\<exists>ms. payecs_systrace erange p cmd z buf2 ts2 = resulted rid p z ms \<and> shows_trace z e ms) \<and>
    (\<forall>h\<in>{payecs_newentity p cmd z buf ts, payecs_getdefaultsystems p cmd z buf ts, payecs_getcomponents erange p cmd z buf ts,
        payecs_systrace erange p cmd z buf ts}. answers cmd p z (\<lambda>z' ms. payz_inv z' \<and> table_of z' = table_of z) h)"
proof (intro conjI)
  note empty = empty_request [OF assms(2,4), of p]
  show "\<exists>z'. payecs_newentity p cmd z buf0 ts0 = resulted rid p z' [(''entity'', CPrim (dec_of_nat (unat (next_entity (ec_of (top_ecs z))))))] \<and>
      payz_inv z' \<and> table_of z' = table_of z \<and> next_entity (ec_of (top_ecs z')) = next_entity (ec_of (top_ecs z)) + 1"
    using newentity_result [OF assms(1,3) empty] unfolding finished_resulted [OF assms(3)] .
  show "payecs_getdefaultsystems p cmd z buf0 ts0 = resulted rid p z [(''systems'', mk_arr (map CString (default_systems z)))]"
    using getdefaultsystems_result [OF assms(1,3) empty] unfolding finished_resulted [OF assms(3)] .
  show "\<exists>ms. payecs_getcomponents erange p cmd z buf1 ts1 = resulted rid p z ms \<and> entity_members (table_of z) e cns ms"
    using getcomponents_result [OF assms(1,3) getcomponents_request [OF assms(2,5,6), of p erange]] unfolding finished_resulted [OF assms(3)] by blast
  show "\<exists>ms. payecs_systrace erange p cmd z buf2 ts2 = resulted rid p z ms \<and> shows_trace z e ms"
    using systrace_result [OF assms(1,3) entity_request [OF assms(2,7), of p erange]] unfolding finished_resulted [OF assms(3)] by blast
  show "\<forall>h\<in>{payecs_newentity p cmd z buf ts, payecs_getdefaultsystems p cmd z buf ts, payecs_getcomponents erange p cmd z buf ts,
      payecs_systrace erange p cmd z buf ts}. answers cmd p z (\<lambda>z' ms. payz_inv z' \<and> table_of z' = table_of z) h"
    using assms(1)
    by (auto intro: answers_mono [OF newentity_answers [OF assms(1-3,8)]] answers_mono [OF getcomponents_answers [OF assms(1-3,8)]]
      answers_mono [OF getdefaultsystems_answers [OF assms(1-3,8)]] answers_mono [OF systrace_answers [OF assms(1-3,8)]])
qed

theorem commands_answer_witness:
  "payecs_getcomponents False quiet a_command started (text_of ask_a) (toks_of 0 ask_a) =
     resulted 7 quiet started [(''entity'', CPrim (dec_of_nat (unat (7 :: u32)))), (''a'', CPrim ''null'')]"
proof -
  have "strings_of_cst (mk_arr (map CString [''a''])) = Some [''a'']"
    by (rule strings_of_mk_arr) (simp add: unescapable_def escape_control_def)
  from commands_answer [OF started_inv(1) a_command denotes_attached' [OF wf_no_params] denotes_attached' [OF wf_ask_a, unfolded ask_a_def] this
      denotes_attached' [OF wf_entity7, unfolded entity7_def] denotes_attached' [OF wf_entity7], of quiet False]
  obtain ms where "payecs_getcomponents False quiet a_command started (text_of ask_a) (toks_of 0 ask_a) = resulted 7 quiet started ms"
    "entity_members (table_of started) 7 [''a''] ms" unfolding ask_a_def by blast
  then show ?thesis by (auto simp: entity_members_def list_all2_Cons1 value_shown_def started_table)
qed

text \<open>C18: \<open>param\<close> is total. For every JSON value as parameters, by name or by position, either one error reply is sent and the command
  has failed, or every parameter gets a value of its declared kind, required ones always.\<close>

theorem param_total_typed:
  assumes "\<not> usage_only cmd" "cmd_id cmd = Some rid" "denotes buf ts c" "all_good cmd buf Q ds" "req_first ds"
  shows "\<exists>r. param p cmd buf ts ds False = Some r \<and>
    (case r of Inl p' \<Rightarrow> failed cmd p (COMPLETE, p') | Inr vals \<Rightarrow> vals_given ds Q vals)"
  using param_total [OF assms, of p] by (cases rule: outcomeE) auto

theorem param_total_typed_witness:
  "\<exists>r. param quiet a_command ''[]'' (toks_of 0 (CArr ENil [])) (entity_decls False) False = Some r \<and>
    (\<forall>vals. r = Inr vals \<longrightarrow> (\<exists>e. vals = [Some (PNum e)]))"
proof -
  have "denotes ''[]'' (toks_of 0 (CArr ENil [])) (CArr ENil [])" using denotes_attached' [of "CArr ENil []"] by (simp add: sep_ok_def)
  from param_total_typed [OF a_command this, of "(!) [num_val]" "entity_decls False" quiet]
  obtain r where r: "param quiet a_command ''[]'' (toks_of 0 (CArr ENil [])) (entity_decls False) False = Some r"
    "case r of Inl p' \<Rightarrow> failed a_command quiet (COMPLETE, p')
      | Inr vals \<Rightarrow> vals_given (entity_decls False :: (out_req, pval) param list) ((!) [num_val]) vals"
    by (auto simp: all_good_eval good_num)
  then show ?thesis by (cases r) (auto simp: vals_given_eval num_val_def split: option.splits)
qed

section \<open>Advancing an entity\<close>

text \<open>C19: \<open>ecsys_advance\<close> runs the first matching system. When \<open>lightningd:systems\<close> of the entity holds an
  object whose \<open>systems\<close> field lists names, the ones before \<open>s\<close> are registered but do not match and \<open>s\<close>
  matches (all its required components attached, at least one required, no disallowed one attached),
  the call ends in the normal callback, only the \<open>current\<close> field of \<open>lightningd:systems\<close> changes, to the index
  of \<open>s\<close>, and exactly one notification is queued, naming the system, the entity and the value of
  every required component.\<close>

theorem advance_runs_first_match:
  assumes "ec_inv ec" "ecsys_inv ecsys"
    and "wf_cst c" "\<not> null_cst c" "ec_table ec e syscomp = Some (attached c)"
    and "systems_of (members c) = Some (pre @ s # post)" "list_all (skips (ec_table ec) e ecsys) pre"
    and "strmap_get (system_map ecsys) s = Some reg" "matches (ec_table ec) e reg"
  shows "\<exists>ec' vals. ecsys_advance ec_get_component ec_set_component ec ecsys p e =
      Some (Inr (), ec', p\<lparr>js_arr := js_arr p @ [message (notify_cst s e (zip (requiredComponents reg) vals))]\<rparr>) \<and>
    ec_inv ec' \<and>
    ec_table ec' = tab_upd (ec_table ec) e syscomp
      (Some (attached (mk_obj (set_field ''current'' (Some (CPrim (dec_of_nat (length pre)))) (members c))))) \<and>
    list_all2 (\<lambda>cn v. ec_table ec' e cn = Some (attached v)) (requiredComponents reg) vals"
proof -
  have "ect.fields ec e (members c)" using assms(3-5) by (auto simp: ect.fields_def)
  from ect.advance_spec [OF assms(1) this assms(2), of p] show ?thesis
    using assms(2,6-9) first_system_skip [OF assms(7), of "s # post" 0]
    by (auto simp: ect.advance_runs_def ecsys_inv_def)
qed

text \<open>A registry with the system \<open>s\<close> on component \<open>x\<close>, and an entity ready for it.\<close>

definition idle :: "nat plugin" where
  "idle = \<lparr>js_arr = [], rpc_js_arr = [], next_outreq_id = 0, out_reqs = None, usagemap = None\<rparr>"

definition ready :: cst where
  "ready = mk_obj [(''systems'', mk_arr [CStr ''s''])]"

lemma ready_registry:
  obtains reg where "ecsys_register ecsys_new ''s'' (Some [''x'']) None = Some reg" "ecsys_inv reg"
    "strmap_get (system_map reg) ''s'' = Some \<lparr>reg_system = ''s'', requiredComponents = [''x''], disallowedComponents = []\<rparr>"
  using ecsys_register_fresh [OF ecsys_inv_new, of "''s''" "Some [''x'']" None]
  by (auto simp: ecsys_system_exists_def ecsys_new_def sm.lookup_empty)

lemma ready_table:
  obtains ec where "ec_inv ec" "ec_table ec 1 syscomp = Some (attached ready)" "ec_table ec 1 ''x'' = Some (attached sample)"
proof -
  have "list_all op_ok [Attach 1 syscomp ready, Attach 1 ''x'' sample]"
    by (simp add: wf_sample ready_def mk_obj_def mk_arr_def layout_eval)
  from ec_history_refines [OF ec_inv_new this] show thesis
    using that by (auto simp: ec_abs_def value_of_def null_cst_def ready_def mk_obj_def sample_def syscomp_def)
qed

lemma ready_systems: "systems_of (members ready) = Some [''s'']"
  by (simp add: ready_def systems_of_def mk_arr_def unescaped_def json_escape_string_def)

lemma wf_ready: "wf_cst ready" "\<not> null_cst ready"
  by (simp_all add: ready_def mk_obj_def mk_arr_def layout_eval null_cst_def)

theorem advance_runs_first_match_witness:
  "\<exists>ec ecsys ec' p'. ec_inv ec \<and> ecsys_inv ecsys \<and>
    ecsys_advance ec_get_component ec_set_component ec ecsys idle 1 =
      Some (Inr (), ec', p')"
proof -
  obtain reg where reg: "ecsys_inv reg"
    "strmap_get (system_map reg) ''s'' = Some \<lparr>reg_system = ''s'', requiredComponents = [''x''], disallowedComponents = []\<rparr>"
    using ready_registry by blast
  obtain ec where ec: "ec_inv ec" "ec_table ec 1 syscomp = Some (attached ready)" "ec_table ec 1 ''x'' = Some (attached sample)"
    using ready_table by blast
  have "matches (ec_table ec) 1 \<lparr>reg_system = ''s'', requiredComponents = [''x''], disallowedComponents = []\<rparr>"
    using ec(3) by (simp add: matches_def)
  from advance_runs_first_match [OF ec(1) reg(1) wf_ready ec(2) _ _ reg(2) this, of "[]" "[]" idle]
  show ?thesis using ec(1) reg(1) ready_systems by auto
qed

section \<open>The entity-component table\<close>

text \<open>C20: after any sequence of \<open>ec_newentity\<close>, \<open>ec_set_component_datuml\<close> and \<open>ec_detach\<close> calls on a new
  table no call has faulted, the table satisfies its invariant, and its identifier
  counter and contents are those of the abstract table run on the same sequence.\<close>

theorem ec_refines_table:
  assumes "list_all op_ok ops"
  shows "\<exists>ec. ec_history ops ec_new = Some ec \<and> ec_inv ec \<and>
    (next_entity ec, ec_table ec) = fold tab_exec ops (1, \<lambda>e cn. None)"
proof -
  have "ec_abs ec_new = (1, \<lambda>e cn. None)"
    unfolding ec_abs_def ec_table_new [abs_def] by (simp add: ec_new_def)
  then show ?thesis using ec_history_refines [OF ec_inv_new assms] by (simp add: ec_abs_def)
qed

theorem ec_refines_table_witness:
  "\<exists>ec. ec_history [NewEntity, Attach 1 ''x'' sample] ec_new = Some ec \<and> ec_table ec 1 ''x'' = Some (attached sample)"
proof -
  have "list_all op_ok [NewEntity, Attach 1 ''x'' sample]" by (simp add: wf_sample)
  from ec_refines_table [OF this] show ?thesis
    by (auto simp: value_of_def null_cst_def sample_def)
qed

text \<open>C21: \<open>ec_get_entity_bounds\<close> returns the least identifier in use and one past the greatest, in 32-bit
  arithmetic, so the half-open interval covers every entity unless 0xFFFFFFFF is in use.\<close>

theorem ec_bounds:
  assumes "ec_inv ec" "occupied ec \<noteq> {}"
  shows "\<exists>lo hi. ec_get_entity_bounds ec = Some (lo, hi + 1) \<and> lo \<in> occupied ec \<and> hi \<in> occupied ec \<and>
    (\<forall>e\<in>occupied ec. lo \<le> e \<and> e \<le> hi)"
  by (rule ec_get_entity_bounds_spec [OF assms])

theorem ec_bounds_witness:
  "\<exists>ec lo hi. ec_inv ec \<and> ec_get_entity_bounds ec = Some (lo, hi + 1) \<and> lo \<in> occupied ec \<and> hi \<in> occupied ec"
proof -
  obtain ec where ec: "ec_inv ec" "ec_table ec = tab_upd (ec_table ec_new) 1 ''x'' (value_of sample)"
    using ec_set_component_denotes [OF ec_inv_new _ denotes_attached' [OF wf_sample], of "''x''" 1] by auto
  have "ec_table ec 1 ''x'' \<noteq> None" unfolding ec(2) by (simp add: value_of_def null_cst_def sample_def)
  then have "occupied ec \<noteq> {}" by (auto simp: occupied_def)
  from ec_bounds [OF ec(1) this] ec(1) show ?thesis by blast
qed

text \<open>C22: the identifiers \<open>ec_newentity\<close> hands out are pairwise distinct and not 0 for the first
  2^32 - 1 calls; the next call returns 0, which the header reserves as invalid.\<close>

theorem ec_newentity_fresh:
  assumes "n < 2 ^ 32"
  shows "distinct (fst (ec_newentities n ec_new)) \<and> 0 \<notin> set (fst (ec_newentities n ec_new)) \<and>
    fst (ec_newentity (snd (ec_newentities (2 ^ 32 - 1) ec_new))) = 0"
proof -
  have "(of_nat (2 ^ 32 - 1) :: u32) = - 1" by simp
  then show ?thesis
    using ec_newentities_distinct [OF assms] ec_newentities_next [of "2 ^ 32 - 1" ec_new]
    by (simp only: ec_newentity_def fst_conv) (simp add: ec_new_def)
qed

theorem ec_newentity_fresh_witness:
  "distinct (fst (ec_newentities 1000 ec_new)) \<and> 0 \<notin> set (fst (ec_newentities 1000 ec_new))"
  using ec_newentity_fresh [of 1000] by simp

section \<open>JSON text\<close>

text \<open>C23: \<open>jsmn_parse\<close> reads every JSON value. For a value laid out in any admissible way (arbitrary
  white space, separators, nesting), between white space, with room for its tokens, one call
  of the parser consumes the whole text, returns the number of tokens and leaves exactly the
  tokens that describe the value, with the offsets of every part.\<close>

theorem jsmn_parse_layout:
  assumes "wf_cst c" "ws_ok w1" "ws_ok w2" "length (toks_of 0 c) \<le> num"
  shows "\<exists>s. jsmn_parse jsmn_init (w1 @ text_of c @ w2) [] num =
    (JCount (length (toks_of 0 c)), \<lparr>jpos = length (w1 @ text_of c @ w2), toksuper = s\<rparr>,
     toks_of (int (length w1)) c)"
  by (rule jsmn_parse_cst [OF assms])

theorem jsmn_parse_layout_witness:
  "\<exists>s. jsmn_parse jsmn_init ('' '' @ text_of sample @ []) [] 9 =
    (JCount 5, \<lparr>jpos = 16, toksuper = s\<rparr>, toks_of 1 sample)"
  using jsmn_parse_layout [OF wf_sample, of "'' ''" "[]" 9] by (simp add: sample_def ws_ok_def numeral_eq_Suc)

text \<open>C24: the loop of \<open>json_parse_input\<close> that doubles the token array whenever \<open>jsmn_parse\<close> reports
  \<open>JSMN_ERROR_NOMEM\<close> and resumes the parser returns for every input, every intermediate state
  of the parser and every non-empty allocation, and its result is that of a single
  parse with enough room.\<close>

theorem json_parse_loop_returns:
  assumes "0 < cap" "length toks + length (drop (jpos parser) input) < num"
  shows "\<exists>cap'\<ge>cap. json_parse_again parser toks cap input =
    (case jsmn_parse parser input toks num of (ret, parser', toks') \<Rightarrow> Some (ret, parser', toks', cap'))"
  by (rule json_parse_again_returns [OF assms])

theorem json_parse_loop_returns_witness:
  "\<exists>cap'\<ge>1. json_parse_again jsmn_init [] 1 ''[1,[2]]'' =
    (case jsmn_parse jsmn_init ''[1,[2]]'' [] 100 of (ret, parser', toks') \<Rightarrow> Some (ret, parser', toks', cap'))"
  using json_parse_loop_returns [of 1 "[]" jsmn_init "''[1,[2]]''" 100] by (simp add: jsmn_init_def)

text \<open>C25: an object written with \<open>json_object_start\<close>, one \<open>json_add_literal\<close> per member and
  \<open>json_object_end\<close> is read back by \<open>json_parse_simple\<close>, and \<open>json_get_member\<close> finds
  under each label the value of the first member with it, and nothing under other labels.\<close>

theorem write_parse_lookup:
  assumes "list_all (\<lambda>(k, c). str_ok k \<and> wf_cst c) ms"
  shows "\<exists>js toks. (do {
      js \<leftarrow> json_object_start new_json_stream None;
      json_object_end (fold (\<lambda>(k, c) js. json_add_literal js (Some k) (text_of c)) ms js) }) = Some js \<and>
    json_parse_simple (outbuf js) = Some (Some toks) \<and>
    (\<forall>label. case map_of ms label of
        None \<Rightarrow> json_get_member (outbuf js) toks label = Some None
      | Some c \<Rightarrow> \<exists>ts. json_get_member (outbuf js) toks label = Some (Some ts) \<and> denotes (outbuf js) ts c)"
proof -
  have wf: "wf_cst (mk_obj ms)"
    using assms by (intro wf_mk_obj) (simp add: wf_member_def split_beta list_all_iff)
  then have "denotes (text_of (mk_obj ms)) (toks_of 0 (mk_obj ms) @ [terminator]) (mk_obj ms)"
    by (rule denotes_attached)
  then have "case map_of ms label of
        None \<Rightarrow> json_get_member (text_of (mk_obj ms)) (toks_of 0 (mk_obj ms) @ [terminator]) label = Some None
      | Some c \<Rightarrow> \<exists>ts. json_get_member (text_of (mk_obj ms)) (toks_of 0 (mk_obj ms) @ [terminator]) label = Some (Some ts)
          \<and> denotes (text_of (mk_obj ms)) ts c" for label
    using json_get_member_mk_obj [of _ _ ms label] inner_denotes by (fastforce split: option.splits)
  moreover have "(do { js \<leftarrow> json_object_start new_json_stream None;
      json_object_end (fold (\<lambda>(k, c) js. json_add_literal js (Some k) (text_of c)) ms js) }) =
    Some \<lparr>jout_empty = False, outbuf = text_of (mk_obj ms)\<rparr>"
    by (simp add: json_object_start_eq json_add_literal_eq write_object [of _ _ None] add_value_new)
  ultimately show ?thesis
    using json_parse_simple_text [OF wf]
    by (intro exI [of _ "\<lparr>jout_empty = False, outbuf = text_of (mk_obj ms)\<rparr>"]
        exI [of _ "toks_of 0 (mk_obj ms) @ [terminator]"]) (simp only: json_out.select_convs, blast)
qed

theorem write_parse_lookup_witness:
  "\<exists>js toks ts. (do {
      js \<leftarrow> json_object_start new_json_stream None;
      json_object_end (fold (\<lambda>(k, c) js. json_add_literal js (Some k) (text_of c)) [(''x'', sample)] js) }) = Some js \<and>
    json_parse_simple (outbuf js) = Some (Some toks) \<and>
    json_get_member (outbuf js) toks ''x'' = Some (Some ts) \<and> denotes (outbuf js) ts sample"
proof -
  have "list_all (\<lambda>(k, c). str_ok k \<and> wf_cst c) [(''x'', sample)]"
    by (simp add: wf_sample layout_eval)
  from write_parse_lookup [OF this] show ?thesis
    by (auto simp del: fold_simps dest!: spec [of _ "''x''"])
qed

text \<open>C26: \<open>json_equal\<close> never faults on parsed values, and decides equality of the values they
  denote, with white space ignored and objects compared as finite maps, provided no object
  has a label twice.\<close>

theorem json_equal_values:
  assumes "denotes b1 t1 c1" "denotes b2 t2 c2" "no_dup c1" "no_dup c2"
  shows "json_equal b1 t1 b2 t2 = Some (jval_of c1 = jval_of c2)"
  using json_equal_denotes [OF assms(1,2)] cst_equal_jval(1) [OF assms(3,4)] by simp

theorem json_equal_values_witness:
  "json_equal (text_of sample) (toks_of 0 sample) (text_of sample) (toks_of 0 sample) = Some True"
  using json_equal_values [OF denotes_attached' [OF wf_sample] denotes_attached' [OF wf_sample]]
  by (simp add: sample_def)

text \<open>Without that proviso \<open>json_equal\<close> is not symmetric: \<open>{"a":1,"a":1}\<close> is found equal to
  \<open>{"a":1,"b":2}\<close>, but not the other way round.\<close>

definition dup_a :: cst where
  "dup_a = mk_obj [(''a'', CPrim ''1''), (''a'', CPrim ''1'')]"

definition a_b :: cst where
  "a_b = mk_obj [(''a'', CPrim ''1''), (''b'', CPrim ''2'')]"

lemma json_equal_not_symmetric:
  "json_equal (text_of dup_a) (toks_of 0 dup_a) (text_of a_b) (toks_of 0 a_b) = Some True \<and>
   json_equal (text_of a_b) (toks_of 0 a_b) (text_of dup_a) (toks_of 0 dup_a) = Some False"
proof -
  have "wf_cst dup_a" "wf_cst a_b" "cst_equal dup_a a_b" "\<not> cst_equal a_b dup_a"
    by (simp_all add: dup_a_def a_b_def mk_obj_def layout_eval)
  then show ?thesis
    using json_equal_denotes [of "text_of dup_a" "toks_of 0 dup_a" dup_a "text_of a_b" "toks_of 0 a_b" a_b]
      json_equal_denotes [of "text_of a_b" "toks_of 0 a_b" a_b "text_of dup_a" "toks_of 0 dup_a" dup_a]
    by (simp only: denotes_attached' simp_thms)
qed

text \<open>C27: escaping and unescaping. Every text without NUL whose control characters all have a short
  JSON escape comes back from \<open>json_escape_unescape\<close> after \<open>json_escape\<close>.\<close>

theorem escape_roundtrip:
  assumes "c_string s" "list_all unescapable s"
  shows "json_escape_unescape (json_escape s) = Some s \<and> unescaped (json_escape s) = Some s"
  using assms by (simp add: json_escape_unescape_escape unescaped_escape)

theorem escape_roundtrip_witness:
  "json_escape_unescape (json_escape (QUOTE # BACKSLASH # LF # ''/a'')) = Some (QUOTE # BACKSLASH # LF # ''/a'')"
proof -
  have "c_string (QUOTE # BACKSLASH # LF # ''/a'')" "list_all unescapable (QUOTE # BACKSLASH # LF # ''/a'')"
    by code_simp+
  then show ?thesis by (rule escape_roundtrip [THEN conjunct1])
qed

text \<open>C28: what \<open>json_escape\<close> produces from a UTF-8 text is UTF-8 again and the body of a string token
  that \<open>jsmn_parse\<close> accepts.\<close>

theorem escape_string_token:
  assumes "c_string s" "utf8_check s"
  shows "str_ok (json_escape s) \<and> utf8_check (json_escape s) \<and> c_string (json_escape s) \<and>
    json_parse_simple (text_of (CStr (json_escape s))) = Some (Some (toks_of 0 (CStr (json_escape s)) @ [terminator]))"
proof -
  have "wf_cst (CStr (json_escape s))" using wf_CString [OF assms] by (simp add: CString_def)
  from json_parse_simple_text [OF this] show ?thesis
    using assms str_ok_json_escape c_string_json_escape utf8_check_loop_json_escape
    by (simp only: utf8_check_def simp_thms)
qed

theorem escape_string_token_witness:
  "str_ok (json_escape (QUOTE # ''x'')) \<and> utf8_check (json_escape (QUOTE # ''x''))"
proof -
  have "c_string (QUOTE # ''x'')" "utf8_check (QUOTE # ''x'')"
    by (simp_all add: utf8_check_ascii_text ascii_text_def)
  from escape_string_token [OF this] show ?thesis by blast
qed

text \<open>C29: \<open>json_scan\<close> with a guide that names a path of members (\<open>{a:{b:%}}\<close>) hands exactly the
  value at the end of that path to the reader, returns what it returns, and an error when
  the path does not exist. It never faults by itself.\<close>

theorem json_scan_follows_path:
  assumes "list_all (list_all literal_char) ks" "ks \<noteq> []" "denotes buf ts c"
  shows "case path_get c ks of
      None \<Rightarrow> \<exists>err. json_scan buf ts (path_guide ks) [(name, f)] = Some (Inl err)
    | Some c' \<Rightarrow> \<exists>ts'. inner buf ts' c' \<and>
        (case f buf ts' of
           None \<Rightarrow> json_scan buf ts (path_guide ks) [(name, f)] = None
         | Some (Some v) \<Rightarrow> json_scan buf ts (path_guide ks) [(name, f)] = Some (Inr [v])
         | Some None \<Rightarrow> \<exists>err. json_scan buf ts (path_guide ks) [(name, f)] = Some (Inl err))"
  by (rule json_scan_path [OF assms])

theorem json_scan_follows_path_witness:
  "json_scan (text_of sample) (toks_of 0 sample) ''{a:%}'' [(''reader'', \<lambda>_ _. Some (Some (7 :: nat)))] = Some (Inr [7])"
proof -
  have "list_all (list_all literal_char) [''a'']" by (simp add: literal_char_def)
  moreover have "path_get sample [''a''] \<noteq> None" by (simp add: sample_def)
  ultimately show ?thesis
    using json_scan_follows_path [of "[''a'']", OF _ _ denotes_attached' [OF wf_sample], where f = "\<lambda>_ _. Some (Some (7 :: nat))"]
    by (auto split: option.splits)
qed

section \<open>Maps\<close>

text \<open>C30: \<open>strmap\<close> implements a finite map from C strings. \<open>strmap_add\<close> refuses a key that is present
  and changes nothing, adds a fresh one; \<open>strmap_del\<close> returns the entry it removes;
  both keep the invariant of the tree.\<close>

theorem strmap_refines_map:
  assumes "strmap_inv m" "c_string k"
  shows "strmap_inv (snd (strmap_add m k v)) \<and>
    strmap_get (snd (strmap_add m k v)) =
      (if strmap_get m k = None then (strmap_get m)(k \<mapsto> v) else strmap_get m) \<and>
    (fst (strmap_add m k v) \<longleftrightarrow> strmap_get m k = None) \<and>
    strmap_inv (snd (strmap_del m k)) \<and>
    strmap_get (snd (strmap_del m k)) = (strmap_get m)(k := None) \<and>
    fst (strmap_del m k) = map_option (Pair k) (strmap_get m k)"
  using sm.add_present [OF assms(1), of k v] sm.add_fresh [OF assms, of v] sm.lookup_add [OF assms, of v]
    sm.invar_del [OF assms(1), of k] sm.lookup_del [OF assms(1), of k] strmap_del_returns [of m k] assms(1)
  by (cases "strmap_get m k") auto

theorem strmap_refines_map_witness:
  "strmap_get (snd (strmap_add (snd (strmap_add strmap_init ''ab'' True)) ''a'' False)) ''ab'' = Some True"
proof -
  let ?m = "snd (strmap_add strmap_init ''ab'' True)"
  have "strmap_inv ?m" "strmap_get ?m = [''ab'' \<mapsto> True]"
    using strmap_refines_map [OF sm.invar_empty, of "''ab''" True] by (auto simp: sm.lookup_empty fun_eq_iff)
  then show ?thesis using strmap_refines_map [of ?m "''a''" False] by simp
qed

text \<open>C31: the maps answer questions about order. There are entries in increasing order of the keys with the contents of the map, such that
  \<open>strmap_iterate\<close> calls the handler on each of them until it says stop, and \<open>strmap_prefix\<close> gives a map with exactly those whose key starts with a prefix.\<close>

theorem strmap_order:
  assumes "strmap_inv m" "c_string pre"
  shows "\<exists>es. strmap_iterate m handle d = snd (run_entries es handle d) \<and> sorted_wrt (<) (map fst es) \<and> map_of es = strmap_get m \<and>
    strmap_inv (strmap_prefix m pre) \<and>
    strmap_get (strmap_prefix m pre) = map_of (filter (\<lambda>x. strstarts (fst x) pre) es)"
proof -
  have p: "strmap_inv (strmap_prefix m pre)" "strmap_entries (strmap_prefix m pre) = filter (\<lambda>x. strstarts (fst x) pre) (strmap_entries m)"
    using strmap_prefix_entries [OF assms] by simp_all
  have "strmap_get (strmap_prefix m pre) = map_of (filter (\<lambda>x. strstarts (fst x) pre) (strmap_entries m))"
    using sm.lookup_entries [OF p(1)] by (simp add: fun_eq_iff p(2))
  then show ?thesis
    using strmap_iterate_entries [of m handle d] strmap_entries_sorted [OF assms(1)] sm.lookup_entries [OF assms(1)] p(1)
    by (intro exI [of _ "strmap_entries m"]) (simp add: fun_eq_iff)
qed

theorem strmap_order_witness:
  "\<exists>es. strmap_iterate (Some (Leaf ''k'' True)) (\<lambda>k v d. (True, d @ [k])) [] =
      snd (run_entries es (\<lambda>k v d. (True, d @ [k])) []) \<and> map_of es = [''k'' \<mapsto> True] \<and>
      strmap_get (strmap_prefix (Some (Leaf ''k'' True)) ''x'') = map_of (filter (\<lambda>x. strstarts (fst x) ''x'') es)"
proof -
  have inv: "strmap_inv (Some (Leaf ''k'' True))" and get: "strmap_get (Some (Leaf ''k'' True)) = [''k'' \<mapsto> True]"
    by (auto simp: strmap_inv_def strmap_get_def fun_eq_iff)
  have "c_string ''x''" by simp
  from strmap_order [OF inv this, of "\<lambda>k v d. (True, d @ [k])" "[]"] show ?thesis unfolding get by blast
qed

text \<open>C32: \<open>uintmap\<close> (64-bit keys) implements a finite map in the same sense: adding refuses a present key, and
  every operation keeps the invariant of the tree.\<close>

theorem intmap_refines_map:
  assumes "intmap_inv m"
  shows "intmap_inv (snd (intmap_add m k v)) \<and>
    intmap_get (snd (intmap_add m k v)) =
      (if intmap_get m k = None then (intmap_get m)(k \<mapsto> v) else intmap_get m) \<and>
    (fst (intmap_add m k v) \<longleftrightarrow> intmap_get m k = None) \<and>
    intmap_inv (snd (intmap_del m k)) \<and>
    intmap_get (snd (intmap_del m k)) = (intmap_get m)(k := None)"
  using im.add_present [OF assms, of k v] im.add_fresh [OF assms TrueI, of k v] im.lookup_add [OF assms TrueI, of k v]
    im.invar_del [OF assms, of k] im.lookup_del [OF assms, of k] assms
  by (cases "intmap_get m k") auto

theorem intmap_refines_map_witness:
  "intmap_get (snd (intmap_add (snd (intmap_add intmap_init 5 True)) 7 False)) 5 = Some True"
proof -
  let ?m = "snd (intmap_add intmap_init 5 True)"
  have "intmap_inv ?m" "intmap_get ?m = [5 \<mapsto> True]"
    using intmap_refines_map [OF im.invar_empty, of 5 True] by (auto simp: im.lookup_empty fun_eq_iff)
  then show ?thesis using intmap_refines_map [of ?m 7 False] by simp
qed

text \<open>C33: \<open>intmap_after\<close> finds the entry with the least key above a key and \<open>intmap_before\<close> the one with the greatest below it, also at both ends of
  the range of 64 bits, and \<open>intmap_iterate\<close> calls the handler on the entries in increasing order until it says stop.\<close>

theorem intmap_order:
  assumes "intmap_inv m"
  shows "\<exists>es. sorted_wrt (<) (map fst es) \<and> map_of es = intmap_get m \<and>
    intmap_after m k = find (\<lambda>x. k < fst x) es \<and> intmap_before m k = find (\<lambda>x. fst x < k) (rev es) \<and>
    intmap_iterate handle offset m s = while_true (\<lambda>(i, v). handle (i - offset) v) es s"
  using intmap_after_entries [OF assms] intmap_before_entries [OF assms] intmap_iterate_entries [of handle offset m s]
    intmap_entries_sorted [OF assms] im.lookup_entries [OF assms]
  by (intro exI [of _ "intmap_entries m"]) (simp add: fun_eq_iff)

theorem intmap_order_witness:
  "\<exists>es. map_of es = [3 \<mapsto> True] \<and> intmap_after (Some (Leaf 3 True)) 2 = find (\<lambda>x. 2 < fst x) es"
proof -
  have inv: "intmap_inv (Some (Leaf 3 True))" and get: "intmap_get (Some (Leaf 3 True)) = [3 \<mapsto> True]"
    by (auto simp: intmap_inv_def intmap_get_def fun_eq_iff)
  from intmap_order [OF inv, of 2 "\<lambda>i v s. (True, s)" 0 "()"] show ?thesis unfolding get by blast
qed

section \<open>Amounts and the wire\<close>

text \<open>C34: amounts of \<open>common/amount.c\<close> are read back from every text they are printed as with their unit: msat, sat, or bitcoins with all
  decimals. Printed as bitcoins without the unit only zero is read back; every other amount is refused. An amount in
  satoshi read as millisatoshi is converted, or refused when it does not fit.\<close>

theorem amounts_roundtrip:
  "parse_amount_msat (fmt_amount_msat a) = Some (Some a) \<and> parse_amount_msat (fmt_amount_msat_btc a True) = Some (Some a) \<and>
   parse_amount_sat (fmt_amount_sat s) = Some (Some s) \<and> parse_amount_sat (fmt_amount_sat_btc s True) = Some (Some s) \<and>
   parse_amount_msat (fmt_amount_msat_btc a False) = Some (if millisatoshis a = 0 then Some a else None) \<and>
   parse_amount_sat (fmt_amount_sat_btc s False) = Some (if satoshis s = 0 then Some s else None) \<and>
   parse_amount_msat (fmt_amount_sat s) =
     Some (if sat_nat s * 1000 < 2 ^ 64 then Some \<lparr>millisatoshis = of_nat (sat_nat s * 1000)\<rparr> else None)"
  by (simp only: parse_fmt_msat parse_fmt_msat_btc parse_fmt_sat parse_fmt_sat_btc parse_fmt_no_unit parse_fmt_sat_as_msat sat_to_msat_result
      msat_result_def simp_thms)

text \<open>C35: sums, differences and fees of amounts are those of the natural numbers, and are refused exactly when the result, or for a fee the
  product before the division by a million, does not fit into 64 bits.\<close>

theorem amounts_exact:
  "amount_msat_add a b = (if msat_nat a + msat_nat b < 2 ^ 64 then Some \<lparr>millisatoshis = of_nat (msat_nat a + msat_nat b)\<rparr> else None) \<and>
   amount_msat_sub a b = (if msat_nat b \<le> msat_nat a then Some \<lparr>millisatoshis = of_nat (msat_nat a - msat_nat b)\<rparr> else None) \<and>
   amount_msat_add_fee a base pm =
     (let total = msat_nat a + (unat base + msat_nat a * unat pm div 1000000)
      in if msat_nat a * unat pm < 2 ^ 64 \<and> total < 2 ^ 64 then Some \<lparr>millisatoshis = of_nat total\<rparr> else None)"
proof -
  have "msat_nat a - msat_nat b < 2 ^ 64" using unat_u64_less [of "millisatoshis a"] by linarith
  then show ?thesis by (simp add: add_result sub_result add_fee_result msat_result_def Let_def)
qed

text \<open>C36: the integers of variable size in \<open>common/bigsize.c\<close> are canonical. What \<open>bigsize_put\<close> writes is read back whatever follows it, and a text
  that \<open>bigsize_get\<close> accepts starts with what \<open>bigsize_put\<close> writes for the number: there is one encoding of each.\<close>

theorem bigsize_canonical:
  "bigsize_get (bigsize_put v @ r) = (length (bigsize_put v), v) \<and>
   (fst (bigsize_get p) = 0 \<or> (\<exists>r. p = bigsize_put (snd (bigsize_get p)) @ r \<and> fst (bigsize_get p) = length (bigsize_put (snd (bigsize_get p)))))"
proof -
  have "\<exists>r. p = bigsize_put w @ r \<and> n = length (bigsize_put w)" if "bigsize_get p = (n, w)" "n \<noteq> 0" for n w
  proof -
    have "n \<le> length p" "take n p = bigsize_put w" using bigsize_put_get [OF that] by simp_all
    then have "p = bigsize_put w @ drop n p" "n = length (bigsize_put w)" by (metis append_take_drop_id, metis length_take min.absorb2)
    then show ?thesis by blast
  qed
  then show ?thesis using bigsize_get_put [of v r] length_bigsize_put [of v] by (cases "bigsize_get p") auto
qed

text \<open>C37: a record written by \<open>towire_tlv\<close> is read by \<open>fromwire_tlv\<close> to its end: every member that is present is handed to the reader of its type, in
  order, the fields are those of \<open>tlv_make_fields\<close>, and \<open>tlv_fields_valid\<close> accepts them. The types are in increasing order and
  each reads all of what it writes.\<close>

theorem tlv_roundtrip:
  assumes "ascending types" "\<forall>t\<in>set types. type_reads r t"
  shows "\<exists>bs fs. towire_tlv p types r = Some (p @ bs) \<and> tlv_make_fields types r = Some fs \<and> tlv_fields_valid fs allow_extra = None \<and>
    fromwire_tlv types bs acc [] = Some (True, decode_all types r acc, fs)"
proof -
  obtain bs fs where w: "\<forall>p. towire_types p types None r = Some (p @ bs)" "make_fields types 0 None r = Some fs"
    "\<forall>acc flds. fromwire_tlv types bs acc flds = Some (True, decode_all types r acc, flds @ fs)"
    using tlv_loop [of types 0 types r None] assms by auto
  then show ?thesis
    using make_fields_valid [OF w(2), of allow_extra 0]
    by (intro exI [of _ bs] exI [of _ fs]) (simp add: towire_tlv_def tlv_make_fields_def tlv_fields_valid_def)
qed

definition tu64_type :: "u64 option tlv_record_type" where
  "tu64_type = \<lparr>tlv_type = 2, tlv_towire = map_option (towire_tu64 []),
     tlv_fromwire = (\<lambda>cur r. case fromwire_tu64 cur of None \<Rightarrow> (None, r) | Some (v, c) \<Rightarrow> (c, Some v))\<rparr>"

theorem tlv_roundtrip_witness:
  "\<exists>bs fs. towire_tlv [] [tu64_type] (Some 300) = Some bs \<and> tlv_make_fields [tu64_type] (Some 300) = Some fs \<and>
    fromwire_tlv [tu64_type] bs None [] = Some (True, Some 300, fs)"
proof -
  have len: "length (towire_tu64 [] 300) < 2 ^ 64"
    using length_dropWhile_8 [of 300] by (simp add: towire_tu64_def towire_tlv_uint_def towire_def)
  then have reads: "\<forall>t\<in>set [tu64_type]. type_reads (Some 300) t"
    by (simp add: type_reads_def tu64_type_def tu64_roundtrip)
  have "ascending [tu64_type]" by (simp add: ascending_def)
  moreover have "decode_all [tu64_type] (Some 300) None = Some 300" by (simp add: decode_all_def tu64_type_def tu64_roundtrip)
  ultimately show ?thesis using tlv_roundtrip [OF _ reads, of "[]" None None] by auto
qed

text \<open>C38: feature sets of \<open>common/features.c\<close>. Adding a set with \<open>feature_set_or\<close> is refused exactly when some feature is offered already, gives the
  union of the bits otherwise, and \<open>feature_set_sub\<close> of the same set gives the arrays back, byte for byte, if none of them starts with a zero
  byte (\<open>all_trimmed a\<close>).\<close>

theorem feature_set_or_sub:
  assumes "wf_set b" "length a = NUM_FEATURE_PLACE" "all_trimmed a"
  shows "case feature_set_or a b of
      None \<Rightarrow> \<exists>i<NUM_FEATURE_PLACE. \<exists>j\<in>bits_of (b ! i). offers (bits_of (a ! i)) j
    | Some c \<Rightarrow> (\<forall>i<NUM_FEATURE_PLACE. bits_of (c ! i) = bits_of (a ! i) \<union> bits_of (b ! i) \<and> (\<forall>j\<in>bits_of (b ! i). \<not> offers (bits_of (a ! i)) j)) \<and>
        feature_set_sub c b = Some a"
proof (cases "feature_set_or a b")
  case None
  then show ?thesis using feature_set_or_sets [OF assms(1,2)] by (auto split: if_splits)
next
  case (Some c)
  have len: "length b = NUM_FEATURE_PLACE" using assms(1) by (simp add: wf_set_def)
  have c: "c = map2 set_bits a b" "\<forall>i<NUM_FEATURE_PLACE. \<forall>j\<in>bits_of (b ! i). \<not> offers (bits_of (a ! i)) j"
    using Some feature_set_or_sets [OF assms(1,2)] by (auto split: if_splits)
  have "bits_of (c ! i) = bits_of (a ! i) \<union> bits_of (b ! i)" if "i < NUM_FEATURE_PLACE" for i
    using that len assms(2) c(1) bits_of_set_bits [OF wf_set_small [OF assms(1) that]] by simp
  then show ?thesis using c(2) sub_or [OF assms Some] Some by simp
qed

theorem feature_set_or_sub_witness:
  "\<exists>b. feature_set_for_feature 8 = Some b \<and>
    (case feature_set_or (replicate NUM_FEATURE_PLACE []) b of None \<Rightarrow> False | Some c \<Rightarrow> feature_set_sub c b = Some (replicate NUM_FEATURE_PLACE []))"
proof -
  have "COMPULSORY_FEATURE 8 = 8" by (simp add: compulsory_even)
  then obtain b where b: "feature_set_for_feature 8 = Some b"
    by (simp add: feature_set_for_feature_def place_bits_def feature_copy_style_def feature_styles_def style_def feature_numbers NUM_FEATURE_PLACE_def BOLT11_FEATURE_def upt_rec)
  have "all_trimmed (replicate NUM_FEATURE_PLACE [])" by (simp add: all_trimmed_def trimmed_def list_all_iff)
  with feature_set_or_sub [of b "replicate NUM_FEATURE_PLACE []"] feature_set_for_feature_wf [OF b] b show ?thesis
    by (intro exI [of _ b]) (auto simp: offers_def split: option.splits)
qed

text \<open>C39: \<open>get_agreed_channelfeatures\<close> keeps exactly the bits of our channel features whose feature the peer offers, in the shortest array, if
  our array does not start with a zero byte.\<close>

theorem agreed_features_exact:
  assumes "trimmed (ours ! CHANNEL_FEATURE)" "small (ours ! CHANNEL_FEATURE)"
  shows "\<exists>g. get_agreed_channelfeatures ours theirs = Some g \<and> trimmed g \<and>
    bits_of g = {j \<in> bits_of (ours ! CHANNEL_FEATURE). feature_offered theirs j}"
proof -
  have "offers (bits_of theirs) j = feature_offered theirs j" if "j \<in> bits_of (ours ! CHANNEL_FEATURE)" for j
    using offered_offers [OF small_bits [OF assms(2) that], of theirs] by simp
  then show ?thesis using agreed_features [OF assms, of theirs] by (auto simp: Collect_conj_eq cong: conj_cong)
qed

theorem agreed_features_exact_witness:
  "\<exists>g. get_agreed_channelfeatures [[], [], [], [2, 8], []] [1] = Some g \<and>
    bits_of g = {j \<in> bits_of [2, 8]. feature_offered [1] j}"
  using agreed_features_exact [of "[[], [], [], [2, 8], []]" "[1]"] by (auto simp: CHANNEL_FEATURE_def trimmed_def small_def)

text \<open>C40: \<open>mk_short_channel_id\<close> packs a block, a transaction and an output number exactly when they fit into 24, 24 and 16 bits, and the three are
  read back; every identifier and every identifier with a direction is read back from its text.\<close>

theorem scid_roundtrip:
  "(case mk_short_channel_id b t u of
      None \<Rightarrow> \<not> (unat b < 2 ^ 24 \<and> unat t < 2 ^ 24 \<and> unat u < 2 ^ 16)
    | Some s \<Rightarrow> ucast (short_channel_id_blocknum s) = b \<and> ucast (short_channel_id_txnum s) = t \<and> ucast (short_channel_id_outnum s) = u) \<and>
   short_channel_id_from_str (short_channel_id_to_str s) = Some (Some s) \<and>
   short_channel_id_dir_from_str (short_channel_id_dir_to_str \<lparr>scid = s, scid_dir = of_bool d\<rparr>) = Some (Some \<lparr>scid = s, scid_dir = of_bool d\<rparr>)"
  using mk_parts [of b t u] mk_masks [of b t u] scid_from_to_str [of "[]" s] scidd_from_to_str [of "\<lparr>scid = s, scid_dir = of_bool d\<rparr>"]
  by (auto split: option.splits)

end
